(* ===== verification/Prelude.thy ===== *)
theory Prelude imports Main "HOL-Library.Word" "HOL-Library.Monad_Syntax"
begin

text \<open>
  What every component of the development shares: the machine types of the kernel (i386, so
  \<open>int\<close> and pointers are 32 bits wide), the reading of a C function that may go wrong, bounded
  access to C arrays, and the recurring shape of a kernel loop "first index below n with a
  property".

  Conventions of the whole development.
  \<^item> A C function that cannot fault is a HOL function. A function that may access an array out
    of its bounds, fail an assertion or reach a kernel panic returns an \<open>option\<close>: \<open>None\<close> is
    that fault, \<open>Some r\<close> a normal return. The error codes a function returns are values inside
    \<open>Some\<close>.
  \<^item> \<open>uint8_t\<close>, \<open>uint16_t\<close>, \<open>uint32_t\<close> are words and wrap around. A signed \<open>int\<close> is an
    unbounded \<open>int\<close> where the code relies on no overflow (signed overflow is undefined in C) and
    a 32-bit word read by \<open>sint\<close> where wrap-around is observable.
  \<^item> The locks of the kernel (critical sections, spin locks) delimit atomic steps: a function
    is modelled as one step of the state it locks.
\<close>

unbundle bit_operations_syntax

type_synonym u8 = "8 word"
type_synonym u16 = "16 word"
type_synonym u32 = "32 word"
type_synonym i32 = "32 word"

named_theorems loop_simps \<open>characterisations of the loops of the code\<close>
named_theorems frame \<open>what an operation leaves unchanged\<close>

section \<open>The error codes of include/errors.h\<close>

abbreviation (input) ERROR_OK :: int where "ERROR_OK \<equiv> 0"
abbreviation (input) ERROR_UNKNOWN :: int where "ERROR_UNKNOWN \<equiv> 1"
abbreviation (input) ERROR_NULL_POINTER :: int where "ERROR_NULL_POINTER \<equiv> 2"
abbreviation (input) ERROR_INVALID_ARGUMENTS :: int where "ERROR_INVALID_ARGUMENTS \<equiv> 3"
abbreviation (input) ERROR_WORK_QUEUE_FULL :: int where "ERROR_WORK_QUEUE_FULL \<equiv> 4"
abbreviation (input) ERROR_ALLOC :: int where "ERROR_ALLOC \<equiv> 5"
abbreviation (input) ERROR_INDEX :: int where "ERROR_INDEX \<equiv> 6"
abbreviation (input) ERROR_FILE_NOT_FOUND :: int where "ERROR_FILE_NOT_FOUND \<equiv> 7"
abbreviation (input) ERROR_PCB_FULL :: int where "ERROR_PCB_FULL \<equiv> 8"
abbreviation (input) ERROR_KTHREAD_CREATE :: int where "ERROR_KTHREAD_CREATE \<equiv> 9"
abbreviation (input) ERROR_KTHREAD_START :: int where "ERROR_KTHREAD_START \<equiv> 10"
abbreviation (input) ERROR_INVALID_SOCKET :: int where "ERROR_INVALID_SOCKET \<equiv> 11"
abbreviation (input) ERROR_INVALID_SOCKET_TYPE :: int where "ERROR_INVALID_SOCKET_TYPE \<equiv> 12"
abbreviation (input) ERROR_MSS_SIZE :: int where "ERROR_MSS_SIZE \<equiv> 13"
abbreviation (input) ERROR_RBUFFER_FULL :: int where "ERROR_RBUFFER_FULL \<equiv> 14"
abbreviation (input) ERROR_RBUFFER_EMPTY :: int where "ERROR_RBUFFER_EMPTY \<equiv> 15"
abbreviation (input) ERROR_PCB_NULL :: int where "ERROR_PCB_NULL \<equiv> 16"
abbreviation (input) ERROR_PCB_QUEUE_NULL :: int where "ERROR_PCB_QUEUE_NULL \<equiv> 17"
abbreviation (input) ERROR_PCB_QUEUE_CREATE :: int where "ERROR_PCB_QUEUE_CREATE \<equiv> 18"
abbreviation (input) ERROR_PCB_QUEUE_EMPTY :: int where "ERROR_PCB_QUEUE_EMPTY \<equiv> 19"
abbreviation (input) ERROR_SCHED_EXISTS :: int where "ERROR_SCHED_EXISTS \<equiv> 20"
abbreviation (input) ERROR_SCHED_INVALID :: int where "ERROR_SCHED_INVALID \<equiv> 21"
abbreviation (input) ERROR_WINDOW_NOT_FOUND :: int where "ERROR_WINDOW_NOT_FOUND \<equiv> 22"
abbreviation (input) ERROR_OPS_CORRUPTED :: int where "ERROR_OPS_CORRUPTED \<equiv> 23"
abbreviation (input) ERROR_OUT_OF_MEMORY :: int where "ERROR_OUT_OF_MEMORY \<equiv> 24"
abbreviation (input) ERROR_ACCESS_DENIED :: int where "ERROR_ACCESS_DENIED \<equiv> 25"

section \<open>Loops that look for the first index\<close>

text \<open>\<open>for (i = s; i < s + k; i++) if (p i) return i;\<close>\<close>

fun find_from :: "(nat \<Rightarrow> bool) \<Rightarrow> nat \<Rightarrow> nat \<Rightarrow> nat option" where
  "find_from p s 0 = None"
| "find_from p s (Suc k) = (if p s then Some s else find_from p (Suc s) k)"

abbreviation first_index :: "(nat \<Rightarrow> bool) \<Rightarrow> nat \<Rightarrow> nat option" where
  "first_index p n \<equiv> find_from p 0 n"

text \<open>\<open>for (i = s; i < s + k; i++) st = body(i, st);\<close>, with a body that may fault.\<close>

fun for_loop :: "nat \<Rightarrow> nat \<Rightarrow> (nat \<Rightarrow> 's \<Rightarrow> 's option) \<Rightarrow> 's \<Rightarrow> 's option" where
  "for_loop s 0 f st = Some st"
| "for_loop s (Suc k) f st = Option.bind (f s st) (for_loop (Suc s) k f)"

section \<open>Bounded access to an array\<close>

text \<open>
  \<open>mem_read b off n\<close> reads \<open>n\<close> elements from offset \<open>off\<close>, \<open>mem_write b off xs\<close> stores
  \<open>xs\<close> there (what \<open>memcpy\<close> does with a source of that length); both fault on a negative offset
  or length and when the range leaves the array.
\<close>

definition mem_read :: "'a list \<Rightarrow> int \<Rightarrow> int \<Rightarrow> 'a list option" where
  "mem_read b off n =
     (if 0 \<le> off \<and> 0 \<le> n \<and> off + n \<le> int (length b)
      then Some (take (nat n) (drop (nat off) b)) else None)"

definition mem_write :: "'a list \<Rightarrow> int \<Rightarrow> 'a list \<Rightarrow> 'a list option" where
  "mem_write b off xs =
     (if 0 \<le> off \<and> off + int (length xs) \<le> int (length b)
      then Some (take (nat off) b @ xs @ drop (nat off + length xs) b) else None)"

text \<open>\<open>ALIGN(x, a)\<close> and \<open>ALIGN_DOWN(x, a)\<close> of kutils.h, for \<open>a\<close> a power of two.\<close>

definition ALIGN :: "int \<Rightarrow> int \<Rightarrow> int" where
  "ALIGN x a = (x + (a - 1)) AND NOT (a - 1)"

definition ALIGN_DOWN :: "int \<Rightarrow> int \<Rightarrow> int" where
  "ALIGN_DOWN x a = x AND NOT (a - 1)"

section \<open>Facts about loops\<close>

lemma all_range_Suc:
  "(\<forall>j. s \<le> j \<and> j < s + Suc k \<longrightarrow> P j) \<longleftrightarrow> P s \<and> (\<forall>j. Suc s \<le> j \<and> j < Suc s + k \<longrightarrow> P j)"
proof -
  have "s \<le> j \<and> j < s + Suc k \<longleftrightarrow> j = s \<or> (Suc s \<le> j \<and> j < Suc s + k)" for j
    by arith
  then show ?thesis by metis
qed

lemma find_from_Some_iff [loop_simps]:
  "find_from p s k = Some i \<longleftrightarrow> s \<le> i \<and> i < s + k \<and> p i \<and> (\<forall>j. s \<le> j \<and> j < i \<longrightarrow> \<not> p j)"
proof (induction k arbitrary: s)
  case 0
  then show ?case by simp
next
  case (Suc k)
  show ?case
  proof (cases "p s")
    case True
    then show ?thesis by (auto dest: le_neq_implies_less)
  next
    case False
    have low: "(\<forall>j. Suc s \<le> j \<and> j < i \<longrightarrow> \<not> p j) \<longleftrightarrow> (\<forall>j. s \<le> j \<and> j < i \<longrightarrow> \<not> p j)"
    proof -
      have "s \<le> j \<longleftrightarrow> j = s \<or> Suc s \<le> j" for j by arith
      then show ?thesis using False by metis
    qed
    have hit: "Suc s \<le> i \<and> i < Suc s + k \<and> p i \<longleftrightarrow> s \<le> i \<and> i < s + Suc k \<and> p i"
      using False by (cases "i = s") auto
    show ?thesis using Suc [of "Suc s"] low hit False by simp blast
  qed
qed

lemma find_from_None_iff [loop_simps]:
  "find_from p s k = None \<longleftrightarrow> (\<forall>j. s \<le> j \<and> j < s + k \<longrightarrow> \<not> p j)"
proof (induction k arbitrary: s)
  case 0
  then show ?case by auto
next
  case (Suc k)
  show ?case using Suc [of "Suc s"] all_range_Suc [of s k "\<lambda>j. \<not> p j"] by simp
qed

lemma find_from_least:
  assumes "p i" and "s \<le> i" and "i < s + k" and "\<And>j. s \<le> j \<Longrightarrow> j < i \<Longrightarrow> \<not> p j"
  shows "find_from p s k = Some i"
  using assms by (auto simp: find_from_Some_iff)

lemma find_from_cong:
  "(\<And>j. s \<le> j \<Longrightarrow> j < s + k \<Longrightarrow> p j = q j) \<Longrightarrow> find_from p s k = find_from q s k"
  by (induction k arbitrary: s) auto

text \<open>The loop rule: an invariant indexed by the loop counter.\<close>

lemma for_loop_inv:
  assumes "P s st"
    and "\<And>i st. s \<le> i \<Longrightarrow> i < s + k \<Longrightarrow> P i st \<Longrightarrow> \<exists>st'. f i st = Some st' \<and> P (Suc i) st'"
  shows "\<exists>st'. for_loop s k f st = Some st' \<and> P (s + k) st'"
  using assms
proof (induction k arbitrary: s st)
  case 0
  then show ?case by simp
next
  case (Suc k)
  obtain st1 where st1: "f s st = Some st1" "P (Suc s) st1"
    using Suc.prems(2) [of s st] Suc.prems(1) by auto
  have "\<exists>st'. for_loop (Suc s) k f st1 = Some st' \<and> P (Suc s + k) st'"
    by (rule Suc.IH) (use st1 Suc.prems(2) in auto)
  then show ?case using st1 by auto
qed

section \<open>Facts about arrays\<close>

lemma mem_read_Some_iff:
  "mem_read b off n = Some xs \<longleftrightarrow>
     0 \<le> off \<and> 0 \<le> n \<and> off + n \<le> int (length b) \<and> xs = take (nat n) (drop (nat off) b)"
  by (auto simp: mem_read_def)

lemma mem_write_Some_iff:
  "mem_write b off xs = Some b' \<longleftrightarrow>
     0 \<le> off \<and> off + int (length xs) \<le> int (length b) \<and>
     b' = take (nat off) b @ xs @ drop (nat off + length xs) b"
  by (auto simp: mem_write_def)

lemma mem_write_length: "mem_write b off xs = Some b' \<Longrightarrow> length b' = length b"
  by (auto simp: mem_write_Some_iff)

lemma mem_read_length: "mem_read b off n = Some xs \<Longrightarrow> int (length xs) = n"
  by (auto simp: mem_read_Some_iff)

lemma mem_read_write_same:
  assumes "mem_write b off xs = Some b'"
  shows "mem_read b' off (int (length xs)) = Some xs"
  using assms by (auto simp: mem_write_Some_iff mem_read_def min_def)

lemma mem_write_nth:
  assumes "mem_write b off xs = Some b'" and "i < length b"
  shows "b' ! i = (if nat off \<le> i \<and> i < nat off + length xs then xs ! (i - nat off) else b ! i)"
proof -
  have "0 \<le> off" and len: "nat off + length xs \<le> length b"
    and b': "b' = take (nat off) b @ xs @ drop (nat off + length xs) b"
    using assms(1) by (auto simp: mem_write_Some_iff)
  then show ?thesis using assms(2) by (auto simp: nth_append)
qed

section \<open>Alignment\<close>

lemma ALIGN_DOWN_pow2: "ALIGN_DOWN x (2 ^ k) = x - x mod 2 ^ k"
proof -
  have "x AND NOT (mask k) = push_bit k (drop_bit k x)"
    by (rule bit_eqI) (auto simp: bit_simps)
  also have "\<dots> = x - x mod 2 ^ k"
    by (simp add: push_bit_eq_mult drop_bit_eq_div minus_mod_eq_div_mult)
  finally show ?thesis by (simp add: ALIGN_DOWN_def mask_eq_exp_minus_1)
qed

lemma ALIGN_pow2:
  "x \<le> ALIGN x (2 ^ k)" "ALIGN x (2 ^ k) < x + 2 ^ k" "ALIGN x (2 ^ k) mod 2 ^ k = 0"
proof -
  have eq: "ALIGN x (2 ^ k) = (x + (2 ^ k - 1)) - (x + (2 ^ k - 1)) mod 2 ^ k"
    using ALIGN_DOWN_pow2 [of "x + (2 ^ k - 1)" k] by (simp only: ALIGN_def ALIGN_DOWN_def)
  have "0 < (2::int) ^ k" by simp
  then show "x \<le> ALIGN x (2 ^ k)" "ALIGN x (2 ^ k) < x + 2 ^ k"
    unfolding eq using pos_mod_bound [of "2 ^ k" "x + (2 ^ k - 1)"]
      pos_mod_sign [of "2 ^ k" "x + (2 ^ k - 1)"] by linarith+
  show "ALIGN x (2 ^ k) mod 2 ^ k = 0"
    unfolding eq by (simp add: minus_mod_eq_mult_div)
qed

lemma ALIGN_DOWN_pow2_bounds:
  "ALIGN_DOWN x (2 ^ k) \<le> x" "x - 2 ^ k < ALIGN_DOWN x (2 ^ k)" "ALIGN_DOWN x (2 ^ k) mod 2 ^ k = 0"
proof -
  have "0 < (2::int) ^ k" by simp
  then show "ALIGN_DOWN x (2 ^ k) \<le> x" "x - 2 ^ k < ALIGN_DOWN x (2 ^ k)"
    unfolding ALIGN_DOWN_pow2 using pos_mod_bound [of "2 ^ k" x] pos_mod_sign [of "2 ^ k" x]
    by linarith+
  show "ALIGN_DOWN x (2 ^ k) mod 2 ^ k = 0"
    unfolding ALIGN_DOWN_pow2 by (simp add: minus_mod_eq_mult_div)
qed

end
