(* ===== verification/Slots.thy ===== *)
theory Slots imports Prelude
begin

text \<open>
  The interface of the kernel's fixed tables (free bits of a bitmap, IPC channels, sockets, file
  descriptors, FAT clusters, work items): \<open>take_slot\<close> hands out an unused slot or
  reports that there is none, \<open>give_slot\<close> returns one. The locale \<open>slots\<close> states what a client relies
  on; the components interpret it on their own operations. \<open>take_many\<close> is the client that
  takes slots one after the other.
\<close>

fun take_many :: "('s \<Rightarrow> (nat \<times> 's) option) \<Rightarrow> nat \<Rightarrow> 's \<Rightarrow> nat list \<times> 's" where
  "take_many tk 0 s = ([], s)"
| "take_many tk (Suc k) s =
     (case tk s of None \<Rightarrow> ([], s)
      | Some (i, s1) \<Rightarrow> (let (is, s2) = take_many tk k s1 in (i # is, s2)))"

definition free_slots :: "('s \<Rightarrow> nat \<Rightarrow> bool) \<Rightarrow> nat set \<Rightarrow> 's \<Rightarrow> nat set" where
  "free_slots used U s = {i \<in> U. \<not> used s i}"

locale slots =
  fixes inv :: "'s \<Rightarrow> bool" and used :: "'s \<Rightarrow> nat \<Rightarrow> bool" and U :: "nat set"
    and take_slot :: "'s \<Rightarrow> (nat \<times> 's) option" and give_slot :: "nat \<Rightarrow> 's \<Rightarrow> 's"
  assumes finite_U: "finite U"
    and take_Some: "inv s \<Longrightarrow> take_slot s = Some (i, s') \<Longrightarrow>
      inv s' \<and> i \<in> U \<and> \<not> used s i \<and> (\<forall>j \<in> U. used s' j \<longleftrightarrow> j = i \<or> used s j)"
    and take_None: "inv s \<Longrightarrow> take_slot s = None \<Longrightarrow> i \<in> U \<Longrightarrow> used s i"
    and give: "inv s \<Longrightarrow> i \<in> U \<Longrightarrow> used s i \<Longrightarrow>
      inv (give_slot i s) \<and> (\<forall>j \<in> U. used (give_slot i s) j \<longleftrightarrow> j \<noteq> i \<and> used s j)"
begin

lemma free_take:
  assumes "inv s" and "take_slot s = Some (i, s')"
  shows "free_slots used U s' = free_slots used U s - {i}" "i \<in> free_slots used U s"
  using take_Some [OF assms] by (auto simp: free_slots_def)

lemma take_fails_iff: "inv s \<Longrightarrow> take_slot s = None \<longleftrightarrow> free_slots used U s = {}"
proof (cases "take_slot s")
  case None
  then show "inv s \<Longrightarrow> ?thesis" using take_None [of s] by (auto simp: free_slots_def)
next
  case (Some p)
  then obtain i s' where "take_slot s = Some (i, s')" by (cases p) simp
  then show "inv s \<Longrightarrow> ?thesis" using free_take(2) [of s i s'] by auto
qed

lemma take_many_inv: "inv s \<Longrightarrow> take_many take_slot k s = (is, s') \<Longrightarrow> inv s'"
proof (induction k arbitrary: s "is" s')
  case 0
  then show ?case by simp
next
  case (Suc k)
  show ?case
  proof (cases "take_slot s")
    case None
    then show ?thesis using Suc.prems by simp
  next
    case (Some p)
    obtain i s1 where p: "p = (i, s1)" by (cases p)
    obtain is1 s2 where "take_many take_slot k s1 = (is1, s2)" by fastforce
    then show ?thesis
      using Suc.IH [of s1 is1 s2] Suc.prems take_Some [OF Suc.prems(1) Some [unfolded p]] Some p by simp
  qed
qed

text \<open>Slots taken one after the other are distinct and were free; they run out exactly at the end.\<close>

lemma take_many_distinct:
  assumes "inv s" and "take_many take_slot k s = (is, s')"
  shows "distinct is \<and> set is \<subseteq> free_slots used U s \<and>
    free_slots used U s' = free_slots used U s - set is \<and>
    length is = min k (card (free_slots used U s))"
  using assms
proof (induction k arbitrary: s "is")
  case 0
  then show ?case by auto
next
  case (Suc k)
  show ?case
  proof (cases "take_slot s")
    case None
    then have "free_slots used U s = {}" using take_fails_iff Suc.prems(1) by simp
    then show ?thesis using Suc.prems(2) None by auto
  next
    case (Some p)
    obtain i s1 where p: "p = (i, s1)" by (cases p)
    note eq = Some [unfolded p]
    obtain is1 where is1: "take_many take_slot k s1 = (is1, s')" "is = i # is1"
      using Suc.prems(2) eq by (auto split: prod.splits)
    have "inv s1" using take_Some [OF Suc.prems(1) eq] by simp
    note IH = Suc.IH [OF this is1(1)]
    note free = free_take [OF Suc.prems(1) eq]
    have fin: "finite (free_slots used U s)" using finite_U by (simp add: free_slots_def)
    have "card (free_slots used U s) = Suc (card (free_slots used U s1))"
      unfolding free(1) using card.remove [OF fin free(2)] .
    then show ?thesis using IH free is1(2) by auto
  qed
qed

lemma take_after_give:
  assumes "inv s" and "i \<in> U" and "used s i"
  shows "take_slot (give_slot i s) \<noteq> None"
  using give [OF assms] take_None [of "give_slot i s" i] assms(2) by metis

end

end
