(* ===== verification/Bitmap.thy ===== *)
theory Bitmap imports Slots
begin

text \<open>
  The bitmap API of lib/bitmap.c: a \<open>bitmap_t\<close> is an array of bytes, bit \<open>i\<close> is bit \<open>i & 7\<close> of
  byte \<open>i / 8\<close>, 1 meaning "in use". Every access is bounded by the length of the array (\<open>None\<close>
  outside it). The abstraction \<open>bitset\<close> reads the array as a predicate on bit numbers; each
  operation is shown to be the corresponding update of that predicate. The page allocator, the
  inode and block maps, the port map and the socket map are all built on it.
\<close>

type_synonym bitmap = "u8 list"

section \<open>lib/bitmap.c\<close>

definition set_bitmap :: "bitmap \<Rightarrow> nat \<Rightarrow> bitmap option" where
  "set_bitmap b i =
     (if i div 8 < length b
      then Some (b[i div 8 := b ! (i div 8) OR push_bit (i mod 8) 1]) else None)"

definition unset_bitmap :: "bitmap \<Rightarrow> nat \<Rightarrow> bitmap option" where
  "unset_bitmap b i =
     (if i div 8 < length b
      then Some (b[i div 8 := b ! (i div 8) AND NOT (push_bit (i mod 8) 1)]) else None)"

definition get_bitmap :: "bitmap \<Rightarrow> nat \<Rightarrow> int option" where
  "get_bitmap b i =
     (if i div 8 < length b
      then Some (if b ! (i div 8) AND push_bit (i mod 8) 1 \<noteq> 0 then 1 else 0) else None)"

definition get_bitmap_size :: "nat \<Rightarrow> nat" where
  "get_bitmap_size n = (n + 7) div 8"

definition create_bitmap :: "nat \<Rightarrow> bitmap" where
  "create_bitmap n = replicate ((n + 7) div 8) 0"

text \<open>\<open>continous_helper b start k\<close> is the loop of \<open>__continous_helper\<close> with \<open>k\<close> bits left.\<close>

fun continous_helper :: "bitmap \<Rightarrow> nat \<Rightarrow> nat \<Rightarrow> int option" where
  "continous_helper b start 0 = Some 0"
| "continous_helper b start (Suc k) =
     do { v \<leftarrow> get_bitmap b start;
          if v \<noteq> 0 then Some (-1) else continous_helper b (Suc start) k }"

definition set_range :: "bitmap \<Rightarrow> nat \<Rightarrow> nat \<Rightarrow> bitmap option" where
  "set_range b start k = for_loop start k (\<lambda>i b. set_bitmap b i) b"

definition bitmap_unset_continous :: "bitmap \<Rightarrow> nat \<Rightarrow> nat \<Rightarrow> bitmap option" where
  "bitmap_unset_continous b start k = for_loop start k (\<lambda>i b. unset_bitmap b i) b"

text \<open>
  The scan of \<open>bitmap_get_continous\<close>: at the first free bit it asks for \<open>size\<close> free bits from
  there and leaves the loop when there are not.
\<close>

fun get_continous_from :: "bitmap \<Rightarrow> nat \<Rightarrow> nat \<Rightarrow> nat \<Rightarrow> (int \<times> bitmap) option" where
  "get_continous_from b i 0 sz = Some (-1, b)"
| "get_continous_from b i (Suc k) sz =
     do { v \<leftarrow> get_bitmap b i;
          if v = 0
          then do { ret \<leftarrow> continous_helper b i sz;
                    if ret < 0 then Some (-1, b)
                    else do { b' \<leftarrow> set_range b i sz; Some (int i, b') } }
          else get_continous_from b (Suc i) k sz }"

definition bitmap_get_continous :: "bitmap \<Rightarrow> nat \<Rightarrow> nat \<Rightarrow> (int \<times> bitmap) option" where
  "bitmap_get_continous b n sz = get_continous_from b 0 n sz"

fun get_free_from :: "bitmap \<Rightarrow> nat \<Rightarrow> nat \<Rightarrow> (int \<times> bitmap) option" where
  "get_free_from b i 0 = Some (-1, b)"
| "get_free_from b i (Suc k) =
     do { v \<leftarrow> get_bitmap b i;
          if v = 0 then do { b' \<leftarrow> set_bitmap b i; Some (int i, b') }
          else get_free_from b (Suc i) k }"

definition get_free_bitmap :: "bitmap \<Rightarrow> nat \<Rightarrow> (int \<times> bitmap) option" where
  "get_free_bitmap b n = get_free_from b 0 n"

section \<open>The bitmap as a set of bits\<close>

definition bitset :: "bitmap \<Rightarrow> nat \<Rightarrow> bool" where
  "bitset b i \<longleftrightarrow> i div 8 < length b \<and> bit (b ! (i div 8)) (i mod 8)"

definition fits :: "bitmap \<Rightarrow> nat \<Rightarrow> bool" where
  "fits b n \<longleftrightarrow> n \<le> 8 * length b"

lemma fits_iff: "fits b n \<longleftrightarrow> (\<forall>i < n. i div 8 < length b)"
  unfolding fits_def by (auto simp: div_less_iff_less_mult mult.commute) (metis not_le order.irrefl)

lemma fits_nthD: "fits b n \<Longrightarrow> i < n \<Longrightarrow> i div 8 < length b"
  by (simp add: fits_iff)

lemma and_push_bit_1: "(w :: u8) AND push_bit k 1 \<noteq> 0 \<longleftrightarrow> bit w k"
  by (metis and_exp_eq_0_iff_not_bit push_bit_of_1)

lemma get_bitmap_eq:
  "i div 8 < length b \<Longrightarrow> get_bitmap b i = Some (if bitset b i then 1 else 0)"
  by (simp add: get_bitmap_def bitset_def and_push_bit_1 del: push_bit_of_1)

lemma bit_or_push_bit_1: "k < 8 \<Longrightarrow> bit ((w :: u8) OR push_bit m 1) k \<longleftrightarrow> bit w k \<or> k = m"
  by (auto simp: bit_or_iff bit_exp_iff)

lemma bit_and_not_push_bit_1:
  "k < 8 \<Longrightarrow> bit ((w :: u8) AND NOT (push_bit m 1)) k \<longleftrightarrow> bit w k \<and> k \<noteq> m"
  by (auto simp: bit_and_iff bit_not_iff bit_exp_iff)

lemma same_bit_iff: "i div 8 = j div 8 \<and> i mod 8 = j mod 8 \<longleftrightarrow> i = (j::nat)"
  by (metis div_mod_decomp)

lemma set_bitmap_bitset:
  assumes "i div 8 < length b"
  obtains b' where "set_bitmap b i = Some b'" "length b' = length b"
    "bitset b' = (bitset b)(i := True)"
proof
  let ?b = "b[i div 8 := b ! (i div 8) OR push_bit (i mod 8) 1]"
  show "set_bitmap b i = Some ?b" using assms by (simp add: set_bitmap_def)
  show "length ?b = length b" by simp
  show "bitset ?b = (bitset b)(i := True)"
  proof
    fix j
    show "bitset ?b j = ((bitset b)(i := True)) j"
    proof (cases "j div 8 = i div 8")
      case True
      then have "j = i \<longleftrightarrow> j mod 8 = i mod 8" using same_bit_iff [of j i] by simp
      with True assms show ?thesis by (simp add: bitset_def bit_or_push_bit_1 del: push_bit_of_1)
    next
      case False
      then have "j \<noteq> i" by auto
      with False show ?thesis by (simp add: bitset_def)
    qed
  qed
qed

lemma unset_bitmap_bitset:
  assumes "i div 8 < length b"
  obtains b' where "unset_bitmap b i = Some b'" "length b' = length b"
    "bitset b' = (bitset b)(i := False)"
proof
  let ?b = "b[i div 8 := b ! (i div 8) AND NOT (push_bit (i mod 8) 1)]"
  show "unset_bitmap b i = Some ?b" using assms by (simp add: unset_bitmap_def)
  show "length ?b = length b" by simp
  show "bitset ?b = (bitset b)(i := False)"
  proof
    fix j
    show "bitset ?b j = ((bitset b)(i := False)) j"
    proof (cases "j div 8 = i div 8")
      case True
      then have "j = i \<longleftrightarrow> j mod 8 = i mod 8" using same_bit_iff [of j i] by simp
      with True assms show ?thesis by (simp add: bitset_def bit_and_not_push_bit_1 del: push_bit_of_1)
    next
      case False
      then have "j \<noteq> i" by auto
      with False show ?thesis by (simp add: bitset_def)
    qed
  qed
qed

lemma bitset_create [simp]: "bitset (create_bitmap n) i = False"
  by (simp add: bitset_def create_bitmap_def)

lemma fits_create: "fits (create_bitmap n) n"
  by (simp add: fits_def create_bitmap_def)

lemma create_bitmap_size: "length (create_bitmap n) = get_bitmap_size n"
  by (simp add: create_bitmap_def get_bitmap_size_def)

section \<open>Ranges\<close>

lemma set_range_bitset:
  assumes "fits b (start + k)"
  obtains b' where "set_range b start k = Some b'" "length b' = length b"
    "\<And>j. bitset b' j \<longleftrightarrow> bitset b j \<or> (start \<le> j \<and> j < start + k)"
proof -
  have "\<exists>b'. set_range b start k = Some b' \<and> (length b' = length b \<and>
      (\<forall>j. bitset b' j \<longleftrightarrow> bitset b j \<or> (start \<le> j \<and> j < start + k)))"
    unfolding set_range_def
  proof (rule for_loop_inv)
    show "length b = length b \<and> (\<forall>j. bitset b j = (bitset b j \<or> start \<le> j \<and> j < start))"
      by auto
  next
    fix i c
    assume "start \<le> i" and "i < start + k"
      and c: "length c = length b \<and> (\<forall>j. bitset c j = (bitset b j \<or> start \<le> j \<and> j < i))"
    then have "i div 8 < length c" using assms by (auto dest: fits_nthD)
    then show "\<exists>c'. set_bitmap c i = Some c' \<and> length c' = length b \<and>
        (\<forall>j. bitset c' j = (bitset b j \<or> start \<le> j \<and> j < Suc i))"
      using c \<open>start \<le> i\<close> by (elim set_bitmap_bitset [of i c]) (auto simp: less_Suc_eq)
  qed
  then show ?thesis using that by blast
qed

lemma bitmap_unset_continous_bitset:
  assumes "fits b (start + k)"
  obtains b' where "bitmap_unset_continous b start k = Some b'" "length b' = length b"
    "\<And>j. bitset b' j \<longleftrightarrow> bitset b j \<and> \<not> (start \<le> j \<and> j < start + k)"
proof -
  have "\<exists>b'. bitmap_unset_continous b start k = Some b' \<and> (length b' = length b \<and>
      (\<forall>j. bitset b' j \<longleftrightarrow> bitset b j \<and> \<not> (start \<le> j \<and> j < start + k)))"
    unfolding bitmap_unset_continous_def
  proof (rule for_loop_inv)
    show "length b = length b \<and> (\<forall>j. bitset b j = (bitset b j \<and> \<not> (start \<le> j \<and> j < start)))"
      by auto
  next
    fix i c
    assume "start \<le> i" and "i < start + k"
      and c: "length c = length b \<and> (\<forall>j. bitset c j = (bitset b j \<and> \<not> (start \<le> j \<and> j < i)))"
    then have "i div 8 < length c" using assms by (auto dest: fits_nthD)
    then show "\<exists>c'. unset_bitmap c i = Some c' \<and> length c' = length b \<and>
        (\<forall>j. bitset c' j = (bitset b j \<and> \<not> (start \<le> j \<and> j < Suc i)))"
      using c \<open>start \<le> i\<close> by (elim unset_bitmap_bitset [of i c]) (auto simp: less_Suc_eq)
  qed
  then show ?thesis using that by blast
qed

lemma continous_helper_eq:
  "fits b (start + k) \<Longrightarrow>
   continous_helper b start k =
     Some (if \<forall>j. start \<le> j \<and> j < start + k \<longrightarrow> \<not> bitset b j then 0 else -1)"
proof (induction k arbitrary: start)
  case 0
  then show ?case by auto
next
  case (Suc k)
  from Suc.prems have "get_bitmap b start = Some (if bitset b start then 1 else 0)"
    by (intro get_bitmap_eq fits_nthD [of b "start + Suc k"]) auto
  then show ?case using Suc.IH [of "Suc start"] Suc.prems
    unfolding all_range_Suc [of start k "\<lambda>j. \<not> bitset b j"] by simp
qed

section \<open>First fit\<close>

lemma get_free_from_eq:
  "fits b (s + k) \<Longrightarrow>
   get_free_from b s k =
     (case find_from (\<lambda>i. \<not> bitset b i) s k of
        None \<Rightarrow> Some (-1, b)
      | Some i \<Rightarrow> map_option (\<lambda>b'. (int i, b')) (set_bitmap b i))"
proof (induction k arbitrary: s)
  case 0
  then show ?case by simp
next
  case (Suc k)
  from Suc.prems have "get_bitmap b s = Some (if bitset b s then 1 else 0)"
    by (intro get_bitmap_eq fits_nthD [of b "s + Suc k"]) auto
  then show ?case using Suc.IH [of "Suc s"] Suc.prems
    by (cases "set_bitmap b s") auto
qed

lemma get_free_bitmap_cases:
  assumes "fits b n"
  obtains (full) "get_free_bitmap b n = Some (-1, b)" "\<And>i. i < n \<Longrightarrow> bitset b i"
  | (slot) i b' where "get_free_bitmap b n = Some (int i, b')" "i < n" "\<not> bitset b i"
      "\<And>j. j < i \<Longrightarrow> bitset b j" "length b' = length b" "bitset b' = (bitset b)(i := True)"
proof (cases "first_index (\<lambda>i. \<not> bitset b i) n")
  case None
  then have "get_free_bitmap b n = Some (-1, b)"
    using assms by (simp add: get_free_bitmap_def get_free_from_eq)
  with None show ?thesis using full by (auto simp: find_from_None_iff)
next
  case (Some i)
  then have i: "i < n" "\<not> bitset b i" "\<And>j. j < i \<Longrightarrow> bitset b j"
    by (auto simp: find_from_Some_iff)
  obtain b' where "set_bitmap b i = Some b'" "length b' = length b"
    "bitset b' = (bitset b)(i := True)"
    using set_bitmap_bitset [of i b] fits_nthD [OF assms i(1)] by blast
  with Some i show ?thesis using slot [of i b'] assms
    by (simp add: get_free_bitmap_def get_free_from_eq)
qed

text \<open>The scan for a run stops at the first free bit, whatever lies behind it.\<close>

lemma get_continous_from_first:
  assumes "fits b (s + k + sz)" and "find_from (\<lambda>i. \<not> bitset b i) s k = Some i"
  shows "get_continous_from b s k sz =
    (if \<forall>j. i \<le> j \<and> j < i + sz \<longrightarrow> \<not> bitset b j
     then map_option (\<lambda>b'. (int i, b')) (set_range b i sz) else Some (-1, b))"
  using assms
proof (induction k arbitrary: s)
  case 0
  then show ?case by simp
next
  case (Suc k)
  have get: "get_bitmap b s = Some (if bitset b s then 1 else 0)"
    using Suc.prems(1) by (intro get_bitmap_eq fits_nthD [of b "s + Suc k + sz"]) auto
  show ?case
  proof (cases "bitset b s")
    case True
    with Suc get show ?thesis by simp
  next
    case False
    then have i: "i = s" using Suc.prems(2) by simp
    have "fits b (s + sz)" using Suc.prems(1) by (simp add: fits_def)
    then show ?thesis using get False
      by (simp add: i continous_helper_eq) (cases "set_range b s sz"; simp)
  qed
qed

lemma get_continous_from_none:
  assumes "fits b (s + k)" and "find_from (\<lambda>i. \<not> bitset b i) s k = None"
  shows "get_continous_from b s k sz = Some (-1, b)"
  using assms
proof (induction k arbitrary: s)
  case 0
  then show ?case by simp
next
  case (Suc k)
  have "get_bitmap b s = Some (if bitset b s then 1 else 0)"
    using Suc.prems(1) by (intro get_bitmap_eq fits_nthD [of b "s + Suc k"]) auto
  then show ?case using Suc by (auto split: if_splits)
qed

section \<open>The bitmap as a table of slots\<close>

definition bitmap_take :: "nat \<Rightarrow> bitmap \<Rightarrow> (nat \<times> bitmap) option" where
  "bitmap_take n b = (case get_free_bitmap b n of
     Some (i, b') \<Rightarrow> (if i < 0 then None else Some (nat i, b')) | None \<Rightarrow> None)"

definition bitmap_give :: "nat \<Rightarrow> bitmap \<Rightarrow> bitmap" where
  "bitmap_give i b = (case unset_bitmap b i of Some b' \<Rightarrow> b' | None \<Rightarrow> b)"

lemma bitmap_take_cases:
  assumes "fits b n"
  obtains (full) "bitmap_take n b = None" "\<And>i. i < n \<Longrightarrow> bitset b i"
  | (slot) i b' where "bitmap_take n b = Some (i, b')" "i < n" "\<not> bitset b i"
      "length b' = length b" "bitset b' = (bitset b)(i := True)"
  by (rule get_free_bitmap_cases [OF assms]) (auto simp: bitmap_take_def)

interpretation bits: slots "\<lambda>b. fits b n" bitset "{..<n}" "bitmap_take n" bitmap_give
proof
  show "finite {..<n}" by simp
next
  fix b i b' assume "fits b n" "bitmap_take n b = Some (i, b')"
  then show "fits b' n \<and> i \<in> {..<n} \<and> \<not> bitset b i \<and> (\<forall>j\<in>{..<n}. bitset b' j = (j = i \<or> bitset b j))"
    by (cases rule: bitmap_take_cases [of b n]) (auto simp: fits_def \<open>fits b n\<close> [unfolded fits_def])
next
  fix b i assume "fits b n" "bitmap_take n b = None" "i \<in> {..<n}"
  then show "bitset b i" by (cases rule: bitmap_take_cases [of b n]) auto
next
  fix b i assume b: "fits b n" "i \<in> {..<n}" "bitset b i"
  then obtain b' where "unset_bitmap b i = Some b'" "length b' = length b" "bitset b' = (bitset b)(i := False)"
    using unset_bitmap_bitset [of i b] fits_nthD [of b n i] by auto
  then show "fits (bitmap_give i b) n \<and> (\<forall>j\<in>{..<n}. bitset (bitmap_give i b) j = (j \<noteq> i \<and> bitset b j))"
    using b(1) by (simp add: bitmap_give_def fits_def)
qed

section \<open>Properties\<close>

text \<open>
  C17. Successive calls of \<open>get_free_bitmap\<close> on a bitmap that holds \<open>n\<close> bits return distinct bits that
  were clear, set exactly those, and fail only when all \<open>n\<close> bits are set.
\<close>

theorem get_free_bitmap_distinct:
  assumes "fits b n" and "take_many (bitmap_take n) k b = (is, b')"
  shows "distinct is \<and> (\<forall>i < n. bitset b' i \<longleftrightarrow> bitset b i \<or> i \<in> set is) \<and>
    (\<forall>i \<in> set is. i < n \<and> \<not> bitset b i) \<and> length is = min k (card {i. i < n \<and> \<not> bitset b i})"
proof -
  have "free_slots bitset {..<n} b = {i. i < n \<and> \<not> bitset b i}" for b
    by (auto simp: free_slots_def)
  with bits.take_many_distinct [OF assms] show ?thesis by auto
qed

theorem get_free_bitmap_distinct_witness:
  "case take_many (bitmap_take 10) 3 [0b101, 0] of (is, b) \<Rightarrow> is = [1, 3, 4] \<and> distinct is \<and> b = [0b11111, 0]"
proof -
  have fits: "fits [0b101, 0] 10" by (simp add: fits_def)
  have run: "take_many (bitmap_take 10) 3 [0b101, 0] = ([1, 3, 4], [0b11111, 0])" by code_simp
  show ?thesis unfolding run using get_free_bitmap_distinct [OF fits run] by simp
qed

text \<open>
  \<open>bitmap_get_continous\<close> considers one run only, the one that starts at the first clear bit: it
  returns that bit with exactly the bits of the run set when the whole run is clear, and \<open>-1\<close> with the
  bitmap unchanged otherwise, also when a longer run lies behind.
\<close>

theorem bitmap_get_continous_first_fit:
  assumes "fits b (n + sz)" and "0 < sz"
  shows "case first_index (\<lambda>i. \<not> bitset b i) n of
      None \<Rightarrow> bitmap_get_continous b n sz = Some (-1, b)
    | Some i \<Rightarrow> if \<forall>j. i \<le> j \<and> j < i + sz \<longrightarrow> \<not> bitset b j
        then \<exists>b'. bitmap_get_continous b n sz = Some (int i, b') \<and> length b' = length b \<and>
               (\<forall>j. bitset b' j \<longleftrightarrow> bitset b j \<or> i \<le> j \<and> j < i + sz)
        else bitmap_get_continous b n sz = Some (-1, b)"
proof (cases "first_index (\<lambda>i. \<not> bitset b i) n")
  case None
  have "fits b (0 + n)" using assms(1) by (simp add: fits_def)
  with None show ?thesis by (simp add: bitmap_get_continous_def get_continous_from_none)
next
  case (Some i)
  then have "i < n" by (simp add: find_from_Some_iff)
  then have "fits b (i + sz)" using assms(1) by (simp add: fits_def)
  then obtain b' where "set_range b i sz = Some b'" "length b' = length b"
    "\<forall>j. bitset b' j \<longleftrightarrow> bitset b j \<or> (i \<le> j \<and> j < i + sz)"
    using set_range_bitset [of b i sz] by metis
  then show ?thesis using get_continous_from_first [of b 0 n sz i] assms Some
    by (auto simp: bitmap_get_continous_def)
qed

theorem bitmap_get_continous_first_fit_witness:
  "bitmap_get_continous [0b00000010, 0] 8 2 = Some (-1, [2, 0]) \<and> \<not> bitset [2, 0] 2 \<and> \<not> bitset [2, 0] 3"
proof -
  have "fits [0b00000010, 0] (8 + 2)" by (simp add: fits_def)
  moreover have "first_index (\<lambda>i. \<not> bitset [0b00000010, 0] i) 8 = Some 0"
    "bitset [0b00000010, 0] 1" "\<not> bitset [0b00000010, 0] 2" "\<not> bitset [0b00000010, 0] 3" by code_simp+
  moreover from this have "\<not> (\<forall>j. 0 \<le> j \<and> j < 0 + 2 \<longrightarrow> \<not> bitset [0b00000010, 0] j)"
    by (auto intro!: exI [of _ 1])
  ultimately show ?thesis
    using bitmap_get_continous_first_fit [of "[0b00000010, 0]" 8 2] by (simp del: One_nat_def)
qed

end
