(* ===== verification/Libc_Mem.thy ===== *)
theory Libc_Mem imports Prelude
begin

text \<open>
  Byte-addressed memory and the memory functions of lib/libc.c (\<open>memcpy\<close>, \<open>memset\<close>,
  \<open>memmove\<close>, \<open>memcmp\<close>). \<open>memcpy\<close> and \<open>memset\<close> work in 32-bit words and finish byte by byte;
  they are modelled with both loops and shown equal to the plain byte copy and fill. The
  machine is little endian. Lengths are naturals: the callers that may pass a negative length
  check it in their own model.
\<close>

type_synonym mem = "nat \<Rightarrow> u8"

definition load32 :: "mem \<Rightarrow> nat \<Rightarrow> u32" where
  "load32 m a = ucast (m a) OR push_bit 8 (ucast (m (a + 1))) OR
     push_bit 16 (ucast (m (a + 2))) OR push_bit 24 (ucast (m (a + 3)))"

definition store32 :: "mem \<Rightarrow> nat \<Rightarrow> u32 \<Rightarrow> mem" where
  "store32 m a w = m(a := ucast w, a + 1 := ucast (drop_bit 8 w),
     a + 2 := ucast (drop_bit 16 w), a + 3 := ucast (drop_bit 24 w))"

section \<open>lib/libc.c\<close>

fun copy_dwords :: "mem \<Rightarrow> nat \<Rightarrow> nat \<Rightarrow> nat \<Rightarrow> mem" where
  "copy_dwords m d s 0 = m"
| "copy_dwords m d s (Suc k) = copy_dwords (store32 m d (load32 m s)) (d + 4) (s + 4) k"

fun copy_bytes :: "mem \<Rightarrow> nat \<Rightarrow> nat \<Rightarrow> nat \<Rightarrow> mem" where
  "copy_bytes m d s 0 = m"
| "copy_bytes m d s (Suc k) = copy_bytes (m(d := m s)) (d + 1) (s + 1) k"

definition memcpy :: "mem \<Rightarrow> nat \<Rightarrow> nat \<Rightarrow> nat \<Rightarrow> mem" where
  "memcpy m dest src n =
     (let num_dwords = n div 4; num_bytes = n mod 4
      in copy_bytes (copy_dwords m dest src num_dwords)
           (dest + num_dwords * 4) (src + num_dwords * 4) num_bytes)"

fun set_dwords :: "mem \<Rightarrow> nat \<Rightarrow> u32 \<Rightarrow> nat \<Rightarrow> mem" where
  "set_dwords m d v 0 = m"
| "set_dwords m d v (Suc k) = set_dwords (store32 m d v) (d + 4) v k"

fun set_bytes :: "mem \<Rightarrow> nat \<Rightarrow> u8 \<Rightarrow> nat \<Rightarrow> mem" where
  "set_bytes m d v 0 = m"
| "set_bytes m d v (Suc k) = set_bytes (m(d := v)) (d + 1) v k"

definition memset :: "mem \<Rightarrow> nat \<Rightarrow> i32 \<Rightarrow> nat \<Rightarrow> mem" where
  "memset m dest val n =
     (let num_dwords = n div 4; num_bytes = n mod 4; val8 = (ucast val :: u8);
          val32 = val OR push_bit 8 val OR push_bit 16 val OR push_bit 24 val
      in set_bytes (set_dwords m dest val32 num_dwords) (dest + num_dwords * 4) val8 num_bytes)"

text \<open>The descending loop of \<open>memmove\<close>: \<open>i\<close> runs from \<open>n\<close> down to 1.\<close>

fun copy_down :: "mem \<Rightarrow> nat \<Rightarrow> nat \<Rightarrow> nat \<Rightarrow> mem" where
  "copy_down m d s 0 = m"
| "copy_down m d s (Suc k) = copy_down (m(d + k := m (s + k))) d s k"

definition memmove :: "mem \<Rightarrow> nat \<Rightarrow> nat \<Rightarrow> nat \<Rightarrow> mem" where
  "memmove m dest src n =
     (if dest = src then m
      else if dest < src then copy_bytes m dest src n
      else copy_down m dest src n)"

fun memcmp :: "mem \<Rightarrow> nat \<Rightarrow> nat \<Rightarrow> nat \<Rightarrow> u32" where
  "memcmp m p q 0 = 0"
| "memcmp m p q (Suc k) = (if m p \<noteq> m q then -1 else memcmp m (p + 1) (q + 1) k)"

section \<open>Reference definitions\<close>

definition copied :: "mem \<Rightarrow> nat \<Rightarrow> nat \<Rightarrow> nat \<Rightarrow> mem" where
  "copied m d s n = (\<lambda>x. if d \<le> x \<and> x < d + n then m (s + (x - d)) else m x)"

definition filled :: "mem \<Rightarrow> nat \<Rightarrow> u8 \<Rightarrow> nat \<Rightarrow> mem" where
  "filled m d v n = (\<lambda>x. if d \<le> x \<and> x < d + n then v else m x)"

definition disjoint_regions :: "nat \<Rightarrow> nat \<Rightarrow> nat \<Rightarrow> nat \<Rightarrow> bool" where
  "disjoint_regions a n b k \<longleftrightarrow> a + n \<le> b \<or> b + k \<le> a"

section \<open>Words in memory\<close>

lemma ucast_load32:
  "ucast (load32 m a) = m a"
  "ucast (drop_bit 8 (load32 m a)) = m (a + 1)"
  "ucast (drop_bit 16 (load32 m a)) = m (a + 2)"
  "ucast (drop_bit 24 (load32 m a)) = m (a + 3)"
  unfolding load32_def by (rule bit_word_eqI; auto simp: bit_simps dest: bit_imp_le_length)+

lemma load_store32: "load32 (store32 m a w) a = w"
proof (rule bit_word_eqI)
  fix n
  assume "n < LENGTH(32)"
  then consider "n < 8" | "8 \<le> n" "n < 16" | "16 \<le> n" "n < 24" | "24 \<le> n" "n < 32"
    by fastforce
  then show "bit (load32 (store32 m a w) a) n = bit w n"
    by cases (auto simp: load32_def store32_def bit_simps)
qed

lemma store32_other: "x < a \<or> a + 4 \<le> x \<Longrightarrow> store32 m a w x = m x"
  by (auto simp: store32_def)

lemma load32_cong:
  "(\<And>i. i < 4 \<Longrightarrow> m (a + i) = m' (a + i)) \<Longrightarrow> load32 m a = load32 m' a"
proof -
  assume eq: "\<And>i. i < 4 \<Longrightarrow> m (a + i) = m' (a + i)"
  show ?thesis using eq [of 0] eq [of 1] eq [of 2] eq [of 3] by (simp add: load32_def)
qed

lemma store_load32: "store32 m d (load32 m s) = copied m d s 4"
proof
  fix x
  consider "x = d" | "x = d + 1" | "x = d + 2" | "x = d + 3" | "x < d \<or> d + 4 \<le> x"
    by linarith
  then show "store32 m d (load32 m s) x = copied m d s 4 x"
    by cases (auto simp: store32_def copied_def ucast_load32)
qed

section \<open>The copies are the reference copy\<close>

lemma copied_copied:
  assumes "d \<le> s \<or> disjoint_regions d (a + b) s (a + b)"
  shows "copied (copied m d s a) (d + a) (s + a) b = copied m d s (a + b)"
  using assms by (auto simp: fun_eq_iff copied_def disjoint_regions_def)

lemma copied_0 [simp]: "copied m d s 0 = m"
  by (auto simp: copied_def fun_eq_iff)

lemma copy_dwords_copied:
  "d \<le> s \<or> disjoint_regions d (4 * k) s (4 * k) \<Longrightarrow> copy_dwords m d s k = copied m d s (4 * k)"
proof (induction k arbitrary: m d s)
  case 0
  then show ?case by simp
next
  case (Suc k)
  from Suc.prems have "d + 4 \<le> s + 4 \<or> disjoint_regions (d + 4) (4 * k) (s + 4) (4 * k)"
    by (auto simp: disjoint_regions_def)
  then have "copy_dwords m d s (Suc k) = copied (copied m d s 4) (d + 4) (s + 4) (4 * k)"
    using Suc.IH by (simp add: store_load32)
  with Suc.prems copied_copied [of d s 4 "4 * k" m] show ?case by simp
qed

lemma copy_bytes_copied:
  "d \<le> s \<or> disjoint_regions d k s k \<Longrightarrow> copy_bytes m d s k = copied m d s k"
proof (induction k arbitrary: m d s)
  case 0
  then show ?case by simp
next
  case (Suc k)
  from Suc.prems have "d + 1 \<le> s + 1 \<or> disjoint_regions (d + 1) k (s + 1) k"
    by (auto simp: disjoint_regions_def)
  moreover have "m(d := m s) = copied m d s 1"
    by (auto simp: copied_def)
  ultimately have "copy_bytes m d s (Suc k) = copied (copied m d s 1) (d + 1) (s + 1) k"
    using Suc.IH by simp
  with Suc.prems copied_copied [of d s 1 k m] show ?case by simp
qed

lemma copy_down_copied: "s \<le> d \<Longrightarrow> copy_down m d s k = copied m d s k"
proof (induction k arbitrary: m)
  case 0
  then show ?case by simp
next
  case (Suc k)
  then have "copy_down m d s (Suc k) = copied (m(d + k := m (s + k))) d s k"
    by simp
  also have "\<dots> = copied m d s (Suc k)"
    using Suc.prems by (auto simp: fun_eq_iff copied_def less_Suc_eq)
  finally show ?case .
qed

lemma memcpy_copied:
  assumes "d \<le> s \<or> disjoint_regions d n s n"
  shows "memcpy m d s n = copied m d s n"
proof -
  let ?k = "n div 4" and ?r = "n mod 4"
  have n: "?k * 4 + ?r = n" by simp
  have "memcpy m d s n = copied (copied m d s (4 * ?k)) (d + ?k * 4) (s + ?k * 4) ?r"
    unfolding memcpy_def Let_def
    using assms n
    by (subst copy_dwords_copied copy_bytes_copied, force simp: disjoint_regions_def)+ simp
  also have "\<dots> = copied m d s n"
    using copied_copied [of d s "?k * 4" ?r m] assms n by (simp add: mult.commute)
  finally show ?thesis .
qed

lemma memmove_copied: "memmove m d s n = copied m d s n"
proof -
  have "copied m s s n = m" by (auto simp: copied_def)
  then show ?thesis
    by (auto simp: memmove_def copy_bytes_copied copy_down_copied)
qed

text \<open>
  Without any condition on the regions: bytes outside the destination keep their value, and a byte
  whose source lies outside the destination is copied right.
\<close>

lemma copy_dwords_other: "x < d \<or> d + 4 * k \<le> x \<Longrightarrow> copy_dwords m d s k x = m x"
  by (induction k arbitrary: m d s) (auto simp: store32_other)

lemma copy_bytes_other: "x < d \<or> d + k \<le> x \<Longrightarrow> copy_bytes m d s k x = m x"
  by (induction k arbitrary: m d s) auto

lemma memcpy_other: "x < d \<or> d + n \<le> x \<Longrightarrow> memcpy m d s n x = m x"
proof -
  assume x: "x < d \<or> d + n \<le> x"
  have n: "n div 4 * 4 + n mod 4 = n" by simp
  have "copy_bytes (copy_dwords m d s (n div 4)) (d + n div 4 * 4) (s + n div 4 * 4) (n mod 4) x =
      copy_dwords m d s (n div 4) x"
    using x n by (intro copy_bytes_other) linarith
  also have "\<dots> = m x" using x n by (intro copy_dwords_other) linarith
  finally show ?thesis by (simp add: memcpy_def Let_def)
qed

lemma copy_dwords_nth:
  "i < 4 * k \<Longrightarrow> \<not> (d \<le> s + i \<and> s + i < d + 4 * k) \<Longrightarrow> copy_dwords m d s k (d + i) = m (s + i)"
proof (induction k arbitrary: m d s i)
  case 0
  then show ?case by simp
next
  case (Suc k)
  show ?case
  proof (cases "i < 4")
    case True
    then show ?thesis
      by (simp add: copy_dwords_other store_load32) (simp add: copied_def)
  next
    case False
    have "copy_dwords (copied m d s 4) (d + 4) (s + 4) k (d + 4 + (i - 4)) =
        copied m d s 4 (s + 4 + (i - 4))"
      using Suc.prems False by (intro Suc.IH) auto
    also have "\<dots> = m (s + i)" using Suc.prems False by (auto simp: copied_def)
    finally show ?thesis using False by (simp add: store_load32)
  qed
qed

lemma copy_bytes_nth:
  "i < k \<Longrightarrow> \<not> (d \<le> s + i \<and> s + i < d + k) \<Longrightarrow> copy_bytes m d s k (d + i) = m (s + i)"
proof (induction k arbitrary: m d s i)
  case 0
  then show ?case by simp
next
  case (Suc k)
  show ?case
  proof (cases i)
    case 0
    then show ?thesis by (simp add: copy_bytes_other)
  next
    case (Suc j)
    have "copy_bytes (m(d := m s)) (d + 1) (s + 1) k (d + 1 + j) = (m(d := m s)) (s + 1 + j)"
      using Suc.prems \<open>i = Suc j\<close> by (intro Suc.IH) auto
    then show ?thesis using Suc.prems \<open>i = Suc j\<close> by auto
  qed
qed

lemma memcpy_nth:
  assumes "i < n" and "\<not> (d \<le> s + i \<and> s + i < d + n)"
  shows "memcpy m d s n (d + i) = m (s + i)"
proof (cases "i < n div 4 * 4")
  case True
  then have "memcpy m d s n (d + i) = copy_dwords m d s (n div 4) (d + i)"
    by (simp add: memcpy_def Let_def copy_bytes_other)
  also have "\<dots> = m (s + i)" using True assms(2) by (intro copy_dwords_nth) auto
  finally show ?thesis .
next
  case False
  define q where "q = n div 4 * 4"
  have q: "q \<le> i" "i - q < n mod 4" "q + n mod 4 = n"
    using False assms(1) div_mult_mod_eq [of n 4] unfolding q_def by linarith+
  have "memcpy m d s n (d + i) =
      copy_bytes (copy_dwords m d s (n div 4)) (d + q) (s + q) (n mod 4) (d + q + (i - q))"
    using q by (simp add: memcpy_def Let_def q_def)
  also have "\<dots> = copy_dwords m d s (n div 4) (s + q + (i - q))"
    using q assms(2) by (intro copy_bytes_nth) auto
  also have "\<dots> = m (s + i)"
    using q assms(2) by (subst copy_dwords_other) (auto simp: q_def mult.commute)
  finally show ?thesis .
qed

section \<open>The fills are the reference fill\<close>

lemma filled_filled: "filled (filled m d v a) (d + a) v b = filled m d v (a + b)"
  by (auto simp: fun_eq_iff filled_def)

lemma filled_0 [simp]: "filled m d v 0 = m"
  by (auto simp: filled_def fun_eq_iff)

lemma set_bytes_filled: "set_bytes m d v k = filled m d v k"
proof (induction k arbitrary: m d)
  case 0
  then show ?case by simp
next
  case (Suc k)
  have "m(d := v) = filled m d v 1" by (auto simp: filled_def)
  with Suc show ?case using filled_filled [of m d v 1 k] by simp
qed

lemma replicated_byte:
  assumes "(val :: u32) = ucast (v :: u8)"
  shows "val OR push_bit 8 val OR push_bit 16 val OR push_bit 24 val = load32 (\<lambda>_. v) 0"
  by (simp add: load32_def assms)

lemma store32_filled:
  assumes "w = load32 (\<lambda>_. v) 0"
  shows "store32 m d w = filled m d v 4"
proof
  fix x
  consider "x = d" | "x = d + 1" | "x = d + 2" | "x = d + 3" | "x < d \<or> d + 4 \<le> x"
    by linarith
  then show "store32 m d w x = filled m d v 4 x"
    by cases (auto simp: store32_def filled_def assms ucast_load32)
qed

lemma set_dwords_filled:
  "w = load32 (\<lambda>_. v) 0 \<Longrightarrow> set_dwords m d w k = filled m d v (4 * k)"
proof (induction k arbitrary: m d)
  case 0
  then show ?case by simp
next
  case (Suc k)
  then have "set_dwords m d w (Suc k) = filled (filled m d v 4) (d + 4) v (4 * k)"
    by (simp add: store32_filled)
  then show ?case using filled_filled [of m d v 4 "4 * k"] by simp
qed

text \<open>For a byte the fill is uniform.\<close>

lemma memset_filled:
  assumes "val = ucast (v :: u8)"
  shows "memset m d val n = filled m d v n"
proof -
  have v: "(ucast val :: u8) = v"
    by (rule bit_word_eqI) (auto simp: assms bit_simps)
  have "memset m d val n = filled (filled m d v (4 * (n div 4))) (d + n div 4 * 4) v (n mod 4)"
    unfolding memset_def Let_def v
    by (simp add: set_bytes_filled set_dwords_filled [OF replicated_byte [OF assms]])
  then show ?thesis
    using filled_filled [of m d v "n div 4 * 4" "n mod 4"] by (simp add: mult.commute)
qed

lemma set_dwords_other: "x < d \<or> d + 4 * k \<le> x \<Longrightarrow> set_dwords m d w k x = m x"
  by (induction k arbitrary: m d) (auto simp: store32_other)

lemma set_bytes_other: "x < d \<or> d + k \<le> x \<Longrightarrow> set_bytes m d v k x = m x"
  by (induction k arbitrary: m d) auto

lemma memset_head:
  assumes "4 \<le> n"
  shows "load32 (memset m d val n) d = val OR push_bit 8 val OR push_bit 16 val OR push_bit 24 val"
    (is "_ = ?w")
proof -
  obtain k where k: "n div 4 = Suc k" using assms by (cases "n div 4") auto
  have "memset m d val n x = store32 m d ?w x" if "d \<le> x" "x < d + 4" for x
  proof -
    have "memset m d val n x = set_dwords m d ?w (n div 4) x"
      unfolding memset_def Let_def using that assms k by (intro set_bytes_other) simp
    also have "\<dots> = store32 m d ?w x" using that by (simp add: k set_dwords_other)
    finally show ?thesis .
  qed
  then have "load32 (memset m d val n) d = load32 (store32 m d ?w) d" by (simp add: load32_def)
  then show ?thesis by (simp only: load_store32)
qed

text \<open>The value is a byte repeated, up to bits that the shifted copies cover anyway.\<close>

definition byte_covers :: "u32 \<Rightarrow> bool" where
  "byte_covers val \<longleftrightarrow> (\<forall>k < 32. bit val k \<longrightarrow> bit val (k mod 8))"

lemma mod8_cases:
  assumes "k < (32::nat)"
  obtains "k < 8" "k mod 8 = k" | "8 \<le> k" "k < 16" "k mod 8 = k - 8"
  | "16 \<le> k" "k < 24" "k mod 8 = k - 16" | "24 \<le> k" "k mod 8 = k - 24"
proof -
  consider "k < 8" | "8 \<le> k" "k < 16" | "16 \<le> k" "k < 24" | "24 \<le> k" by linarith
  then show thesis
  proof cases
    case 1 then show ?thesis using that(1) by simp
  next
    case 2 then show ?thesis using that(2) by (simp add: mod_if)
  next
    case 3 then show ?thesis using that(3) by (simp add: mod_if)
  next
    case 4 then show ?thesis using that(4) assms by (simp add: mod_if)
  qed
qed

lemma bit_load32_const: "k < 32 \<Longrightarrow> bit (load32 (\<lambda>_. v) a) k \<longleftrightarrow> bit v (k mod 8)"
  by (erule mod8_cases) (auto simp: load32_def bit_simps dest: bit_imp_le_length)

lemma replicated_covers:
  "val OR push_bit 8 val OR push_bit 16 val OR push_bit 24 val = load32 (\<lambda>_. ucast val) 0 \<longleftrightarrow>
     byte_covers val" (is "?w = _ \<longleftrightarrow> _")
proof
  assume eq: "?w = load32 (\<lambda>_. ucast val) 0"
  show "byte_covers val" unfolding byte_covers_def
  proof (intro allI impI)
    fix k :: nat assume k: "k < 32" "bit val k"
    then have "bit ?w k" by (simp add: bit_or_iff)
    then have "bit (ucast val :: u8) (k mod 8)" using eq k(1) by (simp only: bit_load32_const)
    then show "bit val (k mod 8)" by (simp add: bit_simps)
  qed
next
  assume cov: "byte_covers val"
  show "?w = load32 (\<lambda>_. ucast val) 0"
  proof (rule bit_word_eqI)
    fix k assume "k < LENGTH(32)"
    then have k: "k < 32" by simp
    have low: "bit val (k mod 8)" if "j \<le> k" "bit val (k - j)" "j mod 8 = 0" for j
    proof -
      have "k = (k - j) + j" using that(1) by simp
      then have "(k - j) mod 8 = k mod 8" using that(3) by (metis add.right_neutral mod_add_right_eq)
      moreover have "k - j < 32" using k by simp
      then have "bit val ((k - j) mod 8)" using cov that(2) unfolding byte_covers_def by blast
      ultimately show ?thesis by simp
    qed
    have "bit ?w k \<longleftrightarrow> bit val k \<or> 8 \<le> k \<and> bit val (k - 8) \<or> 16 \<le> k \<and> bit val (k - 16) \<or>
        24 \<le> k \<and> bit val (k - 24)"
      using k by (auto simp: bit_or_iff bit_push_bit_iff)
    also have "\<dots> \<longleftrightarrow> bit val (k mod 8)"
    proof
      assume r: "bit val (k mod 8)"
      from k show "bit val k \<or> 8 \<le> k \<and> bit val (k - 8) \<or> 16 \<le> k \<and> bit val (k - 16) \<or>
          24 \<le> k \<and> bit val (k - 24)" using r by (cases rule: mod8_cases) auto
    qed (use low [of 0] low [of 8] low [of 16] low [of 24] in auto)
    finally show "bit ?w k \<longleftrightarrow> bit (load32 (\<lambda>_. ucast val) 0) k"
      using k by (simp only: bit_load32_const) (simp add: bit_simps)
  qed
qed

lemma memset_iff:
  assumes "4 \<le> n"
  shows "memset m d val n = filled m d (ucast val) n \<longleftrightarrow> byte_covers val"
proof
  assume "memset m d val n = filled m d (ucast val) n"
  then have "load32 (memset m d val n) d = load32 (filled m d (ucast val) n) d" by simp
  also have "\<dots> = load32 (\<lambda>_. ucast val) 0" using assms by (simp add: load32_def filled_def)
  finally show "byte_covers val" unfolding memset_head [OF assms] replicated_covers .
next
  assume "byte_covers val"
  then have "memset m d val n = filled (filled m d (ucast val) (4 * (n div 4))) (d + n div 4 * 4) (ucast val) (n mod 4)"
    unfolding memset_def Let_def
    by (simp add: set_bytes_filled set_dwords_filled [OF iffD2 [OF replicated_covers]])
  then show "memset m d val n = filled m d (ucast val) n"
    using filled_filled [of m d "ucast val" "n div 4 * 4" "n mod 4"] by (simp add: mult.commute)
qed

section \<open>Comparison\<close>

lemma memcmp_0_or: "memcmp m p q n = 0 \<or> memcmp m p q n = -1"
  by (induction n arbitrary: p q) auto

lemma memcmp_eq_0: "memcmp m p q n = 0 \<longleftrightarrow> (\<forall>i < n. m (p + i) = m (q + i))"
proof (induction n arbitrary: p q)
  case 0
  then show ?case by simp
next
  case (Suc n)
  have "(\<forall>i < Suc n. m (p + i) = m (q + i)) \<longleftrightarrow>
      m p = m q \<and> (\<forall>i < n. m (p + 1 + i) = m (q + 1 + i))"
    by (auto simp: less_Suc_eq_0_disj)
  with Suc show ?case by simp
qed

section \<open>Properties\<close>

text \<open>
  C7. Whatever the two regions are, overlapping either way included, \<open>memmove\<close> leaves the old
  bytes of the source in the destination and every byte outside the destination as it was.
  \<open>memcpy\<close>, which goes up in 32-bit words and then in bytes, never writes outside the destination
  either, and it does the same as \<open>memmove\<close> when the destination starts at or below the source
  or the regions are disjoint.
\<close>

theorem memcpy_memmove:
  "(\<forall>i < n. memmove m d s n (d + i) = m (s + i)) \<and>
   (\<forall>x. x < d \<or> d + n \<le> x \<longrightarrow> memmove m d s n x = m x \<and> memcpy m d s n x = m x) \<and>
   (d \<le> s \<or> disjoint_regions d n s n \<longrightarrow> memcpy m d s n = memmove m d s n)"
  by (auto simp: memmove_copied memcpy_copied memcpy_other copied_def)

theorem memcpy_memmove_witness:
  "memcpy (\<lambda>a. of_nat a) 2 3 6 = memmove (\<lambda>a. of_nat a) 2 3 6 \<and>
   (let m = memmove (\<lambda>a. of_nat a) 3 2 6 in map m [2 ..< 10] = [2, 2, 3, 4, 5, 6, 7, 9])"
proof -
  have up: "map (\<lambda>a. of_nat a :: u8) [2 ..< 8] = [2, 3, 4, 5, 6, 7]" by code_simp
  have m: "memmove (\<lambda>a. of_nat a) 3 2 6 (3 + i) = of_nat (2 + i)" if "i < 6" for i
    using memcpy_memmove [of 6 "\<lambda>a. of_nat a" 3 2] that by blast
  have o: "memmove (\<lambda>a. of_nat a) 3 2 6 x = of_nat x" if "x < 3 \<or> 9 \<le> x" for x
    using memcpy_memmove [of 6 "\<lambda>a. of_nat a" 3 2] that by auto
  have "[2 ..< 10] = [2, 3 + 0, 3 + 1, 3 + 2, 3 + 3, 3 + 4, 3 + 5, 9 :: nat]" by code_simp
  moreover have "memcpy (\<lambda>a. of_nat a) 2 3 6 = memmove (\<lambda>a. of_nat a) 2 3 6"
    using memcpy_memmove [of 6 "\<lambda>a. of_nat a" 2 3] by simp
  ultimately show ?thesis unfolding Let_def by (simp only: list.map m o) (simp add: m o)
qed

text \<open>
  \<open>memset\<close> of four bytes or more fills the region with the low byte of \<open>val\<close> exactly when every
  bit set in a higher byte of \<open>val\<close> is set in the low byte too: the word loop does not mask \<open>val\<close>
  before it repeats it, while the byte loop does.
\<close>

theorem memset_uniform_iff:
  assumes "4 \<le> n"
  shows "memset m d val n = filled m d (ucast val) n \<longleftrightarrow> byte_covers val"
  by (rule memset_iff [OF assms])

theorem memset_uniform_iff_witness:
  "memset (\<lambda>_. 0) 0 (-1) 5 = filled (\<lambda>_. 0) 0 (ucast (-1 :: u32)) 5 \<and> memset (\<lambda>_. 0) 0 256 5 \<noteq> filled (\<lambda>_. 0) 0 (ucast (256 :: u32)) 5"
proof -
  have "k mod 8 < 32" for k :: nat using mod_less_divisor [of 8 k] by linarith
  then have "byte_covers (-1)" by (simp add: byte_covers_def)
  moreover have "bit (256 :: u32) 8" "\<not> bit (256 :: u32) 0" by simp_all
  then have "\<not> byte_covers 256" by (auto simp: byte_covers_def intro!: exI [of _ 8])
  ultimately show ?thesis
    using memset_uniform_iff [of 5 "\<lambda>_. 0" 0 "-1"] memset_uniform_iff [of 5 "\<lambda>_. 0" 0 256] by simp
qed

end
