(* ===== verification/Kmem.thy ===== *)
theory Kmem imports Bitmap Libc_Mem
begin

text \<open>
  The kernel heap of kernel/kmem.c: \<open>kalloc\<close> hands out runs of 256-byte blocks found first fit
  in a bitmap, writes the number of blocks of the run into the \<open>int\<close> at its head, and returns
  the address behind it; \<open>kfree\<close> reads that number back. The record \<open>kmem\<close> holds the static
  variables of the file and the memory itself. \<open>kmem_inv A st\<close> relates a state to the map
  \<open>A\<close> of live allocations (first block to number of blocks). Also here: the arena \<open>palloc\<close> and
  the memory map and \<open>krealloc\<close> of kernel/memory.c.
\<close>

section \<open>kernel/kmem.c\<close>

record kmem =
  mem :: mem
  KERNEL_MEMORY_START :: nat
  KERNEL_MEMORY_END :: nat
  kmemory_bitmap :: bitmap
  kmemory_used :: u32
  kallocs :: nat
  memory_permanent_start :: nat
  memory_permanent_end :: nat

abbreviation KMEM_BLOCK_SIZE :: nat where "KMEM_BLOCK_SIZE \<equiv> 256"

text \<open>
  The loop of \<open>__kmemory_find_blocks\<close> from block \<open>i\<close> with \<open>k\<close> blocks left;
  \<open>KMEM_BITMAP_INDEX\<close> and \<open>KMEM_BITMAP_OFFSET\<close> of block \<open>i\<close> are \<open>i / 8\<close> and \<open>i % 8\<close>, so
  the bit test is \<open>get_bitmap\<close>.
\<close>

fun find_blocks_from :: "bitmap \<Rightarrow> nat \<Rightarrow> nat \<Rightarrow> nat \<Rightarrow> nat \<Rightarrow> int option" where
  "find_blocks_from b num_blocks i 0 free_blocks = Some (-1)"
| "find_blocks_from b num_blocks i (Suc k) free_blocks =
     do { v \<leftarrow> get_bitmap b i;
          if v = 0
          then (if free_blocks + 1 = num_blocks then Some (int i - int num_blocks + 1)
                else find_blocks_from b num_blocks (Suc i) k (free_blocks + 1))
          else find_blocks_from b num_blocks (Suc i) k 0 }"

definition kmemory_find_blocks :: "bitmap \<Rightarrow> nat \<Rightarrow> nat \<Rightarrow> int option" where
  "kmemory_find_blocks b num_blocks total_blocks = find_blocks_from b num_blocks 0 total_blocks 0"

definition kmemory_mark_blocks :: "bitmap \<Rightarrow> nat \<Rightarrow> nat \<Rightarrow> bitmap option" where
  "kmemory_mark_blocks b start_block num_blocks =
     for_loop start_block num_blocks (\<lambda>i b. set_bitmap b i) b"

definition kmemory_write_metadata :: "kmem \<Rightarrow> nat \<Rightarrow> nat \<Rightarrow> kmem" where
  "kmemory_write_metadata st start_block num_blocks =
     st\<lparr>mem := store32 (mem st) (KERNEL_MEMORY_START st + start_block * KMEM_BLOCK_SIZE)
                (of_nat num_blocks)\<rparr>"

definition kalloc_blocks :: "int \<Rightarrow> nat" where
  "kalloc_blocks sz = nat ((ALIGN sz 4 + 4 + 256 - 1) div 256)"

definition kalloc :: "int \<Rightarrow> kmem \<Rightarrow> (nat \<times> kmem) option" where
  "kalloc sz st =
     (if sz \<le> 0 then Some (0, st) else
      let num_blocks = kalloc_blocks sz;
          total_blocks = (KERNEL_MEMORY_END st - KERNEL_MEMORY_START st) div KMEM_BLOCK_SIZE
      in do {
        start_block \<leftarrow> kmemory_find_blocks (kmemory_bitmap st) num_blocks total_blocks;
        if start_block = -1 then None \<comment> \<open>kernel panic\<close>
        else do {
          b \<leftarrow> kmemory_mark_blocks (kmemory_bitmap st) (nat start_block) num_blocks;
          let st1 = kmemory_write_metadata (st\<lparr>kmemory_bitmap := b\<rparr>) (nat start_block) num_blocks;
              ptr = KERNEL_MEMORY_START st + nat start_block * KMEM_BLOCK_SIZE + 4;
              st2 = st1\<lparr>kmemory_used := kmemory_used st1 + of_nat (num_blocks * KMEM_BLOCK_SIZE),
                        kallocs := kallocs st1 + 1\<rparr>
          in if kmemory_used st2 > of_nat (KERNEL_MEMORY_END st - KERNEL_MEMORY_START st)
             then None else Some (ptr, st2) } })"

definition kcalloc :: "int \<Rightarrow> kmem \<Rightarrow> (nat \<times> kmem) option" where
  "kcalloc sz st =
     do { (ptr, st') \<leftarrow> kalloc sz st;
          if ptr = 0 then Some (0, st')
          else Some (ptr, st'\<lparr>mem := memset (mem st') ptr 0 (nat sz)\<rparr>) }"

definition kfree :: "nat \<Rightarrow> kmem \<Rightarrow> kmem option" where
  "kfree ptr st =
     (if ptr = 0 then Some st else
      let block_index = unat (of_nat ptr - of_nat (KERNEL_MEMORY_START st) :: u32) div KMEM_BLOCK_SIZE;
          num_blocks = load32 (mem st) ((KERNEL_MEMORY_START st + block_index * KMEM_BLOCK_SIZE) mod 2 ^ 32)
      in do {
        b \<leftarrow> for_loop block_index (nat (sint num_blocks)) (\<lambda>i b. unset_bitmap b i)
               (kmemory_bitmap st);
        Some (st\<lparr>kmemory_bitmap := b,
                 kmemory_used := kmemory_used st - num_blocks * of_nat KMEM_BLOCK_SIZE\<rparr>) })"

text \<open>The arena: the address returned is the one after the bump.\<close>

definition palloc :: "int \<Rightarrow> kmem \<Rightarrow> nat \<times> kmem" where
  "palloc sz st =
     (if sz \<le> 0 then (0, st)
      else if memory_permanent_start st = 0 \<or> memory_permanent_end st = 0 then (0, st)
      else let sz = nat (ALIGN sz 4)
           in if memory_permanent_start st + sz \<ge> memory_permanent_end st then (0, st)
              else let new = memory_permanent_start st + sz
                   in (new, st\<lparr>memory_permanent_start := memory_permanent_start st + sz\<rparr>))"

definition kmemory_total :: "kmem \<Rightarrow> nat" where
  "kmemory_total st = KERNEL_MEMORY_END st - KERNEL_MEMORY_START st"

section \<open>kernel/memory.c\<close>

record region = from_addr :: int to_addr :: int region_total :: int

record memory_map =
  kernel :: region
  permanent :: region
  virtual_memory :: region
  map_total :: int
  initialized :: bool

text \<open>
  \<open>(int)(total_memory * (float)num / den)\<close>, for \<open>den\<close> a power of two: the product by \<open>num\<close> (1 or 2)
  and the division are exact, and so is the conversion to \<open>float\<close> below \<open>2 ^ 24\<close>, which the only
  caller respects (it passes the memory between 1MB and 16MB, at most 15MB).
\<close>

definition float_fraction :: "int \<Rightarrow> int \<Rightarrow> int \<Rightarrow> int" where
  "float_fraction x num den = x * num div den"

definition memory_map_init :: "int \<Rightarrow> memory_map" where
  "memory_map_init total_memory =
     (let start = 1024 * 1024;
          permanent = ALIGN (float_fraction total_memory 1 8) (1024 * 1024);
          kernel = ALIGN (float_fraction total_memory 2 8) (1024 * 1024);
          remaining_memory = total_memory - permanent - kernel;
          virtual = ALIGN_DOWN remaining_memory 4096;
          virtual = (if permanent + kernel + virtual > total_memory
                     then ALIGN_DOWN (total_memory - permanent - kernel) 4096 else virtual)
      in \<lparr>kernel = \<lparr>from_addr = start, to_addr = start + kernel, region_total = kernel\<rparr>,
          permanent = \<lparr>from_addr = start + kernel, to_addr = start + kernel + permanent, region_total = permanent\<rparr>,
          virtual_memory = \<lparr>from_addr = start + kernel + permanent,
                            to_addr = start + kernel + permanent + virtual, region_total = virtual\<rparr>,
          map_total = permanent + kernel + virtual,
          initialized = True\<rparr>)"

definition kmem_init :: "memory_map \<Rightarrow> kmem \<Rightarrow> kmem option" where
  "kmem_init mm st =
     (let st1 = st\<lparr>memory_permanent_start := nat (from_addr (permanent mm)),
                   memory_permanent_end := nat (to_addr (permanent mm)),
                   KERNEL_MEMORY_START := nat (from_addr (kernel mm)),
                   KERNEL_MEMORY_END := nat (to_addr (kernel mm))\<rparr>;
          bytes = region_total (kernel mm) div 256 div 8;
          (p, st2) = palloc bytes st1
      in if p = 0 then None \<comment> \<open>assertion\<close>
         else Some (st2\<lparr>kmemory_bitmap := replicate (nat bytes) 0\<rparr>))"

definition krealloc :: "nat \<Rightarrow> int \<Rightarrow> kmem \<Rightarrow> (nat \<times> kmem) option" where
  "krealloc ptr new_size st =
     (if new_size = 0 then map_option (\<lambda>st'. (0, st')) (kfree ptr st)
      else if ptr = 0 then kalloc new_size st
      else do {
        (new_ptr, st') \<leftarrow> kalloc new_size st;
        if new_ptr = 0 then Some (0, st')
        else map_option (\<lambda>st''. (new_ptr, st''))
               (kfree ptr (st'\<lparr>mem := memcpy (mem st') new_ptr ptr (nat new_size)\<rparr>)) })"

section \<open>The first-fit search\<close>

definition free_run :: "bitmap \<Rightarrow> nat \<Rightarrow> nat \<Rightarrow> bool" where
  "free_run b n s \<longleftrightarrow> (\<forall>j. s \<le> j \<and> j < s + n \<longrightarrow> \<not> bitset b j)"

lemma find_blocks_from_spec:
  assumes "fits b (i + k)" and "free < n" and "free \<le> i" and "free_run b free (i - free)"
    and "\<And>s. free_run b n s \<Longrightarrow> i - free \<le> s"
  shows "(\<exists>s. find_blocks_from b n i k free = Some (int s) \<and> s + n \<le> i + k \<and> free_run b n s \<and>
              (\<forall>s'. free_run b n s' \<longrightarrow> s \<le> s')) \<or>
         (find_blocks_from b n i k free = Some (-1) \<and> (\<forall>s. s + n \<le> i + k \<longrightarrow> \<not> free_run b n s))"
  using assms
proof (induction k arbitrary: i free)
  case 0
  then show ?case by (fastforce dest: "0.prems"(5))
next
  case (Suc k)
  have get: "get_bitmap b i = Some (if bitset b i then 1 else 0)"
    using Suc.prems(1) by (intro get_bitmap_eq fits_nthD [of b "i + Suc k"]) auto
  show ?case
  proof (cases "bitset b i")
    case True
    have "Suc i \<le> s" if "free_run b n s" for s
    proof (rule ccontr)
      assume "\<not> Suc i \<le> s"
      with Suc.prems(2) Suc.prems(5) [OF that] that True show False
        by (auto simp: free_run_def)
    qed
    moreover have "free_run b 0 (Suc i)" by (auto simp: free_run_def)
    ultimately show ?thesis
      using Suc.IH [of "Suc i" 0] Suc.prems(1,2) get True by simp
  next
    case False
    have run: "free_run b (free + 1) (i - free)"
      using Suc.prems(3,4) False by (auto simp: free_run_def less_Suc_eq)
    show ?thesis
    proof (cases "free + 1 = n")
      case True
      have "int i - int n + 1 = int (i - free)" using True Suc.prems(3) by simp
      then have "find_blocks_from b n i (Suc k) free = Some (int (i - free))"
        using get False True by simp
      moreover have "free_run b n (i - free)" "i - free + n \<le> i + Suc k"
        using run True Suc.prems(3) by auto
      ultimately show ?thesis using Suc.prems(5) by blast
    next
      case ne: False
      then show ?thesis
        using Suc.IH [of "Suc i" "free + 1"] Suc.prems run get False by simp
    qed
  qed
qed

lemma kmemory_find_blocks_cases:
  assumes "fits b N" and "0 < n"
  obtains (none) "kmemory_find_blocks b n N = Some (-1)" "\<And>s. s + n \<le> N \<Longrightarrow> \<not> free_run b n s"
  | (found) s where "kmemory_find_blocks b n N = Some (int s)" "s + n \<le> N" "free_run b n s"
      "\<And>s'. free_run b n s' \<Longrightarrow> s \<le> s'"
  using find_blocks_from_spec [of b 0 N 0 n] assms
  unfolding kmemory_find_blocks_def free_run_def by auto

section \<open>The allocator invariant\<close>

definition total_blocks :: "kmem \<Rightarrow> nat" where
  "total_blocks st = (KERNEL_MEMORY_END st - KERNEL_MEMORY_START st) div KMEM_BLOCK_SIZE"

definition block_addr :: "kmem \<Rightarrow> nat \<Rightarrow> nat" where
  "block_addr st s = KERNEL_MEMORY_START st + s * KMEM_BLOCK_SIZE"

definition kmem_wf :: "kmem \<Rightarrow> bool" where
  "kmem_wf st \<longleftrightarrow> 0 < KERNEL_MEMORY_START st \<and>
     KERNEL_MEMORY_START st \<le> KERNEL_MEMORY_END st \<and> KERNEL_MEMORY_END st < 2 ^ 31 \<and>
     fits (kmemory_bitmap st) (total_blocks st)"

definition blocks_of :: "(nat \<rightharpoonup> nat) \<Rightarrow> nat set" where
  "blocks_of A = {i. \<exists>s n. A s = Some n \<and> s \<le> i \<and> i < s + n}"

definition kmem_inv :: "(nat \<rightharpoonup> nat) \<Rightarrow> kmem \<Rightarrow> bool" where
  "kmem_inv A st \<longleftrightarrow> kmem_wf st \<and>
     (\<forall>s n. A s = Some n \<longrightarrow> 0 < n \<and> s + n \<le> total_blocks st \<and>
        load32 (mem st) (block_addr st s) = of_nat n) \<and>
     (\<forall>s n s' n'. A s = Some n \<longrightarrow> A s' = Some n' \<longrightarrow> s \<noteq> s' \<longrightarrow> s + n \<le> s' \<or> s' + n' \<le> s) \<and>
     (\<forall>i. bitset (kmemory_bitmap st) i \<longleftrightarrow> i \<in> blocks_of A) \<and>
     finite (dom A) \<and>
     kmemory_used st = of_nat (\<Sum>s\<in>dom A. the (A s) * KMEM_BLOCK_SIZE)"

text \<open>The bytes a live allocation lends to its owner: all of its run but the leading \<open>int\<close>.\<close>

definition payload :: "kmem \<Rightarrow> nat \<Rightarrow> nat \<Rightarrow> nat set" where
  "payload st s n = {block_addr st s + 4 ..< block_addr st (s + n)}"

lemma kmem_invD:
  assumes "kmem_inv A st"
  shows "kmem_wf st" "A s = Some n \<Longrightarrow> 0 < n" "A s = Some n \<Longrightarrow> s + n \<le> total_blocks st"
    "A s = Some n \<Longrightarrow> load32 (mem st) (block_addr st s) = of_nat n"
    "A s = Some n \<Longrightarrow> A s' = Some n' \<Longrightarrow> s \<noteq> s' \<Longrightarrow> s + n \<le> s' \<or> s' + n' \<le> s"
    "bitset (kmemory_bitmap st) i \<longleftrightarrow> i \<in> blocks_of A" "finite (dom A)"
    "kmemory_used st = of_nat (\<Sum>s\<in>dom A. the (A s) * KMEM_BLOCK_SIZE)"
  using assms unfolding kmem_inv_def by blast+

lemma total_blocks_bytes: "kmem_wf st \<Longrightarrow> total_blocks st * 256 \<le> KERNEL_MEMORY_END st - KERNEL_MEMORY_START st"
  by (simp add: total_blocks_def)

lemma total_blocks_less: "kmem_wf st \<Longrightarrow> total_blocks st < 2 ^ 23"
proof -
  assume "kmem_wf st"
  then have "KERNEL_MEMORY_END st - KERNEL_MEMORY_START st < 2 ^ 23 * 256"
    by (auto simp: kmem_wf_def)
  then show ?thesis by (simp add: total_blocks_def div_less_iff_less_mult)
qed

lemma block_addr_mono: "s \<le> t \<Longrightarrow> block_addr st s \<le> block_addr st t"
  by (simp add: block_addr_def)

lemma block_addr_less: "s < t \<Longrightarrow> block_addr st s + 256 \<le> block_addr st t"
proof -
  assume "s < t"
  then have "(s + 1) * 256 \<le> t * 256" by (intro mult_le_mono1) simp
  then show ?thesis by (simp add: block_addr_def)
qed

lemma finite_blocks_of: "finite (dom A) \<Longrightarrow> finite (blocks_of A)"
proof -
  assume fin: "finite (dom A)"
  have "blocks_of A = (\<Union>s\<in>dom A. {s ..< s + the (A s)})"
    by (force simp: blocks_of_def dom_def)
  then show ?thesis using fin by simp
qed

text \<open>The bytes accounted for never exceed the region: the runs are disjoint and inside it.\<close>

lemma sum_runs_card:
  assumes "kmem_inv A st"
  shows "(\<Sum>s\<in>dom A. the (A s)) = card (blocks_of A)"
proof -
  have "blocks_of A = (\<Union>s\<in>dom A. {s ..< s + the (A s)})"
    by (force simp: blocks_of_def dom_def)
  moreover have "card (\<Union>s\<in>dom A. {s ..< s + the (A s)}) = (\<Sum>s\<in>dom A. card {s ..< s + the (A s)})"
  proof (rule card_UN_disjoint)
    show "finite (dom A)" using assms by (rule kmem_invD)
    show "\<forall>s\<in>dom A. \<forall>s'\<in>dom A. s \<noteq> s' \<longrightarrow> {s ..< s + the (A s)} \<inter> {s' ..< s' + the (A s')} = {}"
      using kmem_invD(5) [OF assms] by fastforce
  qed simp
  ultimately show ?thesis by simp
qed

lemma used_le_total:
  assumes "kmem_inv A st"
  shows "(\<Sum>s\<in>dom A. the (A s) * KMEM_BLOCK_SIZE) \<le> KERNEL_MEMORY_END st - KERNEL_MEMORY_START st"
proof -
  have "blocks_of A \<subseteq> {..< total_blocks st}"
    using kmem_invD(3) [OF assms] by (fastforce simp: blocks_of_def)
  then have "card (blocks_of A) \<le> total_blocks st"
    by (metis card_lessThan card_mono finite_lessThan)
  then have "(\<Sum>s\<in>dom A. the (A s) * KMEM_BLOCK_SIZE) \<le> total_blocks st * 256"
    using sum_runs_card [OF assms] by (simp flip: sum_distrib_right)
  also have "\<dots> \<le> KERNEL_MEMORY_END st - KERNEL_MEMORY_START st"
    by (rule total_blocks_bytes [OF kmem_invD(1) [OF assms]])
  finally show ?thesis .
qed

section \<open>Allocation\<close>

lemma ALIGN_4_bounds: "x \<le> ALIGN x 4" "ALIGN x 4 < x + 4" "ALIGN x 4 mod 4 = 0"
  using ALIGN_pow2 [of x 2] by auto

text \<open>A run has room for the \<open>int\<close> at its head and the aligned size.\<close>

lemma kalloc_blocks_enough:
  assumes "0 < n"
  shows "0 < kalloc_blocks n" "n + 4 \<le> int (kalloc_blocks n) * 256"
proof -
  let ?a = "ALIGN n 4"
  let ?q = "(?a + 4 + 256 - 1) div 256"
  have a: "n \<le> ?a" by (rule ALIGN_4_bounds)
  have q: "?a + 4 \<le> ?q * 256"
    using pos_mod_bound [of 256 "?a + 4 + 256 - 1"] div_mult_mod_eq [of "?a + 4 + 256 - 1" 256]
    by linarith
  then have "1 \<le> ?q" using a assms by linarith
  with a q show "0 < kalloc_blocks n" "n + 4 \<le> int (kalloc_blocks n) * 256"
    by (auto simp: kalloc_blocks_def)
qed

lemma blocks_of_update:
  assumes "A s = None"
  shows "blocks_of (A(s \<mapsto> n)) = blocks_of A \<union> {s ..< s + n}"
proof (rule set_eqI)
  fix i
  show "i \<in> blocks_of (A(s \<mapsto> n)) \<longleftrightarrow> i \<in> blocks_of A \<union> {s ..< s + n}"
  proof
    assume "i \<in> blocks_of (A(s \<mapsto> n))"
    then show "i \<in> blocks_of A \<union> {s ..< s + n}"
      by (auto simp: blocks_of_def split: if_splits)
  next
    assume "i \<in> blocks_of A \<union> {s ..< s + n}"
    then consider t m where "A t = Some m" "t \<le> i" "i < t + m" | "s \<le> i" "i < s + n"
      by (auto simp: blocks_of_def)
    then show "i \<in> blocks_of (A(s \<mapsto> n))"
    proof cases
      case 1
      then have "(A(s \<mapsto> n)) t = Some m" using assms by auto
      with 1 show ?thesis unfolding blocks_of_def by blast
    next
      case 2
      then show ?thesis unfolding blocks_of_def by (auto intro!: exI [of _ s])
    qed
  qed
qed

lemma free_run_disjoint:
  assumes "kmem_inv A st" and "free_run (kmemory_bitmap st) n s" and "A t = Some m" and "0 < n"
  shows "t \<noteq> s \<and> (s + n \<le> t \<or> t + m \<le> s)"
proof -
  have "i \<notin> blocks_of A" if "s \<le> i" "i < s + n" for i
    using assms(1,2) that by (auto simp: kmem_inv_def free_run_def)
  then have out: "\<not> (t \<le> i \<and> i < t + m)" if "s \<le> i" "i < s + n" for i
    using assms(3) that by (fastforce simp: blocks_of_def)
  have "0 < m" using kmem_invD(2) [OF assms(1,3)] .
  then show ?thesis using out [of s] out [of t] assms(4) by (cases "t \<le> s"; linarith)
qed

text \<open>What \<open>kalloc\<close> does to a well-formed heap when it finds a run.\<close>

definition kalloc_state :: "kmem \<Rightarrow> nat \<Rightarrow> nat \<Rightarrow> bitmap \<Rightarrow> kmem" where
  "kalloc_state st s n b =
     st\<lparr>mem := store32 (mem st) (block_addr st s) (of_nat n), kmemory_bitmap := b,
       kmemory_used := kmemory_used st + of_nat (n * KMEM_BLOCK_SIZE), kallocs := kallocs st + 1\<rparr>"

lemma kalloc_state_sel [simp]:
  "mem (kalloc_state st s n b) = store32 (mem st) (block_addr st s) (of_nat n)"
  "kmemory_bitmap (kalloc_state st s n b) = b"
  "KERNEL_MEMORY_START (kalloc_state st s n b) = KERNEL_MEMORY_START st"
  "KERNEL_MEMORY_END (kalloc_state st s n b) = KERNEL_MEMORY_END st"
  "total_blocks (kalloc_state st s n b) = total_blocks st"
  "block_addr (kalloc_state st s n b) t = block_addr st t"
  "kmemory_used (kalloc_state st s n b) = kmemory_used st + of_nat (n * KMEM_BLOCK_SIZE)"
  by (simp_all add: kalloc_state_def total_blocks_def block_addr_def)

lemma kalloc_state_inv:
  assumes inv: "kmem_inv A st" and n: "0 < n" and fit: "s + n \<le> total_blocks st"
    and run: "free_run (kmemory_bitmap st) n s" and len: "length b = length (kmemory_bitmap st)"
    and b: "\<And>j. bitset b j \<longleftrightarrow> bitset (kmemory_bitmap st) j \<or> (s \<le> j \<and> j < s + n)"
  shows "kmem_inv (A(s \<mapsto> n)) (kalloc_state st s n b)"
proof -
  note dis = free_run_disjoint [OF inv run _ n]
  have s: "A s = None" using dis by (cases "A s") auto
  have wf: "kmem_wf (kalloc_state st s n b)"
    using kmem_invD(1) [OF inv] len by (simp add: kmem_wf_def fits_def)
  have head: "load32 (store32 (mem st) (block_addr st s) (of_nat n)) (block_addr st t) = of_nat m"
    if "A t = Some m" for t m
  proof -
    have "s < t \<or> t < s" using dis [OF that] by arith
    then have "load32 (store32 (mem st) (block_addr st s) (of_nat n)) (block_addr st t) =
        load32 (mem st) (block_addr st t)"
      using block_addr_less [of s t st] block_addr_less [of t s st]
      by (intro load32_cong store32_other) auto
    then show ?thesis using kmem_invD(4) [OF inv that] by simp
  qed
  have sum: "(\<Sum>t\<in>dom (A(s \<mapsto> n)). the ((A(s \<mapsto> n)) t) * 256) =
      (\<Sum>t\<in>dom A. the (A t) * 256) + n * 256"
  proof -
    have "(\<Sum>t\<in>dom A. the ((A(s \<mapsto> n)) t) * 256) = (\<Sum>t\<in>dom A. the (A t) * 256)"
      using s by (intro sum.cong) auto
    then show ?thesis using s kmem_invD(7) [OF inv] by (simp add: domIff)
  qed
  show ?thesis
    unfolding kmem_inv_def kalloc_state_sel
  proof (intro conjI)
    show "\<forall>t m. (A(s \<mapsto> n)) t = Some m \<longrightarrow> 0 < m \<and> t + m \<le> total_blocks st \<and>
        load32 (store32 (mem st) (block_addr st s) (of_nat n)) (block_addr st t) = of_nat m"
      using n fit head kmem_invD(2,3) [OF inv] by (auto simp: load_store32 split: if_splits)
    show "\<forall>t m t' m'. (A(s \<mapsto> n)) t = Some m \<longrightarrow> (A(s \<mapsto> n)) t' = Some m' \<longrightarrow> t \<noteq> t' \<longrightarrow>
        t + m \<le> t' \<or> t' + m' \<le> t"
      using dis kmem_invD(5) [OF inv] by (auto split: if_splits)
    show "\<forall>i. bitset b i = (i \<in> blocks_of (A(s \<mapsto> n)))"
      using kmem_invD(6) [OF inv] b by (auto simp: blocks_of_update [of A s n, OF s])
    show "kmemory_used st + of_nat (n * 256) =
        of_nat (\<Sum>t\<in>dom (A(s \<mapsto> n)). the ((A(s \<mapsto> n)) t) * 256)"
      unfolding sum of_nat_add kmem_invD(8) [OF inv] ..
  qed (use wf kmem_invD(7) [OF inv] in simp_all)
qed

lemma kalloc_cases:
  assumes inv: "kmem_inv A st" and pos: "0 < sz"
  obtains (panic) "kalloc sz st = None"
      "\<And>s. s + kalloc_blocks sz \<le> total_blocks st \<Longrightarrow>
           \<not> free_run (kmemory_bitmap st) (kalloc_blocks sz) s"
  | (allocated) s b where "kalloc sz st = Some (block_addr st s + 4, kalloc_state st s (kalloc_blocks sz) b)"
      "free_run (kmemory_bitmap st) (kalloc_blocks sz) s" "s + kalloc_blocks sz \<le> total_blocks st"
      "\<And>s'. free_run (kmemory_bitmap st) (kalloc_blocks sz) s' \<Longrightarrow> s \<le> s'"
      "kmem_inv (A(s \<mapsto> kalloc_blocks sz)) (kalloc_state st s (kalloc_blocks sz) b)"
proof -
  let ?n = "kalloc_blocks sz"
  have wf: "kmem_wf st" and fits: "fits (kmemory_bitmap st) (total_blocks st)"
    using kmem_invD(1) [OF inv] by (simp_all add: kmem_wf_def)
  have n: "0 < ?n" by (rule kalloc_blocks_enough [OF pos])
  show thesis
  proof (rule kmemory_find_blocks_cases [OF fits n])
    assume "kmemory_find_blocks (kmemory_bitmap st) ?n (total_blocks st) = Some (-1)"
      and none: "\<And>s. s + ?n \<le> total_blocks st \<Longrightarrow> \<not> free_run (kmemory_bitmap st) ?n s"
    then have "kalloc sz st = None" using pos by (simp add: kalloc_def total_blocks_def)
    then show thesis using none by (rule panic)
  next
    fix s
    assume found: "kmemory_find_blocks (kmemory_bitmap st) ?n (total_blocks st) = Some (int s)"
      and fit: "s + ?n \<le> total_blocks st" and run: "free_run (kmemory_bitmap st) ?n s"
      and least: "\<And>s'. free_run (kmemory_bitmap st) ?n s' \<Longrightarrow> s \<le> s'"
    obtain b where b: "set_range (kmemory_bitmap st) s ?n = Some b"
      "length b = length (kmemory_bitmap st)"
      "\<And>j. bitset b j \<longleftrightarrow> bitset (kmemory_bitmap st) j \<or> (s \<le> j \<and> j < s + ?n)"
      using set_range_bitset [of "kmemory_bitmap st" s ?n] fits fit by (auto simp: fits_def)
    let ?st' = "kalloc_state st s ?n b"
    have inv': "kmem_inv (A(s \<mapsto> ?n)) ?st'"
      by (rule kalloc_state_inv [OF inv n fit run b(2,3)])
    have "\<not> kmemory_used ?st' > of_nat (KERNEL_MEMORY_END st - KERNEL_MEMORY_START st)"
    proof -
      let ?used = "\<Sum>t\<in>dom (A(s \<mapsto> ?n)). the ((A(s \<mapsto> ?n)) t) * KMEM_BLOCK_SIZE"
      have "unat (kmemory_used ?st') = ?used mod 2 ^ LENGTH(32)"
        unfolding kmem_invD(8) [OF inv'] by (rule unat_of_nat)
      also have "\<dots> \<le> ?used" by (rule mod_less_eq_dividend)
      also have "\<dots> \<le> KERNEL_MEMORY_END st - KERNEL_MEMORY_START st"
        using used_le_total [OF inv'] by (simp only: kalloc_state_sel)
      finally have "unat (kmemory_used ?st') \<le> KERNEL_MEMORY_END st - KERNEL_MEMORY_START st" .
      moreover have "KERNEL_MEMORY_END st - KERNEL_MEMORY_START st < 2 ^ LENGTH(32)"
        using wf by (auto simp: kmem_wf_def)
      ultimately show ?thesis by (simp add: not_less word_le_nat_alt unat_of_nat)
    qed
    then have "kalloc sz st = Some (block_addr st s + 4, ?st')"
      using pos found b(1)
      by (simp add: kalloc_def Let_def total_blocks_def kmemory_mark_blocks_def set_range_def
          kmemory_write_metadata_def kalloc_state_def block_addr_def)
    then show thesis using run fit least inv' by (rule allocated)
  qed
qed

section \<open>Changes of memory that the allocator does not see\<close>

lemma kmem_inv_mem:
  assumes inv: "kmem_inv A st"
    and same: "\<And>t n i. A t = Some n \<Longrightarrow> i < 4 \<Longrightarrow> m' (block_addr st t + i) = mem st (block_addr st t + i)"
  shows "kmem_inv A (st\<lparr>mem := m'\<rparr>)"
proof -
  have "load32 m' (block_addr st t) = of_nat n" if "A t = Some n" for t n
    using kmem_invD(4) [OF inv that] load32_cong [of m' "block_addr st t" "mem st"] same [OF that]
    by metis
  then show ?thesis
    using inv unfolding kmem_inv_def kmem_wf_def total_blocks_def block_addr_def by auto
qed

lemma payload_not_head:
  assumes inv: "kmem_inv A st" and s: "A s = Some n" and t: "A t = Some m" and i: "i < 4"
    and x: "x \<in> payload st s n"
  shows "x \<noteq> block_addr st t + i"
proof -
  consider "t = s" | "t < s" | "s + n \<le> t"
    using kmem_invD(5) [OF inv s t] kmem_invD(2) [OF inv t] by force
  then show ?thesis
  proof cases
    case 2
    then show ?thesis using x i block_addr_less [OF 2, of st] by (auto simp: payload_def)
  next
    case 3
    then show ?thesis using x i block_addr_mono [OF 3, of st] by (auto simp: payload_def)
  qed (use x i in \<open>auto simp: payload_def\<close>)
qed

lemma kmem_inv_payload_write:
  assumes "kmem_inv A st" and "A s = Some n"
    and "\<And>x. x \<notin> payload st s n \<Longrightarrow> m' x = mem st x"
  shows "kmem_inv A (st\<lparr>mem := m'\<rparr>)"
  using assms payload_not_head [OF assms(1,2)] by (intro kmem_inv_mem) blast+

lemma payload_disjoint:
  assumes inv: "kmem_inv A st" and s: "A s = Some n" and t: "A t = Some m" and "s \<noteq> t"
  shows "payload st s n \<inter> payload st t m = {}"
proof -
  consider "s + n \<le> t" | "t + m \<le> s" using kmem_invD(5) [OF inv s t \<open>s \<noteq> t\<close>] by blast
  then show ?thesis
    by cases (auto simp: payload_def dest: block_addr_mono [of _ _ st])
qed

lemma payload_bounds:
  assumes inv: "kmem_inv A st" and s: "A s = Some n"
  shows "payload st s n \<subseteq> {KERNEL_MEMORY_START st ..< KERNEL_MEMORY_END st}"
proof -
  have "block_addr st (s + n) \<le> block_addr st (total_blocks st)"
    using kmem_invD(3) [OF inv s] by (rule block_addr_mono)
  also have "\<dots> \<le> KERNEL_MEMORY_END st"
    using total_blocks_bytes [OF kmem_invD(1) [OF inv]] kmem_invD(1) [OF inv]
    by (auto simp: block_addr_def kmem_wf_def)
  finally show ?thesis by (auto simp: payload_def block_addr_def)
qed

lemma region_in_payload:
  assumes "0 < sz"
  shows "{block_addr st s + 4 ..< block_addr st s + 4 + nat sz} \<subseteq> payload st s (kalloc_blocks sz)"
proof -
  have "int (nat sz + 4) \<le> int (kalloc_blocks sz * 256)"
    using kalloc_blocks_enough(2) [OF assms] assms by simp
  then have "nat sz + 4 \<le> kalloc_blocks sz * 256" by (simp only: of_nat_le_iff)
  then show ?thesis by (auto simp: payload_def block_addr_def distrib_right)
qed

section \<open>Release\<close>

lemma blocks_of_remove:
  assumes inv: "kmem_inv A st" and s: "A s = Some n"
  shows "i \<in> blocks_of (A(s := None)) \<longleftrightarrow> i \<in> blocks_of A \<and> \<not> (s \<le> i \<and> i < s + n)"
proof
  assume "i \<in> blocks_of (A(s := None))"
  then obtain t m where t: "t \<noteq> s" "A t = Some m" "t \<le> i" "i < t + m"
    by (auto simp: blocks_of_def split: if_splits)
  then have "s + n \<le> t \<or> t + m \<le> s" using kmem_invD(5) [OF inv s t(2)] by blast
  with t show "i \<in> blocks_of A \<and> \<not> (s \<le> i \<and> i < s + n)"
    by (auto simp: blocks_of_def)
next
  assume "i \<in> blocks_of A \<and> \<not> (s \<le> i \<and> i < s + n)"
  then obtain t m where "A t = Some m" "t \<le> i" "i < t + m" "\<not> (s \<le> i \<and> i < s + n)"
    by (auto simp: blocks_of_def)
  moreover from this have "t \<noteq> s" using s by auto
  ultimately show "i \<in> blocks_of (A(s := None))" by (auto simp: blocks_of_def)
qed

lemma kfree_live:
  assumes inv: "kmem_inv A st" and s: "A s = Some n"
  obtains st' where "kfree (block_addr st s + 4) st = Some st'" "kmem_inv (A(s := None)) st'"
    "mem st' = mem st" "KERNEL_MEMORY_START st' = KERNEL_MEMORY_START st"
    "KERNEL_MEMORY_END st' = KERNEL_MEMORY_END st" "kallocs st' = kallocs st"
    "length (kmemory_bitmap st') = length (kmemory_bitmap st)"
proof -
  note n = kmem_invD(2-4) [OF inv s]
  have wf: "kmem_wf st" by (rule kmem_invD(1) [OF inv])
  have small: "block_addr st s + 4 < 2 ^ 32"
  proof -
    have "block_addr st s + 256 \<le> block_addr st (s + n)" using n(1) by (intro block_addr_less) simp
    also have "\<dots> \<le> block_addr st (total_blocks st)" using n(2) by (rule block_addr_mono)
    also have "\<dots> \<le> KERNEL_MEMORY_END st"
      using total_blocks_bytes [OF wf] wf by (auto simp: block_addr_def kmem_wf_def)
    finally show ?thesis using wf by (simp add: kmem_wf_def)
  qed
  have "(of_nat (block_addr st s + 4) - of_nat (KERNEL_MEMORY_START st) :: u32) = of_nat (s * 256 + 4)"
    by (simp add: block_addr_def)
  moreover have "s * 256 + 4 < 2 ^ 32" using small by (simp add: block_addr_def)
  ultimately have "unat (of_nat (block_addr st s + 4) - of_nat (KERNEL_MEMORY_START st) :: u32) = s * 256 + 4"
    by (simp only:) (rule of_nat_inverse [OF refl], simp)
  then have idx: "unat (of_nat (block_addr st s + 4) - of_nat (KERNEL_MEMORY_START st) :: u32) div 256 = s"
    by simp
  have adr: "(KERNEL_MEMORY_START st + s * 256) mod 2 ^ 32 = block_addr st s" using small by (simp add: block_addr_def)
  have "n < 2 ^ 31" using n(2) total_blocks_less [OF wf] by simp
  then have cnt: "nat (sint (of_nat n :: u32)) = n"
    by (simp add: signed_of_nat signed_take_bit_int_eq_self)
  have "fits (kmemory_bitmap st) (s + n)" using wf n(2) by (simp add: kmem_wf_def fits_def)
  then obtain b where b: "bitmap_unset_continous (kmemory_bitmap st) s n = Some b"
    "length b = length (kmemory_bitmap st)"
    "\<And>j. bitset b j \<longleftrightarrow> bitset (kmemory_bitmap st) j \<and> \<not> (s \<le> j \<and> j < s + n)"
    using bitmap_unset_continous_bitset by blast
  define st' where "st' = st\<lparr>kmemory_bitmap := b,
     kmemory_used := kmemory_used st - of_nat n * of_nat KMEM_BLOCK_SIZE\<rparr>"
  have ptr: "block_addr st s + 4 \<noteq> 0" by simp
  have "kfree (block_addr st s + 4) st = Some st'"
    using b(1) n(3) cnt ptr unfolding kfree_def bitmap_unset_continous_def Let_def idx adr st'_def
    by simp
  moreover have "kmem_inv (A(s := None)) st'"
  proof -
    have dom: "dom A = insert s (dom (A(s := None)))" "s \<notin> dom (A(s := None))"
      using s by auto
    have "(\<Sum>t\<in>dom A. the (A t) * 256) =
        n * 256 + (\<Sum>t\<in>dom (A(s := None)). the ((A(s := None)) t) * 256)"
    proof -
      have "(\<Sum>t\<in>dom (A(s := None)). the (A t) * 256) =
          (\<Sum>t\<in>dom (A(s := None)). the ((A(s := None)) t) * 256)"
        by (rule sum.cong) auto
      then show ?thesis using s kmem_invD(7) [OF inv] unfolding dom(1)
        by (subst sum.insert) (use dom(2) in auto)
    qed
    then have "kmemory_used st - of_nat n * of_nat 256 =
        of_nat (\<Sum>t\<in>dom (A(s := None)). the ((A(s := None)) t) * 256)"
      unfolding kmem_invD(8) [OF inv] by (simp only: of_nat_add of_nat_mult) simp
    then show ?thesis
      using inv b(2,3) wf blocks_of_remove [OF inv s] unfolding st'_def kmem_inv_def
      by (auto simp: kmem_wf_def fits_def total_blocks_def block_addr_def)
  qed
  ultimately show ?thesis using that [of st'] b(2) by (simp add: st'_def)
qed

section \<open>Reallocation\<close>

lemma kmem_inv_sel:
  "payload (st\<lparr>mem := m\<rparr>) s n = payload st s n" "block_addr (st\<lparr>mem := m\<rparr>) s = block_addr st s"
  by (simp_all add: payload_def block_addr_def)

lemma krealloc_moved:
  assumes inv: "kmem_inv A st" and s: "A s = Some n" and pos: "0 < sz"
    and al: "kalloc sz st = Some (block_addr st t + 4, kalloc_state st t (kalloc_blocks sz) b)"
    and run: "free_run (kmemory_bitmap st) (kalloc_blocks sz) t"
    and inv1: "kmem_inv (A(t \<mapsto> kalloc_blocks sz)) (kalloc_state st t (kalloc_blocks sz) b)"
  shows "\<exists>st'. krealloc (block_addr st s + 4) sz st = Some (block_addr st t + 4, st') \<and> A t = None \<and>
    kmem_inv ((A(t \<mapsto> kalloc_blocks sz))(s := None)) st' \<and>
    (\<forall>i < nat sz. block_addr st s + 4 + i \<in> payload st s n \<longrightarrow>
       mem st' (block_addr st t + 4 + i) = mem st (block_addr st s + 4 + i)) \<and>
    KERNEL_MEMORY_START st' = KERNEL_MEMORY_START st \<and> KERNEL_MEMORY_END st' = KERNEL_MEMORY_END st \<and>
    (\<forall>u m x. A u = Some m \<longrightarrow> u \<noteq> s \<longrightarrow> x \<in> payload st u m \<longrightarrow> mem st' x = mem st x)"
proof -
  let ?n = "kalloc_blocks sz" and ?old = "block_addr st s + 4"
  define st1 where "st1 = kalloc_state st t ?n b"
  note dis = free_run_disjoint [OF inv run _ kalloc_blocks_enough(1) [OF pos]]
  have t: "A t = None" using dis [of t] by (cases "A t") auto
  then have ts: "t \<noteq> s" and s1: "(A(t \<mapsto> ?n)) s = Some n" using s by auto
  have pl: "payload st1 u m = payload st u m" for u m by (simp add: payload_def st1_def)
  define st2 where "st2 = st1\<lparr>mem := memcpy (mem st1) (block_addr st t + 4) ?old (nat sz)\<rparr>"
  have reg: "{block_addr st t + 4 ..< block_addr st t + 4 + nat sz} \<subseteq> payload st t ?n"
    by (rule region_in_payload [OF pos])
  have inv2: "kmem_inv (A(t \<mapsto> ?n)) st2"
    unfolding st2_def
  proof (rule kmem_inv_payload_write)
    show "kmem_inv (A(t \<mapsto> ?n)) st1" "(A(t \<mapsto> ?n)) t = Some ?n" using inv1 by (simp_all add: st1_def)
    fix x assume "x \<notin> payload st1 t ?n"
    then show "memcpy (mem st1) (block_addr st t + 4) ?old (nat sz) x = mem st1 x"
      using reg unfolding pl by (intro memcpy_other) (meson atLeastLessThan_iff not_le subsetD)
  qed
  have addr: "block_addr st2 s = block_addr st s" by (simp add: st2_def st1_def kmem_inv_sel)
  have nz: "block_addr st t + 4 \<noteq> 0" "?old \<noteq> 0" by simp_all
  obtain st3 where st3: "kfree ?old st2 = Some st3" "kmem_inv ((A(t \<mapsto> ?n))(s := None)) st3"
    "mem st3 = mem st2" "KERNEL_MEMORY_START st3 = KERNEL_MEMORY_START st2" "KERNEL_MEMORY_END st3 = KERNEL_MEMORY_END st2"
    using kfree_live [OF inv2 s1] unfolding addr by blast
  have re: "krealloc ?old sz st = Some (block_addr st t + 4, st3)"
    using al st3(1) nz pos unfolding krealloc_def st2_def st1_def by auto
  have head: "x < block_addr st t \<or> block_addr st t + 4 \<le> x" if u: "A u = Some m" "u \<noteq> t" "x \<in> payload st u m" for u m x
  proof -
    have ne: "x \<noteq> block_addr st t + j" if "j < 4" for j
      using payload_not_head [OF inv1, of u m t ?n j x] u that by (simp add: pl [unfolded st1_def])
    show ?thesis using ne [of "x - block_addr st t"] by linarith
  qed
  have out: "x \<notin> payload st t ?n" if "A u = Some m" "u \<noteq> t" "x \<in> payload st u m" for u m x
    using payload_disjoint [OF inv1, of u m t ?n] that by (auto simp: pl [unfolded st1_def])
  have frame: "mem st3 x = mem st x" if u: "A u = Some m" "x \<in> payload st u m" for u m x
  proof -
    have ut: "u \<noteq> t" using u(1) t by auto
    have "mem st3 x = mem st1 x"
      unfolding st3(3) st2_def using out [OF u(1) ut u(2)] reg by (auto intro!: memcpy_other simp: subset_iff not_less)
    also have "\<dots> = mem st x" using head [OF u(1) ut u(2)] by (simp add: st1_def store32_other)
    finally show ?thesis .
  qed
  have "mem st3 (block_addr st t + 4 + i) = mem st (?old + i)" if i: "i < nat sz" and x: "?old + i \<in> payload st s n" for i
  proof -
    have "mem st3 (block_addr st t + 4 + i) = mem st1 (?old + i)"
      unfolding st3(3) st2_def using out [OF s _ x] ts reg i by (auto intro!: memcpy_nth simp: subset_iff)
    also have "\<dots> = mem st (?old + i)" using head [OF s _ x] ts by (simp add: st1_def store32_other)
    finally show ?thesis .
  qed
  then show ?thesis using re t st3(2,4,5) frame by (auto simp: st2_def st1_def)
qed

lemma krealloc_live:
  assumes inv: "kmem_inv A st" and s: "A s = Some n" and pos: "0 < sz"
  shows "(krealloc (block_addr st s + 4) sz st = None \<and>
      (\<forall>t. t + kalloc_blocks sz \<le> total_blocks st \<longrightarrow> \<not> free_run (kmemory_bitmap st) (kalloc_blocks sz) t)) \<or>
    (\<exists>t st'. krealloc (block_addr st s + 4) sz st = Some (block_addr st t + 4, st') \<and> A t = None \<and>
      kmem_inv ((A(t \<mapsto> kalloc_blocks sz))(s := None)) st' \<and>
      (\<forall>i < nat sz. block_addr st s + 4 + i \<in> payload st s n \<longrightarrow>
         mem st' (block_addr st t + 4 + i) = mem st (block_addr st s + 4 + i)) \<and>
      KERNEL_MEMORY_START st' = KERNEL_MEMORY_START st \<and> KERNEL_MEMORY_END st' = KERNEL_MEMORY_END st \<and>
      (\<forall>u m x. A u = Some m \<longrightarrow> u \<noteq> s \<longrightarrow> x \<in> payload st u m \<longrightarrow> mem st' x = mem st x))" (is "?panic \<or> ?moved")
proof -
  let ?n = "kalloc_blocks sz" and ?old = "block_addr st s + 4"
  consider ?panic | t b where "kalloc sz st = Some (block_addr st t + 4, kalloc_state st t ?n b)"
      "free_run (kmemory_bitmap st) ?n t" "kmem_inv (A(t \<mapsto> ?n)) (kalloc_state st t ?n b)"
    by (rule kalloc_cases [OF inv pos]) (use pos in \<open>auto simp: krealloc_def block_addr_def\<close>)
  then show ?thesis
  proof cases
    case 1
    then show ?thesis by blast
  next
    case al: 2
    show ?thesis using krealloc_moved [OF inv s pos al] by blast
  qed
qed

section \<open>The memory map and the boot of the heap\<close>

lemma palloc_ok:
  "0 < sz \<Longrightarrow> memory_permanent_start st \<noteq> 0 \<Longrightarrow> memory_permanent_end st \<noteq> 0 \<Longrightarrow>
   memory_permanent_start st + nat (ALIGN sz 4) < memory_permanent_end st \<Longrightarrow>
   palloc sz st = (memory_permanent_start st + nat (ALIGN sz 4),
     st\<lparr>memory_permanent_start := memory_permanent_start st + nat (ALIGN sz 4)\<rparr>)"
  by (simp add: palloc_def Let_def)

lemma memory_map_layout:
  assumes "4 * 1024 * 1024 \<le> tot"
  defines "mm \<equiv> memory_map_init tot"
  shows "from_addr (kernel mm) = 1024 * 1024" "to_addr (kernel mm) = from_addr (permanent mm)"
    "to_addr (permanent mm) = from_addr (virtual_memory mm)"
    "to_addr (virtual_memory mm) \<le> 1024 * 1024 + tot"
    "to_addr (virtual_memory mm) = 1024 * 1024 + map_total mm"
    "0 < region_total (kernel mm)" "0 < region_total (permanent mm)" "0 \<le> region_total (virtual_memory mm)"
    "region_total (kernel mm) mod (1024 * 1024) = 0" "region_total (permanent mm) mod (1024 * 1024) = 0"
    "region_total (virtual_memory mm) mod 4096 = 0"
    "to_addr (kernel mm) = from_addr (kernel mm) + region_total (kernel mm)"
    "to_addr (permanent mm) = from_addr (permanent mm) + region_total (permanent mm)"
    "region_total (kernel mm) \<le> tot div 4 + 1024 * 1024"
proof -
  have mb: "1024 * 1024 = (2::int) ^ 20" by simp
  define p k where "p = ALIGN (tot * 1 div 8) (2 ^ 20)" and "k = ALIGN (tot * 2 div 8) (2 ^ 20)"
  define v where "v = ALIGN_DOWN (tot - p - k) (2 ^ 12)"
  have pk: "tot div 8 \<le> p" "p < tot div 8 + 2 ^ 20" "p mod 2 ^ 20 = 0"
    "tot * 2 div 8 \<le> k" "k < tot * 2 div 8 + 2 ^ 20" "k mod 2 ^ 20 = 0"
    unfolding p_def k_def using ALIGN_pow2 [of "tot div 8" 20] ALIGN_pow2 [of "tot * 2 div 8" 20]
    by simp_all
  have rem: "0 \<le> tot - p - k" using pk assms(1) by simp
  have v: "v \<le> tot - p - k" "v mod 2 ^ 12 = 0" "0 \<le> v"
  proof -
    show "v \<le> tot - p - k" "v mod 2 ^ 12 = 0"
      unfolding v_def by (rule ALIGN_DOWN_pow2_bounds)+
    show "0 \<le> v" using rem unfolding v_def ALIGN_DOWN_pow2
      by (metis diff_ge_0_iff_ge zmod_le_nonneg_dividend)
  qed
  have mm: "mm = \<lparr>kernel = \<lparr>from_addr = 2 ^ 20, to_addr = 2 ^ 20 + k, region_total = k\<rparr>,
      permanent = \<lparr>from_addr = 2 ^ 20 + k, to_addr = 2 ^ 20 + k + p, region_total = p\<rparr>,
      virtual_memory = \<lparr>from_addr = 2 ^ 20 + k + p, to_addr = 2 ^ 20 + k + p + v, region_total = v\<rparr>,
      map_total = p + k + v, initialized = True\<rparr>"
    using v(1) unfolding mm_def memory_map_init_def Let_def float_fraction_def p_def k_def v_def
    by simp
  show "from_addr (kernel mm) = 1024 * 1024" "to_addr (kernel mm) = from_addr (permanent mm)"
    "to_addr (permanent mm) = from_addr (virtual_memory mm)"
    "to_addr (virtual_memory mm) = 1024 * 1024 + map_total mm"
    "to_addr (kernel mm) = from_addr (kernel mm) + region_total (kernel mm)"
    "to_addr (permanent mm) = from_addr (permanent mm) + region_total (permanent mm)"
    unfolding mm by simp_all
  show "region_total (kernel mm) mod (1024 * 1024) = 0" "region_total (permanent mm) mod (1024 * 1024) = 0"
    "region_total (virtual_memory mm) mod 4096 = 0"
    unfolding mm using pk(3,6) v(2) by simp_all
  show "to_addr (virtual_memory mm) \<le> 1024 * 1024 + tot" unfolding mm using v(1) by simp
  show "0 \<le> region_total (virtual_memory mm)" unfolding mm using v(3) by simp
  show "0 < region_total (permanent mm)" unfolding mm using pk(1) assms(1) by simp
  show "0 < region_total (kernel mm)" unfolding mm using pk(4) assms(1) by simp
  show "region_total (kernel mm) \<le> tot div 4 + 1024 * 1024" unfolding mm using pk(5) by simp
qed

section \<open>The heap under any sequence of operations\<close>

text \<open>
  \<open>heap_run st0 st H\<close>: from \<open>st0\<close> on, allocations, reallocations and releases and writes of the owners into their own
  bytes lead to \<open>st\<close>; \<open>H\<close> has the addresses handed out and not released, the size asked for and the bytes
  written there, which a reallocation takes along as far as the new size reaches.
\<close>

type_synonym held = "nat \<rightharpoonup> nat \<times> (nat \<rightharpoonup> u8)"

inductive heap_run :: "kmem \<Rightarrow> kmem \<Rightarrow> held \<Rightarrow> bool" for st0 where
  run_start: "heap_run st0 st0 Map.empty"
| run_alloc: "heap_run st0 st H \<Longrightarrow> 0 < sz \<Longrightarrow> kalloc sz st = Some (p, st') \<Longrightarrow> heap_run st0 st' (H(p \<mapsto> (nat sz, Map.empty)))"
| run_free: "heap_run st0 st H \<Longrightarrow> H p = Some b \<Longrightarrow> kfree p st = Some st' \<Longrightarrow> heap_run st0 st' (H(p := None))"
| run_realloc: "heap_run st0 st H \<Longrightarrow> H p = Some (k, bs) \<Longrightarrow> 0 < sz \<Longrightarrow> krealloc p sz st = Some (q, st') \<Longrightarrow>
    heap_run st0 st' ((H(p := None))(q \<mapsto> (nat sz, bs |` {..< nat sz})))"
| run_write: "heap_run st0 st H \<Longrightarrow> H p = Some (k, bs) \<Longrightarrow> i < k \<Longrightarrow>
    heap_run st0 (st\<lparr>mem := (mem st)(p + i := v)\<rparr>) (H(p \<mapsto> (k, bs(i \<mapsto> v))))"

definition holds_in :: "(nat \<rightharpoonup> nat) \<Rightarrow> kmem \<Rightarrow> nat \<Rightarrow> nat \<Rightarrow> (nat \<rightharpoonup> u8) \<Rightarrow> bool" where
  "holds_in A st s k bs \<longleftrightarrow> (\<exists>n. A s = Some n \<and> {block_addr st s + 4 ..< block_addr st s + 4 + k} \<subseteq> payload st s n) \<and>
     (\<forall>i v. bs i = Some v \<longrightarrow> i < k \<and> mem st (block_addr st s + 4 + i) = v)"

definition held_ok :: "kmem \<Rightarrow> held \<Rightarrow> bool" where
  "held_ok st H \<longleftrightarrow> (\<exists>A. kmem_inv A st \<and>
     (\<forall>p k bs. H p = Some (k, bs) \<longrightarrow> (\<exists>s. p = block_addr st s + 4 \<and> holds_in A st s k bs)))"

lemma payload_region: "KERNEL_MEMORY_START st' = KERNEL_MEMORY_START st \<Longrightarrow> payload st' s n = payload st s n \<and> block_addr st' s = block_addr st s"
  by (simp add: payload_def block_addr_def)

lemma block_addr_inj [simp]: "block_addr st s = block_addr st t \<longleftrightarrow> s = t"
  by (simp add: block_addr_def)

text \<open>An allocation that the operation does not touch stays as it is.\<close>

lemma holds_kept:
  assumes "holds_in A st s k bs" and "A' s = A s" and "KERNEL_MEMORY_START st' = KERNEL_MEMORY_START st"
    and "\<And>n x. A s = Some n \<Longrightarrow> x \<in> payload st s n \<Longrightarrow> mem st' x = mem st x"
  shows "holds_in A' st' s k bs"
proof -
  obtain n where n: "A s = Some n" "{block_addr st s + 4 ..< block_addr st s + 4 + k} \<subseteq> payload st s n"
    using assms(1) by (auto simp: holds_in_def)
  have "mem st' (block_addr st s + 4 + i) = mem st (block_addr st s + 4 + i)" if "i < k" for i
  proof (rule assms(4) [OF n(1)])
    have "block_addr st s + 4 + i \<in> {block_addr st s + 4 ..< block_addr st s + 4 + k}" using that by simp
    then show "block_addr st s + 4 + i \<in> payload st s n" using n(2) by (rule set_mp [rotated])
  qed
  then show ?thesis using assms(1,2) payload_region [OF assms(3)] unfolding holds_in_def by auto
qed

lemma held_alloc:
  assumes ok: "held_ok st H" and pos: "0 < sz" and al: "kalloc sz st = Some (p, st')"
  shows "held_ok st' (H(p \<mapsto> (nat sz, Map.empty)))"
proof -
  let ?n = "kalloc_blocks sz"
  obtain A where inv: "kmem_inv A st" and H: "\<And>p k bs. H p = Some (k, bs) \<Longrightarrow> \<exists>s. p = block_addr st s + 4 \<and> holds_in A st s k bs"
    using ok unfolding held_ok_def by blast
  obtain s b where eq: "p = block_addr st s + 4" "st' = kalloc_state st s ?n b"
    and run: "free_run (kmemory_bitmap st) ?n s" and inv': "kmem_inv (A(s \<mapsto> ?n)) st'"
    by (rule kalloc_cases [OF inv pos]) (use al in auto)
  have st: "KERNEL_MEMORY_START st' = KERNEL_MEMORY_START st" by (simp add: eq)
  note dis = free_run_disjoint [OF inv run _ kalloc_blocks_enough(1) [OF pos]]
  have "holds_in (A(s \<mapsto> ?n)) st' t k bs" if hold: "holds_in A st t k bs" for t k bs
  proof (rule holds_kept [OF hold _ st])
    obtain m where t: "A t = Some m" using hold by (auto simp: holds_in_def)
    show "(A(s \<mapsto> ?n)) t = A t" using dis [OF t] by simp
    fix m x assume "A t = Some m" "x \<in> payload st t m"
    moreover from this(1) have "s < t \<or> t + m \<le> s" using dis [of t m] by arith
    ultimately have "x < block_addr st s \<or> block_addr st s + 4 \<le> x"
      using block_addr_less [of s t st] block_addr_mono [of "t + m" s st] by (auto simp: payload_def)
    then show "mem st' x = mem st x" by (simp add: eq store32_other)
  qed
  moreover have "holds_in (A(s \<mapsto> ?n)) st' s (nat sz) Map.empty"
    using region_in_payload [OF pos, of st s] payload_region [OF st] by (simp add: holds_in_def)
  ultimately show ?thesis using inv' H payload_region [OF st] eq(1) unfolding held_ok_def
    by (auto intro!: exI [of _ "A(s \<mapsto> ?n)"] split: if_splits) blast
qed

lemma held_free:
  assumes ok: "held_ok st H" and p: "H p = Some b" and fr: "kfree p st = Some st'"
  shows "held_ok st' (H(p := None))"
proof -
  obtain A where inv: "kmem_inv A st" and H: "\<And>p k bs. H p = Some (k, bs) \<Longrightarrow> \<exists>s. p = block_addr st s + 4 \<and> holds_in A st s k bs"
    using ok unfolding held_ok_def by blast
  obtain s n where s: "p = block_addr st s + 4" "A s = Some n" using H [of p "fst b" "snd b"] p by (auto simp: holds_in_def)
  obtain st'' where "kfree p st = Some st''" "kmem_inv (A(s := None)) st''" "mem st'' = mem st"
    "KERNEL_MEMORY_START st'' = KERNEL_MEMORY_START st" unfolding s(1) by (rule kfree_live [OF inv s(2)])
  then have f: "kmem_inv (A(s := None)) st'" "mem st' = mem st" "KERNEL_MEMORY_START st' = KERNEL_MEMORY_START st" using fr by auto
  have "\<exists>t. q = block_addr st' t + 4 \<and> holds_in (A(s := None)) st' t k bs" if q: "H q = Some (k, bs)" "q \<noteq> p" for q k bs
  proof -
    obtain t where t: "q = block_addr st t + 4" "holds_in A st t k bs" using H [OF q(1)] by blast
    then have "t \<noteq> s" using q(2) s(1) by auto
    then have "holds_in (A(s := None)) st' t k bs" by (intro holds_kept [OF t(2)]) (use f in auto)
    then show ?thesis using t(1) payload_region [OF f(3)] by auto
  qed
  then show ?thesis using f(1) by (auto simp: held_ok_def)
qed

lemma held_realloc:
  assumes ok: "held_ok st H" and p: "H p = Some (k, bs)" and pos: "0 < sz" and re: "krealloc p sz st = Some (q, st')"
  shows "held_ok st' ((H(p := None))(q \<mapsto> (nat sz, bs |` {..< nat sz})))"
proof -
  let ?n = "kalloc_blocks sz"
  obtain A where inv: "kmem_inv A st" and H: "\<And>p k bs. H p = Some (k, bs) \<Longrightarrow> \<exists>s. p = block_addr st s + 4 \<and> holds_in A st s k bs"
    using ok unfolding held_ok_def by blast
  obtain s n where s: "p = block_addr st s + 4" "holds_in A st s k bs" "A s = Some n" using H [OF p] by (auto simp: holds_in_def)
  obtain t where t: "q = block_addr st t + 4" "A t = None" "kmem_inv ((A(t \<mapsto> ?n))(s := None)) st'"
    "\<forall>i < nat sz. block_addr st s + 4 + i \<in> payload st s n \<longrightarrow> mem st' (block_addr st t + 4 + i) = mem st (block_addr st s + 4 + i)"
    "KERNEL_MEMORY_START st' = KERNEL_MEMORY_START st" "\<forall>u m x. A u = Some m \<longrightarrow> u \<noteq> s \<longrightarrow> x \<in> payload st u m \<longrightarrow> mem st' x = mem st x"
    using krealloc_live [OF inv s(3) pos] re unfolding s(1) by auto
  let ?A = "(A(t \<mapsto> ?n))(s := None)"
  have ts: "t \<noteq> s" using t(2) s(3) by auto
  have "holds_in ?A st' t (nat sz) (bs |` {..< nat sz})"
    using s(2,3) t(4) ts region_in_payload [OF pos, of st t] payload_region [OF t(5)]
    by (auto simp: holds_in_def restrict_map_def subset_iff split: if_splits)
  moreover have "\<exists>u. r = block_addr st' u + 4 \<and> holds_in ?A st' u l cs" if r: "H r = Some (l, cs)" "r \<noteq> p" for r l cs
  proof -
    obtain u where u: "r = block_addr st u + 4" "holds_in A st u l cs" using H [OF r(1)] by blast
    then have "u \<noteq> s" "u \<noteq> t" using r(2) s(1) t(2) by (auto simp: holds_in_def)
    then have "holds_in ?A st' u l cs" by (intro holds_kept [OF u(2)]) (use t(5,6) in auto)
    then show ?thesis using u(1) payload_region [OF t(5)] by auto
  qed
  ultimately show ?thesis using t(1,3) payload_region [OF t(5)] unfolding held_ok_def
    by (intro exI [of _ ?A]) (auto split: if_splits)
qed

lemma held_write:
  assumes ok: "held_ok st H" and p: "H p = Some (k, bs)" and i: "i < k"
  shows "held_ok (st\<lparr>mem := (mem st)(p + i := v)\<rparr>) (H(p \<mapsto> (k, bs(i \<mapsto> v))))"
proof -
  let ?st = "st\<lparr>mem := (mem st)(p + i := v)\<rparr>"
  obtain A where inv: "kmem_inv A st" and H: "\<And>p k bs. H p = Some (k, bs) \<Longrightarrow> \<exists>s. p = block_addr st s + 4 \<and> holds_in A st s k bs"
    using ok unfolding held_ok_def by blast
  obtain s n where s: "p = block_addr st s + 4" "holds_in A st s k bs" "A s = Some n" using H [OF p] by (auto simp: holds_in_def)
  have pi: "p + i \<in> payload st s n" using s i by (auto simp: holds_in_def)
  have inv': "kmem_inv A ?st" by (rule kmem_inv_payload_write [OF inv s(3)]) (use pi in auto)
  have "holds_in A ?st s k (bs(i \<mapsto> v))" using s i by (auto simp: holds_in_def kmem_inv_sel)
  moreover have "\<exists>u. r = block_addr st u + 4 \<and> holds_in A ?st u l cs" if r: "H r = Some (l, cs)" "r \<noteq> p" for r l cs
  proof -
    obtain u where u: "r = block_addr st u + 4" "holds_in A st u l cs" using H [OF r(1)] by blast
    then have us: "u \<noteq> s" using r(2) s(1) by auto
    have "holds_in A ?st u l cs"
    proof (rule holds_kept [OF u(2)])
      fix m x assume "A u = Some m" "x \<in> payload st u m"
      then have "x \<noteq> p + i" using payload_disjoint [OF inv s(3) _ us [symmetric]] pi by auto
      then show "mem ?st x = mem st x" by simp
    qed simp_all
    then show ?thesis using u(1) by blast
  qed
  ultimately show ?thesis using inv' s(1) unfolding held_ok_def kmem_inv_sel
    by (intro exI [of _ A]) (auto split: if_splits)
qed

lemma heap_run_ok: "heap_run st0 st H \<Longrightarrow> kmem_inv Map.empty st0 \<Longrightarrow> held_ok st H"
proof (induction rule: heap_run.induct)
  case run_start
  then show ?case by (auto simp: held_ok_def)
qed (blast intro: held_alloc held_free held_realloc held_write)+

section \<open>Properties\<close>

text \<open>
  C1. On a well-formed heap \<open>kalloc\<close> of a positive size either panics, and then no run of free
  blocks of that length exists (its comment promises a return of NULL there, but the code calls
  \<open>kernel_panic\<close>), or returns an address whose \<open>sz\<close> bytes lie inside the kernel
  region and apart from every live allocation, and leaves the heap well formed with the run added.
\<close>

theorem kalloc_correct:
  assumes inv: "kmem_inv A st" and pos: "0 < sz"
  shows "case kalloc sz st of
      None \<Rightarrow> \<forall>s. s + kalloc_blocks sz \<le> total_blocks st \<longrightarrow>
        \<not> free_run (kmemory_bitmap st) (kalloc_blocks sz) s
    | Some (p, st') \<Rightarrow> \<exists>s. p = block_addr st s + 4 \<and> kmem_inv (A(s \<mapsto> kalloc_blocks sz)) st' \<and>
        {p ..< p + nat sz} \<subseteq> {KERNEL_MEMORY_START st ..< KERNEL_MEMORY_END st} \<and>
        (\<forall>t n. A t = Some n \<longrightarrow> {p ..< p + nat sz} \<inter> payload st t n = {})"
proof (rule kalloc_cases [OF inv pos])
  assume "kalloc sz st = None"
    and "\<And>s. s + kalloc_blocks sz \<le> total_blocks st \<Longrightarrow>
           \<not> free_run (kmemory_bitmap st) (kalloc_blocks sz) s"
  then show ?thesis by simp
next
  fix s b
  let ?n = "kalloc_blocks sz"
  let ?st' = "kalloc_state st s ?n b"
  assume eq: "kalloc sz st = Some (block_addr st s + 4, ?st')"
    and run: "free_run (kmemory_bitmap st) ?n s" and inv': "kmem_inv (A(s \<mapsto> ?n)) ?st'"
  have pl: "payload ?st' t n = payload st t n" for t n by (simp add: payload_def)
  have reg: "{block_addr st s + 4 ..< block_addr st s + 4 + nat sz} \<subseteq> payload st s ?n"
    by (rule region_in_payload [OF pos])
  have "payload st s ?n \<subseteq> {KERNEL_MEMORY_START st ..< KERNEL_MEMORY_END st}"
    using payload_bounds [OF inv', of s ?n] by (simp add: pl)
  moreover have "payload st s ?n \<inter> payload st t n = {}" if t: "A t = Some n" for t n
  proof -
    have "t \<noteq> s" using free_run_disjoint [OF inv run t] kalloc_blocks_enough(1) [OF pos] by simp
    with t show ?thesis using payload_disjoint [OF inv', of s ?n t n] by (simp add: pl)
  qed
  ultimately have "{block_addr st s + 4 ..< block_addr st s + 4 + nat sz}
      \<subseteq> {KERNEL_MEMORY_START st ..< KERNEL_MEMORY_END st}"
    "\<forall>t n. A t = Some n \<longrightarrow>
      {block_addr st s + 4 ..< block_addr st s + 4 + nat sz} \<inter> payload st t n = {}"
    using reg by blast+
  then show ?thesis unfolding eq option.case prod.case using inv' by blast
qed

text \<open>
  C2. \<open>kfree\<close> of the address \<open>kalloc\<close> returned succeeds and gives back the heap before the
  allocation: the same blocks are free, the same bytes are accounted for and every live
  allocation keeps its contents.
\<close>

theorem kalloc_kfree_roundtrip:
  assumes inv: "kmem_inv A st" and pos: "0 < sz" and alloc: "kalloc sz st = Some (p, st')"
  shows "\<exists>st''. kfree p st' = Some st'' \<and> kmem_inv A st'' \<and>
    bitset (kmemory_bitmap st'') = bitset (kmemory_bitmap st) \<and>
    kmemory_used st'' = kmemory_used st \<and>
    (\<forall>t n x. A t = Some n \<longrightarrow> x \<in> payload st t n \<longrightarrow> mem st'' x = mem st x)"
proof -
  let ?n = "kalloc_blocks sz"
  obtain s b where eq: "p = block_addr st s + 4" "st' = kalloc_state st s ?n b"
    and run: "free_run (kmemory_bitmap st) ?n s" and inv': "kmem_inv (A(s \<mapsto> ?n)) st'"
    by (rule kalloc_cases [OF inv pos]) (use alloc in auto)
  note dis = free_run_disjoint [OF inv run _ kalloc_blocks_enough(1) [OF pos]]
  have s: "A s = None" using dis [of s] by (cases "A s") auto
  obtain st'' where st'': "kfree p st' = Some st''" "kmem_inv ((A(s \<mapsto> ?n))(s := None)) st''"
    "mem st'' = mem st'"
    using kfree_live [OF inv', of s ?n] by (auto simp: eq)
  have inv'': "kmem_inv A st''" using st''(2) s by (simp add: fun_upd_idem)
  have "bitset (kmemory_bitmap st'') = bitset (kmemory_bitmap st)"
    using kmem_invD(6) [OF inv] kmem_invD(6) [OF inv''] by (simp add: fun_eq_iff)
  moreover have "kmemory_used st'' = kmemory_used st"
    by (simp only: kmem_invD(8) [OF inv] kmem_invD(8) [OF inv''])
  moreover have "mem st'' x = mem st x" if t: "A t = Some n" and x: "x \<in> payload st t n" for t n x
  proof -
    have "s < t \<or> t + n \<le> s" using dis [OF t] by arith
    then have "x < block_addr st s \<or> block_addr st s + 4 \<le> x"
      using x block_addr_less [of s t st] block_addr_mono [of "t + n" s st]
      by (auto simp: payload_def)
    then show ?thesis by (simp add: st''(3) eq store32_other)
  qed
  ultimately show ?thesis using st''(1) inv'' by blast
qed

text \<open>
  C4. The owners of allocations are isolated. After any sequence of \<open>kalloc\<close>, \<open>krealloc\<close> and \<open>kfree\<close> calls and of
  writes of the owners into their own bytes, from an empty heap: every allocation not released lies in
  the kernel region, still has every byte its owner wrote last (kept by reallocations as far as the
  size reaches), can be released, and overlaps no other one.
\<close>

theorem kmem_isolation:
  assumes "kmem_inv Map.empty st0" and "heap_run st0 st H"
  shows "(\<forall>p k bs. H p = Some (k, bs) \<longrightarrow>
      {p ..< p + k} \<subseteq> {KERNEL_MEMORY_START st ..< KERNEL_MEMORY_END st} \<and> (\<forall>i v. bs i = Some v \<longrightarrow> mem st (p + i) = v) \<and> kfree p st \<noteq> None) \<and>
    (\<forall>p q k l bs cs. H p = Some (k, bs) \<longrightarrow> H q = Some (l, cs) \<longrightarrow> p \<noteq> q \<longrightarrow> {p ..< p + k} \<inter> {q ..< q + l} = {})"
proof -
  obtain A where inv: "kmem_inv A st" and H: "\<And>p k bs. H p = Some (k, bs) \<Longrightarrow> \<exists>s. p = block_addr st s + 4 \<and> holds_in A st s k bs"
    using heap_run_ok [OF assms(2,1)] unfolding held_ok_def by blast
  have one: "{p ..< p + k} \<subseteq> {KERNEL_MEMORY_START st ..< KERNEL_MEMORY_END st} \<and> (\<forall>i v. bs i = Some v \<longrightarrow> mem st (p + i) = v) \<and> kfree p st \<noteq> None"
    if p: "H p = Some (k, bs)" for p k bs
  proof -
    obtain s n where s: "p = block_addr st s + 4" "A s = Some n" "{p ..< p + k} \<subseteq> payload st s n" "\<forall>i v. bs i = Some v \<longrightarrow> mem st (p + i) = v"
      using H [OF p] by (auto simp: holds_in_def)
    have "kfree p st \<noteq> None" unfolding s(1) by (rule kfree_live [OF inv s(2)]) simp
    then show ?thesis using s(3,4) payload_bounds [OF inv s(2)] by blast
  qed
  have two: "{p ..< p + k} \<inter> {q ..< q + l} = {}" if p: "H p = Some (k, bs)" and q: "H q = Some (l, cs)" and ne: "p \<noteq> q" for p q k l bs cs
  proof -
    obtain s n where s: "p = block_addr st s + 4" "A s = Some n" "{p ..< p + k} \<subseteq> payload st s n" using H [OF p] by (auto simp: holds_in_def)
    obtain t m where t: "q = block_addr st t + 4" "A t = Some m" "{q ..< q + l} \<subseteq> payload st t m" using H [OF q] by (auto simp: holds_in_def)
    have "s \<noteq> t" using ne s(1) t(1) by auto
    then show ?thesis using payload_disjoint [OF inv s(2) t(2)] s(3) t(3) by blast
  qed
  show ?thesis by (rule conjI; intro allI impI) (rule one, assumption, rule two)
qed

text \<open>
  C3. \<open>krealloc\<close> of a live allocation to a positive size either panics, and then no run of free blocks
  has the length asked for, or gives a fresh allocation that holds the old contents as far as both
  reach, releases the old one and keeps the heap well formed.
\<close>

theorem krealloc_preserves_contents:
  assumes "kmem_inv A st" and "A s = Some n" and "0 < sz"
  shows "case krealloc (block_addr st s + 4) sz st of
      None \<Rightarrow> \<forall>t. t + kalloc_blocks sz \<le> total_blocks st \<longrightarrow>
        \<not> free_run (kmemory_bitmap st) (kalloc_blocks sz) t
    | Some (p, st') \<Rightarrow> \<exists>t. p = block_addr st t + 4 \<and> A t = None \<and>
        kmem_inv ((A(t \<mapsto> kalloc_blocks sz))(s := None)) st' \<and>
        (\<forall>i < nat sz. block_addr st s + 4 + i \<in> payload st s n \<longrightarrow>
           mem st' (p + i) = mem st (block_addr st s + 4 + i))"
  using krealloc_live [OF assms] by (elim disjE conjE exE) (simp_all only: option.case prod.case, blast+)

text \<open>
  The arena \<open>palloc\<close> returns the address behind the bytes it reserves. So the regions of two
  allocations made one after the other overlap whenever the second is the smaller one.
\<close>

theorem palloc_overlap:
  assumes "0 < a" and "0 < b" and "palloc a st = (p, st1)" and "p \<noteq> 0"
    and "palloc b st1 = (q, st2)" and "q \<noteq> 0"
  shows "p = memory_permanent_start st + nat (ALIGN a 4) \<and> q = p + nat (ALIGN b 4) \<and>
    ({p ..< p + nat (ALIGN a 4)} \<inter> {q ..< q + nat (ALIGN b 4)} \<noteq> {} \<longleftrightarrow> ALIGN b 4 < ALIGN a 4)"
proof -
  have A: "0 < ALIGN a 4" "0 < ALIGN b 4" using ALIGN_4_bounds [of a] ALIGN_4_bounds [of b] assms(1,2)
    by linarith+
  have p: "p = memory_permanent_start st + nat (ALIGN a 4)" "memory_permanent_start st1 = p"
    using assms(1,3,4) by (auto simp: palloc_def Let_def split: if_splits)
  have q: "q = p + nat (ALIGN b 4)"
    using assms(2,5,6) p(2) by (auto simp: palloc_def Let_def split: if_splits)
  have "{p ..< p + nat (ALIGN a 4)} \<inter> {q ..< q + nat (ALIGN b 4)} \<noteq> {} \<longleftrightarrow> q < p + nat (ALIGN a 4)"
    using A q by (auto intro!: bexI [of _ q])
  then show ?thesis using A p(1) q by auto
qed

text \<open>
  C6. For 4MB of memory or more, and less than 16MB, below which the conversions to \<open>float\<close> are exact, the memory map splits it, from 1MB up, into three adjacent regions
  that stay inside it: the kernel heap, the permanent arena and the paged memory; and
  \<open>kmem_init\<close> on that map succeeds with an empty, well-formed heap.
\<close>

theorem memory_map_boot:
  assumes "4 * 1024 * 1024 \<le> tot" and "tot < 2 ^ 24" and "kmemory_used st = 0"
  shows "(let mm = memory_map_init tot in
      from_addr (kernel mm) = 1024 * 1024 \<and> to_addr (kernel mm) = from_addr (permanent mm) \<and>
      to_addr (permanent mm) = from_addr (virtual_memory mm) \<and>
      to_addr (virtual_memory mm) \<le> 1024 * 1024 + tot \<and>
      (\<exists>st'. kmem_init mm st = Some st' \<and> kmem_inv Map.empty st' \<and>
         KERNEL_MEMORY_START st' = nat (from_addr (kernel mm)) \<and>
         KERNEL_MEMORY_END st' = nat (to_addr (kernel mm))))"
proof -
  define mm where "mm = memory_map_init tot"
  note lay = memory_map_layout [OF assms(1), folded mm_def]
  define k where "k = region_total (kernel mm)"
  have k: "0 < k" "k mod (1024 * 1024) = 0" "k \<le> tot div 4 + 1024 * 1024" using lay by (simp_all add: k_def)
  define bytes where "bytes = k div 256 div 8"
  obtain q where q: "k = 2048 * (512 * q)" "0 < q"
  proof -
    have "1024 * 1024 dvd k" using k(2) by (simp only: dvd_eq_mod_eq_0)
    then obtain q where "k = 1024 * 1024 * q" by (rule dvdE)
    then show ?thesis using that [of q] k(1) by simp
  qed
  have bq: "bytes = 512 * q" unfolding bytes_def q(1) by (simp add: zdiv_zmult2_eq [symmetric])
  have b8: "nat bytes * 8 = nat k div 256" "0 < bytes"
  proof -
    show "0 < bytes" using bq q(2) by simp
    have "nat k = 256 * (nat bytes * 8)"
      using q bq by (simp add: nat_mult_distrib)
    then show "nat bytes * 8 = nat k div 256" by simp
  qed
  have perm: "0 < nat (from_addr (permanent mm))"
    "nat (to_addr (permanent mm)) = nat (from_addr (permanent mm)) + nat (region_total (permanent mm))"
    using lay(1,2,6,7,12,13) by (simp_all only: nat_add_distrib zero_less_nat_eq)
  have pm: "1024 * 1024 \<le> region_total (permanent mm)" using lay(7,10)
    by (intro zdvd_imp_le) (simp_all only: dvd_eq_mod_eq_0)
  have small: "ALIGN bytes 4 < 1024 * 1024"
    using k assms(2) ALIGN_4_bounds(2) [of bytes] by (simp add: bytes_def)
  have "0 \<le> ALIGN bytes 4" using ALIGN_4_bounds(1) [of bytes] b8(2) by simp
  define st1 where "st1 = st\<lparr>memory_permanent_start := nat (from_addr (permanent mm)),
     memory_permanent_end := nat (to_addr (permanent mm)),
     KERNEL_MEMORY_START := nat (from_addr (kernel mm)),
     KERNEL_MEMORY_END := nat (to_addr (kernel mm))\<rparr>"
  obtain q st2 where pa: "palloc bytes st1 = (q, st2)" "q \<noteq> 0"
    "KERNEL_MEMORY_START st2 = KERNEL_MEMORY_START st1" "KERNEL_MEMORY_END st2 = KERNEL_MEMORY_END st1"
    "kmemory_used st2 = 0"
  proof -
    have "palloc bytes st1 = (memory_permanent_start st1 + nat (ALIGN bytes 4),
        st1\<lparr>memory_permanent_start := memory_permanent_start st1 + nat (ALIGN bytes 4)\<rparr>)"
      using perm pm small b8(2) by (intro palloc_ok) (auto simp: st1_def)
    then show thesis using that perm assms(3) by (auto simp: st1_def)
  qed
  define st' where "st' = st2\<lparr>kmemory_bitmap := replicate (nat bytes) 0\<rparr>"
  have init: "kmem_init mm st = Some st'"
    using pa(1,2) unfolding kmem_init_def Let_def st1_def [symmetric] k_def [symmetric]
      bytes_def [symmetric] st'_def by simp
  have ends: "KERNEL_MEMORY_START st' = 1024 * 1024" "KERNEL_MEMORY_END st' = 1024 * 1024 + nat k"
    using pa(3,4) lay(1,12) k(1) by (simp_all add: st'_def st1_def k_def nat_add_distrib)
  have "kmem_inv Map.empty st'"
  proof -
    have "kmem_wf st'" using ends k b8 assms(2)
      by (auto simp: kmem_wf_def fits_def total_blocks_def st'_def)
    moreover have "bitset (kmemory_bitmap st') i = False" for i
      by (simp add: st'_def bitset_def)
    ultimately show ?thesis using pa(5) by (simp add: kmem_inv_def blocks_of_def st'_def)
  qed
  then show ?thesis unfolding mm_def [symmetric] Let_def using lay(1-6,12) init ends
    by (simp only: simp_thms) (simp add: k_def nat_add_distrib)
qed

section \<open>A heap to evaluate on\<close>

definition small_heap :: kmem where
  "small_heap = \<lparr>mem = (\<lambda>_. 0), KERNEL_MEMORY_START = 1048576, KERNEL_MEMORY_END = 1050624,
     kmemory_bitmap = [0], kmemory_used = 0, kallocs = 0,
     memory_permanent_start = 2097152, memory_permanent_end = 3145728\<rparr>"

definition heap_100 :: kmem where
  "heap_100 = small_heap\<lparr>mem := store32 (\<lambda>_. 0) 1048576 1, kmemory_bitmap := [1],
     kmemory_used := 256, kallocs := 1\<rparr>"

lemma small_heap_inv: "kmem_inv Map.empty small_heap"
  by (auto simp: kmem_inv_def kmem_wf_def small_heap_def total_blocks_def fits_def blocks_of_def
      bitset_def nth_Cons')

lemma kalloc_100: "kalloc 100 small_heap = Some (1048580, heap_100)"
proof -
  have "kalloc_blocks 100 = 1" "kmemory_find_blocks [0] 1 8 = Some 0" "kmemory_mark_blocks [0] 0 1 = Some [1]"
    by code_simp+
  then show ?thesis
    by (simp add: kalloc_def small_heap_def heap_100_def kmemory_write_metadata_def)
qed

lemma heap_100_inv: "kmem_inv [0 \<mapsto> 1] heap_100"
proof -
  have "bitset [1] i \<longleftrightarrow> i = 0" for i
  proof -
    have "i div 8 = 0 \<and> i mod 8 = 0 \<longleftrightarrow> i = 0" using same_bit_iff [of i 0] by simp
    moreover have "bit (1::u8) (i mod 8) \<longleftrightarrow> i mod 8 = 0" by (simp add: bit_1_iff)
    ultimately show ?thesis by (cases "i div 8 = 0") (simp_all add: bitset_def)
  qed
  moreover have "total_blocks heap_100 = 8" "block_addr heap_100 0 = 1048576"
    "load32 (mem heap_100) 1048576 = 1" "kmem_wf heap_100"
    by (simp_all add: kmem_wf_def heap_100_def small_heap_def total_blocks_def fits_def
      block_addr_def load_store32)
  moreover have "kmemory_bitmap heap_100 = [1]" "kmemory_used heap_100 = 256"
    by (simp_all add: heap_100_def)
  ultimately show ?thesis
    by (simp add: kmem_inv_def blocks_of_def del: One_nat_def split: if_splits)
qed

lemma in_payload_100: "x \<in> payload heap_100 0 1 \<longleftrightarrow> 1048580 \<le> x \<and> x < 1048832"
  by (auto simp: payload_def block_addr_def heap_100_def small_heap_def)

section \<open>Properties at that heap\<close>

theorem kalloc_correct_witness:
  "\<exists>s. kmem_inv [s \<mapsto> kalloc_blocks 100] heap_100 \<and> 1048580 = block_addr small_heap s + 4"
  using kalloc_correct [OF small_heap_inv, of 100] unfolding kalloc_100 by auto

theorem kalloc_kfree_roundtrip_witness:
  "\<exists>st''. kfree 1048580 heap_100 = Some st'' \<and> kmem_inv Map.empty st'' \<and> kmemory_used st'' = 0"
  using kalloc_kfree_roundtrip [OF small_heap_inv _ kalloc_100] by (auto simp: small_heap_def)

theorem kmem_isolation_witness:
  "heap_run small_heap (heap_100\<lparr>mem := (mem heap_100)(1048600 := 42)\<rparr>) [1048580 \<mapsto> (100, [20 \<mapsto> 42])] \<and>
   kfree 1048580 (heap_100\<lparr>mem := (mem heap_100)(1048600 := 42)\<rparr>) \<noteq> None"
proof -
  have "heap_run small_heap heap_100 [1048580 \<mapsto> (100, Map.empty)]"
    using run_alloc [OF run_start _ kalloc_100] by simp
  from run_write [OF this, of 1048580 100 Map.empty 20 42]
  have "heap_run small_heap (heap_100\<lparr>mem := (mem heap_100)(1048600 := 42)\<rparr>) [1048580 \<mapsto> (100, [20 \<mapsto> 42])]" by simp
  then show ?thesis using kmem_isolation [OF small_heap_inv] by auto
qed

theorem krealloc_preserves_contents_witness:
  "\<exists>p st'. krealloc (block_addr heap_100 0 + 4) 300 heap_100 = Some (p, st') \<and>
     (\<forall>i < 252. mem st' (p + i) = mem heap_100 (1048580 + i))"
proof -
  have "kalloc_blocks 300 = 2" by code_simp
  moreover have "total_blocks heap_100 = 8" "block_addr heap_100 0 = 1048576" "kmemory_bitmap heap_100 = [1]"
    by (simp_all add: heap_100_def small_heap_def total_blocks_def block_addr_def)
  moreover have "free_run [1] 2 1"
  proof -
    have "j = 1 \<or> j = 2" if "1 \<le> j" "j < 1 + 2" for j :: nat using that by arith
    then show ?thesis by (auto simp: free_run_def bitset_def bit_1_iff)
  qed
  ultimately show ?thesis
    using krealloc_preserves_contents [OF heap_100_inv, of 0 1 300]
    by (cases "krealloc (block_addr heap_100 0 + 4) 300 heap_100")
       (auto simp: in_payload_100 [simplified] dest: spec [of _ 1])
qed

theorem palloc_overlap_witness:
  "palloc 512 small_heap = (2097664, small_heap\<lparr>memory_permanent_start := 2097664\<rparr>) \<and>
   {2097664::nat ..< 2097664 + 512} \<inter> {2097680 ..< 2097680 + 16} \<noteq> {}"
proof -
  have al: "nat (ALIGN 512 4) = 512" "nat (ALIGN 16 4) = 16" "ALIGN 512 4 = 512" "ALIGN 16 4 = 16" by code_simp+
  have a: "palloc 512 small_heap = (2097664, small_heap\<lparr>memory_permanent_start := 2097664\<rparr>)"
    by (simp add: palloc_def small_heap_def al)
  have b: "palloc 16 (small_heap\<lparr>memory_permanent_start := 2097664\<rparr>) =
      (2097680, small_heap\<lparr>memory_permanent_start := 2097680\<rparr>)"
    by (simp add: palloc_def small_heap_def al)
  from a show ?thesis using palloc_overlap [OF _ _ a _ b] by (simp add: al)
qed

theorem memory_map_boot_witness:
  "\<exists>st'. kmem_init (memory_map_init (15 * 1024 * 1024)) small_heap = Some st' \<and> kmem_inv Map.empty st'"
  using memory_map_boot [of "15 * 1024 * 1024" small_heap] by (auto simp: small_heap_def Let_def)

end
