(* ===== verification/Rbuffer.thy ===== *)
theory Rbuffer imports Prelude
begin

text \<open>
  The byte ring buffer of kernel/rbuffer.c. \<open>contents\<close> reads a buffer whose data does not wrap as a
  queue of bytes. While the data stays unwrapped the two operations are exactly append and take;
  the theory also states what happens once an add has wrapped. The temporary buffer of the read
  is allocated and freed within the call: \<open>kalloc\<close> gives it for a positive size (it
  panics rather than fail) and \<open>NULL\<close> for a size that is not positive.
\<close>

record ring_buffer =
  rb_buffer :: "u8 list"
  rb_size :: int
  rb_start :: int
  rb_end :: int


text \<open>A new buffer; its memory is whatever \<open>kalloc\<close> returned, here \<open>raw\<close>.\<close>

definition rbuffer_new :: "u8 list \<Rightarrow> ring_buffer" where
  "rbuffer_new raw = \<lparr>rb_buffer = raw, rb_size = int (length raw), rb_start = 0, rb_end = 0\<rparr>"

text \<open>The caller's \<open>data\<close> are the bytes at its pointer; \<open>len\<close> is the length it claims.\<close>

definition ring_buffer_add :: "ring_buffer \<Rightarrow> u8 list \<Rightarrow> int \<Rightarrow> (int \<times> ring_buffer) option" where
  "ring_buffer_add rb data len =
     (let available = rb_size rb - rb_end rb + rb_start rb
      in if available < len then Some (- ERROR_RBUFFER_FULL, rb)
         else if rb_end rb + len \<le> rb_size rb
         then do { xs \<leftarrow> mem_read data 0 len;
                   b \<leftarrow> mem_write (rb_buffer rb) (rb_end rb) xs;
                   Some (len, rb\<lparr>rb_buffer := b, rb_end := rb_end rb + len\<rparr>) }
         else let first_length = rb_size rb - rb_end rb
              in do { xs \<leftarrow> mem_read data 0 first_length;
                      b \<leftarrow> mem_write (rb_buffer rb) (rb_end rb) xs;
                      ys \<leftarrow> mem_read data first_length (len - first_length);
                      b \<leftarrow> mem_write b 0 ys;
                      Some (len, rb\<lparr>rb_buffer := b, rb_end := len - first_length\<rparr>) })"

text \<open>The read returns the bytes it stores at the caller's pointer besides the length.\<close>

definition ring_buffer_read :: "ring_buffer \<Rightarrow> int \<Rightarrow> (int \<times> u8 list \<times> ring_buffer) option" where
  "ring_buffer_read rb len =
     (let available = rb_end rb - rb_start rb
      in if available = 0 then Some (- ERROR_RBUFFER_EMPTY, [], rb)
         else if available < 0 then Some (- ERROR_OUT_OF_MEMORY, [], rb) \<comment> \<open>kalloc returns NULL\<close>
         else do {
           temp \<leftarrow> (if rb_start rb + available \<le> rb_size rb
                    then mem_read (rb_buffer rb) (rb_start rb) available
                    else let first_length = rb_size rb - rb_start rb
                         in do { xs \<leftarrow> mem_read (rb_buffer rb) (rb_start rb) first_length;
                                 ys \<leftarrow> mem_read (rb_buffer rb) 0 (available - first_length);
                                 Some (xs @ ys) });
           let read_length = (if available < len then available else len);
           out \<leftarrow> mem_read temp 0 read_length;
           let start = rb_start rb + read_length;
           Some (read_length, out,
             if start = rb_end rb then rb\<lparr>rb_start := 0, rb_end := 0\<rparr>
             else if start = rb_size rb then rb\<lparr>rb_start := 0\<rparr>
             else rb\<lparr>rb_start := start\<rparr>) })"

section \<open>The buffer as a queue of bytes\<close>

definition rb_wf :: "ring_buffer \<Rightarrow> bool" where
  "rb_wf rb \<longleftrightarrow> rb_size rb = int (length (rb_buffer rb)) \<and>
     0 \<le> rb_start rb \<and> rb_start rb \<le> rb_size rb \<and> 0 \<le> rb_end rb \<and> rb_end rb \<le> rb_size rb"

definition linear :: "ring_buffer \<Rightarrow> bool" where
  "linear rb \<longleftrightarrow> rb_wf rb \<and> rb_start rb \<le> rb_end rb"

definition contents :: "ring_buffer \<Rightarrow> u8 list" where
  "contents rb = take (nat (rb_end rb - rb_start rb)) (drop (nat (rb_start rb)) (rb_buffer rb))"

lemma linear_new [simp]: "linear (rbuffer_new raw)" "contents (rbuffer_new raw) = []"
  "rb_buffer (rbuffer_new raw) = raw" "rb_size (rbuffer_new raw) = int (length raw)"
  "rb_start (rbuffer_new raw) = 0" "rb_end (rbuffer_new raw) = 0"
  by (simp_all add: linear_def rb_wf_def rbuffer_new_def contents_def)

lemma linearD:
  assumes "linear rb"
  shows "rb_size rb = int (length (rb_buffer rb))" "0 \<le> rb_start rb" "rb_start rb \<le> rb_end rb"
    "rb_end rb \<le> rb_size rb"
  using assms by (auto simp: linear_def rb_wf_def)

text \<open>The indices as naturals.\<close>

lemma linear_cases:
  assumes "linear rb"
  obtains s e where "rb_start rb = int s" "rb_end rb = int e" "s \<le> e" "e \<le> length (rb_buffer rb)"
    "rb_size rb = int (length (rb_buffer rb))" "contents rb = take (e - s) (drop s (rb_buffer rb))"
proof (rule that [of "nat (rb_start rb)" "nat (rb_end rb)"])
  note l = linearD [OF assms]
  have nn: "0 \<le> rb_end rb" using l by linarith
  show "rb_start rb = int (nat (rb_start rb))" "rb_end rb = int (nat (rb_end rb))" using l nn by simp_all
  show "nat (rb_start rb) \<le> nat (rb_end rb)" using l by simp
  show "nat (rb_end rb) \<le> length (rb_buffer rb)" using l by simp
  show "rb_size rb = int (length (rb_buffer rb))" by (rule l)
  have "nat (rb_end rb - rb_start rb) = nat (rb_end rb) - nat (rb_start rb)"
    using l by (simp add: nat_diff_distrib')
  then show "contents rb = take (nat (rb_end rb) - nat (rb_start rb)) (drop (nat (rb_start rb)) (rb_buffer rb))"
    by (simp add: contents_def)
qed

lemma contents_indices:
  "rb_start rb = int s \<Longrightarrow> rb_end rb = int e \<Longrightarrow> contents rb = take (e - s) (drop s (rb_buffer rb))"
  by (cases "s \<le> e") (simp_all add: contents_def flip: of_nat_diff)

lemma add_append:
  assumes lin: "linear rb" and fit: "rb_end rb + int (length xs) \<le> rb_size rb"
  obtains rb' where "ring_buffer_add rb xs (int (length xs)) = Some (int (length xs), rb')"
    "linear rb'" "contents rb' = contents rb @ xs" "rb_size rb' = rb_size rb"
    "rb_start rb' = rb_start rb" "rb_end rb' = rb_end rb + int (length xs)"
proof -
  obtain s e where l: "rb_start rb = int s" "rb_end rb = int e" "s \<le> e" "e \<le> length (rb_buffer rb)"
    "rb_size rb = int (length (rb_buffer rb))" "contents rb = take (e - s) (drop s (rb_buffer rb))"
    using lin by (rule linear_cases)
  let ?b = "rb_buffer rb" and ?n = "length xs"
  have fit: "e + ?n \<le> length ?b" using fit l by simp
  define b' where "b' = take e ?b @ xs @ drop (e + ?n) ?b"
  have w: "mem_write ?b (rb_end rb) xs = Some b'"
    using l fit by (simp add: mem_write_def b'_def)
  have len: "length b' = length ?b" using w by (rule mem_write_length)
  let ?rb = "rb\<lparr>rb_buffer := b', rb_end := rb_end rb + int ?n\<rparr>"
  have "ring_buffer_add rb xs (int ?n) = Some (int ?n, ?rb)"
    using l fit w by (simp add: ring_buffer_add_def Let_def mem_read_def)
  moreover have "linear ?rb" using l fit len by (simp add: linear_def rb_wf_def)
  moreover have "contents ?rb = contents rb @ xs"
  proof -
    have "contents ?rb = take (e + ?n - s) (drop s b')" using l(1,2) by (subst contents_indices [of _ s "e + ?n"]) simp_all
    also have "\<dots> = take (e - s) (drop s ?b) @ xs" using l(3,4) fit by (simp add: b'_def drop_take)
    finally show ?thesis by (simp add: l(6))
  qed
  ultimately show thesis by (intro that [of ?rb]) simp_all
qed

lemma read_take:
  assumes lin: "linear rb" and ne: "contents rb \<noteq> []"
  obtains rb' where "ring_buffer_read rb (int n) =
      Some (int (min n (length (contents rb))), take n (contents rb), rb')"
    "linear rb'" "contents rb' = drop n (contents rb)" "rb_size rb' = rb_size rb"
proof -
  obtain s e where l: "rb_start rb = int s" "rb_end rb = int e" "s \<le> e" "e \<le> length (rb_buffer rb)"
    "rb_size rb = int (length (rb_buffer rb))" "contents rb = take (e - s) (drop s (rb_buffer rb))"
    using lin by (rule linear_cases)
  let ?c = "take (e - s) (drop s (rb_buffer rb))"
  have se: "s < e" using ne l by (cases "s = e") simp_all
  have len: "length ?c = e - s" using l by simp
  define k where "k = min n (e - s)"
  have k: "s + k \<le> e" "int k = (if int e - int s < int n then int e - int s else int n)"
    using l(3) by (auto simp: k_def min_def of_nat_diff)
  have temp: "mem_read (rb_buffer rb) (int s) (int e - int s) = Some ?c"
    using l by (simp add: mem_read_def nat_diff_distrib')
  have out: "mem_read ?c 0 (int k) = Some (take n ?c)"
    using len by (auto simp: mem_read_def k_def min_def)
  let ?rb = "if int (s + k) = rb_end rb then rb\<lparr>rb_start := 0, rb_end := 0\<rparr>
    else if int (s + k) = rb_size rb then rb\<lparr>rb_start := 0\<rparr>
    else rb\<lparr>rb_start := int (s + k)\<rparr>"
  have "ring_buffer_read rb (int n) = Some (int k, take n ?c, ?rb)"
  proof -
    have pos: "int e - int s \<noteq> 0" "\<not> int e - int s < 0" "int s + (int e - int s) \<le> int (length (rb_buffer rb))"
      using se l(4) by simp_all
    show ?thesis
      unfolding ring_buffer_read_def Let_def l(1,2,5) if_not_P [OF pos(1)] if_not_P [OF pos(2)] if_P [OF pos(3)]
        temp Option.bind.simps k(2) [symmetric] out of_nat_add ..
  qed
  moreover have "linear ?rb" using l k by (simp add: linear_def rb_wf_def)
  moreover have "contents ?rb = drop n ?c"
  proof (cases "s + k = e")
    case True
    then have "e - s \<le> n" by (simp add: k_def min_def split: if_splits)
    then show ?thesis using True l(2) len by (simp add: contents_def)
  next
    case False
    then have kn: "k = n" by (simp add: k_def min_def split: if_splits) (use l(3) in linarith)
    have "?rb = rb\<lparr>rb_start := int (s + n)\<rparr>" using False k l kn by simp
    then have "contents ?rb = take (e - (s + n)) (drop (s + n) (rb_buffer rb))"
      using l(2) by (simp only:) (subst contents_indices [of _ "s + n" e], simp_all)
    also have "\<dots> = drop n ?c" by (simp add: drop_take add.commute)
    finally show ?thesis .
  qed
  ultimately show thesis using len by (intro that [of ?rb]) (simp_all add: k_def l(6))
qed

section \<open>Wrapping\<close>

text \<open>The add stores the bytes in the right places; the next read cannot get at them.\<close>

lemma add_wraps:
  assumes lin: "linear rb" and over: "rb_size rb < rb_end rb + int (length xs)"
    and room: "length (contents rb) + length xs \<le> length (rb_buffer rb)"
  obtains rb' where "ring_buffer_add rb xs (int (length xs)) = Some (int (length xs), rb')"
    "rb_wf rb'" "rb_start rb' = rb_start rb" "rb_end rb' = rb_end rb + int (length xs) - rb_size rb"
    "rb_end rb' \<le> rb_start rb'"
    "drop (nat (rb_start rb')) (rb_buffer rb') @ take (nat (rb_end rb')) (rb_buffer rb') = contents rb @ xs"
proof -
  obtain s e where l: "rb_start rb = int s" "rb_end rb = int e" "s \<le> e" "e \<le> length (rb_buffer rb)"
    "rb_size rb = int (length (rb_buffer rb))" "contents rb = take (e - s) (drop s (rb_buffer rb))"
    using lin by (rule linear_cases)
  let ?b = "rb_buffer rb"
  define f where "f = length ?b - e"
  define g where "g = length xs - f"
  have f: "int f = int (length ?b) - int e" "e + f = length ?b" using l(4) by (simp_all add: f_def of_nat_diff)
  have g: "length xs = f + g" "f < length xs" "g \<le> s"
    using over room l f by (auto simp: g_def)
  have gi: "int (length xs) - int f = int g" using g by simp
  define b1 where "b1 = take e ?b @ take f xs"
  define b2 where "b2 = drop f xs @ drop g b1"
  have w1: "mem_write ?b (int e) (take f xs) = Some b1" "length b1 = length ?b"
    using f g by (auto simp: mem_write_def b1_def min_def)
  have w2: "mem_write b1 0 (drop f xs) = Some b2"
    using w1(2) f g l(3,4) by (auto simp: mem_write_def b2_def)
  have r: "mem_read xs 0 (int f) = Some (take f xs)" "mem_read xs (int f) (int g) = Some (drop f xs)"
    using g by (simp_all add: mem_read_def)
  let ?rb = "rb\<lparr>rb_buffer := b2, rb_end := int g\<rparr>"
  have len: "length b2 = length ?b" using w1(2) g f l(3,4) by (simp add: b2_def)
  have "ring_buffer_add rb xs (int (length xs)) = Some (int (length xs), ?rb)"
  proof -
    have neg: "\<not> int (length ?b) - int e + int s < int (length xs)" "\<not> int e + int (length xs) \<le> int (length ?b)"
      using room over l by simp_all
    show ?thesis
      unfolding ring_buffer_add_def Let_def l(1,2,5) if_not_P [OF neg(1)] if_not_P [OF neg(2)]
      unfolding f(1) [symmetric] r w1(1) Option.bind.simps gi w2 ..
  qed
  moreover have "rb_wf ?rb" using l g len f by (simp add: rb_wf_def)
  moreover have "rb_end ?rb = rb_end rb + int (length xs) - rb_size rb" using l f g by simp
  moreover have "drop s b2 = take (e - s) (drop s ?b) @ take f xs"
    using g l(3,4) by (simp add: b2_def b1_def drop_take)
  moreover have "take g b2 = drop f xs" using g by (simp add: b2_def)
  ultimately show thesis using l g by (intro that [of ?rb]) simp_all
qed

lemma read_wrapped:
  assumes "rb_wf rb" and "rb_end rb \<le> rb_start rb"
  shows "ring_buffer_read rb n =
    Some (if rb_end rb = rb_start rb then - ERROR_RBUFFER_EMPTY else - ERROR_OUT_OF_MEMORY, [], rb)"
  using assms by (simp add: ring_buffer_read_def Let_def)

lemma add_full:
  assumes "linear rb" and "length (rb_buffer rb) < length (contents rb) + length xs"
  shows "ring_buffer_add rb xs (int (length xs)) = Some (- ERROR_RBUFFER_FULL, rb)"
proof -
  obtain s e where l: "rb_start rb = int s" "rb_end rb = int e" "s \<le> e" "e \<le> length (rb_buffer rb)"
    "rb_size rb = int (length (rb_buffer rb))" "contents rb = take (e - s) (drop s (rb_buffer rb))"
    using assms(1) by (rule linear_cases)
  then have "rb_size rb - rb_end rb + rb_start rb < int (length xs)" using assms(2) by simp
  then show ?thesis by (simp add: ring_buffer_add_def)
qed

section \<open>Properties\<close>

text \<open>
  C8. While its data does not wrap, the ring buffer is a queue of bytes bounded by its size: an add
  that ends before the end of the memory appends, an add of more bytes than are free reports full and
  changes nothing, a read reports empty on an empty buffer and otherwise takes the oldest bytes, at
  most as many as asked for. (The comments of the code announce that a full buffer overwrites the
  oldest data and that a read of an empty one returns 0: the code does neither.)
\<close>

theorem ring_buffer_fifo:
  assumes "linear rb"
  shows "(length (rb_buffer rb) < length (contents rb) + length xs \<longrightarrow>
      ring_buffer_add rb xs (int (length xs)) = Some (- ERROR_RBUFFER_FULL, rb)) \<and>
    (rb_end rb + int (length xs) \<le> rb_size rb \<longrightarrow>
      (\<exists>rb'. ring_buffer_add rb xs (int (length xs)) = Some (int (length xs), rb') \<and> linear rb' \<and>
         rb_size rb' = rb_size rb \<and> contents rb' = contents rb @ xs)) \<and>
    (contents rb = [] \<longrightarrow> ring_buffer_read rb (int n) = Some (- ERROR_RBUFFER_EMPTY, [], rb)) \<and>
    (contents rb \<noteq> [] \<longrightarrow>
      (\<exists>rb'. ring_buffer_read rb (int n) =
           Some (int (min n (length (contents rb))), take n (contents rb), rb') \<and>
         linear rb' \<and> rb_size rb' = rb_size rb \<and> contents rb' = drop n (contents rb)))"
proof -
  have "rb_end rb = rb_start rb" if "contents rb = []"
    using assms that by (cases rule: linear_cases) auto
  then have "contents rb = [] \<Longrightarrow> ring_buffer_read rb (int n) = Some (- ERROR_RBUFFER_EMPTY, [], rb)"
    by (simp add: ring_buffer_read_def)
  moreover have "\<exists>rb'. ring_buffer_add rb xs (int (length xs)) = Some (int (length xs), rb') \<and> linear rb' \<and>
      rb_size rb' = rb_size rb \<and> contents rb' = contents rb @ xs"
    if "rb_end rb + int (length xs) \<le> rb_size rb"
    using add_append [OF assms that] by metis
  moreover have "\<exists>rb'. ring_buffer_read rb (int n) =
      Some (int (min n (length (contents rb))), take n (contents rb), rb') \<and>
      linear rb' \<and> rb_size rb' = rb_size rb \<and> contents rb' = drop n (contents rb)"
    if "contents rb \<noteq> []"
    using read_take [OF assms that, of n] by metis
  ultimately show ?thesis using add_full [OF assms] by blast
qed

theorem ring_buffer_fifo_witness:
  "\<exists>rb'. ring_buffer_add (rbuffer_new [0, 0, 0, 0]) [7, 8] 2 = Some (2, rb') \<and> linear rb' \<and> contents rb' = [7, 8]"
  using ring_buffer_fifo [OF linear_new(1), of "[0, 0, 0, 0]" "[7, 8]" 0] by (elim conjE) (simp, blast)

text \<open>
  C9. An add that fits in the free bytes but runs over the end of the memory stores every byte and
  reports success; from then on every read fails, with out of memory when the indices differ and with
  empty when they meet, and leaves the buffer as it is: the bytes cannot be read any more.
\<close>

theorem ring_buffer_wrap_unreadable:
  assumes "linear rb" and "rb_size rb < rb_end rb + int (length xs)"
    and "length (contents rb) + length xs \<le> length (rb_buffer rb)"
  shows "\<exists>rb'. ring_buffer_add rb xs (int (length xs)) = Some (int (length xs), rb') \<and>
    drop (nat (rb_start rb')) (rb_buffer rb') @ take (nat (rb_end rb')) (rb_buffer rb') = contents rb @ xs \<and>
    (\<forall>n. ring_buffer_read rb' n =
       Some (if length (contents rb) + length xs = length (rb_buffer rb)
             then - ERROR_RBUFFER_EMPTY else - ERROR_OUT_OF_MEMORY, [], rb'))"
proof -
  obtain rb' where rb': "ring_buffer_add rb xs (int (length xs)) = Some (int (length xs), rb')"
    "rb_wf rb'" "rb_start rb' = rb_start rb" "rb_end rb' = rb_end rb + int (length xs) - rb_size rb"
    "rb_end rb' \<le> rb_start rb'"
    "drop (nat (rb_start rb')) (rb_buffer rb') @ take (nat (rb_end rb')) (rb_buffer rb') = contents rb @ xs"
    using assms by (rule add_wraps)
  have "int (length (contents rb)) = rb_end rb - rb_start rb" "rb_size rb = int (length (rb_buffer rb))"
    using assms(1) by (cases rule: linear_cases, simp add: of_nat_diff)+
  then have "rb_end rb' = rb_start rb' \<longleftrightarrow> length (contents rb) + length xs = length (rb_buffer rb)"
    using rb'(3,4) by linarith
  then show ?thesis using rb' read_wrapped [OF rb'(2,5)] by auto
qed

theorem ring_buffer_wrap_unreadable_witness:
  "\<exists>rb'. ring_buffer_add \<lparr>rb_buffer = [1, 2, 3, 4], rb_size = 4, rb_start = 2, rb_end = 3\<rparr> [7, 8] 2 = Some (2, rb') \<and>
     ring_buffer_read rb' 2 = Some (- 24, [], rb')"
  using ring_buffer_wrap_unreadable
    [of "\<lparr>rb_buffer = [1, 2, 3, 4], rb_size = 4, rb_start = 2, rb_end = 3\<rparr>" "[7, 8]"]
  by (auto simp: linear_def rb_wf_def contents_def)

end
