(* ===== verification/Ipc.thy ===== *)
theory Ipc imports Rbuffer Slots
begin

text \<open>
  The message channels of kernel/ipc.c: sixteen slots, each empty or holding a ring buffer of 1024
  bytes. The state is the array \<open>channels\<close>; a \<open>NULL\<close> \<open>rbuf\<close> is \<open>None\<close>. \<open>raw\<close> is the
  memory \<open>kalloc\<close> gives to a new buffer and \<open>data = None\<close> a \<open>NULL\<close> pointer of the caller.
\<close>

type_synonym channels = "ring_buffer option list"

abbreviation IPC_MAX_CHANNELS :: nat where "IPC_MAX_CHANNELS \<equiv> 16"
abbreviation IPC_MAX_SIZE :: nat where "IPC_MAX_SIZE \<equiv> 1024"

definition ipc_channels_init :: channels where
  "ipc_channels_init = replicate IPC_MAX_CHANNELS None"

definition ipc_alloc_channel :: "channels \<Rightarrow> int" where
  "ipc_alloc_channel cs =
     (case first_index (\<lambda>i. cs ! i = None) IPC_MAX_CHANNELS of Some i \<Rightarrow> int i | None \<Rightarrow> -1)"

definition sys_ipc_open :: "(nat \<Rightarrow> u8) \<Rightarrow> channels \<Rightarrow> int \<times> channels" where
  "sys_ipc_open raw cs =
     (let channel = ipc_alloc_channel cs
      in if channel < 0 then (-1, cs)
         else (channel, cs[nat channel := Some (rbuffer_new (map raw [0 ..< IPC_MAX_SIZE]))]))"

text \<open>The macro \<open>IPC_VALID_CHANNEL\<close>: \<open>None\<close> when it returns \<open>-1\<close> from the caller.\<close>

definition ipc_valid_channel :: "channels \<Rightarrow> int \<Rightarrow> ring_buffer option" where
  "ipc_valid_channel cs channel =
     (if channel < 0 \<or> channel \<ge> int IPC_MAX_CHANNELS then None else cs ! nat channel)"

definition sys_ipc_close :: "int \<Rightarrow> channels \<Rightarrow> int \<times> channels" where
  "sys_ipc_close channel cs =
     (case ipc_valid_channel cs channel of None \<Rightarrow> (-1, cs) | Some _ \<Rightarrow> (0, cs[nat channel := None]))"

definition sys_ipc_send :: "int \<Rightarrow> u8 list option \<Rightarrow> int \<Rightarrow> channels \<Rightarrow> (int \<times> channels) option" where
  "sys_ipc_send channel data len cs =
     (case data of None \<Rightarrow> Some (- ERROR_NULL_POINTER, cs)
      | Some bytes \<Rightarrow>
        (case ipc_valid_channel cs channel of None \<Rightarrow> Some (-1, cs)
         | Some rb \<Rightarrow> do { (r, rb') \<leftarrow> ring_buffer_add rb bytes len;
                          Some (r, cs[nat channel := Some rb']) }))"

definition sys_ipc_receive :: "int \<Rightarrow> bool \<Rightarrow> int \<Rightarrow> channels \<Rightarrow> (int \<times> u8 list \<times> channels) option" where
  "sys_ipc_receive channel data_null len cs =
     (if data_null then Some (- ERROR_NULL_POINTER, [], cs)
      else case ipc_valid_channel cs channel of None \<Rightarrow> Some (-1, [], cs)
         | Some rb \<Rightarrow> do { (r, out, rb') \<leftarrow> ring_buffer_read rb len;
                          Some (r, out, cs[nat channel := Some rb']) })"

section \<open>The channel table as a table of slots\<close>

definition chan_used :: "channels \<Rightarrow> nat \<Rightarrow> bool" where
  "chan_used cs i \<longleftrightarrow> cs ! i \<noteq> None"

definition ipc_take :: "(nat \<Rightarrow> u8) \<Rightarrow> channels \<Rightarrow> (nat \<times> channels) option" where
  "ipc_take raw cs = (let (c, cs') = sys_ipc_open raw cs in if c < 0 then None else Some (nat c, cs'))"

lemma sys_ipc_open_cases:
  obtains (full) "sys_ipc_open raw cs = (-1, cs)" "\<And>i. i < IPC_MAX_CHANNELS \<Longrightarrow> chan_used cs i"
  | (slot) i where "sys_ipc_open raw cs = (int i, cs[i := Some (rbuffer_new (map raw [0 ..< IPC_MAX_SIZE]))])"
      "i < IPC_MAX_CHANNELS" "\<not> chan_used cs i" "\<And>j. j < i \<Longrightarrow> chan_used cs j"
proof (cases "first_index (\<lambda>i. cs ! i = None) IPC_MAX_CHANNELS")
  case None
  then have "sys_ipc_open raw cs = (-1, cs)" by (simp add: sys_ipc_open_def ipc_alloc_channel_def)
  then show ?thesis using full None by (simp add: find_from_None_iff chan_used_def)
next
  case (Some i)
  then have "sys_ipc_open raw cs = (int i, cs[i := Some (rbuffer_new (map raw [0 ..< IPC_MAX_SIZE]))])"
    by (simp add: sys_ipc_open_def ipc_alloc_channel_def)
  then show ?thesis using slot Some by (simp add: find_from_Some_iff chan_used_def)
qed

interpretation ipc_slots: slots "\<lambda>cs. length cs = IPC_MAX_CHANNELS" chan_used "{..<IPC_MAX_CHANNELS}"
  "ipc_take raw" "\<lambda>i cs. snd (sys_ipc_close (int i) cs)"
proof
  show "finite {..<IPC_MAX_CHANNELS}" by simp
next
  fix cs i cs' assume "length cs = IPC_MAX_CHANNELS" "ipc_take raw cs = Some (i, cs')"
  then show "length cs' = IPC_MAX_CHANNELS \<and> i \<in> {..<IPC_MAX_CHANNELS} \<and> \<not> chan_used cs i \<and>
      (\<forall>j\<in>{..<IPC_MAX_CHANNELS}. chan_used cs' j = (j = i \<or> chan_used cs j))"
    by (cases rule: sys_ipc_open_cases [of raw cs])
       (auto simp: ipc_take_def chan_used_def nth_list_update)
next
  fix cs i assume "ipc_take raw cs = None" "i \<in> {..<IPC_MAX_CHANNELS}"
  then show "chan_used cs i"
    by (cases rule: sys_ipc_open_cases [of raw cs]) (auto simp: ipc_take_def)
next
  fix cs i assume "length cs = IPC_MAX_CHANNELS" "i \<in> {..<IPC_MAX_CHANNELS}" "chan_used cs i"
  then show "length (snd (sys_ipc_close (int i) cs)) = IPC_MAX_CHANNELS \<and>
      (\<forall>j\<in>{..<IPC_MAX_CHANNELS}. chan_used (snd (sys_ipc_close (int i) cs)) j = (j \<noteq> i \<and> chan_used cs j))"
    by (auto simp: sys_ipc_close_def ipc_valid_channel_def chan_used_def nth_list_update split: if_splits)
qed

text \<open>
  The errors: a channel outside the table or not open gives \<open>-1\<close> on send, receive and close, with
  nothing changed; a null pointer gives \<open>-ERROR_NULL_POINTER\<close> before the channel is looked at.
\<close>

lemma ipc_invalid_channel:
  assumes "channel < 0 \<or> int IPC_MAX_CHANNELS \<le> channel \<or> cs ! nat channel = None"
  shows "sys_ipc_send channel (Some msg) len cs = Some (-1, cs) \<and>
    sys_ipc_receive channel False len cs = Some (-1, [], cs) \<and>
    sys_ipc_close channel cs = (-1, cs) \<and>
    sys_ipc_send channel None len cs = Some (- ERROR_NULL_POINTER, cs) \<and>
    sys_ipc_receive channel True len cs = Some (- ERROR_NULL_POINTER, [], cs)"
proof -
  have "ipc_valid_channel cs channel = None" using assms by (auto simp: ipc_valid_channel_def)
  then show ?thesis by (simp add: sys_ipc_send_def sys_ipc_receive_def sys_ipc_close_def)
qed

section \<open>Properties\<close>

text \<open>
  C10. Opening channels one after the other from the initial table gives sixteen distinct channels and
  then fails; a channel that was closed can be opened again.
\<close>

theorem ipc_open_distinct:
  assumes "take_many (ipc_take raw) k ipc_channels_init = (is, cs)"
  shows "distinct is \<and> set is \<subseteq> {..<IPC_MAX_CHANNELS} \<and> length is = min k IPC_MAX_CHANNELS \<and>
    (\<forall>i \<in> set is. ipc_take raw (snd (sys_ipc_close (int i) cs)) \<noteq> None)"
proof -
  have init: "length ipc_channels_init = IPC_MAX_CHANNELS"
    "free_slots chan_used {..<IPC_MAX_CHANNELS} ipc_channels_init = {..<IPC_MAX_CHANNELS}"
    by (auto simp: ipc_channels_init_def free_slots_def chan_used_def)
  note res = ipc_slots.take_many_distinct [OF init(1) assms, unfolded init(2)]
  have "chan_used cs i" if "i \<in> set is" for i
    using res that unfolding free_slots_def by blast
  moreover have "length cs = IPC_MAX_CHANNELS" by (rule ipc_slots.take_many_inv [OF init(1) assms])
  ultimately show ?thesis using res ipc_slots.take_after_give [of cs _ raw] by auto
qed

theorem ipc_open_distinct_witness:
  "\<exists>is cs. take_many (ipc_take (\<lambda>_. 0)) 17 ipc_channels_init = (is, cs) \<and> length is = 16 \<and> distinct is"
proof -
  obtain "is" cs where run: "take_many (ipc_take (\<lambda>_. 0)) 17 ipc_channels_init = (is, cs)" by fastforce
  show ?thesis using run ipc_open_distinct [OF run] by simp
qed

text \<open>
  C11. A message sent on an open channel whose data is unwrapped and leaves room for it is received
  after the data that was there, and the other channels are untouched.
\<close>

theorem ipc_send_receive:
  assumes cs: "length cs = IPC_MAX_CHANNELS" and c: "c < IPC_MAX_CHANNELS" "cs ! c = Some rb"
    and lin: "linear rb" and fit: "rb_end rb + int (length msg) \<le> rb_size rb" and ne: "msg \<noteq> []"
  shows "\<exists>cs1 cs2. sys_ipc_send (int c) (Some msg) (int (length msg)) cs = Some (int (length msg), cs1) \<and>
    sys_ipc_receive (int c) False (int (length (contents rb) + length msg)) cs1 =
      Some (int (length (contents rb) + length msg), contents rb @ msg, cs2) \<and>
    (\<forall>d. d \<noteq> c \<longrightarrow> cs1 ! d = cs ! d \<and> cs2 ! d = cs ! d)"
proof -
  obtain rb1 where rb1: "ring_buffer_add rb msg (int (length msg)) = Some (int (length msg), rb1)"
    "linear rb1" "contents rb1 = contents rb @ msg"
    using lin fit by (rule add_append)
  have "contents rb1 \<noteq> []" using rb1(3) ne by simp
  then obtain rb2 where rb2: "ring_buffer_read rb1 (int (length (contents rb) + length msg)) =
      Some (int (length (contents rb) + length msg), contents rb @ msg, rb2)"
    using read_take [OF rb1(2), of "length (contents rb) + length msg"] rb1(3) by auto
  show ?thesis using cs c rb1(1) rb2
    by (simp add: sys_ipc_send_def sys_ipc_receive_def ipc_valid_channel_def del: of_nat_add)
qed

theorem ipc_send_receive_witness:
  "\<exists>cs1 cs2. sys_ipc_send 0 (Some [1, 2, 3]) 3 (snd (sys_ipc_open (\<lambda>_. 0) ipc_channels_init)) = Some (3, cs1) \<and>
     sys_ipc_receive 0 False 3 cs1 = Some (3, [1, 2, 3], cs2)"
proof -
  let ?cs = "snd (sys_ipc_open (\<lambda>_. 0) ipc_channels_init)"
  have slot0: "first_index (\<lambda>i. ipc_channels_init ! i = None) IPC_MAX_CHANNELS = Some 0"
    by (simp add: find_from_Some_iff ipc_channels_init_def)
  have "sys_ipc_open (\<lambda>_. 0) ipc_channels_init = (0, ipc_channels_init[0 := Some (rbuffer_new (map (\<lambda>_. 0) [0 ..< 1024]))])"
    using slot0 by (simp add: sys_ipc_open_def ipc_alloc_channel_def)
  then have "length ?cs = 16" "?cs ! 0 = Some (rbuffer_new (replicate 1024 0))"
    by (simp_all add: ipc_channels_init_def map_replicate_const)
  from ipc_send_receive [OF this(1) _ this(2), of "[1, 2, 3]"] show ?thesis by auto
qed

end
