(* ===== verification/Fifo.thy ===== *)
theory Fifo imports Prelude
begin

text \<open>
  The interface of the kernel's queues (PCB queues, the queue of socket buffers, the work queue).
  \<open>rep s xs\<close> says that the state \<open>s\<close> holds the queue \<open>xs\<close>, \<open>can_push x s xs\<close> what a caller owes before
  it pushes \<open>x\<close>. A push appends, a pop takes the head. The client here is one that drains the queue.
  Also here: singly linked lists in a store, \<open>chain f p xs\<close> when following \<open>f\<close> from \<open>p\<close> visits
  exactly \<open>xs\<close> and then reaches \<open>NULL\<close>.
\<close>

section \<open>Linked lists in a store\<close>

fun chain :: "('a \<Rightarrow> 'a option) \<Rightarrow> 'a option \<Rightarrow> 'a list \<Rightarrow> bool" where
  "chain f p [] \<longleftrightarrow> p = None"
| "chain f p (x # xs) \<longleftrightarrow> p = Some x \<and> chain f (f x) xs"

lemma chain_unique: "chain f p xs \<Longrightarrow> chain f p ys \<Longrightarrow> xs = ys"
proof (induction xs arbitrary: p ys)
  case Nil
  then show ?case by (cases ys) auto
next
  case (Cons x xs)
  then show ?case by (cases ys) auto
qed

lemma chain_None_iff [simp]: "chain f None xs \<longleftrightarrow> xs = []"
  by (cases xs) auto

lemma chain_suffix: "chain f p (xs @ y # ys) \<Longrightarrow> chain f (Some y) (y # ys)"
  by (induction xs arbitrary: p) auto

text \<open>A chain that ends has no node twice.\<close>

lemma chain_distinct:
  assumes "chain f p xs"
  shows "distinct xs"
proof (rule ccontr)
  assume "\<not> distinct xs"
  then obtain as x bs cs where "xs = as @ [x] @ bs @ [x] @ cs"
    using not_distinct_decomp by blast
  then have "chain f (Some x) (x # bs @ x # cs)" "chain f (Some x) (x # cs)"
    using assms chain_suffix [of f p as x "bs @ x # cs"] chain_suffix [of f p "as @ x # bs" x cs] by simp_all
  then have "bs @ x # cs = cs" using chain_unique by fastforce
  then have "length (bs @ x # cs) = length cs" by (rule arg_cong)
  then show False by simp
qed

lemma chain_update: "y \<notin> set xs \<Longrightarrow> chain (f(y := v)) p xs \<longleftrightarrow> chain f p xs"
  by (induction xs arbitrary: p) auto

lemma chain_snoc:
  assumes "chain f p xs" and "xs \<noteq> []" and "y \<notin> set xs"
  shows "chain (f(last xs := Some y, y := None)) p (xs @ [y])"
  using assms
proof (induction xs arbitrary: p)
  case Nil
  then show ?case by simp
next
  case (Cons x xs)
  show ?case
  proof (cases "xs = []")
    case True
    then show ?thesis using Cons.prems by auto
  next
    case False
    then have "x \<noteq> last xs" using chain_distinct [OF Cons.prems(1)] by auto
    then show ?thesis using Cons False by auto
  qed
qed

section \<open>The queue interface\<close>

fun pop_many :: "('s \<Rightarrow> ('a option \<times> 's) option) \<Rightarrow> nat \<Rightarrow> 's \<Rightarrow> ('a list \<times> 's) option" where
  "pop_many pop 0 s = Some ([], s)"
| "pop_many pop (Suc k) s =
     do { (x, s1) \<leftarrow> pop s;
          case x of None \<Rightarrow> Some ([], s1)
          | Some x \<Rightarrow> do { (xs, s2) \<leftarrow> pop_many pop k s1; Some (x # xs, s2) } }"

locale fifo =
  fixes rep :: "'s \<Rightarrow> 'a list \<Rightarrow> bool" and can_push :: "'a \<Rightarrow> 's \<Rightarrow> 'a list \<Rightarrow> bool"
    and push :: "'a \<Rightarrow> 's \<Rightarrow> 's option" and pop :: "'s \<Rightarrow> ('a option \<times> 's) option"
  assumes push: "rep s xs \<Longrightarrow> can_push x s xs \<Longrightarrow> \<exists>s'. push x s = Some s' \<and> rep s' (xs @ [x])"
    and pop_Cons: "rep s (x # xs) \<Longrightarrow> \<exists>s'. pop s = Some (Some x, s') \<and> rep s' xs"
    and pop_Nil: "rep s [] \<Longrightarrow> \<exists>s'. pop s = Some (None, s') \<and> rep s' []"
begin

text \<open>Popping returns the elements in the order of the queue and stops when it is empty.\<close>

lemma pop_many_take:
  assumes "rep s xs"
  shows "\<exists>s'. pop_many pop k s = Some (take k xs, s') \<and> rep s' (drop k xs)"
  using assms
proof (induction k arbitrary: s xs)
  case 0
  then show ?case by simp
next
  case (Suc k)
  show ?case
  proof (cases xs)
    case Nil
    then show ?thesis using pop_Nil [of s] Suc.prems by auto
  next
    case (Cons x ys)
    then obtain s1 where "pop s = Some (Some x, s1)" "rep s1 ys"
      using pop_Cons Suc.prems by blast
    moreover from Suc.IH [OF this(2)] obtain s2 where
      "pop_many pop k s1 = Some (take k ys, s2)" "rep s2 (drop k ys)" by blast
    ultimately show ?thesis using Cons by simp
  qed
qed

text \<open>What is pushed comes out behind everything that was there.\<close>

lemma push_then_drain:
  assumes "rep s xs" and "can_push x s xs"
  shows "\<exists>s1 s2. push x s = Some s1 \<and> pop_many pop (Suc (length xs)) s1 = Some (xs @ [x], s2) \<and> rep s2 []"
proof -
  obtain s1 where s1: "push x s = Some s1" "rep s1 (xs @ [x])" using push [OF assms] by blast
  show ?thesis using s1(1) pop_many_take [OF s1(2), of "Suc (length xs)"] by auto
qed

end

end
