(* ===== verification/Pcb_Queue.thy ===== *)
theory Pcb_Queue imports Fifo
begin

text \<open>
  Process control blocks (include/pcb.h) and the PCB queues of kernel/pcb_queue.c. A queue is a
  singly linked list threaded through the \<open>next\<close> fields of the PCBs, so the state is the store
  of PCBs (pointers are indices of the table) together with the head of the list; several queues
  share the store. \<open>queue_of h q xs\<close> reads a queue as the list of its PCBs. Only the fields that
  the queues, the scheduler and the work queue use are kept.
\<close>

datatype pcb_state = STOPPED | RUNNING | PCB_NEW | BLOCKED | SLEEPING | ZOMBIE | CLEANING

record pcb =
  pid :: int
  state :: pcb_state
  sleep :: u16
  is_process :: int
  yields :: nat
  pcb_next :: "nat option"
  pcb_prev :: "nat option"

type_synonym pcb_heap = "nat \<Rightarrow> pcb"

record pcb_queue =
  q_list :: "nat option"
  q_total :: int


definition set_next :: "pcb_heap \<Rightarrow> nat \<Rightarrow> nat option \<Rightarrow> pcb_heap" where
  "set_next h p v = h(p := (h p)\<lparr>pcb_next := v\<rparr>)"

section \<open>kernel/pcb_queue.c\<close>

definition pcb_new_queue :: pcb_queue where
  "pcb_new_queue = \<lparr>q_list = None, q_total = 0\<rparr>"

text \<open>\<open>while (current->next != NULL) current = current->next;\<close>\<close>

partial_function (option) last_node :: "pcb_heap \<Rightarrow> nat \<Rightarrow> nat option" where
  "last_node h current =
     (case pcb_next (h current) of None \<Rightarrow> Some current | Some n \<Rightarrow> last_node h n)"

text \<open>\<open>None\<close> as a pointer is \<open>NULL\<close>; the outer \<open>None\<close> is a walk that does not end.\<close>

definition pcb_queue_push ::
    "pcb_heap \<Rightarrow> pcb_queue option \<Rightarrow> nat option \<Rightarrow> (int \<times> pcb_heap \<times> pcb_queue option) option" where
  "pcb_queue_push h queue pcb =
     (case pcb of None \<Rightarrow> Some (- ERROR_NULL_POINTER, h, queue)
      | Some p \<Rightarrow>
        (case queue of None \<Rightarrow> Some (- ERROR_PCB_QUEUE_NULL, h, queue)
         | Some q \<Rightarrow>
           (case q_list q of None \<Rightarrow> Some (ERROR_OK, h, Some (q\<lparr>q_list := Some p\<rparr>))
            | Some current \<Rightarrow> do {
                l \<leftarrow> last_node h current;
                Some (ERROR_OK, set_next (set_next h l (Some p)) p None,
                      Some (q\<lparr>q_total := q_total q + 1\<rparr>)) })))"

definition pcb_queue_add ::
    "pcb_heap \<Rightarrow> pcb_queue option \<Rightarrow> nat option \<Rightarrow> int \<times> pcb_heap \<times> pcb_queue option" where
  "pcb_queue_add h queue pcb =
     (case pcb of None \<Rightarrow> (- ERROR_NULL_POINTER, h, queue)
      | Some p \<Rightarrow>
        (case queue of None \<Rightarrow> (- ERROR_PCB_QUEUE_NULL, h, queue)
         | Some q \<Rightarrow> (ERROR_OK, set_next h p (q_list q),
                      Some (q\<lparr>q_list := Some p, q_total := q_total q + 1\<rparr>))))"

text \<open>\<open>while (current->next != NULL && current->next != pcb) current = current->next;\<close>\<close>

partial_function (option) node_before :: "pcb_heap \<Rightarrow> nat \<Rightarrow> nat \<Rightarrow> nat option" where
  "node_before h p current =
     (case pcb_next (h current) of None \<Rightarrow> Some current
      | Some n \<Rightarrow> if n = p then Some current else node_before h p n)"

definition pcb_queue_remove ::
    "pcb_heap \<Rightarrow> pcb_queue option \<Rightarrow> nat option \<Rightarrow> (pcb_heap \<times> pcb_queue option) option" where
  "pcb_queue_remove h queue pcb =
     (case (queue, pcb) of (Some q, Some p) \<Rightarrow>
        (case q_list q of None \<Rightarrow> Some (h, queue)
         | Some front \<Rightarrow>
           if front = p then Some (h, Some (q\<lparr>q_list := pcb_next (h p)\<rparr>))
           else do { current \<leftarrow> node_before h p front;
                     if pcb_next (h current) = None then Some (h, queue)
                     else Some (set_next h current (pcb_next (h p)), queue) })
      | _ \<Rightarrow> Some (h, queue))"

definition pcb_queue_pop :: "pcb_heap \<Rightarrow> pcb_queue option \<Rightarrow> nat option \<times> pcb_heap \<times> pcb_queue option" where
  "pcb_queue_pop h queue =
     (case queue of None \<Rightarrow> (None, h, queue)
      | Some q \<Rightarrow>
        (case q_list q of None \<Rightarrow> (None, h, queue)
         | Some front \<Rightarrow>
            (Some front, h(front := (h front)\<lparr>pcb_next := None, pcb_prev := None\<rparr>),
             Some (q\<lparr>q_list := pcb_next (h front)\<rparr>))))"

definition pcb_queue_peek :: "pcb_queue option \<Rightarrow> nat option" where
  "pcb_queue_peek queue = (case queue of None \<Rightarrow> None | Some q \<Rightarrow> q_list q)"

section \<open>A queue as a list\<close>

definition nexts :: "pcb_heap \<Rightarrow> nat \<Rightarrow> nat option" where
  "nexts h = (\<lambda>p. pcb_next (h p))"

lemma nexts_apply [simp]: "nexts h p = pcb_next (h p)"
  by (simp add: nexts_def)

definition queue_of :: "pcb_heap \<Rightarrow> pcb_queue \<Rightarrow> nat list \<Rightarrow> bool" where
  "queue_of h q xs \<longleftrightarrow> chain (nexts h) (q_list q) xs"

lemma nexts_set_next [simp]: "nexts (set_next h p v) = (nexts h)(p := v)"
  by (auto simp: set_next_def)

lemma set_next_sel [simp]:
  "pcb_next (set_next h p v x) = (if x = p then v else pcb_next (h x))"
  "state (set_next h p v x) = state (h x)" "pid (set_next h p v x) = pid (h x)"
  "sleep (set_next h p v x) = sleep (h x)" "is_process (set_next h p v x) = is_process (h x)"
  "yields (set_next h p v x) = yields (h x)"
  by (simp_all add: set_next_def)

lemma queue_of_distinct: "queue_of h q xs \<Longrightarrow> distinct xs"
  unfolding queue_of_def by (rule chain_distinct)

lemma queue_of_cong:
  assumes "queue_of h q xs" and "\<And>x. x \<in> set xs \<Longrightarrow> pcb_next (h' x) = pcb_next (h x)"
    and "q_list q' = q_list q"
  shows "queue_of h' q' xs"
proof -
  have "chain (nexts h) p ys \<Longrightarrow> set ys \<subseteq> set xs \<Longrightarrow> chain (nexts h') p ys" for p ys
    by (induction ys arbitrary: p) (auto simp: assms(2))
  then show ?thesis using assms(1,3) unfolding queue_of_def by simp
qed

lemma last_node_chain:
  "chain (nexts h) (Some x) (x # xs) \<Longrightarrow> last_node h x = Some (last (x # xs))"
proof (induction xs arbitrary: x)
  case Nil
  then show ?case by (simp add: last_node.simps [of h x])
next
  case (Cons y ys)
  then have "last_node h x = last_node h y" by (simp add: last_node.simps [of h x])
  with Cons show ?case by simp
qed

lemma push_queue_of:
  assumes q: "queue_of h q xs" and p: "p \<notin> set xs" and clean: "xs = [] \<Longrightarrow> pcb_next (h p) = None"
  obtains h' q' where "pcb_queue_push h (Some q) (Some p) = Some (ERROR_OK, h', Some q')"
    "queue_of h' q' (xs @ [p])"
    "\<And>x. x \<notin> set (xs @ [p]) \<Longrightarrow> h' x = h x" "pcb_next (h' p) = None"
    "\<And>x. state (h' x) = state (h x) \<and> pid (h' x) = pid (h x) \<and> sleep (h' x) = sleep (h x) \<and>
       is_process (h' x) = is_process (h x) \<and> yields (h' x) = yields (h x)"
proof (cases xs)
  case Nil
  then have "q_list q = None" using q by (simp add: queue_of_def)
  with Nil clean show thesis
    by (intro that [of h "q\<lparr>q_list := Some p\<rparr>"]) (simp_all add: pcb_queue_push_def queue_of_def)
next
  case (Cons y ys)
  then have hd: "q_list q = Some y" and l: "last_node h y = Some (last xs)"
    using q last_node_chain [of h y ys] by (auto simp: queue_of_def)
  let ?h = "set_next (set_next h (last xs) (Some p)) p None" and ?q = "q\<lparr>q_total := q_total q + 1\<rparr>"
  have "chain ((nexts h)(last xs := Some p, p := None)) (q_list q) (xs @ [p])"
    using q p Cons unfolding queue_of_def by (intro chain_snoc) auto
  then have "queue_of ?h ?q (xs @ [p])" by (simp add: queue_of_def)
  moreover have "?h x = h x" if "x \<notin> set (xs @ [p])" for x
    using that Cons by (auto simp: set_next_def)
  ultimately show thesis
    using hd l by (intro that [of ?h ?q]) (simp_all add: pcb_queue_push_def set_next_def)
qed

lemma pop_queue_of:
  assumes "queue_of h q (x # xs)"
  shows "pcb_queue_pop h (Some q) = (Some x, h(x := (h x)\<lparr>pcb_next := None, pcb_prev := None\<rparr>),
      Some (q\<lparr>q_list := pcb_next (h x)\<rparr>))" (is "_ = (_, ?h, Some ?q)")
    and "queue_of (h(x := (h x)\<lparr>pcb_next := None, pcb_prev := None\<rparr>)) (q\<lparr>q_list := pcb_next (h x)\<rparr>) xs"
proof -
  have hd: "q_list q = Some x" "chain (nexts h) (pcb_next (h x)) xs"
    using assms by (auto simp: queue_of_def)
  then show "pcb_queue_pop h (Some q) = (Some x, ?h, Some ?q)" by (simp add: pcb_queue_pop_def)
  have "nexts ?h = (nexts h)(x := None)" by auto
  moreover have "x \<notin> set xs" using queue_of_distinct [OF assms] by simp
  ultimately show "queue_of ?h ?q xs" using hd by (simp add: queue_of_def chain_update)
qed

lemma pop_empty: "queue_of h q [] \<Longrightarrow> pcb_queue_pop h (Some q) = (None, h, Some q)"
  by (simp add: queue_of_def pcb_queue_pop_def)

lemma peek_queue_of: "queue_of h q xs \<Longrightarrow> pcb_queue_peek (Some q) = (case xs of [] \<Rightarrow> None | x # _ \<Rightarrow> Some x)"
  by (cases xs) (auto simp: queue_of_def pcb_queue_peek_def)

lemma add_queue_of:
  assumes "queue_of h q xs" and "p \<notin> set xs"
  shows "\<exists>h' q'. pcb_queue_add h (Some q) (Some p) = (ERROR_OK, h', Some q') \<and> queue_of h' q' (p # xs)"
  using assms by (simp add: pcb_queue_add_def queue_of_def chain_update)

lemma node_before_chain:
  assumes "chain (nexts h) (Some x) (x # xs)" and "x \<noteq> p"
  shows "p \<notin> set xs \<Longrightarrow> \<exists>l. node_before h p x = Some l \<and> pcb_next (h l) = None"
    and "xs = ys @ p # zs \<Longrightarrow> node_before h p x = Some (last (x # ys))"
proof -
  show "p \<notin> set xs \<Longrightarrow> \<exists>l. node_before h p x = Some l \<and> pcb_next (h l) = None" using assms
  proof (induction xs arbitrary: x)
    case Nil
    then show ?case by (simp add: node_before.simps [of h p x])
  next
    case (Cons y ys)
    then show ?case by (simp add: node_before.simps [of h p x])
  qed
  show "xs = ys @ p # zs \<Longrightarrow> node_before h p x = Some (last (x # ys))" using assms
  proof (induction ys arbitrary: x xs)
    case Nil
    then show ?case by (simp add: node_before.simps [of h p x])
  next
    case (Cons y ys)
    have "distinct xs" using chain_distinct [OF Cons.prems(2)] by simp
    then have "y \<noteq> p" using Cons.prems(1) by auto
    then have "node_before h p x = node_before h p y"
      using Cons.prems by (simp add: node_before.simps [of h p x])
    then show ?case using Cons.IH [OF refl, of y] Cons.prems \<open>y \<noteq> p\<close> by auto
  qed
qed

lemma chain_bypass:
  "chain f p (xs @ a # b # ys) \<Longrightarrow> chain (f(a := f b)) p (xs @ a # ys)"
proof (induction xs arbitrary: p)
  case Nil
  then have "a \<notin> set ys" using chain_distinct [of f p "a # b # ys"] by simp
  then have "chain (f(a := f b)) (f b) ys = chain f (f b) ys" by (rule chain_update)
  with Nil show ?case by (simp only: append_Nil chain.simps fun_upd_same simp_thms)
next
  case (Cons x xs)
  then have "x \<noteq> a" using chain_distinct [of f p "x # xs @ a # b # ys"] by simp
  with Cons show ?case by simp
qed

lemma remove_queue_of:
  assumes "queue_of h q xs"
  shows "\<exists>h' q'. pcb_queue_remove h (Some q) (Some p) = Some (h', Some q') \<and> queue_of h' q' (removeAll p xs) \<and>
    (\<forall>x. state (h' x) = state (h x)) \<and> pcb_next (h' p) = pcb_next (h p)"
proof (cases xs)
  case Nil
  then show ?thesis using assms by (auto simp: queue_of_def pcb_queue_remove_def)
next
  case (Cons y ys)
  have dist: "distinct xs" using assms by (rule queue_of_distinct)
  have hd: "q_list q = Some y" and ch: "chain (nexts h) (Some y) (y # ys)"
    using assms Cons by (auto simp: queue_of_def)
  show ?thesis
  proof (cases "y = p")
    case True
    then have "removeAll p xs = ys" using Cons dist by simp
    then show ?thesis using hd ch True by (auto simp: pcb_queue_remove_def queue_of_def)
  next
    case ne: False
    show ?thesis
    proof (cases "p \<in> set ys")
      case False
      obtain l where "node_before h p y = Some l" "pcb_next (h l) = None"
        using node_before_chain(1) [OF ch ne False] by blast
      moreover have "removeAll p xs = xs" using False ne Cons by simp
      ultimately show ?thesis using hd ne assms by (auto simp: pcb_queue_remove_def)
    next
      case True
      then obtain as bs where ys: "ys = as @ p # bs" by (meson split_list)
      obtain cs l where cs: "y # as = cs @ [l]" by (cases "y # as" rule: rev_exhaust) auto
      have l: "node_before h p y = Some l" using node_before_chain(2) [OF ch ne ys] cs by simp
      have split: "y # ys = cs @ l # p # bs" using ys cs by simp
      have nl: "l \<noteq> p" "p \<notin> set cs" "p \<notin> set bs"
        using dist unfolding Cons split by auto
      have "chain (nexts h) (Some y) (cs @ l # p # bs)" using ch split by simp
      then have nx: "pcb_next (h l) = Some p"
        and ch': "chain ((nexts h)(l := nexts h p)) (Some y) (cs @ l # bs)"
        using chain_suffix [of "nexts h" _ cs l "p # bs"] chain_bypass [of "nexts h" _ cs l p bs]
        by simp_all
      have "removeAll p xs = cs @ l # bs" unfolding Cons split using nl by simp
      then show ?thesis using hd ne l nx nl ch'
        by (simp add: pcb_queue_remove_def queue_of_def)
    qed
  qed
qed

section \<open>The queue interface\<close>

definition pcbq_push :: "nat \<Rightarrow> pcb_heap \<times> pcb_queue \<Rightarrow> (pcb_heap \<times> pcb_queue) option" where
  "pcbq_push p s = (case pcb_queue_push (fst s) (Some (snd s)) (Some p) of
     Some (r, h, Some q) \<Rightarrow> if r = ERROR_OK then Some (h, q) else None | _ \<Rightarrow> None)"

definition pcbq_pop :: "pcb_heap \<times> pcb_queue \<Rightarrow> (nat option \<times> pcb_heap \<times> pcb_queue) option" where
  "pcbq_pop s = (case pcb_queue_pop (fst s) (Some (snd s)) of
     (x, h, Some q) \<Rightarrow> Some (x, h, q) | _ \<Rightarrow> None)"

interpretation pcbq: fifo "\<lambda>s xs. queue_of (fst s) (snd s) xs"
  "\<lambda>p s xs. p \<notin> set xs \<and> (xs = [] \<longrightarrow> pcb_next (fst s p) = None)" pcbq_push pcbq_pop
proof
  fix s :: "pcb_heap \<times> pcb_queue" and xs p
  assume "queue_of (fst s) (snd s) xs" "p \<notin> set xs \<and> (xs = [] \<longrightarrow> pcb_next (fst s p) = None)"
  then obtain h q where "pcb_queue_push (fst s) (Some (snd s)) (Some p) = Some (ERROR_OK, h, Some q)"
    "queue_of h q (xs @ [p])"
    by (metis push_queue_of)
  then show "\<exists>s'. pcbq_push p s = Some s' \<and> queue_of (fst s') (snd s') (xs @ [p])"
    by (simp add: pcbq_push_def)
next
  fix s :: "pcb_heap \<times> pcb_queue" and x xs
  assume "queue_of (fst s) (snd s) (x # xs)"
  from pop_queue_of [OF this]
  show "\<exists>s'. pcbq_pop s = Some (Some x, s') \<and> queue_of (fst s') (snd s') xs"
    by (simp add: pcbq_pop_def)
next
  fix s :: "pcb_heap \<times> pcb_queue"
  assume "queue_of (fst s) (snd s) []"
  then show "\<exists>s'. pcbq_pop s = Some (None, s') \<and> queue_of (fst s') (snd s') []"
    using pop_empty by (simp add: pcbq_pop_def)
qed

section \<open>Properties\<close>

text \<open>
  C12. A PCB queue is first in, first out: a PCB pushed on a queue it is not in (and, if the queue is
  empty, with a cleared \<open>next\<close>) comes out of successive pops after the PCBs that were there, in
  their order, and the queue is empty then. The walk to the end of the list terminates.
\<close>

theorem pcb_queue_fifo:
  assumes "queue_of h q xs" and "p \<notin> set xs" and "xs = [] \<Longrightarrow> pcb_next (h p) = None"
  shows "\<exists>s1 s2. pcbq_push p (h, q) = Some s1 \<and>
    pop_many pcbq_pop (Suc (length xs)) s1 = Some (xs @ [p], s2) \<and> queue_of (fst s2) (snd s2) []"
  using pcbq.push_then_drain [of "(h, q)" xs p] assms by simp

definition demo_pcb :: pcb where
  "demo_pcb = \<lparr>pid = 0, state = RUNNING, sleep = 0, is_process = 0, yields = 0, pcb_next = None, pcb_prev = None\<rparr>"

definition demo_heap :: pcb_heap where
  "demo_heap = (\<lambda>i. if i = 1 then demo_pcb\<lparr>pcb_next := Some 2\<rparr> else demo_pcb)"

lemma demo_queue: "queue_of demo_heap \<lparr>q_list = Some 1, q_total = 0\<rparr> [1, 2]"
  by (simp add: queue_of_def demo_heap_def demo_pcb_def)

theorem pcb_queue_fifo_witness:
  "\<exists>s1 s2. pcbq_push 3 (demo_heap, \<lparr>q_list = Some 1, q_total = 0\<rparr>) = Some s1 \<and>
     pop_many pcbq_pop 3 s1 = Some ([1, 2, 3], s2)"
  using pcb_queue_fifo [OF demo_queue, of 3] by (auto simp: numeral_3_eq_3)

text \<open>
  Removing a PCB from a queue terminates and takes exactly that PCB out, wherever it stands; but
  it leaves the \<open>next\<close> pointer of the removed PCB as it was. So when a PCB \<open>p\<close> is removed from the head
  of a queue and then pushed on an empty one, the second queue gets, behind \<open>p\<close>, the rest of the first.
\<close>

theorem pcb_queue_remove_stale:
  assumes "queue_of h q (p # xs)" and "p \<noteq> r" and "q_list q2 = None"
  shows "(\<exists>h' q'. pcb_queue_remove h (Some q) (Some r) = Some (h', Some q') \<and>
      queue_of h' q' (removeAll r (p # xs)) \<and> pcb_next (h' r) = pcb_next (h r)) \<and>
    (\<exists>h1 q1 h2 q2'. pcb_queue_remove h (Some q) (Some p) = Some (h1, Some q1) \<and> queue_of h1 q1 xs \<and>
      pcb_queue_push h1 (Some q2) (Some p) = Some (ERROR_OK, h2, Some q2') \<and>
      queue_of h2 q1 xs \<and> queue_of h2 q2' (p # xs))"
proof
  show "\<exists>h' q'. pcb_queue_remove h (Some q) (Some r) = Some (h', Some q') \<and>
      queue_of h' q' (removeAll r (p # xs)) \<and> pcb_next (h' r) = pcb_next (h r)"
    using remove_queue_of [OF assms(1), of r] by blast
  show "\<exists>h1 q1 h2 q2'. pcb_queue_remove h (Some q) (Some p) = Some (h1, Some q1) \<and> queue_of h1 q1 xs \<and>
      pcb_queue_push h1 (Some q2) (Some p) = Some (ERROR_OK, h2, Some q2') \<and>
      queue_of h2 q1 xs \<and> queue_of h2 q2' (p # xs)"
    using assms by (simp add: queue_of_def pcb_queue_remove_def pcb_queue_push_def)
qed

theorem pcb_queue_remove_stale_witness:
  "\<exists>h1 q1 h2 q2'. pcb_queue_remove demo_heap (Some \<lparr>q_list = Some 1, q_total = 0\<rparr>) (Some 1) = Some (h1, Some q1) \<and>
     pcb_queue_push h1 (Some pcb_new_queue) (Some 1) = Some (0, h2, Some q2') \<and>
     queue_of h2 q1 [2] \<and> queue_of h2 q2' [1, 2]"
proof -
  have "(1::nat) \<noteq> 2" "q_list pcb_new_queue = None" by (simp_all add: pcb_new_queue_def)
  from pcb_queue_remove_stale [OF demo_queue this] show ?thesis by blast
qed

end
