(* ===== verification/Work.thy ===== *)
theory Work imports Fifo Slots
begin

text \<open>
  The work queue of kernel/work.c: a pool of 25 work items, threaded by their \<open>next\<close> pointers
  (indices of the pool) into a list with a head and a tail. \<open>work_queue_add\<close> takes an item of the pool and
  appends it; a worker thread takes the head of the list, runs it and gives the item back. One
  iteration of a worker is two atomic steps around the run of the function, \<open>worker_take\<close>
  and \<open>worker_finish\<close>. Function and callback addresses are numbers, 0 is \<open>NULL\<close>.
\<close>

datatype work_states = WORK_WAITING | WORK_STARTED | WORK_FINISHED

record work =
  work_fn :: nat
  callback :: nat
  w_next :: "nat option"
  w_state :: work_states
  in_use :: int
  w_arg :: int

record work_state =
  work_pool :: "work list"
  w_head :: "nat option"
  w_tail :: "nat option"
  works_in_queue :: int

abbreviation WORK_POOL_SIZE :: nat where "WORK_POOL_SIZE \<equiv> 25"

section \<open>kernel/work.c\<close>

definition upd_work :: "nat \<Rightarrow> (work \<Rightarrow> work) \<Rightarrow> work_state \<Rightarrow> work_state" where
  "upd_work i f ws = ws\<lparr>work_pool := (work_pool ws)[i := f (work_pool ws ! i)]\<rparr>"

definition get_new_work :: "work_state \<Rightarrow> (nat \<times> work_state) option" where
  "get_new_work ws =
     (case first_index (\<lambda>i. in_use (work_pool ws ! i) = 0) WORK_POOL_SIZE of
        None \<Rightarrow> None | Some i \<Rightarrow> Some (i, upd_work i (\<lambda>w. w\<lparr>in_use := 1\<rparr>) ws))"

definition work_queue_add :: "nat \<Rightarrow> int \<Rightarrow> nat \<Rightarrow> work_state \<Rightarrow> (int \<times> work_state) option" where
  "work_queue_add fn arg cb ws =
     (case get_new_work ws of None \<Rightarrow> Some (- ERROR_WORK_QUEUE_FULL, ws)
      | Some (w, ws1) \<Rightarrow>
        let ws2 = upd_work w (\<lambda>x. x\<lparr>work_fn := fn, w_arg := arg, w_state := WORK_WAITING,
                                    callback := cb, w_next := None\<rparr>) ws1
        in (case w_head ws2 of
              None \<Rightarrow> Some (0, ws2\<lparr>w_head := Some w, w_tail := Some w,
                                     works_in_queue := works_in_queue ws2 + 1\<rparr>)
            | Some _ \<Rightarrow>
              (case w_tail ws2 of None \<Rightarrow> None
               | Some t \<Rightarrow> Some (0, (upd_work t (\<lambda>x. x\<lparr>w_next := Some w\<rparr>) ws2)
                                \<lparr>w_tail := Some w, works_in_queue := works_in_queue ws2 + 1\<rparr>))))"

definition init_worker :: "work_state \<Rightarrow> work_state" where
  "init_worker ws = ws\<lparr>work_pool := map (\<lambda>w. w\<lparr>in_use := 0\<rparr>) (work_pool ws)\<rparr>"

definition worker_take :: "work_state \<Rightarrow> nat option \<times> work_state" where
  "worker_take ws =
     (case w_head ws of None \<Rightarrow> (None, ws)
      | Some w \<Rightarrow>
        let next = w_next (work_pool ws ! w);
            ws1 = ws\<lparr>w_head := next, works_in_queue := works_in_queue ws - 1\<rparr>;
            ws2 = (if next = None then ws1\<lparr>w_tail := None\<rparr> else ws1)
        in (Some w, upd_work w (\<lambda>x. x\<lparr>w_state := WORK_STARTED\<rparr>) ws2))"

definition worker_finish :: "nat \<Rightarrow> work_state \<Rightarrow> work_state" where
  "worker_finish w ws = upd_work w (\<lambda>x. x\<lparr>in_use := 0, w_next := None\<rparr>) ws"

text \<open>
  One iteration: \<open>run\<close> is what the work function does, given its address and argument, to the queue
  (it may add work), and its return value; \<open>call\<close> is what the callback does with that value.
\<close>

definition worker_iteration ::
    "(nat \<Rightarrow> int \<Rightarrow> work_state \<Rightarrow> int \<times> work_state) \<Rightarrow> (nat \<Rightarrow> int \<Rightarrow> work_state \<Rightarrow> work_state) \<Rightarrow>
     work_state \<Rightarrow> work_state" where
  "worker_iteration run call ws =
     (case worker_take ws of (None, ws1) \<Rightarrow> ws1
      | (Some w, ws1) \<Rightarrow>
        let x = work_pool ws1 ! w;
            (ret, ws2) = run (work_fn x) (w_arg x) ws1;
            ws3 = (if callback x \<noteq> 0 then call (callback x) ret ws2 else ws2)
        in worker_finish w ws3)"

section \<open>The queue as a list of requests\<close>

definition w_nexts :: "work_state \<Rightarrow> nat \<Rightarrow> nat option" where
  "w_nexts ws = (\<lambda>i. w_next (work_pool ws ! i))"

definition request :: "work_state \<Rightarrow> nat \<Rightarrow> nat \<times> int \<times> nat" where
  "request ws i = (work_fn (work_pool ws ! i), w_arg (work_pool ws ! i), callback (work_pool ws ! i))"

definition work_list :: "work_state \<Rightarrow> nat list \<Rightarrow> bool" where
  "work_list ws xs \<longleftrightarrow> length (work_pool ws) = WORK_POOL_SIZE \<and>
     chain (w_nexts ws) (w_head ws) xs \<and> w_tail ws = (if xs = [] then None else Some (last xs)) \<and>
     (\<forall>x \<in> set xs. x < WORK_POOL_SIZE \<and> in_use (work_pool ws ! x) \<noteq> 0) \<and>
     works_in_queue ws = int (length xs)"

definition work_rep :: "work_state \<Rightarrow> (nat \<times> int \<times> nat) list \<Rightarrow> bool" where
  "work_rep ws rs \<longleftrightarrow> (\<exists>xs. work_list ws xs \<and> rs = map (request ws) xs)"

lemma upd_work_sel [simp]:
  "w_head (upd_work i f ws) = w_head ws" "w_tail (upd_work i f ws) = w_tail ws"
  "works_in_queue (upd_work i f ws) = works_in_queue ws"
  "length (work_pool (upd_work i f ws)) = length (work_pool ws)"
  "i < length (work_pool ws) \<Longrightarrow> work_pool (upd_work i f ws) ! j =
     (if j = i then f (work_pool ws ! i) else work_pool ws ! j)"
  by (simp_all add: upd_work_def nth_list_update)

lemma get_new_work_cases:
  obtains (full) "get_new_work ws = None" "\<And>i. i < WORK_POOL_SIZE \<Longrightarrow> in_use (work_pool ws ! i) \<noteq> 0"
  | (slot) i where "get_new_work ws = Some (i, upd_work i (\<lambda>w. w\<lparr>in_use := 1\<rparr>) ws)"
      "i < WORK_POOL_SIZE" "in_use (work_pool ws ! i) = 0"
proof (cases "first_index (\<lambda>i. in_use (work_pool ws ! i) = 0) WORK_POOL_SIZE")
  case None
  then have "get_new_work ws = None" by (simp add: get_new_work_def)
  then show thesis using full None unfolding find_from_None_iff by simp
next
  case (Some i)
  then have "get_new_work ws = Some (i, upd_work i (\<lambda>w. w\<lparr>in_use := 1\<rparr>) ws)" by (simp add: get_new_work_def)
  then show thesis using slot Some unfolding find_from_Some_iff by simp
qed

lemma chain_cong:
  "chain f p xs \<Longrightarrow> (\<And>x. x \<in> set xs \<Longrightarrow> g x = f x) \<Longrightarrow> chain g p xs"
  by (induction xs arbitrary: p) auto

lemma work_queue_add_list:
  assumes ws: "work_list ws xs"
  shows "(work_queue_add fn arg cb ws = Some (- ERROR_WORK_QUEUE_FULL, ws) \<and>
      (\<forall>i < WORK_POOL_SIZE. in_use (work_pool ws ! i) \<noteq> 0)) \<or>
    (\<exists>w ws'. work_queue_add fn arg cb ws = Some (0, ws') \<and> work_list ws' (xs @ [w]) \<and>
      w < WORK_POOL_SIZE \<and> in_use (work_pool ws ! w) = 0 \<and> request ws' w = (fn, arg, cb) \<and>
      (\<forall>x \<in> set xs. request ws' x = request ws x) \<and>
      (\<forall>i < WORK_POOL_SIZE. in_use (work_pool ws' ! i) \<noteq> 0 \<longleftrightarrow> i = w \<or> in_use (work_pool ws ! i) \<noteq> 0))"
    (is "?full \<or> ?added")
proof (cases rule: get_new_work_cases [of ws])
  case full
  then show ?thesis by (auto simp: work_queue_add_def)
next
  case (slot w)
  have len: "length (work_pool ws) = WORK_POOL_SIZE" and ch: "chain (w_nexts ws) (w_head ws) xs"
    and tl: "w_tail ws = (if xs = [] then None else Some (last xs))"
    and used: "\<And>x. x \<in> set xs \<Longrightarrow> x < WORK_POOL_SIZE \<and> in_use (work_pool ws ! x) \<noteq> 0"
    and cnt: "works_in_queue ws = int (length xs)"
    using ws by (auto simp: work_list_def)
  have w: "w \<notin> set xs" using used slot(3) by auto
  define ws2 where "ws2 = upd_work w (\<lambda>x. x\<lparr>work_fn := fn, w_arg := arg, w_state := WORK_WAITING,
      callback := cb, w_next := None\<rparr>) (upd_work w (\<lambda>w. w\<lparr>in_use := 1\<rparr>) ws)"
  have pool: "work_pool ws2 ! j = (if j = w then (work_pool ws ! w)\<lparr>work_fn := fn, w_arg := arg,
      w_state := WORK_WAITING, callback := cb, w_next := None, in_use := 1\<rparr> else work_pool ws ! j)" for j
    using slot(2) len by (simp add: ws2_def)
  have sel: "w_head ws2 = w_head ws" "w_tail ws2 = w_tail ws" "works_in_queue ws2 = works_in_queue ws"
    "length (work_pool ws2) = WORK_POOL_SIZE"
    using len by (simp_all add: ws2_def)
  have add: "work_queue_add fn arg cb ws = (case w_head ws2 of
              None \<Rightarrow> Some (0, ws2\<lparr>w_head := Some w, w_tail := Some w,
                                     works_in_queue := works_in_queue ws2 + 1\<rparr>)
            | Some _ \<Rightarrow>
              (case w_tail ws2 of None \<Rightarrow> None
               | Some t \<Rightarrow> Some (0, (upd_work t (\<lambda>x. x\<lparr>w_next := Some w\<rparr>) ws2)
                                \<lparr>w_tail := Some w, works_in_queue := works_in_queue ws2 + 1\<rparr>)))"
    unfolding work_queue_add_def slot(1) ws2_def Let_def by (simp only: option.case prod.case)
  show ?thesis
  proof (cases "xs = []")
    case True
    let ?ws = "ws2\<lparr>w_head := Some w, w_tail := Some w, works_in_queue := works_in_queue ws2 + 1\<rparr>"
    have "work_queue_add fn arg cb ws = Some (0, ?ws)" using add sel(1) ch True by simp
    moreover have "work_list ?ws (xs @ [w])"
      using True sel pool slot(2) cnt by (simp add: work_list_def w_nexts_def)
    ultimately show ?thesis using True pool slot by (auto simp: request_def)
  next
    case False
    let ?t = "last xs"
    have t: "?t < WORK_POOL_SIZE" "?t \<noteq> w" "?t \<in> set xs" using used [of ?t] w False by auto
    define ws3 where "ws3 = upd_work ?t (\<lambda>x. x\<lparr>w_next := Some w\<rparr>) ws2"
    let ?ws = "ws3\<lparr>w_tail := Some w, works_in_queue := works_in_queue ws2 + 1\<rparr>"
    obtain f where "w_head ws = Some f" using ch False by (cases xs) auto
    then have "work_queue_add fn arg cb ws = Some (0, ?ws)" using add sel(1,2) tl False by (simp add: ws3_def)
    moreover have pool3: "work_pool ws3 ! j = (if j = ?t then (work_pool ws ! ?t)\<lparr>w_next := Some w\<rparr>
        else work_pool ws2 ! j)" for j
      using t sel(4) by (simp add: ws3_def pool)
    have "work_list ?ws (xs @ [w])"
    proof -
      have "w_nexts ?ws = (w_nexts ws)(?t := Some w, w := None)"
        using t(2) by (auto simp: w_nexts_def pool3 pool)
      then have "chain (w_nexts ?ws) (w_head ?ws) (xs @ [w])"
        using chain_snoc [OF ch False w] sel(1) by (simp add: ws3_def)
      moreover have "length (work_pool ?ws) = WORK_POOL_SIZE" using sel(4) by (simp add: ws3_def)
      moreover have "x < WORK_POOL_SIZE \<and> in_use (work_pool ?ws ! x) \<noteq> 0" if "x \<in> set (xs @ [w])" for x
        using that used slot(2) t(2,3) by (auto simp: pool3 pool)
      ultimately show ?thesis using sel(3) cnt by (simp add: work_list_def)
    qed
    ultimately show ?thesis using pool3 pool slot t w by (auto simp: request_def)
  qed
qed

lemma worker_take_list:
  assumes ws: "work_list ws (w # xs)"
  obtains ws' where "worker_take ws = (Some w, ws')" "work_list ws' xs"
    "\<And>i. request ws' i = request ws i" "\<And>i. in_use (work_pool ws' ! i) = in_use (work_pool ws ! i)"
proof -
  let ?ws = "snd (worker_take ws)"
  have len: "length (work_pool ws) = WORK_POOL_SIZE" and hd: "w_head ws = Some w"
    and ch: "chain (w_nexts ws) (w_nexts ws w) xs" and w: "w < WORK_POOL_SIZE"
    using ws by (auto simp: work_list_def)
  have nil: "w_nexts ws w = None \<longleftrightarrow> xs = []" using ch by (cases xs) auto
  have eq: "worker_take ws = (Some w, ?ws)" using hd by (simp add: worker_take_def Let_def)
  have ws': "?ws = upd_work w (\<lambda>x. x\<lparr>w_state := WORK_STARTED\<rparr>)
      (ws\<lparr>w_head := w_nexts ws w, works_in_queue := works_in_queue ws - 1,
         w_tail := if xs = [] then None else w_tail ws\<rparr>)"
    using hd nil by (simp add: worker_take_def Let_def w_nexts_def)
  have pool: "work_pool ?ws ! j = (if j = w then (work_pool ws ! w)\<lparr>w_state := WORK_STARTED\<rparr> else work_pool ws ! j)" for j
    using w len by (simp add: ws')
  have "w_nexts ?ws = w_nexts ws" by (auto simp: w_nexts_def pool)
  then have "work_list ?ws xs"
    using ws ch len by (auto simp: work_list_def pool) (auto simp: ws')
  then show thesis using eq pool by (intro that [of ?ws]) (auto simp: request_def)
qed

lemma worker_take_empty: "work_list ws [] \<Longrightarrow> worker_take ws = (None, ws)"
  by (simp add: work_list_def worker_take_def)

text \<open>Giving an item back keeps the queue when the item is not in it, as after \<open>worker_take\<close>.\<close>

lemma worker_finish_list:
  assumes "work_list ws xs" and "w < WORK_POOL_SIZE" and "w \<notin> set xs"
  shows "work_list (worker_finish w ws) xs \<and> (\<forall>x \<in> set xs. request (worker_finish w ws) x = request ws x)"
proof -
  have len: "length (work_pool ws) = WORK_POOL_SIZE" using assms(1) by (simp add: work_list_def)
  have pool: "work_pool (worker_finish w ws) ! j =
      (if j = w then (work_pool ws ! w)\<lparr>in_use := 0, w_next := None\<rparr> else work_pool ws ! j)" for j
    using assms(2) len by (simp add: worker_finish_def)
  have "chain (w_nexts (worker_finish w ws)) (w_head ws) xs"
    using assms by (auto simp: work_list_def w_nexts_def pool intro: chain_cong)
  then show ?thesis using assms by (auto simp: work_list_def request_def pool) (auto simp: worker_finish_def)
qed

section \<open>The interfaces\<close>

definition work_take_request :: "work_state \<Rightarrow> ((nat \<times> int \<times> nat) option \<times> work_state) option" where
  "work_take_request ws = (case worker_take ws of (None, ws1) \<Rightarrow> Some (None, ws1)
     | (Some w, ws1) \<Rightarrow> Some (Some (request ws1 w), ws1))"

definition work_add_request :: "nat \<times> int \<times> nat \<Rightarrow> work_state \<Rightarrow> work_state option" where
  "work_add_request r ws = (case r of (fn, arg, cb) \<Rightarrow>
     (case work_queue_add fn arg cb ws of Some (ret, ws1) \<Rightarrow> if ret = 0 then Some ws1 else None | None \<Rightarrow> None))"

definition pool_has_room :: "work_state \<Rightarrow> bool" where
  "pool_has_room ws \<longleftrightarrow> (\<exists>i < WORK_POOL_SIZE. in_use (work_pool ws ! i) = 0)"

interpretation workq: fifo work_rep "\<lambda>r ws rs. pool_has_room ws" work_add_request work_take_request
proof
  fix ws rs and r :: "nat \<times> int \<times> nat" assume ws: "work_rep ws rs" and room: "pool_has_room ws"
  obtain fn arg cb where r: "r = (fn, arg, cb)" by (cases r)
  obtain xs where xs: "work_list ws xs" "rs = map (request ws) xs" using ws by (auto simp: work_rep_def)
  have "\<exists>w ws'. work_queue_add fn arg cb ws = Some (0, ws') \<and> work_list ws' (xs @ [w]) \<and>
      request ws' w = (fn, arg, cb) \<and> (\<forall>x \<in> set xs. request ws' x = request ws x)"
    using work_queue_add_list [OF xs(1), of fn arg cb] room unfolding pool_has_room_def by blast
  then obtain w ws' where w: "work_queue_add fn arg cb ws = Some (0, ws')" "work_list ws' (xs @ [w])"
    "request ws' w = (fn, arg, cb)" "\<forall>x \<in> set xs. request ws' x = request ws x" by blast
  have "rs @ [r] = map (request ws') (xs @ [w])" using w(3,4) xs(2) r by simp
  then have "work_rep ws' (rs @ [r])" using w(2) unfolding work_rep_def by blast
  then show "\<exists>ws'. work_add_request r ws = Some ws' \<and> work_rep ws' (rs @ [r])"
    using w(1) r by (simp add: work_add_request_def)
next
  fix ws r rs assume "work_rep ws (r # rs)"
  then obtain w xs where w: "work_list ws (w # xs)" "r = request ws w" "rs = map (request ws) xs"
    by (auto simp: work_rep_def Cons_eq_map_conv)
  obtain ws' where ws': "worker_take ws = (Some w, ws')" "work_list ws' xs"
    "\<And>i. request ws' i = request ws i"
    using worker_take_list [OF w(1)] by metis
  have "work_rep ws' rs" using ws'(2,3) w(3) by (auto simp: work_rep_def)
  then show "\<exists>ws'. work_take_request ws = Some (Some r, ws') \<and> work_rep ws' rs"
    using ws'(1,3) w(2) by (simp add: work_take_request_def)
next
  fix ws assume "work_rep ws []"
  then show "\<exists>ws'. work_take_request ws = Some (None, ws') \<and> work_rep ws' []"
    by (simp add: work_rep_def work_take_request_def worker_take_empty)
qed

interpretation workpool: slots "\<lambda>ws. length (work_pool ws) = WORK_POOL_SIZE"
  "\<lambda>ws i. in_use (work_pool ws ! i) \<noteq> 0" "{..<WORK_POOL_SIZE}" get_new_work worker_finish
proof
  show "finite {..<WORK_POOL_SIZE}" by simp
next
  fix ws i ws' assume len: "length (work_pool ws) = WORK_POOL_SIZE" and get: "get_new_work ws = Some (i, ws')"
  then show "length (work_pool ws') = WORK_POOL_SIZE \<and> i \<in> {..<WORK_POOL_SIZE} \<and>
      \<not> in_use (work_pool ws ! i) \<noteq> 0 \<and>
      (\<forall>j\<in>{..<WORK_POOL_SIZE}. (in_use (work_pool ws' ! j) \<noteq> 0) = (j = i \<or> in_use (work_pool ws ! j) \<noteq> 0))"
    by (cases rule: get_new_work_cases [of ws]) (auto split: if_splits)
next
  fix ws i assume "get_new_work ws = None" "i \<in> {..<WORK_POOL_SIZE}"
  then show "in_use (work_pool ws ! i) \<noteq> 0" by (cases rule: get_new_work_cases [of ws]) auto
next
  fix ws :: work_state and i assume "length (work_pool ws) = WORK_POOL_SIZE" "i \<in> {..<WORK_POOL_SIZE}"
  then show "length (work_pool (worker_finish i ws)) = WORK_POOL_SIZE \<and>
      (\<forall>j\<in>{..<WORK_POOL_SIZE}. (in_use (work_pool (worker_finish i ws) ! j) \<noteq> 0) =
         (j \<noteq> i \<and> in_use (work_pool ws ! j) \<noteq> 0))"
    by (simp add: worker_finish_def)
qed

section \<open>Properties\<close>

text \<open>
  C13. A request added to the work queue is refused, with the queue as it was, exactly when all 25
  items of the pool are in use; otherwise it is taken by a worker after all requests that were
  waiting, which are taken in the order they were added, each with its function, argument and
  callback.
\<close>

theorem work_queue_fifo:
  assumes "work_rep ws rs"
  shows "if pool_has_room ws
    then \<exists>ws1 ws2. work_queue_add fn arg cb ws = Some (0, ws1) \<and>
      pop_many work_take_request (Suc (length rs)) ws1 = Some (rs @ [(fn, arg, cb)], ws2) \<and> work_rep ws2 []
    else work_queue_add fn arg cb ws = Some (- ERROR_WORK_QUEUE_FULL, ws)"
proof (cases "pool_has_room ws")
  case True
  obtain ws1 ws2 where "work_add_request (fn, arg, cb) ws = Some ws1"
    "pop_many work_take_request (Suc (length rs)) ws1 = Some (rs @ [(fn, arg, cb)], ws2)" "work_rep ws2 []"
    using workq.push_then_drain [OF assms True] by blast
  then show ?thesis using True
    by (auto simp: work_add_request_def split: option.splits if_splits)
next
  case False
  obtain xs where "work_list ws xs" using assms by (auto simp: work_rep_def)
  from work_queue_add_list [OF this, of fn arg cb] False show ?thesis
    unfolding pool_has_room_def by auto
qed

definition demo_works :: work_state where
  "demo_works = \<lparr>work_pool = replicate WORK_POOL_SIZE
     \<lparr>work_fn = 0, callback = 0, w_next = None, w_state = WORK_WAITING, in_use = 0, w_arg = 0\<rparr>,
     w_head = None, w_tail = None, works_in_queue = 0\<rparr>"

theorem work_queue_fifo_witness:
  "\<exists>ws1 ws2. work_queue_add 7 1 0 demo_works = Some (0, ws1) \<and>
     pop_many work_take_request 1 ws1 = Some ([(7, 1, 0)], ws2)"
proof -
  have "work_rep demo_works []" by (simp add: work_rep_def work_list_def demo_works_def)
  moreover have "pool_has_room demo_works" by (auto simp: pool_has_room_def demo_works_def intro!: exI [of _ 0])
  ultimately show ?thesis using work_queue_fifo [of demo_works "[]" 7 1 0] by auto
qed

end
