(* ===== verification/Scheduler.thy ===== *)
theory Scheduler imports Pcb_Queue Work
begin

text \<open>
  The round-robin scheduler of kernel/scheduler.c on the store of PCBs, and the mutex of kernel/sync.c.
  Saving and restoring registers, the task state segment and the page directory are machine state
  that the model leaves out; a critical section is an atomic step. \<open>round_robin\<close> either returns
  or starts a new process (\<open>start_pcb\<close> does not return). \<open>None\<close> is a null dereference, a failed
  assertion, a panic, or a search that never ends.
\<close>

record sched =
  heap :: pcb_heap
  queue :: "pcb_queue option"
  priority :: "pcb_queue option"
  running :: "nat option"
  current :: "nat option" \<comment> \<open>\<open>$process->current\<close>\<close>
  initiated :: bool \<comment> \<open>\<open>flags & SCHED_INITIATED\<close>\<close>
  exits :: nat
  tick :: int
  works :: work_state

abbreviation pcb_cleanup_routine :: nat where "pcb_cleanup_routine \<equiv> 1"

section \<open>kernel/scheduler.c\<close>

definition set_state :: "pcb_heap \<Rightarrow> nat \<Rightarrow> pcb_state \<Rightarrow> pcb_heap" where
  "set_state h p v = h(p := (h p)\<lparr>state := v\<rparr>)"

definition sched_init_default :: "sched \<Rightarrow> int \<times> sched" where
  "sched_init_default s =
     (if initiated s then (- ERROR_SCHED_EXISTS, s)
      else (ERROR_OK, s\<lparr>priority := Some pcb_new_queue, queue := Some pcb_new_queue, initiated := True\<rparr>))"

definition sched_consume :: "sched \<Rightarrow> nat option \<times> sched" where
  "sched_consume s = (running s, s\<lparr>running := None\<rparr>)"

definition sched_prioritize :: "nat option \<Rightarrow> sched \<Rightarrow> (int \<times> sched) option" where
  "sched_prioritize p s =
     (if p = None then Some (- ERROR_NULL_POINTER, s)
      else if \<not> initiated s then Some (- ERROR_SCHED_INVALID, s)
      else if priority s = None then None
      else do { (r, h, q) \<leftarrow> pcb_queue_push (heap s) (priority s) p;
                Some (if r < 0 then r else ERROR_OK, s\<lparr>heap := h, priority := q\<rparr>) })"

definition sched_add :: "nat option \<Rightarrow> sched \<Rightarrow> (int \<times> sched) option" where
  "sched_add p s =
     (if \<not> initiated s then Some (- ERROR_SCHED_INVALID, s)
      else if queue s = None then None
      else do { (r, h, q) \<leftarrow> pcb_queue_push (heap s) (queue s) p;
                Some (if r < 0 then r else ERROR_OK, s\<lparr>heap := h, queue := q\<rparr>) })"

text \<open>A sleeper is due: \<open>sleep\<close> is a \<open>uint16_t\<close>, the tick an \<open>int\<close>.\<close>

definition due :: "sched \<Rightarrow> nat \<Rightarrow> bool" where
  "due s p \<longleftrightarrow> uint (sleep (heap s p)) < tick s"

text \<open>The loop of \<open>sched_round_robin\<close>: the PCB chosen, and whether it is a new one to be started.\<close>

partial_function (option) rr_loop :: "sched \<Rightarrow> (nat \<times> bool \<times> sched) option" where
  "rr_loop s =
     (case pcb_queue_pop (heap s) (queue s) of
        (None, h, q) \<Rightarrow> None
      | (Some next, h, q) \<Rightarrow>
        (case state (h next) of
           RUNNING \<Rightarrow> Some (next, False, s\<lparr>heap := h, queue := q\<rparr>)
         | PCB_NEW \<Rightarrow> Some (next, True, s\<lparr>heap := set_state h next RUNNING, queue := q\<rparr>)
         | ZOMBIE \<Rightarrow>
             do { (r, w) \<leftarrow> work_queue_add pcb_cleanup_routine (pid (h next)) 0 (works s);
                  rr_loop (s\<lparr>heap := h, queue := q, works := w\<rparr>) }
         | _ \<Rightarrow>
             if state (h next) = SLEEPING \<and> due s next
             then Some (next, False, s\<lparr>heap := set_state h next RUNNING, queue := q\<rparr>)
             else do { (r, h2, q2) \<leftarrow> pcb_queue_push h q (Some next);
                       rr_loop (s\<lparr>heap := h2, queue := q2\<rparr>) }))"

text \<open>
  The error code, or \<open>None\<close> when control went to a new process. The operations reach the queue through
  \<open>sched->queue->ops\<close>, so a \<open>NULL\<close> queue and a pop of \<open>NULL\<close> are faults.
\<close>

definition sched_round_robin :: "sched \<Rightarrow> (int option \<times> sched) option" where
  "sched_round_robin s =
     (if \<not> initiated s then Some (Some (- ERROR_SCHED_INVALID), s)
      else if queue s = None then None
      else if pcb_queue_peek (queue s) = None then Some (Some (- ERROR_PCB_QUEUE_EMPTY), s)
      else do {
        s1 \<leftarrow> (case running s of None \<Rightarrow> Some s
               | Some c \<Rightarrow> do { (r, h, q) \<leftarrow> pcb_queue_push (heap s) (queue s) (Some c);
                                Some (s\<lparr>heap := h, queue := q, running := None\<rparr>) });
        (next, new, s2) \<leftarrow> rr_loop s1;
        Some (if new then None else Some ERROR_OK, s2\<lparr>running := Some next, current := Some next\<rparr>) })"

text \<open>\<open>PANIC_ON_ERR(sched_round_robin(sched))\<close>\<close>

definition switch :: "sched \<Rightarrow> (int \<times> sched) option" where
  "switch s = do { (r, s1) \<leftarrow> sched_round_robin s;
     case r of None \<Rightarrow> Some (ERROR_OK, s1) | Some e \<Rightarrow> if e < 0 then None else Some (ERROR_OK, s1) }"

definition sched_default :: "sched \<Rightarrow> (int \<times> sched) option" where
  "sched_default s =
     (if \<not> initiated s then Some (- ERROR_SCHED_INVALID, s)
      else let s1 = (if running s = None
                     then case pcb_queue_pop (heap s) (queue s) of (p, h, q) \<Rightarrow>
                            s\<lparr>heap := h, queue := q, running := p, current := p\<rparr>
                     else s)
           in (case running s1 of None \<Rightarrow> None
               | Some c \<Rightarrow> switch (s1\<lparr>heap := (heap s1)(c := (heap s1 c)\<lparr>yields := yields (heap s1 c) + 1\<rparr>)\<rparr>)))"

definition sched_sleep :: "int \<Rightarrow> sched \<Rightarrow> (int \<times> sched) option" where
  "sched_sleep time s =
     (if \<not> initiated s then Some (- ERROR_SCHED_INVALID, s)
      else case running s of None \<Rightarrow> None
      | Some c \<Rightarrow>
        do { (r, s1) \<leftarrow> sched_default (s\<lparr>heap := (heap s)(c := (heap s c)
               \<lparr>sleep := of_int (tick s + time), state := SLEEPING\<rparr>)\<rparr>);
             Some (ERROR_OK, s1) })"

definition sched_block :: "nat option \<Rightarrow> sched \<Rightarrow> (int \<times> sched) option" where
  "sched_block pcb s =
     (case pcb of None \<Rightarrow> Some (- ERROR_NULL_POINTER, s)
      | Some p \<Rightarrow>
        if \<not> initiated s then Some (- ERROR_SCHED_INVALID, s)
        else if running s \<noteq> None then None
        else do { (r, s1) \<leftarrow> sched_round_robin (s\<lparr>heap := set_state (heap s) p BLOCKED\<rparr>);
                  case r of None \<Rightarrow> Some (ERROR_OK, s1)
                  | Some e \<Rightarrow> if e = ERROR_OK then Some (ERROR_OK, s1) else None })"

definition sched_exit :: "sched \<Rightarrow> (int \<times> sched) option" where
  "sched_exit s =
     (if \<not> initiated s then Some (- ERROR_SCHED_INVALID, s)
      else case running s of None \<Rightarrow> None
      | Some c \<Rightarrow> switch (s\<lparr>exits := exits s + 1, heap := set_state (heap s) c ZOMBIE\<rparr>))"

section \<open>The search for a process to run\<close>

definition ready :: "sched \<Rightarrow> nat \<Rightarrow> bool" where
  "ready s p \<longleftrightarrow> state (heap s p) = RUNNING \<or> state (heap s p) = SLEEPING \<and> due s p"

definition passed_over :: "sched \<Rightarrow> nat \<Rightarrow> bool" where
  "passed_over s p \<longleftrightarrow> state (heap s p) \<noteq> PCB_NEW \<and> \<not> ready s p"

text \<open>The zombies met on the way, each handed to the cleanup routine.\<close>

fun bury :: "int list \<Rightarrow> work_state \<Rightarrow> work_state option" where
  "bury [] w = Some w"
| "bury (p # ps) w = do { (r, w1) \<leftarrow> work_queue_add pcb_cleanup_routine p 0 w; bury ps w1 }"

definition zombies :: "sched \<Rightarrow> nat list \<Rightarrow> int list" where
  "zombies s xs = map (\<lambda>x. pid (heap s x)) (filter (\<lambda>x. state (heap s x) = ZOMBIE) xs)"

definition alive :: "sched \<Rightarrow> nat list \<Rightarrow> nat list" where
  "alive s xs = filter (\<lambda>x. state (heap s x) \<noteq> ZOMBIE) xs"

definition ready_queue :: "sched \<Rightarrow> nat list \<Rightarrow> bool" where
  "ready_queue s xs \<longleftrightarrow> (\<exists>q. queue s = Some q \<and> queue_of (heap s) q xs)"

text \<open>Nothing of a PCB that the scheduler looks at depends on the links.\<close>

definition same_pcb :: "pcb \<Rightarrow> pcb \<Rightarrow> bool" where
  "same_pcb a b \<longleftrightarrow> state a = state b \<and> pid a = pid b \<and> sleep a = sleep b \<and>
     is_process a = is_process b \<and> yields a = yields b"

lemma rr_loop_finds:
  assumes "ready_queue s (xs @ r # ys)" and "\<And>x. x \<in> set xs \<Longrightarrow> passed_over s x" and "ready s r"
    and "bury (zombies s xs) (works s) = Some w"
  shows "\<exists>s'. rr_loop s = Some (r, False, s') \<and> ready_queue s' (ys @ alive s xs) \<and> works s' = w \<and>
    (\<forall>x. same_pcb (heap s' x) (if x = r then (heap s r)\<lparr>state := RUNNING\<rparr> else heap s x)) \<and>
    (\<forall>x. x \<notin> set (xs @ r # ys) \<longrightarrow> heap s' x = heap s x) \<and>
    pcb_next (heap s' r) = None \<and> tick s' = tick s \<and> initiated s' = initiated s \<and>
    running s' = running s \<and> priority s' = priority s \<and> exits s' = exits s"
  using assms
proof (induction xs arbitrary: s ys)
  case Nil
  obtain q where q: "queue s = Some q" "queue_of (heap s) q (r # ys)"
    using Nil.prems(1) by (auto simp: ready_queue_def)
  let ?h = "(heap s)(r := (heap s r)\<lparr>pcb_next := None, pcb_prev := None\<rparr>)"
  let ?q = "q\<lparr>q_list := pcb_next (heap s r)\<rparr>"
  note pop = pop_queue_of [OF q(2)]
  have nr: "r \<notin> set ys" using queue_of_distinct [OF q(2)] by simp
  show ?case
  proof (cases "state (heap s r) = RUNNING")
    case True
    then have "rr_loop s = Some (r, False, s\<lparr>heap := ?h, queue := Some ?q\<rparr>)"
      using q(1) pop(1) by (simp add: rr_loop.simps [of s])
    then show ?thesis using pop(2) Nil.prems(4) True
      by (auto simp: ready_queue_def zombies_def alive_def same_pcb_def)
  next
    case False
    then have sl: "state (heap s r) = SLEEPING" "due s r" using Nil.prems(3) by (auto simp: ready_def)
    then have "rr_loop s = Some (r, False, s\<lparr>heap := set_state ?h r RUNNING, queue := Some ?q\<rparr>)"
      using q(1) pop(1) by (simp add: rr_loop.simps [of s])
    moreover have "queue_of (set_state ?h r RUNNING) ?q ys"
      using pop(2) by (rule queue_of_cong) (simp_all add: set_state_def)
    ultimately show ?thesis using Nil.prems(4)
      by (auto simp: ready_queue_def zombies_def alive_def same_pcb_def set_state_def)
  qed
next
  case (Cons x xs)
  obtain q where q: "queue s = Some q" "queue_of (heap s) q (x # xs @ r # ys)"
    using Cons.prems(1) by (auto simp: ready_queue_def)
  define h where "h = (heap s)(x := (heap s x)\<lparr>pcb_next := None, pcb_prev := None\<rparr>)"
  define q1 where "q1 = q\<lparr>q_list := pcb_next (heap s x)\<rparr>"
  note pop = pop_queue_of [OF q(2), folded h_def q1_def]
  have dist: "distinct (x # xs @ r # ys)" by (rule queue_of_distinct [OF q(2)])
  have sh: "same_pcb (h y) (heap s y)" "y \<noteq> x \<Longrightarrow> h y = heap s y" for y by (simp_all add: h_def same_pcb_def)
  have st: "state (heap s x) \<noteq> RUNNING" "state (heap s x) \<noteq> PCB_NEW"
    "\<not> (state (heap s x) = SLEEPING \<and> due s x)"
    using Cons.prems(2) [of x] by (auto simp: passed_over_def ready_def)
  have stx: "state (h x) = state (heap s x)" "pid (h x) = pid (heap s x)" by (simp_all add: h_def)
  show ?case
  proof (cases "state (heap s x) = ZOMBIE")
    case True
    obtain e w1 where w1: "work_queue_add pcb_cleanup_routine (pid (heap s x)) 0 (works s) = Some (e, w1)"
      "bury (zombies s xs) w1 = Some w"
      using Cons.prems(4) True by (auto simp: zombies_def split: bind_splits)
    define s1 where "s1 = s\<lparr>heap := h, queue := Some q1, works := w1\<rparr>"
    have loop: "rr_loop s = rr_loop s1"
      using q(1) pop(1) True stx w1(1) by (simp add: rr_loop.simps [of s] s1_def)
    have same: "ready s1 y = ready s y" "passed_over s1 y = passed_over s y" for y
      by (simp_all add: ready_def passed_over_def due_def s1_def h_def)
    have lists: "zombies s1 zs = zombies s zs" "alive s1 zs = alive s zs" for zs
      using sh(1) by (simp_all add: zombies_def alive_def s1_def same_pcb_def)
    have "ready_queue s1 (xs @ r # ys)" using pop(2) by (simp add: ready_queue_def s1_def)
    from Cons.IH [OF this] obtain s' where s': "rr_loop s1 = Some (r, False, s')"
      "ready_queue s' (ys @ alive s xs)" "works s' = w"
      "\<And>z. same_pcb (heap s' z) (if z = r then (heap s1 r)\<lparr>state := RUNNING\<rparr> else heap s1 z)"
      "\<And>z. z \<notin> set (xs @ r # ys) \<Longrightarrow> heap s' z = heap s1 z" "pcb_next (heap s' r) = None"
      "tick s' = tick s1" "initiated s' = initiated s1" "running s' = running s1"
      "priority s' = priority s1" "exits s' = exits s1"
      using Cons.prems(2,3) w1(2) unfolding same lists by (auto simp: s1_def)
    have "alive s (x # xs) = alive s xs" using True by (simp add: alive_def)
    moreover have "same_pcb (heap s' z) (if z = r then (heap s r)\<lparr>state := RUNNING\<rparr> else heap s z)" for z
      using s'(4) [of z] sh(1) [of z] by (auto simp: same_pcb_def s1_def split: if_splits)
    ultimately show ?thesis using s' loop sh(2) by (auto simp: s1_def)
  next
    case False
    have "x \<notin> set (xs @ r # ys)" using dist by simp
    then obtain h2 q2 where push: "pcb_queue_push h (Some q1) (Some x) = Some (ERROR_OK, h2, Some q2)"
      "queue_of h2 q2 ((xs @ r # ys) @ [x])" "\<And>z. z \<notin> set ((xs @ r # ys) @ [x]) \<Longrightarrow> h2 z = h z"
      "\<And>z. same_pcb (h2 z) (h z)"
      using push_queue_of [OF pop(2), of x] unfolding same_pcb_def by (metis append_is_Nil_conv list.discI)
    define s1 where "s1 = s\<lparr>heap := h2, queue := Some q2\<rparr>"
    have loop: "rr_loop s = rr_loop s1"
      using q(1) pop(1) False stx st push(1)
      by (cases "state (heap s x)") (simp_all add: rr_loop.simps [of s] s1_def)
    have sh2: "same_pcb (h2 y) (heap s y)" for y
      using push(4) [of y] sh(1) [of y] by (simp add: same_pcb_def)
    have same: "ready s1 y = ready s y" "passed_over s1 y = passed_over s y" for y
      using sh2 [of y] by (simp_all add: ready_def passed_over_def due_def s1_def same_pcb_def)
    have lists: "zombies s1 zs = zombies s zs" "alive s1 zs = alive s zs" for zs
      using sh2 by (simp_all add: zombies_def alive_def s1_def same_pcb_def)
    have "ready_queue s1 (xs @ r # (ys @ [x]))" using push(2) by (simp add: ready_queue_def s1_def)
    from Cons.IH [OF this] obtain s' where s': "rr_loop s1 = Some (r, False, s')"
      "ready_queue s' ((ys @ [x]) @ alive s xs)" "works s' = w"
      "\<And>z. same_pcb (heap s' z) (if z = r then (heap s1 r)\<lparr>state := RUNNING\<rparr> else heap s1 z)"
      "\<And>z. z \<notin> set (xs @ r # ys @ [x]) \<Longrightarrow> heap s' z = heap s1 z" "pcb_next (heap s' r) = None"
      "tick s' = tick s1" "initiated s' = initiated s1" "running s' = running s1"
      "priority s' = priority s1" "exits s' = exits s1"
      using Cons.prems(2,3,4) False unfolding same lists by (auto simp: s1_def zombies_def)
    have "alive s (x # xs) = x # alive s xs" using False by (simp add: alive_def)
    moreover have "same_pcb (heap s' z) (if z = r then (heap s r)\<lparr>state := RUNNING\<rparr> else heap s z)" for z
      using s'(4) [of z] sh2 [of z] by (auto simp: same_pcb_def s1_def split: if_splits)
    moreover have "heap s' z = heap s z" if "z \<notin> set (xs @ r # ys)" "z \<noteq> x" for z
      using s'(5) [of z] push(3) [of z] sh(2) [of z] that by (simp add: s1_def)
    ultimately show ?thesis using s' loop by (auto simp: s1_def)
  qed
qed

lemma ready_queue_distinct: "ready_queue s xs \<Longrightarrow> distinct xs"
  using queue_of_distinct by (auto simp: ready_queue_def)

lemma ready_queue_cong:
  "ready_queue s xs \<Longrightarrow> heap s' = heap s \<Longrightarrow> queue s' = queue s \<Longrightarrow> ready_queue s' xs"
  by (simp add: ready_queue_def)

lemma same_pcb_ready:
  assumes "\<And>x. same_pcb (heap s' x) (heap s x)" and "tick s' = tick s"
  shows "ready s' x = ready s x" "passed_over s' x = passed_over s x"
    "zombies s' zs = zombies s zs" "alive s' zs = alive s zs"
  using assms by (simp_all add: ready_def passed_over_def due_def same_pcb_def zombies_def alive_def)

abbreviation with_running :: "nat option \<Rightarrow> nat list \<Rightarrow> nat list" where
  "with_running c zs \<equiv> zs @ (case c of None \<Rightarrow> [] | Some p \<Rightarrow> [p])"

text \<open>The whole of \<open>sched_round_robin\<close>: the running PCB joins the queue, the first ready one leaves it.\<close>

lemma round_robin_picks:
  assumes init: "initiated s" and q: "ready_queue s zs" and ne: "zs \<noteq> []"
    and c: "\<And>c. running s = Some c \<Longrightarrow> c \<notin> set zs"
    and full: "with_running (running s) zs = xs @ r # ys"
    and pass: "\<And>x. x \<in> set xs \<Longrightarrow> passed_over s x" and r: "ready s r"
    and w: "bury (zombies s xs) (works s) = Some w"
  shows "\<exists>s'. sched_round_robin s = Some (Some ERROR_OK, s') \<and> running s' = Some r \<and> current s' = Some r \<and>
    ready_queue s' (ys @ alive s xs) \<and> works s' = w \<and>
    (\<forall>x. same_pcb (heap s' x) (if x = r then (heap s r)\<lparr>state := RUNNING\<rparr> else heap s x)) \<and>
    (\<forall>x. x \<notin> set (xs @ r # ys) \<longrightarrow> heap s' x = heap s x) \<and>
    pcb_next (heap s' r) = None \<and> tick s' = tick s \<and> initiated s' = initiated s \<and> exits s' = exits s"
proof -
  obtain q where qs: "queue s = Some q" "queue_of (heap s) q zs" using q by (auto simp: ready_queue_def)
  have peek: "pcb_queue_peek (queue s) \<noteq> None"
    using qs ne peek_queue_of [OF qs(2)] by (cases zs) auto
  obtain s1 where s1: "(case running s of None \<Rightarrow> Some s
               | Some c \<Rightarrow> do { (r, h, q) \<leftarrow> pcb_queue_push (heap s) (queue s) (Some c);
                                Some (s\<lparr>heap := h, queue := q, running := None\<rparr>) }) = Some s1"
    "ready_queue s1 (xs @ r # ys)" "\<And>x. same_pcb (heap s1 x) (heap s x)"
    "\<And>x. x \<notin> set (xs @ r # ys) \<Longrightarrow> heap s1 x = heap s x"
    "tick s1 = tick s" "works s1 = works s" "initiated s1 = initiated s" "exits s1 = exits s"
  proof (cases "running s")
    case None
    then show thesis using that [of s] q full by (simp add: same_pcb_def)
  next
    case (Some c0)
    then have "c0 \<notin> set zs" by (rule c)
    then obtain h2 q2 where push: "pcb_queue_push (heap s) (Some q) (Some c0) = Some (ERROR_OK, h2, Some q2)"
      "queue_of h2 q2 (zs @ [c0])" "\<And>z. z \<notin> set (zs @ [c0]) \<Longrightarrow> h2 z = heap s z"
      "\<And>z. same_pcb (h2 z) (heap s z)"
      using push_queue_of [OF qs(2), of c0] ne unfolding same_pcb_def by metis
    have "zs @ [c0] = xs @ r # ys" using full Some by simp
    then show thesis
      using that [of "s\<lparr>heap := h2, queue := Some q2, running := None\<rparr>"] push qs(1) Some
      by (simp add: ready_queue_def)
  qed
  note same = same_pcb_ready [OF s1(3,5)]
  obtain s' where s': "rr_loop s1 = Some (r, False, s')" "ready_queue s' (ys @ alive s xs)" "works s' = w"
    "\<And>x. same_pcb (heap s' x) (if x = r then (heap s1 r)\<lparr>state := RUNNING\<rparr> else heap s1 x)"
    "\<And>x. x \<notin> set (xs @ r # ys) \<Longrightarrow> heap s' x = heap s1 x"
    "pcb_next (heap s' r) = None" "tick s' = tick s1" "initiated s' = initiated s1" "exits s' = exits s1"
    using rr_loop_finds [OF s1(2), of w] pass r w unfolding same s1(6) by blast
  have hs: "same_pcb (heap s' x) (if x = r then (heap s r)\<lparr>state := RUNNING\<rparr> else heap s x)" for x
    using s'(4) [of x] s1(3) [of x] by (auto simp: same_pcb_def split: if_splits)
  let ?s = "s'\<lparr>running := Some r, current := Some r\<rparr>"
  have "sched_round_robin s = Some (Some ERROR_OK, ?s)"
    unfolding sched_round_robin_def s1(1) using init peek s'(1) by (cases "queue s") (auto simp: pcb_queue_peek_def)
  then show ?thesis using s' s1 hs by (intro exI [of _ ?s]) (auto simp: ready_queue_def)
qed

text \<open>The yield of a running PCB.\<close>

lemma sched_default_picks:
  assumes init: "initiated s" and q: "ready_queue s zs" and ne: "zs \<noteq> []"
    and c: "running s = Some c" "c \<notin> set zs"
    and full: "zs @ [c] = xs @ r # ys"
    and pass: "\<And>x. x \<in> set xs \<Longrightarrow> passed_over s x" and r: "ready s r"
    and w: "bury (zombies s xs) (works s) = Some w"
  shows "\<exists>s'. sched_default s = Some (ERROR_OK, s') \<and> running s' = Some r \<and> current s' = Some r \<and>
    ready_queue s' (ys @ alive s xs) \<and> works s' = w \<and>
    (\<forall>x. state (heap s' x) = (if x = r then RUNNING else state (heap s x)) \<and>
       sleep (heap s' x) = sleep (heap s x) \<and> pid (heap s' x) = pid (heap s x) \<and>
       yields (heap s' x) = yields (heap s x) + (if x = c then 1 else 0)) \<and>
    (\<forall>x. x \<notin> set (xs @ r # ys) \<longrightarrow> heap s' x = heap s x) \<and>
    pcb_next (heap s' r) = None \<and> tick s' = tick s \<and> initiated s' = initiated s"
proof -
  define s1 where "s1 = s\<lparr>heap := (heap s)(c := (heap s c)\<lparr>yields := yields (heap s c) + 1\<rparr>)\<rparr>"
  have sel: "state (heap s1 x) = state (heap s x)" "pid (heap s1 x) = pid (heap s x)"
    "sleep (heap s1 x) = sleep (heap s x)" "pcb_next (heap s1 x) = pcb_next (heap s x)"
    "yields (heap s1 x) = yields (heap s x) + (if x = c then 1 else 0)" for x
    by (simp_all add: s1_def)
  have rest: "initiated s1 = initiated s" "queue s1 = queue s" "running s1 = running s" "tick s1 = tick s"
    "works s1 = works s" by (simp_all add: s1_def)
  have same: "ready s1 x = ready s x" "passed_over s1 x = passed_over s x"
    "zombies s1 zs = zombies s zs" "alive s1 zs = alive s zs" for x zs
    by (simp_all add: ready_def passed_over_def due_def zombies_def alive_def sel rest)
  obtain q0 where "queue s = Some q0" "queue_of (heap s) q0 zs" using q by (auto simp: ready_queue_def)
  then have "ready_queue s1 zs"
    using queue_of_cong [of "heap s" q0 zs "heap s1" q0] by (auto simp: ready_queue_def sel rest)
  then obtain s' where s': "sched_round_robin s1 = Some (Some ERROR_OK, s')" "running s' = Some r"
    "current s' = Some r" "ready_queue s' (ys @ alive s xs)" "works s' = w"
    "\<And>x. same_pcb (heap s' x) (if x = r then (heap s1 r)\<lparr>state := RUNNING\<rparr> else heap s1 x)"
    "pcb_next (heap s' r) = None" "tick s' = tick s1" "initiated s' = initiated s1"
    "\<And>x. x \<notin> set (xs @ r # ys) \<Longrightarrow> heap s' x = heap s1 x"
    using round_robin_picks [of s1 zs xs r ys w] init ne c full pass r w unfolding same rest by auto
  have "c \<in> set (xs @ r # ys)" by (simp flip: full)
  then have hs: "x \<notin> set (xs @ r # ys) \<Longrightarrow> heap s' x = heap s x" for x
    using s'(10) [of x] by (auto simp: s1_def)
  have "sched_default s = switch s1" using init c(1) by (simp add: sched_default_def s1_def)
  then have "sched_default s = Some (ERROR_OK, s')" using s'(1) by (simp add: switch_def)
  moreover have "state (heap s' x) = (if x = r then RUNNING else state (heap s x)) \<and>
      sleep (heap s' x) = sleep (heap s x) \<and> pid (heap s' x) = pid (heap s x) \<and>
      yields (heap s' x) = yields (heap s x) + (if x = c then 1 else 0)" for x
    using s'(6) [of x] sel [of x] by (auto simp: same_pcb_def split: if_splits)
  ultimately show ?thesis using s' rest hs by auto
qed

section \<open>Turns\<close>

text \<open>\<open>c\<close> runs, \<open>xs\<close> wait, all of them can run.\<close>

definition turn :: "sched \<Rightarrow> nat \<Rightarrow> nat list \<Rightarrow> bool" where
  "turn s c xs \<longleftrightarrow> initiated s \<and> running s = Some c \<and> ready_queue s xs \<and> xs \<noteq> [] \<and> c \<notin> set xs \<and>
     (\<forall>x \<in> set (c # xs). state (heap s x) = RUNNING)"

fun yield_many :: "nat \<Rightarrow> sched \<Rightarrow> sched option" where
  "yield_many 0 s = Some s"
| "yield_many (Suc n) s = do { (r, s1) \<leftarrow> sched_default s; if r = ERROR_OK then yield_many n s1 else None }"

lemma turn_yield:
  assumes "turn s c (x # xs)"
  shows "\<exists>s'. sched_default s = Some (ERROR_OK, s') \<and> turn s' x (xs @ [c])"
proof -
  have t: "initiated s" "running s = Some c" "ready_queue s (x # xs)" "c \<notin> set (x # xs)"
    "\<And>y. y \<in> set (c # x # xs) \<Longrightarrow> state (heap s y) = RUNNING"
    using assms by (auto simp: turn_def)
  have "(x # xs) @ [c] = [] @ x # (xs @ [c])" "ready s x" "bury (zombies s []) (works s) = Some (works s)"
    using t(5) by (simp_all add: ready_def zombies_def)
  from sched_default_picks [OF t(1,3) _ t(2,4) this(1) _ this(2,3)]
  obtain s' where s': "sched_default s = Some (ERROR_OK, s')" "running s' = Some x"
    "ready_queue s' ((xs @ [c]) @ alive s [])" "initiated s'"
    "\<And>y. state (heap s' y) = (if y = x then RUNNING else state (heap s y))"
    using t(1) by auto
  have "x \<notin> set xs" using ready_queue_distinct [OF t(3)] by simp
  then have "turn s' x (xs @ [c])"
    using s' t(4,5) by (auto simp: turn_def alive_def)
  then show ?thesis using s'(1) by blast
qed

lemma turn_yield_many:
  assumes "turn s c xs"
  shows "\<exists>s' c' xs'. yield_many n s = Some s' \<and> turn s' c' xs' \<and> c' # xs' = rotate n (c # xs)"
  using assms
proof (induction n arbitrary: s c xs)
  case 0
  then show ?case by auto
next
  case (Suc n)
  obtain x ys where xs: "xs = x # ys" using Suc.prems by (cases xs) (auto simp: turn_def)
  obtain s1 where s1: "sched_default s = Some (ERROR_OK, s1)" "turn s1 x (ys @ [c])"
    using turn_yield Suc.prems xs by blast
  from Suc.IH [OF s1(2)] obtain s' c' xs' where
    "yield_many n s1 = Some s'" "turn s' c' xs'" "c' # xs' = rotate n (x # ys @ [c])" by blast
  moreover have "rotate (Suc n) (c # xs) = rotate n (x # ys @ [c])"
    by (simp add: xs rotate1_rotate_swap)
  ultimately show ?case using s1(1) by auto
qed

section \<open>Properties of the scheduler\<close>

text \<open>
  C14. A yield of the running PCB runs the first PCB of the queue that can run (it is running, or asleep
  and due), when no new PCB, which the code would start instead, comes before it. The PCBs before it
  that cannot run go behind the one that yielded, in their order,
  zombies are taken out of the queue and handed to the cleanup routine, and no state changes except
  that the chosen PCB is running.
\<close>

theorem sched_yield_picks:
  assumes "initiated s" and "ready_queue s zs" and "zs \<noteq> []" and "running s = Some c" and "c \<notin> set zs"
    and "zs @ [c] = xs @ r # ys" and "\<And>x. x \<in> set xs \<Longrightarrow> passed_over s x" and "ready s r"
    and "bury (zombies s xs) (works s) = Some w"
  shows "\<exists>s'. sched_default s = Some (ERROR_OK, s') \<and> running s' = Some r \<and> current s' = Some r \<and>
    ready_queue s' (ys @ alive s xs) \<and> works s' = w \<and>
    (\<forall>x. state (heap s' x) = (if x = r then RUNNING else state (heap s x)))"
  using sched_default_picks [OF assms(1-6) _ assms(8,9)] assms(7) by blast

text \<open>
  C15. Round robin is fair: when every PCB can run, \<open>n\<close> yields succeed and give the processor to
  the PCB that is \<open>n\<close> places further in the circular order of the running PCB and the queue; so each one
  runs again after as many yields as there are PCBs.
\<close>

theorem round_robin_fair:
  assumes "turn s c xs"
  shows "\<exists>s' xs'. yield_many n s = Some s' \<and> running s' = Some ((c # xs) ! (n mod Suc (length xs))) \<and>
    ready_queue s' xs' \<and> the (running s') # xs' = rotate n (c # xs)"
proof -
  obtain s' c' xs' where s': "yield_many n s = Some s'" "turn s' c' xs'" "c' # xs' = rotate n (c # xs)"
    using turn_yield_many [OF assms] by blast
  have "c' = rotate n (c # xs) ! 0" by (simp flip: s'(3))
  also have "\<dots> = (c # xs) ! (n mod Suc (length xs))" using nth_rotate [of 0 "c # xs" n] by simp
  finally show ?thesis using s' by (auto simp: turn_def)
qed

text \<open>
  A process that goes to sleep stays in the queue, asleep, and is woken by the first search after
  the tick exceeds the deadline reduced to 16 bits; when the tick has passed 65535 every sleeper is due
  at once, whatever time it asked for.
\<close>

theorem sched_sleep_deadline:
  assumes "initiated s" and "ready_queue s (x # xs)" and "running s = Some c" and "c \<notin> set (x # xs)"
    and "state (heap s x) = RUNNING"
  shows "\<exists>s'. sched_sleep time s = Some (ERROR_OK, s') \<and> running s' = Some x \<and> ready_queue s' (xs @ [c]) \<and>
    state (heap s' c) = SLEEPING \<and> (\<forall>t. due (s'\<lparr>tick := t\<rparr>) c \<longleftrightarrow> (tick s + time) mod 65536 < t) \<and>
    (\<forall>t \<ge> 65536. due (s'\<lparr>tick := t\<rparr>) c)"
proof -
  define s1 where "s1 = s\<lparr>heap := (heap s)(c := (heap s c)\<lparr>sleep := of_int (tick s + time), state := SLEEPING\<rparr>)\<rparr>"
  obtain q where q: "queue s = Some q" "queue_of (heap s) q (x # xs)"
    using assms(2) by (auto simp: ready_queue_def)
  have nx: "pcb_next (heap s1 y) = pcb_next (heap s y)" for y by (simp add: s1_def)
  have "queue_of (heap s1) q (x # xs)" using q(2) by (rule queue_of_cong) (simp_all add: nx)
  then have rq: "ready_queue s1 (x # xs)" using q(1) by (simp add: ready_queue_def s1_def)
  have "initiated s1" "running s1 = Some c" "ready s1 x" "bury (zombies s1 []) (works s1) = Some (works s)"
    using assms by (auto simp: s1_def ready_def zombies_def)
  moreover have "(x # xs) @ [c] = [] @ x # (xs @ [c])" by simp
  ultimately obtain s' where s': "sched_default s1 = Some (ERROR_OK, s')" "running s' = Some x"
    "ready_queue s' ((xs @ [c]) @ alive s1 [])"
    "\<And>y. state (heap s' y) = (if y = x then RUNNING else state (heap s1 y))"
    "\<And>y. sleep (heap s' y) = sleep (heap s1 y)"
    using sched_default_picks [OF _ rq, of c "[]" x "xs @ [c]" "works s"] assms(4) by auto
  have sl: "sleep (heap s' c) = of_int (tick s + time)" by (simp add: s'(5)) (simp add: s1_def)
  have due: "due (s'\<lparr>tick := t\<rparr>) c \<longleftrightarrow> (tick s + time) mod 65536 < t" for t
    by (simp add: due_def sl uint_word_of_int del: of_int_add)
  have "sched_sleep time s = Some (ERROR_OK, s')"
    using assms(1,3) s'(1) by (simp add: sched_sleep_def s1_def del: of_int_add)
  moreover have "state (heap s' c) = SLEEPING" using s'(4) [of c] assms(4) by (simp add: s1_def)
  moreover have "due (s'\<lparr>tick := t\<rparr>) c" if "65536 \<le> t" for t
    unfolding due using that pos_mod_bound [of 65536 "tick s + time"] by linarith
  ultimately show ?thesis using s'(2,3) due by (auto simp: alive_def)
qed

text \<open>PCB 1 runs, 2 and 3 wait; in the second state 2 is blocked.\<close>

definition demo_sched :: "pcb_state \<Rightarrow> sched" where
  "demo_sched st2 = \<lparr>heap = (\<lambda>i. if i = 2 then demo_pcb\<lparr>state := st2, pcb_next := Some 3\<rparr> else demo_pcb),
     queue = Some \<lparr>q_list = Some 2, q_total = 1\<rparr>, priority = Some pcb_new_queue, running = Some 1,
     current = Some 1, initiated = True, exits = 0, tick = 70000, works = demo_works\<rparr>"

lemma demo_sched_queue: "ready_queue (demo_sched v) [2, 3]"
  by (simp add: ready_queue_def demo_sched_def queue_of_def demo_pcb_def)

lemma demo_turn: "turn (demo_sched RUNNING) 1 [2, 3]"
  using demo_sched_queue by (simp add: turn_def demo_sched_def demo_pcb_def)

theorem sched_yield_picks_witness:
  "\<exists>s'. sched_default (demo_sched BLOCKED) = Some (0, s') \<and> running s' = Some 3 \<and> ready_queue s' [1, 2]"
proof -
  have "initiated (demo_sched BLOCKED)" "running (demo_sched BLOCKED) = Some 1" "[2, 3] @ [1] = [2] @ 3 # [1]"
    "ready (demo_sched BLOCKED) 3" "bury (zombies (demo_sched BLOCKED) [2]) (works (demo_sched BLOCKED)) = Some demo_works"
    "alive (demo_sched BLOCKED) [2] = [2]" "passed_over (demo_sched BLOCKED) 2"
    by (simp_all add: demo_sched_def ready_def demo_pcb_def zombies_def alive_def passed_over_def)
  with sched_yield_picks [OF _ demo_sched_queue, of BLOCKED 1 "[2]" 3 "[1]" demo_works]
  show ?thesis by auto
qed

theorem round_robin_fair_witness:
  "\<exists>s' xs'. yield_many 5 (demo_sched RUNNING) = Some s' \<and> running s' = Some 3 \<and> 3 # xs' = [3, 1, 2]"
proof -
  have "(5::nat) mod Suc (length [2, 3::nat]) = 2" "rotate 5 [1, 2, 3::nat] = [3, 1, 2]"
    by code_simp+
  moreover obtain s' xs' where "yield_many 5 (demo_sched RUNNING) = Some s'"
    "running s' = Some ([1, 2, 3] ! (5 mod Suc (length [2, 3::nat])))"
    "the (running s') # xs' = rotate 5 [1, 2, 3]"
    using round_robin_fair [OF demo_turn, of 5] by blast
  ultimately show ?thesis by simp
qed

theorem sched_sleep_deadline_witness:
  "\<exists>s'. sched_sleep 100 (demo_sched RUNNING) = Some (0, s') \<and> running s' = Some 2 \<and> due (s'\<lparr>tick := 70001\<rparr>) 1"
proof -
  have "initiated (demo_sched RUNNING)" "running (demo_sched RUNNING) = Some 1" "1 \<notin> set [2, 3::nat]"
    "state (heap (demo_sched RUNNING) 2) = RUNNING"
    by (simp_all add: demo_sched_def)
  from sched_sleep_deadline [OF this(1) demo_sched_queue this(2-4), of 100] show ?thesis by auto
qed

end
