(* ===== verification/Mutex.thy ===== *)
theory Mutex imports Scheduler
begin

text \<open>
  The blocking mutex of kernel/sync.c on top of the scheduler: \<open>acquire\<close> either takes the lock and returns,
  or queues the running PCB on the lock and switches to another one; the rest of that call, the final
  assertion, runs when the PCB is scheduled again. \<open>release\<close> hands the lock to the first PCB that waits (the
  lock stays locked) or unlocks it. The relation \<open>lock_run\<close> runs these pieces and yields by the PCB that
  is running and logs the calls and the returns.
\<close>

datatype lock_state = UNDEFINED | LOCKED | UNLOCKED

record mutex =
  lstate :: lock_state
  blocked :: "pcb_queue option"

definition mutex_init :: mutex where
  "mutex_init = \<lparr>lstate = UNLOCKED, blocked = Some pcb_new_queue\<rparr>"

section \<open>kernel/sync.c\<close>

text \<open>The end of \<open>acquire\<close>: a call that does not block goes on with it, one that blocks when it runs again.\<close>

definition acquire_end :: "mutex \<Rightarrow> mutex option" where
  "acquire_end l = (if lstate l = LOCKED then Some l else None)"

text \<open>\<open>acquire\<close> up to its return, or to the context switch; the flag says which.\<close>

definition acquire :: "mutex \<Rightarrow> sched \<Rightarrow> (bool \<times> mutex \<times> sched) option" where
  "acquire l s =
     (case lstate l of
        LOCKED \<Rightarrow>
          (case sched_consume s of (cur, s1) \<Rightarrow>
           do { (r, h, q) \<leftarrow> pcb_queue_push (heap s1) (blocked l) cur;
                (r2, s2) \<leftarrow> sched_block cur (s1\<lparr>heap := h\<rparr>);
                Some (False, l\<lparr>blocked := q\<rparr>, s2) })
      | UNLOCKED \<Rightarrow> do { l \<leftarrow> acquire_end (l\<lparr>lstate := LOCKED\<rparr>); Some (True, l, s) }
      | UNDEFINED \<Rightarrow> None)"

definition release :: "mutex \<Rightarrow> sched \<Rightarrow> (mutex \<times> sched) option" where
  "release l s =
     (case pcb_queue_pop (heap s) (blocked l) of
        (Some p, h, q) \<Rightarrow>
          do { (r, s1) \<leftarrow> sched_add (Some p) (s\<lparr>heap := h\<rparr>);
               if lstate l = LOCKED
               then Some (l\<lparr>blocked := q\<rparr>, s1\<lparr>heap := set_state (heap s1) p RUNNING\<rparr>) else None }
      | (None, h, q) \<Rightarrow> Some (l\<lparr>lstate := UNLOCKED, blocked := q\<rparr>, s\<lparr>heap := h\<rparr>))"

section \<open>The invariant\<close>

text \<open>
  \<open>lock_inv l s c rs ws ow\<close>: \<open>c\<close> runs, \<open>rs\<close> can run and \<open>ws\<close> wait for the lock, all distinct; \<open>ow\<close> is
  the owner, who never waits; without an owner the lock is unlocked and nobody waits.
\<close>

definition lock_inv :: "mutex \<Rightarrow> sched \<Rightarrow> nat \<Rightarrow> nat list \<Rightarrow> nat list \<Rightarrow> nat option \<Rightarrow> bool" where
  "lock_inv l s c rs ws ow \<longleftrightarrow>
     initiated s \<and> running s = Some c \<and> ready_queue s rs \<and>
     (\<exists>q. blocked l = Some q \<and> queue_of (heap s) q ws) \<and> distinct (c # rs @ ws) \<and>
     (\<forall>x \<in> set (c # rs). state (heap s x) = RUNNING) \<and> (\<forall>x \<in> set ws. state (heap s x) = BLOCKED) \<and>
     pcb_next (heap s c) = None \<and>
     (case ow of None \<Rightarrow> lstate l = UNLOCKED \<and> ws = []
      | Some p \<Rightarrow> lstate l = LOCKED \<and> p \<in> set (c # rs))"

lemma lock_invD:
  assumes "lock_inv l s c rs ws ow"
  obtains q where "initiated s" "running s = Some c" "ready_queue s rs" "blocked l = Some q"
    "queue_of (heap s) q ws" "distinct (c # rs @ ws)" "\<forall>x \<in> set (c # rs). state (heap s x) = RUNNING"
    "\<forall>x \<in> set ws. state (heap s x) = BLOCKED" "pcb_next (heap s c) = None"
    "\<forall>x \<in> set ws. x \<noteq> c \<and> x \<notin> set rs"
  using assms by (auto simp: lock_inv_def)

lemma acquire_free:
  assumes "lock_inv l s c rs ws None"
  shows "\<exists>l'. acquire l s = Some (True, l', s) \<and> lock_inv l' s c rs ws (Some c)"
  using assms by (auto simp: lock_inv_def acquire_def acquire_end_def)

text \<open>The lock is taken: the caller waits behind the others and the next ready PCB runs.\<close>

lemma acquire_taken:
  assumes inv: "lock_inv l s c (r # rs) ws (Some ow)" and ne: "ow \<noteq> c"
  shows "\<exists>l' s'. acquire l s = Some (False, l', s') \<and> lock_inv l' s' r rs (ws @ [c]) (Some ow)"
proof -
  obtain q where D: "initiated s" "running s = Some c" "ready_queue s (r # rs)" "blocked l = Some q"
    "queue_of (heap s) q ws" "distinct (c # (r # rs) @ ws)"
    "\<forall>x \<in> set (c # r # rs). state (heap s x) = RUNNING"
    "\<forall>x \<in> set ws. state (heap s x) = BLOCKED" "pcb_next (heap s c) = None" "\<forall>x \<in> set ws. x \<noteq> c \<and> x \<notin> set (r # rs)"
    by (rule lock_invD [OF inv])
  have ow: "lstate l = LOCKED" "ow \<in> set (r # rs)" using inv ne by (auto simp: lock_inv_def)
  have cw: "c \<notin> set ws" using D(6) by simp
  obtain h q' where push: "pcb_queue_push (heap s) (Some q) (Some c) = Some (ERROR_OK, h, Some q')"
    "queue_of h q' (ws @ [c])" "\<And>x. x \<notin> set (ws @ [c]) \<Longrightarrow> h x = heap s x"
    "\<And>x. state (h x) = state (heap s x)"
    using push_queue_of [OF D(5) cw D(9)] by metis
  define s1 where "s1 = s\<lparr>running := None, heap := set_state h c BLOCKED\<rparr>"
  have h1: "heap s1 x = (if x = c then (h c)\<lparr>state := BLOCKED\<rparr> else h x)" for x by (simp add: s1_def set_state_def)
  obtain rq where rq: "queue s = Some rq" "queue_of (heap s) rq (r # rs)" using D(3) by (auto simp: ready_queue_def)
  have "queue_of (heap s1) rq (r # rs)"
    using rq(2) by (rule queue_of_cong) (use D(6,10) push(3) in \<open>auto simp: h1\<close>)
  then have "ready_queue s1 (r # rs)" using rq(1) by (simp add: ready_queue_def s1_def)
  moreover have "ready s1 r" "initiated s1" "running s1 = None" "with_running (running s1) (r # rs) = [] @ r # rs"
    "bury (zombies s1 []) (works s1) = Some (works s)"
    using D(1,6,7) push(4) by (auto simp: ready_def s1_def set_state_def zombies_def)
  ultimately obtain s' where s': "sched_round_robin s1 = Some (Some ERROR_OK, s')" "running s' = Some r"
    "ready_queue s' rs" "\<And>x. same_pcb (heap s' x) (if x = r then (heap s1 r)\<lparr>state := RUNNING\<rparr> else heap s1 x)"
    "\<And>x. x \<notin> set (r # rs) \<Longrightarrow> heap s' x = heap s1 x" "pcb_next (heap s' r) = None" "initiated s'"
    using round_robin_picks [of s1 "r # rs" "[]" r rs "works s"] by (auto simp: alive_def)
  have "queue_of (heap s') q' (ws @ [c])"
    using push(2) by (rule queue_of_cong) (use D(6,10) s'(5) in \<open>auto simp: h1\<close>)
  moreover have "state (heap s' x) = (if x = c then BLOCKED else if x = r then RUNNING else state (heap s x))" for x
    using s'(4) [of x] D(6) push(4) [of x] by (auto simp: same_pcb_def h1 split: if_splits)
  moreover have "acquire l s = Some (False, l\<lparr>blocked := Some q'\<rparr>, s')"
    using ow(1) D(1,2,4) push(1) s'(1)
    by (simp add: acquire_def sched_consume_def sched_block_def s1_def)
  ultimately show ?thesis using s'(2,3,6,7) ow D(6-8) by (auto simp: lock_inv_def)
qed

lemma release_wakes:
  assumes inv: "lock_inv l s c rs (w # ws) (Some c)"
  shows "\<exists>l' s'. release l s = Some (l', s') \<and> lock_inv l' s' c (rs @ [w]) ws (Some w)"
proof -
  obtain q where D: "initiated s" "running s = Some c" "ready_queue s rs" "blocked l = Some q"
    "queue_of (heap s) q (w # ws)" "distinct (c # rs @ (w # ws))"
    "\<forall>x \<in> set (c # rs). state (heap s x) = RUNNING"
    "\<forall>x \<in> set (w # ws). state (heap s x) = BLOCKED" "pcb_next (heap s c) = None" "\<forall>x \<in> set (w # ws). x \<noteq> c \<and> x \<notin> set rs"
    by (rule lock_invD [OF inv])
  have ow: "lstate l = LOCKED" using inv by (simp add: lock_inv_def)
  define h where "h = (heap s)(w := (heap s w)\<lparr>pcb_next := None, pcb_prev := None\<rparr>)"
  define q1 where "q1 = q\<lparr>q_list := pcb_next (heap s w)\<rparr>"
  note pop = pop_queue_of [OF D(5), folded h_def q1_def]
  obtain rq where rq: "queue s = Some rq" "queue_of (heap s) rq rs" using D(3) by (auto simp: ready_queue_def)
  have rq1: "queue_of h rq rs" using rq(2) by (rule queue_of_cong) (use D(6,10) in \<open>auto simp: h_def\<close>)
  have "w \<notin> set rs" "pcb_next (h w) = None" using D(6) by (auto simp: h_def)
  then obtain h2 rq2 where push: "pcb_queue_push h (Some rq) (Some w) = Some (ERROR_OK, h2, Some rq2)"
    "queue_of h2 rq2 (rs @ [w])" "\<And>x. x \<notin> set (rs @ [w]) \<Longrightarrow> h2 x = h x" "\<And>x. state (h2 x) = state (h x)"
    using push_queue_of [OF rq1, of w] by metis
  define s' where "s' = s\<lparr>heap := set_state h2 w RUNNING, queue := Some rq2\<rparr>"
  have hs: "heap s' x = (if x = w then (h2 w)\<lparr>state := RUNNING\<rparr> else h2 x)" for x by (simp add: s'_def set_state_def)
  have "release l s = Some (l\<lparr>blocked := Some q1\<rparr>, s')"
    using D(1,4) pop(1) rq(1) push(1) ow by (simp add: release_def sched_add_def s'_def)
  moreover have "queue_of (heap s') q1 ws"
    using pop(2) by (rule queue_of_cong) (use D(6,10) push(3) in \<open>auto simp: hs\<close>)
  moreover have "queue_of (heap s') rq2 (rs @ [w])"
    using push(2) by (rule queue_of_cong) (auto simp: hs)
  moreover have "state (heap s' x) = (if x = w then RUNNING else state (heap s x))" for x
    using push(4) [of x] by (simp add: hs h_def)
  moreover have "pcb_next (heap s' c) = None" using D(6,9) push(3) [of c] by (simp add: hs h_def)
  ultimately show ?thesis using D ow by (auto simp: lock_inv_def ready_queue_def s'_def)
qed

lemma release_free:
  assumes inv: "lock_inv l s c rs [] ow"
  shows "\<exists>l'. release l s = Some (l', s) \<and> lock_inv l' s c rs [] None"
proof -
  obtain q where q: "blocked l = Some q" "queue_of (heap s) q []" using inv by (auto simp: lock_inv_def)
  then have "release l s = Some (l\<lparr>lstate := UNLOCKED\<rparr>, s)"
    using pop_empty [OF q(2)] by (simp add: release_def)
  then show ?thesis using inv by (auto simp: lock_inv_def)
qed

lemma yield_inv:
  assumes inv: "lock_inv l s c (r # rs) ws ow"
  shows "\<exists>s'. sched_default s = Some (ERROR_OK, s') \<and> lock_inv l s' r (rs @ [c]) ws ow"
proof -
  obtain q where D: "initiated s" "running s = Some c" "ready_queue s (r # rs)" "blocked l = Some q"
    "queue_of (heap s) q ws" "distinct (c # (r # rs) @ ws)"
    "\<forall>x \<in> set (c # r # rs). state (heap s x) = RUNNING"
    "\<forall>x \<in> set ws. state (heap s x) = BLOCKED" "pcb_next (heap s c) = None" "\<forall>x \<in> set ws. x \<noteq> c \<and> x \<notin> set (r # rs)"
    by (rule lock_invD [OF inv])
  have "c \<notin> set (r # rs)" "(r # rs) @ [c] = [] @ r # (rs @ [c])" "ready s r"
    "bury (zombies s []) (works s) = Some (works s)"
    using D(6,7) by (auto simp: ready_def zombies_def)
  from sched_default_picks [OF D(1,3) _ D(2) this(1,2) _ this(3,4)]
  obtain s' where s': "sched_default s = Some (ERROR_OK, s')" "running s' = Some r" "initiated s'"
    "ready_queue s' ((rs @ [c]) @ alive s [])" "pcb_next (heap s' r) = None"
    "\<And>x. state (heap s' x) = (if x = r then RUNNING else state (heap s x))"
    "\<And>x. x \<notin> set (c # r # rs) \<Longrightarrow> heap s' x = heap s x"
    using D(1) by auto
  have "queue_of (heap s') q ws" using D(5) by (rule queue_of_cong) (use D(6,10) s'(7) in auto)
  moreover have "case ow of None \<Rightarrow> lstate l = UNLOCKED \<and> ws = []
      | Some p \<Rightarrow> lstate l = LOCKED \<and> p \<in> set (r # rs @ [c])"
    using inv by (auto simp: lock_inv_def split: option.splits)
  ultimately show ?thesis using s' D by (auto simp: lock_inv_def alive_def)
qed

section \<open>The lock as a state machine\<close>

text \<open>
  The log has the calls of \<open>acquire\<close>, its returns and the calls of \<open>release\<close>, each with its PCB. A PCB is inside
  \<open>acquire\<close> when it called it more often than it returned, and holds the lock when \<open>acquire\<close> returned to it more
  often than it released.
\<close>

datatype lock_event = Call nat | Return nat | Release nat

definition calls :: "lock_event list \<Rightarrow> nat list" where
  "calls log = concat (map (\<lambda>e. case e of Call p \<Rightarrow> [p] | _ \<Rightarrow> []) log)"

definition returns :: "lock_event list \<Rightarrow> nat list" where
  "returns log = concat (map (\<lambda>e. case e of Return p \<Rightarrow> [p] | _ \<Rightarrow> []) log)"

definition releases :: "lock_event list \<Rightarrow> nat list" where
  "releases log = concat (map (\<lambda>e. case e of Release p \<Rightarrow> [p] | _ \<Rightarrow> []) log)"

lemma events_append [simp]: "calls (xs @ ys) = calls xs @ calls ys" "returns (xs @ ys) = returns xs @ returns ys"
  "releases (xs @ ys) = releases xs @ releases ys"
  by (simp_all add: calls_def returns_def releases_def)

lemma events_single [simp]: "calls [] = []" "returns [] = []" "releases [] = []"
  "calls (Call p # es) = p # calls es" "calls (Return p # es) = calls es" "calls (Release p # es) = calls es"
  "returns (Call p # es) = returns es" "returns (Return p # es) = p # returns es" "returns (Release p # es) = returns es"
  "releases (Call p # es) = releases es" "releases (Return p # es) = releases es" "releases (Release p # es) = p # releases es"
  by (simp_all add: calls_def returns_def releases_def)

definition inside :: "nat \<Rightarrow> lock_event list \<Rightarrow> bool" where
  "inside p log \<longleftrightarrow> count_list (returns log) p < count_list (calls log) p"

definition holds :: "nat \<Rightarrow> lock_event list \<Rightarrow> bool" where
  "holds p log \<longleftrightarrow> count_list (releases log) p < count_list (returns log) p"

text \<open>
  What the running PCB does next: inside \<open>acquire\<close> only the end of it; otherwise it calls \<open>acquire\<close> (not
  when it holds the lock already), releases the lock it holds, or yields.
\<close>

inductive lock_run :: "mutex \<times> sched \<Rightarrow> lock_event list \<Rightarrow> mutex \<times> sched \<Rightarrow> bool" where
  start: "lock_run t [] t"
| call_returns: "lock_run t log (l, s) \<Longrightarrow> running s = Some c \<Longrightarrow> \<not> inside c log \<Longrightarrow> \<not> holds c log \<Longrightarrow> acquire l s = Some (True, l', s') \<Longrightarrow>
    lock_run t (log @ [Call c, Return c]) (l', s')"
| call_blocks: "lock_run t log (l, s) \<Longrightarrow> running s = Some c \<Longrightarrow> \<not> inside c log \<Longrightarrow> \<not> holds c log \<Longrightarrow> acquire l s = Some (False, l', s') \<Longrightarrow>
    lock_run t (log @ [Call c]) (l', s')"
| call_ends: "lock_run t log (l, s) \<Longrightarrow> running s = Some c \<Longrightarrow> inside c log \<Longrightarrow> acquire_end l = Some l' \<Longrightarrow>
    lock_run t (log @ [Return c]) (l', s)"
| lock_released: "lock_run t log (l, s) \<Longrightarrow> running s = Some c \<Longrightarrow> \<not> inside c log \<Longrightarrow> holds c log \<Longrightarrow> release l s = Some (l', s') \<Longrightarrow>
    lock_run t (log @ [Release c]) (l', s')"
| yields: "lock_run t log (l, s) \<Longrightarrow> running s = Some c \<Longrightarrow> \<not> inside c log \<Longrightarrow> sched_default s = Some (r, s') \<Longrightarrow> lock_run t log (l, s')"

text \<open>
  \<open>hold\<close> has the holder of the lock, \<open>owe\<close> the PCB the lock was handed to and that has not run since: at most one of
  the two.
\<close>

definition log_inv :: "nat set \<Rightarrow> lock_event list \<Rightarrow> mutex \<Rightarrow> sched \<Rightarrow> nat \<Rightarrow> nat list \<Rightarrow> nat list \<Rightarrow> nat list \<Rightarrow> nat list \<Rightarrow> bool" where
  "log_inv P log l s c rs ws hold owe \<longleftrightarrow> set (c # rs @ ws) = P \<and> calls log = returns log @ owe @ ws \<and> returns log = releases log @ hold \<and>
     (hold = [] \<and> owe = [] \<and> lock_inv l s c rs ws None \<or> (\<exists>p. hold @ owe = [p] \<and> lock_inv l s c rs ws (Some p)))"

lemma yield_alone:
  assumes "lock_inv l s c [] ws ow"
  shows "sched_default s = None"
proof -
  obtain q where "initiated s" "running s = Some c" "ready_queue s []"
    using assms by (auto simp: lock_inv_def)
  then show ?thesis
    by (auto simp: sched_default_def switch_def sched_round_robin_def ready_queue_def queue_of_def
        pcb_queue_peek_def)
qed

lemma log_inv_D:
  assumes "log_inv P log l s c rs ws hold owe"
  shows "running s = Some c" "inside c log \<longleftrightarrow> owe = [c]" "holds c log \<longleftrightarrow> hold = [c]" "owe = [] \<or> hold = []"
proof -
  have i: "c \<notin> set ws" "running s = Some c" "calls log = returns log @ owe @ ws" "returns log = releases log @ hold"
    "hold = [] \<and> owe = [] \<or> (\<exists>p. hold @ owe = [p])"
    using assms by (auto simp: log_inv_def lock_inv_def)
  show "running s = Some c" "owe = [] \<or> hold = []" using i(2,5) by (auto simp: append_eq_Cons_conv)
  have w: "count_list ws c = 0" using i(1) by (simp add: count_list_0_iff)
  have h: "hold = [] \<and> owe = [] \<or> (\<exists>p. hold = [p] \<and> owe = []) \<or> (\<exists>p. hold = [] \<and> owe = [p])"
    using i(5) by (auto simp: append_eq_Cons_conv)
  then show "inside c log \<longleftrightarrow> owe = [c]" using w unfolding inside_def i(3) by (auto split: if_splits)
  show "holds c log \<longleftrightarrow> hold = [c]" using h unfolding holds_def i(4) by (auto split: if_splits)
qed

lemma inv_call:
  assumes i: "log_inv P log l s c rs ws hold owe" and n: "\<not> inside c log" "\<not> holds c log"
  shows "hold = [] \<and> owe = [] \<and> (\<exists>l'. acquire l s = Some (True, l', s) \<and> log_inv P (log @ [Call c, Return c]) l' s c rs ws [c] []) \<or>
    (\<exists>r rs' l' s'. rs = r # rs' \<and> acquire l s = Some (False, l', s') \<and> log_inv P (log @ [Call c]) l' s' r rs' (ws @ [c]) hold owe)"
proof (cases "hold @ owe")
  case Nil
  then have inv: "lock_inv l s c rs ws None" "ws = []" using i by (auto simp: log_inv_def lock_inv_def)
  obtain l' where "acquire l s = Some (True, l', s)" "lock_inv l' s c rs ws (Some c)" using acquire_free [OF inv(1)] by blast
  then show ?thesis using i Nil inv(2) by (auto simp: log_inv_def)
next
  case (Cons p xs)
  then have p: "hold @ owe = [p]" "lock_inv l s c rs ws (Some p)" using i by (auto simp: log_inv_def)
  have "p \<noteq> c" using p(1) n log_inv_D(2,3) [OF i] by (cases hold) auto
  moreover from this obtain r rs' where rs: "rs = r # rs'" using p(2) by (cases rs) (auto simp: lock_inv_def)
  ultimately obtain l' s' where "acquire l s = Some (False, l', s')" "lock_inv l' s' r rs' (ws @ [c]) (Some p)"
    using acquire_taken p(2) by blast
  then show ?thesis using i p(1) rs by (auto simp: log_inv_def)
qed

lemma inv_end:
  assumes i: "log_inv P log l s c rs ws hold owe" and n: "inside c log"
  shows "acquire_end l = Some l \<and> log_inv P (log @ [Return c]) l s c rs ws [c] [] \<and> hold = [] \<and> owe = [c]"
proof -
  have o: "owe = [c]" "hold = []" using log_inv_D(2,4) [OF i] n by auto
  then have "lstate l = LOCKED" using i by (auto simp: log_inv_def lock_inv_def)
  then show ?thesis using i o by (auto simp: log_inv_def acquire_end_def)
qed

lemma inv_release:
  assumes i: "log_inv P log l s c rs ws hold owe" and n: "holds c log"
  shows "\<exists>l' s'. release l s = Some (l', s') \<and> (case ws of
     [] \<Rightarrow> s' = s \<and> log_inv P (log @ [Release c]) l' s c rs [] [] []
   | w # ws' \<Rightarrow> log_inv P (log @ [Release c]) l' s' c (rs @ [w]) ws' [] [w])"
proof -
  have h: "hold = [c]" "owe = []" using log_inv_D(3,4) [OF i] n by auto
  then have inv: "lock_inv l s c rs ws (Some c)" using i by (auto simp: log_inv_def)
  show ?thesis
  proof (cases ws)
    case Nil
    obtain l' where "release l s = Some (l', s)" "lock_inv l' s c rs [] None" using release_free inv Nil by blast
    then show ?thesis using i h Nil by (auto simp: log_inv_def)
  next
    case (Cons w ws')
    then obtain l' s' where "release l s = Some (l', s')" "lock_inv l' s' c (rs @ [w]) ws' (Some w)" using release_wakes inv by blast
    then show ?thesis using i h Cons by (auto simp: log_inv_def)
  qed
qed

lemma inv_yield:
  assumes i: "log_inv P log l s c rs ws hold owe" and y: "sched_default s = Some (r, s')"
  shows "\<exists>c' rs'. log_inv P log l s' c' rs' ws hold owe"
proof -
  have "\<exists>ow. lock_inv l s c rs ws ow \<and> (hold = [] \<and> owe = [] \<and> ow = None \<or> (\<exists>p. hold @ owe = [p] \<and> ow = Some p))"
    using i by (auto simp: log_inv_def)
  then obtain ow where inv: "lock_inv l s c rs ws ow" "hold = [] \<and> owe = [] \<and> ow = None \<or> (\<exists>p. hold @ owe = [p] \<and> ow = Some p)" by blast
  then obtain d rs' where rs: "rs = d # rs'" using yield_alone y by (cases rs) auto
  obtain s2 where "sched_default s = Some (ERROR_OK, s2)" "lock_inv l s2 d (rs' @ [c]) ws ow"
    using yield_inv inv(1) unfolding rs by blast
  then have "log_inv P log l s' d (rs' @ [c]) ws hold owe" using i inv(2) rs y by (auto simp: log_inv_def)
  then show ?thesis by blast
qed

definition log_ok :: "nat set \<Rightarrow> lock_event list \<Rightarrow> mutex \<times> sched \<Rightarrow> bool" where
  "log_ok P log t \<longleftrightarrow> (\<exists>c rs ws hold owe. log_inv P log (fst t) (snd t) c rs ws hold owe)"

lemma lock_run_ok: "lock_run t log u \<Longrightarrow> log_ok P [] t \<Longrightarrow> log_ok P log u"
proof (induction rule: lock_run.induct)
  case (start t)
  then show ?case .
next
  case (call_returns t log l s c l' s')
  then obtain d rs ws hold owe where i: "log_inv P log l s d rs ws hold owe" by (auto simp: log_ok_def)
  then show ?case using inv_call [OF i] log_inv_D(1) [OF i] call_returns.hyps by (fastforce simp: log_ok_def)
next
  case (call_blocks t log l s c l' s')
  then obtain d rs ws hold owe where i: "log_inv P log l s d rs ws hold owe" by (auto simp: log_ok_def)
  then show ?case using inv_call [OF i] log_inv_D(1) [OF i] call_blocks.hyps by (fastforce simp: log_ok_def)
next
  case (call_ends t log l s c l')
  then obtain d rs ws hold owe where i: "log_inv P log l s d rs ws hold owe" by (auto simp: log_ok_def)
  then show ?case using inv_end [OF i] log_inv_D(1) [OF i] call_ends.hyps by (fastforce simp: log_ok_def)
next
  case (lock_released t log l s c l' s')
  then obtain d rs ws hold owe where i: "log_inv P log l s d rs ws hold owe" by (auto simp: log_ok_def)
  then show ?case using inv_release [OF i] log_inv_D(1) [OF i] lock_released.hyps by (fastforce simp: log_ok_def split: list.splits)
next
  case (yields t log l s c r s')
  then obtain d rs ws hold owe where i: "log_inv P log l s d rs ws hold owe" by (auto simp: log_ok_def)
  then show ?case using inv_yield [OF i] yields.hyps by (fastforce simp: log_ok_def)
qed

section \<open>Properties\<close>

text \<open>
  C16. From a state where the lock is free and initialised, whatever the sequence of calls of \<open>acquire\<close>
  and \<open>release\<close> and of yields by the PCB that runs: at most one PCB holds the lock (its \<open>acquire\<close> returned and it
  has not released it), \<open>acquire\<close> returns in the order of the calls (the calls are the returns, then the PCB
  the lock was handed to if it has not run since, then the queue of the waiting ones, who are exactly the
  blocked PCBs), the lock is locked exactly when somebody holds it or it was handed over, nobody waits
  for a free lock, no PCB is lost, and neither the calls nor the assertion at the end of \<open>acquire\<close> panic.
\<close>

theorem mutex_mutual_exclusion:
  assumes "log_ok P [] t" and "lock_run t log (l, s)"
  shows "\<exists>c rs ws q hold owe. running s = Some c \<and> ready_queue s rs \<and> blocked l = Some q \<and> queue_of (heap s) q ws \<and>
    P = set (c # rs @ ws) \<and> (\<forall>p \<in> P. state (heap s p) = (if p \<in> set ws then BLOCKED else RUNNING)) \<and>
    length (hold @ owe) \<le> 1 \<and> returns log = releases log @ hold \<and> calls log = returns log @ owe @ ws \<and>
    (lstate l = LOCKED \<longleftrightarrow> hold @ owe \<noteq> []) \<and> (ws \<noteq> [] \<longrightarrow> hold @ owe \<noteq> []) \<and> set (hold @ owe) \<subseteq> set (c # rs) \<and>
    (inside c log \<longrightarrow> owe = [c] \<and> acquire_end l \<noteq> None) \<and>
    (\<not> inside c log \<and> \<not> holds c log \<longrightarrow> acquire l s \<noteq> None) \<and> (holds c log \<longrightarrow> hold = [c] \<and> release l s \<noteq> None)"
proof -
  have "log_ok P log (l, s)" by (rule lock_run_ok [OF assms(2,1)])
  then obtain c rs ws hold owe where i: "log_inv P log l s c rs ws hold owe" by (auto simp: log_ok_def)
  obtain ow where inv: "lock_inv l s c rs ws ow" and ow: "hold = [] \<and> owe = [] \<and> ow = None \<or> (\<exists>p. hold @ owe = [p] \<and> ow = Some p)"
    using i by (auto simp: log_inv_def)
  obtain q where D: "running s = Some c" "ready_queue s rs" "blocked l = Some q" "queue_of (heap s) q ws"
    "\<forall>x \<in> set (c # rs). state (heap s x) = RUNNING" "\<forall>x \<in> set ws. state (heap s x) = BLOCKED"
    "\<forall>x \<in> set ws. x \<noteq> c \<and> x \<notin> set rs"
    by (rule lock_invD [OF inv])
  have gw: "hold @ owe = (case ow of None \<Rightarrow> [] | Some p \<Rightarrow> [p])" using ow by auto
  have own: "lstate l = LOCKED \<longleftrightarrow> hold @ owe \<noteq> []" "ws \<noteq> [] \<longrightarrow> hold @ owe \<noteq> []" "set (hold @ owe) \<subseteq> set (c # rs)" "length (hold @ owe) \<le> 1"
    using inv unfolding gw by (auto simp: lock_inv_def split: option.splits)
  have lg: "P = set (c # rs @ ws)" "returns log = releases log @ hold" "calls log = returns log @ owe @ ws"
    using i by (auto simp: log_inv_def)
  have st: "\<forall>p \<in> P. state (heap s p) = (if p \<in> set ws then BLOCKED else RUNNING)" using D(5-7) lg(1) by auto
  have acq: "inside c log \<longrightarrow> owe = [c] \<and> acquire_end l \<noteq> None" "\<not> inside c log \<and> \<not> holds c log \<longrightarrow> acquire l s \<noteq> None"
    "holds c log \<longrightarrow> hold = [c] \<and> release l s \<noteq> None"
    using inv_end [OF i] inv_call [OF i] inv_release [OF i] log_inv_D(3) [OF i] by auto
  show ?thesis using D(1-4) st own lg acq by blast
qed

lemma demo_lock: "log_ok {1, 2, 3} [] (mutex_init, demo_sched RUNNING)"
proof -
  have "lock_inv mutex_init (demo_sched RUNNING) 1 [2, 3] [] None"
    using demo_sched_queue
    by (simp add: lock_inv_def mutex_init_def queue_of_def pcb_new_queue_def demo_sched_def demo_pcb_def)
  then have "log_inv {1, 2, 3} [] mutex_init (demo_sched RUNNING) 1 [2, 3] [] [] []" by (simp add: log_inv_def)
  then show ?thesis unfolding log_ok_def fst_conv snd_conv by blast
qed

text \<open>PCB 1 takes the lock and yields, PCB 2 calls \<open>acquire\<close> and waits.\<close>

theorem mutex_mutual_exclusion_witness:
  "\<exists>l s. lock_run (mutex_init, demo_sched RUNNING) [Call 1, Return 1, Call 2] (l, s) \<and>
     (\<exists>rs q. running s = Some 3 \<and> ready_queue s rs \<and> set rs = {1} \<and> blocked l = Some q \<and> queue_of (heap s) q [2] \<and> lstate l = LOCKED)"
proof -
  have i0: "log_inv {1, 2, 3} [] mutex_init (demo_sched RUNNING) 1 [2, 3] [] [] []"
    using demo_sched_queue
    by (simp add: log_inv_def lock_inv_def mutex_init_def queue_of_def pcb_new_queue_def demo_sched_def demo_pcb_def)
  obtain l1 where c1: "acquire mutex_init (demo_sched RUNNING) = Some (True, l1, demo_sched RUNNING)"
    "log_inv {1, 2, 3} [Call 1, Return 1] l1 (demo_sched RUNNING) 1 [2, 3] [] [1] []"
    using inv_call [OF i0] by (auto simp: inside_def holds_def mutex_init_def acquire_def acquire_end_def)
  have r1: "lock_run (mutex_init, demo_sched RUNNING) [Call 1, Return 1] (l1, demo_sched RUNNING)"
    using call_returns [OF start log_inv_D(1) [OF i0] _ _ c1(1)] by (simp add: inside_def holds_def)
  have "lock_inv l1 (demo_sched RUNNING) 1 [2, 3] [] (Some 1)" using c1(2) by (auto simp: log_inv_def)
  then obtain s1 where y: "sched_default (demo_sched RUNNING) = Some (ERROR_OK, s1)" "lock_inv l1 s1 2 ([3] @ [1]) [] (Some 1)"
    using yield_inv by blast
  have r2: "lock_run (mutex_init, demo_sched RUNNING) [Call 1, Return 1] (l1, s1)"
    by (rule yields [OF r1 log_inv_D(1) [OF c1(2)] _ y(1)]) (simp add: inside_def)
  obtain l2 s2 where c2: "acquire l1 s1 = Some (False, l2, s2)" "lock_inv l2 s2 3 [1] ([] @ [2]) (Some 1)"
    using acquire_taken [of l1 s1 2 3 "[1]" "[]" 1] y(2) by auto
  have run: "running s1 = Some 2" using y(2) by (simp add: lock_inv_def)
  have r3: "lock_run (mutex_init, demo_sched RUNNING) ([Call 1, Return 1] @ [Call 2]) (l2, s2)"
    by (rule call_blocks [OF r2 run _ _ c2(1)]) (simp_all add: inside_def holds_def)
  obtain hold owe where "returns ([Call 1, Return 1] @ [Call 2]) = releases ([Call 1, Return 1] @ [Call 2]) @ hold" "lstate l2 = LOCKED \<longleftrightarrow> hold @ owe \<noteq> []"
    using mutex_mutual_exclusion [OF demo_lock r3] by blast
  then have "lstate l2 = LOCKED" by auto
  moreover have "running s2 = Some 3" "ready_queue s2 [1]" "\<exists>q. blocked l2 = Some q \<and> queue_of (heap s2) q [2]"
    using c2(2) by (auto simp: lock_inv_def)
  moreover have "lock_run (mutex_init, demo_sched RUNNING) [Call 1, Return 1, Call 2] (l2, s2)" using r3 by simp
  moreover have "set [1] = {1 :: nat}" by simp
  ultimately show ?thesis by blast
qed

end
