(* ===== verification/Vmem.thy ===== *)
theory Vmem imports Bitmap "HOL-Library.Signed_Division"
begin

text \<open>
  Paged memory, kernel/vmem.c: the page allocator (\<open>vmem_alloc\<close>, \<open>vmem_free\<close>: one bit per page),
  the page tables (a store \<open>tables\<close> from the physical address of a table to its 1024 entries), and the
  user heap of a process: an address-ordered list of allocations, each inside a region of pages that
  several allocations may share. Regions are objects of the kernel heap that are mutated through
  shared pointers; they live in the store \<open>regions\<close>, an allocation holds the index of its region.
  \<open>create\<close> and \<open>kalloc\<close> of a positive size do not return \<open>NULL\<close> (they panic instead); of a size that is
  not positive they do. Addresses are integers; the 32-bit wrap-around is written out where
  the code subtracts. \<open>None\<close> is a failed assertion or a write through a missing page table.
\<close>

abbreviation PAGE_SIZE :: int where "PAGE_SIZE \<equiv> 4096"
abbreviation VMEM_HEAP :: int where "VMEM_HEAP \<equiv> 0xE0000000"
abbreviation VMEM_STACK :: int where "VMEM_STACK \<equiv> 0xEFFFFFF0"
abbreviation VMEM_DATA :: int where "VMEM_DATA \<equiv> 0x1000000"

record vmem_allocator =
  used_pages :: int
  total_pages :: int
  pages :: bitmap
  vstart :: int
  vend :: int

record vmem_page_region =
  bits :: "int list"
  basevaddr :: int
  refs :: int
  rsize :: int
  rused :: int

record allocation =
  address :: int
  asize :: int
  aregion :: nat

type_synonym page_tables = "int \<Rightarrow> nat \<Rightarrow> u32"

text \<open>The heap of one process (\<open>allocations\<close>, \<open>used_memory\<close>, \<open>page_dir\<close> of its PCB) and the memory it uses.\<close>

record vproc =
  vmem_default :: vmem_allocator
  tables :: page_tables
  regions :: "nat \<Rightarrow> vmem_page_region"
  next_region :: nat
  page_dir :: int
  allocations :: "allocation list"
  used_memory :: int

section \<open>The page allocator\<close>

definition vmem_allocator_create :: "int \<Rightarrow> int \<Rightarrow> vmem_allocator" where
  "vmem_allocator_create start end =
     \<lparr>used_pages = 0, total_pages = (end - start) div PAGE_SIZE,
      pages = create_bitmap (nat ((end - start) div PAGE_SIZE)), vstart = start, vend = end\<rparr>"

definition vmem_alloc :: "vmem_allocator \<Rightarrow> (int \<times> vmem_allocator) option" where
  "vmem_alloc vm =
     do { (bit, b) \<leftarrow> get_free_bitmap (pages vm) (nat (total_pages vm));
          if bit = -1 then None
          else Some (vstart vm + bit * PAGE_SIZE,
                     vm\<lparr>pages := b, used_pages := used_pages vm + 1\<rparr>) }"

definition vmem_free :: "vmem_allocator \<Rightarrow> int \<Rightarrow> vmem_allocator option" where
  "vmem_free vm addr =
     (if addr > vend vm \<or> addr < vstart vm then Some vm
      else let bit = (addr - vstart vm) div PAGE_SIZE
           in if bit < 0 \<or> bit > total_pages vm then Some vm
              else do { b \<leftarrow> unset_bitmap (pages vm) (nat bit);
                        Some (vm\<lparr>pages := b, used_pages := used_pages vm - 1\<rparr>) })"

definition vmem_page_align_size :: "int \<Rightarrow> int" where
  "vmem_page_align_size sz =
     (let quotient = sz sdiv PAGE_SIZE; remainder = sz smod PAGE_SIZE
      in if remainder > 0 then (quotient + 1) * PAGE_SIZE else quotient * PAGE_SIZE)"

section \<open>Page tables\<close>

definition TABLE_INDEX :: "int \<Rightarrow> nat" where
  "TABLE_INDEX vaddr = nat (vaddr mod 2 ^ 32 div 2 ^ 12 mod 1024)"

definition DIRECTORY_INDEX :: "int \<Rightarrow> nat" where
  "DIRECTORY_INDEX vaddr = nat (vaddr mod 2 ^ 32 div 2 ^ 22 mod 1024)"

definition permissions :: "int \<Rightarrow> u32" where
  "permissions access = (if access = 0 then 0 OR 1 OR 2 else 4 OR 1 OR 2)"

definition page_entry :: "int \<Rightarrow> int \<Rightarrow> u32" where
  "page_entry paddr access = (word_of_int paddr AND NOT 0xfff) OR permissions access"

definition entry_page :: "u32 \<Rightarrow> int" where
  "entry_page e = uint (e AND NOT 0xfff)"

definition set_entry :: "page_tables \<Rightarrow> int \<Rightarrow> nat \<Rightarrow> u32 \<Rightarrow> page_tables" where
  "set_entry ts t i e = ts(t := (ts t)(i := e))"

definition vmem_get_page_table :: "page_tables \<Rightarrow> int \<Rightarrow> int \<Rightarrow> int" where
  "vmem_get_page_table ts dir addr = entry_page (ts dir (DIRECTORY_INDEX addr))"

definition vmem_map :: "page_tables \<Rightarrow> int \<Rightarrow> int \<Rightarrow> int \<Rightarrow> int \<Rightarrow> page_tables" where
  "vmem_map ts table vaddr paddr access = set_entry ts table (TABLE_INDEX vaddr) (page_entry paddr access)"

definition vmem_unmap :: "page_tables \<Rightarrow> int \<Rightarrow> int \<Rightarrow> page_tables" where
  "vmem_unmap ts table vaddr = set_entry ts table (TABLE_INDEX vaddr) 0"

definition vmem_add_table :: "page_tables \<Rightarrow> int \<Rightarrow> int \<Rightarrow> int \<Rightarrow> int \<Rightarrow> page_tables" where
  "vmem_add_table ts dir vaddr table access = set_entry ts dir (DIRECTORY_INDEX vaddr) (page_entry table access)"

section \<open>Regions\<close>

text \<open>
  The loop of \<open>vmem_create_page_region\<close>, page \<open>i\<close> of \<open>num\<close>; it collects the bits, and on a page at
  address 0 gives back those it has and returns \<open>NULL\<close>.
\<close>

fun release_pages :: "int list \<Rightarrow> vmem_allocator \<Rightarrow> vmem_allocator option" where
  "release_pages [] vm = Some vm"
| "release_pages (b # bs) vm = do { vm1 \<leftarrow> vmem_free vm (vstart vm + b * PAGE_SIZE); release_pages bs vm1 }"

fun create_pages :: "nat \<Rightarrow> nat \<Rightarrow> int \<Rightarrow> int \<Rightarrow> int \<Rightarrow> int list \<Rightarrow> vmem_allocator \<Rightarrow> page_tables \<Rightarrow>
    (int list option \<times> vmem_allocator \<times> page_tables) option" where
  "create_pages i 0 base table access bs vm ts = Some (Some bs, vm, ts)"
| "create_pages i (Suc k) base table access bs vm ts =
     do { (paddr, vm1) \<leftarrow> vmem_alloc vm;
          if paddr = 0 then do { vm2 \<leftarrow> release_pages bs vm1; Some (None, vm2, ts) }
          else create_pages (Suc i) k base table access (bs @ [(paddr - vstart vm) div PAGE_SIZE]) vm1
            (vmem_map ts table (base + int i * PAGE_SIZE) paddr access) }"

text \<open>\<open>Some (None, _)\<close> is a \<open>NULL\<close> result; the region is the index of a new object.\<close>

definition vmem_create_page_region :: "vproc \<Rightarrow> int \<Rightarrow> int \<Rightarrow> int \<Rightarrow> (nat option \<times> vproc) option" where
  "vmem_create_page_region p base num access =
     (if num \<le> 0 then Some (None, p) \<comment> \<open>\<open>kalloc(sizeof(int)*num)\<close> is \<open>NULL\<close>\<close>
      else do {
        let table = vmem_get_page_table (tables p) (page_dir p) VMEM_HEAP;
        (bs, vm, ts) \<leftarrow> create_pages 0 (nat num) base table access [] (vmem_default p) (tables p);
        case bs of None \<Rightarrow> Some (None, p\<lparr>vmem_default := vm, tables := ts\<rparr>)
        | Some bs \<Rightarrow>
          let r = \<lparr>bits = bs, basevaddr = base, refs = 0, rsize = num * PAGE_SIZE, rused = 0\<rparr>
          in Some (Some (next_region p),
              p\<lparr>vmem_default := vm, tables := ts, regions := (regions p)(next_region p := r),
                next_region := Suc (next_region p)\<rparr>) })"

definition vmem_page_region_alloc :: "nat \<Rightarrow> int \<Rightarrow> vproc \<Rightarrow> vproc" where
  "vmem_page_region_alloc r sz p =
     p\<lparr>regions := (regions p)(r := (regions p r)\<lparr>rused := rused (regions p r) + sz, refs := refs (regions p r) + 1\<rparr>)\<rparr>"

text \<open>
  The loop of \<open>vmem_free_page_region\<close>: \<open>basevaddr\<close> is a \<open>uint32_t*\<close>, so \<open>basevaddr + i * PAGE_SIZE\<close>
  advances by \<open>4 * i * PAGE_SIZE\<close> bytes. \<open>None\<close> is also a missing page table: the code would write the
  page table entry through it, that is into low memory.
\<close>

fun free_pages :: "nat \<Rightarrow> int list \<Rightarrow> int \<Rightarrow> int \<Rightarrow> vmem_allocator \<Rightarrow> page_tables \<Rightarrow>
    (vmem_allocator \<times> page_tables) option" where
  "free_pages i [] base dir vm ts = Some (vm, ts)"
| "free_pages i (b # bs) base dir vm ts =
     (if b = 0 then free_pages (Suc i) bs base dir vm ts
      else do {
        vm1 \<leftarrow> vmem_free vm (vstart vm + b * PAGE_SIZE);
        let vaddr = base + 4 * (int i * PAGE_SIZE);
            table = vmem_get_page_table ts dir vaddr
        in if table = 0 then None
           else free_pages (Suc i) bs base dir vm1 (vmem_unmap ts table vaddr) })"

definition vmem_free_page_region :: "vproc \<Rightarrow> nat \<Rightarrow> int \<Rightarrow> vproc option" where
  "vmem_free_page_region p r sz =
     (let reg = regions p r
      in if refs reg > 1
         then Some (p\<lparr>regions := (regions p)(r := reg\<lparr>refs := refs reg - 1, rused := rused reg - sz\<rparr>)\<rparr>)
         else do { (vm, ts) \<leftarrow> free_pages 0 (take (nat (rsize reg sdiv PAGE_SIZE)) (bits reg)) (basevaddr reg)
                                (page_dir p) (vmem_default p) (tables p);
                   Some (p\<lparr>vmem_default := vm, tables := ts\<rparr>) })"

section \<open>The user heap\<close>

text \<open>The test of part 1.5; \<open>(uint32_t* ) VMEM_HEAP+size\<close> is \<open>4 * size\<close> bytes further, in 32 bits.\<close>

definition heap_start_free :: "int \<Rightarrow> int \<Rightarrow> bool" where
  "heap_start_free head sz \<longleftrightarrow> head > VMEM_HEAP \<and> head \<le> (VMEM_HEAP + 4 * sz) mod 2 ^ 32"

text \<open>Unsigned 32-bit subtraction, and the same read as an \<open>int\<close>.\<close>

definition usub :: "int \<Rightarrow> int \<Rightarrow> int" where
  "usub a b = (a - b) mod 2 ^ 32"

definition ssub :: "int \<Rightarrow> int \<Rightarrow> int" where
  "ssub a b = (if usub a b < 2 ^ 31 then usub a b else usub a b - 2 ^ 32)"

definition space_at_end :: "vproc \<Rightarrow> allocation \<Rightarrow> int" where
  "space_at_end p a = ssub (basevaddr (regions p (aregion a)) + rsize (regions p (aregion a))) (address a + asize a)"

definition gap_fits :: "vproc \<Rightarrow> allocation \<Rightarrow> allocation \<Rightarrow> int \<Rightarrow> bool" where
  "gap_fits p a b sz \<longleftrightarrow>
     usub (address b) (address a + asize a) \<ge> sz mod 2 ^ 32 \<and> aregion a = aregion b \<or>
     aregion a \<noteq> aregion b \<and> space_at_end p a \<ge> sz"

text \<open>
  Parts 2, 2.5 and 3: the list from \<open>iter\<close>, here \<open>a\<close>, on. The result is the address, the new list
  and the state; the new allocation goes behind the first one with room after it, at the end into a new
  region.
\<close>

fun find_spot :: "allocation \<Rightarrow> allocation list \<Rightarrow> int \<Rightarrow> vproc \<Rightarrow> (int option \<times> allocation list \<times> vproc) option" where
  "find_spot a [] sz p =
     (let reg = regions p (aregion a)
      in if space_at_end p a \<ge> sz
         then let new = \<lparr>address = address a + asize a, asize = sz, aregion = aregion a\<rparr>
              in Some (Some (address new), [a, new], vmem_page_region_alloc (aregion a) sz p)
         else let size = vmem_page_align_size sz
              in do { (r, p1) \<leftarrow> vmem_create_page_region p (basevaddr reg + rsize reg) (size sdiv PAGE_SIZE) 4;
                      case r of None \<Rightarrow> Some (None, [a], p1)
                      | Some r \<Rightarrow>
                        let new = \<lparr>address = basevaddr reg + rsize reg, asize = sz, aregion = r\<rparr>
                        in Some (Some (address new), [a, new],
                             (vmem_page_region_alloc r sz p1)\<lparr>used_memory := used_memory p1 + size\<rparr>) })"
| "find_spot a (b # bs) sz p =
     (if gap_fits p a b sz
      then let new = \<lparr>address = address a + asize a, asize = sz, aregion = aregion a\<rparr>
           in Some (Some (address new), a # new # b # bs, vmem_page_region_alloc (aregion a) sz p)
      else do { (addr, as, p1) \<leftarrow> find_spot b bs sz p; Some (addr, a # as, p1) })"

definition vmem_stack_alloc :: "int \<Rightarrow> vproc \<Rightarrow> (int option \<times> vproc) option" where
  "vmem_stack_alloc sz p =
     (let size = vmem_page_align_size sz; num_pages = size sdiv PAGE_SIZE
      in case allocations p of
           [] \<Rightarrow>
             do { (r, p1) \<leftarrow> vmem_create_page_region p VMEM_HEAP num_pages 4;
                  case r of None \<Rightarrow> Some (None, p1)
                  | Some r \<Rightarrow>
                    Some (Some VMEM_HEAP, (vmem_page_region_alloc r sz p1)
                      \<lparr>allocations := [\<lparr>address = VMEM_HEAP, asize = sz, aregion = r\<rparr>],
                       used_memory := used_memory p1 + size\<rparr>) }
         | a # as \<Rightarrow>
             if heap_start_free (address a) size
             then do { (r, p1) \<leftarrow> vmem_create_page_region p VMEM_HEAP num_pages 4;
                       case r of None \<Rightarrow> Some (None, p1)
                       | Some r \<Rightarrow> Some (Some VMEM_HEAP, vmem_page_region_alloc r sz p1) }
             else do { (addr, l, p1) \<leftarrow> find_spot a as sz p;
                       Some (addr, p1\<lparr>allocations := l\<rparr>) })"

text \<open>The search of \<open>vmem_stack_free\<close> behind the head: the allocation found and the list without it.\<close>

fun unlink :: "int \<Rightarrow> allocation list \<Rightarrow> (allocation \<times> allocation list) option" where
  "unlink ptr [] = None"
| "unlink ptr (a # as) =
     (if address a = ptr then Some (a, as)
      else map_option (\<lambda>(x, l). (x, a # l)) (unlink ptr as))"

definition vmem_stack_free :: "int \<Rightarrow> vproc \<Rightarrow> vproc option" where
  "vmem_stack_free ptr p =
     (case unlink ptr (allocations p) of
        None \<Rightarrow> Some p
      | Some (old, l) \<Rightarrow>
          vmem_free_page_region (p\<lparr>allocations := l, used_memory := used_memory p - asize old\<rparr>) (aregion old) (asize old))"

text \<open>
  \<open>vmem_free_allocations\<close>, without the test of the loop for one address of the kernel heap
  (\<open>(int)iter != 0x1b0004\<close>: the list is not modelled at addresses). The
  page of the heap table goes last.
\<close>

fun free_all :: "allocation list \<Rightarrow> vproc \<Rightarrow> vproc option" where
  "free_all [] p = Some p"
| "free_all (a # as) p = do { p1 \<leftarrow> vmem_free_page_region p (aregion a) (asize a); free_all as p1 }"

definition vmem_free_allocations :: "vproc \<Rightarrow> vproc option" where
  "vmem_free_allocations p =
     (let heap_table = vmem_get_page_table (tables p) (page_dir p) VMEM_HEAP
      in if heap_table = 0 then None
         else if allocations p = [] then Some p
         else do { p1 \<leftarrow> free_all (allocations p) p;
                   vm \<leftarrow> vmem_free (vmem_default p1) heap_table;
                   Some (p1\<lparr>vmem_default := vm, allocations := []\<rparr>) })"

section \<open>The allocator hands out distinct pages\<close>

definition vm_wf :: "vmem_allocator \<Rightarrow> bool" where
  "vm_wf vm \<longleftrightarrow> 0 < vstart vm \<and> 0 \<le> total_pages vm \<and> fits (pages vm) (nat (total_pages vm))"

definition page_used :: "vmem_allocator \<Rightarrow> nat \<Rightarrow> bool" where
  "page_used vm i = bitset (pages vm) i"

definition free_page_set :: "vmem_allocator \<Rightarrow> nat set" where
  "free_page_set vm = {i. int i < total_pages vm \<and> \<not> page_used vm i}"

lemma finite_free_page_set [simp]: "finite (free_page_set vm)"
  by (rule finite_subset [of _ "{..< nat (total_pages vm)}"]) (auto simp: free_page_set_def)

lemma vmem_alloc_cases:
  assumes "vm_wf vm"
  obtains (full) "vmem_alloc vm = None" "free_page_set vm = {}"
  | (page) i vm' where "vmem_alloc vm = Some (vstart vm + int i * PAGE_SIZE, vm')" "i \<in> free_page_set vm"
      "vm_wf vm'" "total_pages vm' = total_pages vm" "vstart vm' = vstart vm" "vend vm' = vend vm"
      "used_pages vm' = used_pages vm + 1" "page_used vm' = (page_used vm)(i := True)"
      "free_page_set vm' = free_page_set vm - {i}"
proof -
  have fits: "fits (pages vm) (nat (total_pages vm))" and nn: "0 \<le> total_pages vm" "0 < vstart vm"
    using assms by (simp_all add: vm_wf_def)
  show thesis
  proof (rule get_free_bitmap_cases [OF fits])
    assume "get_free_bitmap (pages vm) (nat (total_pages vm)) = Some (-1, pages vm)"
      and "\<And>i. i < nat (total_pages vm) \<Longrightarrow> bitset (pages vm) i"
    then show thesis using full by (auto simp: vmem_alloc_def free_page_set_def page_used_def nat_less_iff nn)
  next
    fix i b
    assume b: "get_free_bitmap (pages vm) (nat (total_pages vm)) = Some (int i, b)"
      "i < nat (total_pages vm)" "\<not> bitset (pages vm) i" "length b = length (pages vm)"
      "bitset b = (bitset (pages vm))(i := True)"
    let ?vm = "vm\<lparr>pages := b, used_pages := used_pages vm + 1\<rparr>"
    show thesis
    proof (rule page)
      show "vmem_alloc vm = Some (vstart vm + int i * PAGE_SIZE, ?vm)"
        using b(1) by (simp add: vmem_alloc_def)
      show "i \<in> free_page_set vm" using b(2,3) by (simp add: free_page_set_def page_used_def zless_nat_eq_int_zless)
      show "vm_wf ?vm" using fits nn b(4) by (simp add: vm_wf_def fits_def)
      show up: "page_used ?vm = (page_used vm)(i := True)" using b(5) by (intro ext) (simp add: page_used_def)
      show "free_page_set ?vm = free_page_set vm - {i}" unfolding free_page_set_def up by auto
    qed simp_all
  qed
qed

lemma vmem_free_page:
  assumes "vm_wf vm" and "int i < total_pages vm" and "vstart vm + int i * PAGE_SIZE \<le> vend vm"
  shows "\<exists>vm'. vmem_free vm (vstart vm + int i * PAGE_SIZE) = Some vm' \<and> vm_wf vm' \<and>
    page_used vm' = (page_used vm)(i := False) \<and> used_pages vm' = used_pages vm - 1 \<and>
    total_pages vm' = total_pages vm \<and> vstart vm' = vstart vm \<and> vend vm' = vend vm"
proof -
  have "i div 8 < length (pages vm)"
    using assms(1,2) fits_nthD [of "pages vm" "nat (total_pages vm)" i] by (auto simp: vm_wf_def)
  then obtain b where "unset_bitmap (pages vm) i = Some b" "length b = length (pages vm)"
    "bitset b = (bitset (pages vm))(i := False)"
    by (rule unset_bitmap_bitset)
  then show ?thesis using assms
    by (auto simp: vmem_free_def vm_wf_def fits_def page_used_def fun_eq_iff)
qed

definition vmem_take :: "vmem_allocator \<Rightarrow> (nat \<times> vmem_allocator) option" where
  "vmem_take vm = map_option (\<lambda>(a, vm'). (nat ((a - vstart vm) div PAGE_SIZE), vm')) (vmem_alloc vm)"

definition vmem_give :: "nat \<Rightarrow> vmem_allocator \<Rightarrow> vmem_allocator" where
  "vmem_give i vm = (case vmem_free vm (vstart vm + int i * PAGE_SIZE) of Some vm' \<Rightarrow> vm' | None \<Rightarrow> vm)"

definition vm_sized :: "nat \<Rightarrow> vmem_allocator \<Rightarrow> bool" where
  "vm_sized n vm \<longleftrightarrow> vm_wf vm \<and> total_pages vm = int n \<and> vstart vm + int n * PAGE_SIZE \<le> vend vm"

interpretation vpages: slots "vm_sized n" page_used "{..<n}" vmem_take vmem_give
proof
  show "finite {..<n}" by simp
next
  fix vm i vm' assume vm: "vm_sized n vm" and tk: "vmem_take vm = Some (i, vm')"
  have "vm_wf vm" using vm by (simp add: vm_sized_def)
  then show "vm_sized n vm' \<and> i \<in> {..<n} \<and> \<not> page_used vm i \<and>
      (\<forall>j\<in>{..<n}. page_used vm' j = (j = i \<or> page_used vm j))"
    by (cases rule: vmem_alloc_cases) (use vm tk in \<open>auto simp: vm_sized_def vmem_take_def free_page_set_def\<close>)
next
  fix vm i assume vm: "vm_sized n vm" and tk: "vmem_take vm = None" and i: "i \<in> {..<n}"
  have "vm_wf vm" using vm by (simp add: vm_sized_def)
  then show "page_used vm i"
    by (cases rule: vmem_alloc_cases) (use vm tk i in \<open>auto simp: vm_sized_def vmem_take_def free_page_set_def\<close>)
next
  fix vm i assume "vm_sized n vm" "i \<in> {..<n}" "page_used vm i"
  then show "vm_sized n (vmem_give i vm) \<and> (\<forall>j\<in>{..<n}. page_used (vmem_give i vm) j = (j \<noteq> i \<and> page_used vm j))"
    using vmem_free_page [of vm i] by (auto simp: vm_sized_def vmem_give_def split: if_splits)
qed

section \<open>Page tables and fresh regions\<close>

lemma page_entry_page:
  assumes "paddr mod PAGE_SIZE = 0" and "0 \<le> paddr" and "paddr < 2 ^ 32"
  shows "entry_page (page_entry paddr a) = paddr"
proof -
  have low: "permissions a AND NOT 0xfff = 0" by (simp add: permissions_def)
  have "(word_of_int paddr AND NOT 0xfff) AND NOT 0xfff = (word_of_int paddr AND NOT 0xfff :: u32)"
    by (simp add: and.assoc)
  then have "page_entry paddr a AND NOT 0xfff = (word_of_int paddr AND NOT 0xfff :: u32)"
    unfolding page_entry_def using low by (simp add: bit.conj_disj_distrib2)
  also have "\<dots> = word_of_int (paddr AND NOT (2 ^ 12 - 1))"
    by (rule bit_word_eqI) (simp add: bit_simps)
  also have "paddr AND NOT (2 ^ 12 - 1) = paddr"
    using ALIGN_DOWN_pow2 [of paddr 12] assms(1) by (simp add: ALIGN_DOWN_def)
  finally show ?thesis using assms(2,3) by (simp add: entry_page_def uint_word_of_int)
qed

lemma TABLE_INDEX_heap:
  assumes "VMEM_HEAP \<le> v" and "v < VMEM_HEAP + 0x400000"
  shows "TABLE_INDEX v = nat ((v - VMEM_HEAP) div PAGE_SIZE)" "DIRECTORY_INDEX v = 896"
proof -
  define d where "d = v - VMEM_HEAP"
  have d: "v = VMEM_HEAP + d" "0 \<le> d" "d < 0x400000" using assms by (simp_all add: d_def)
  have v: "v mod 2 ^ 32 = VMEM_HEAP + d" using d by simp
  have "(VMEM_HEAP + d) div 2 ^ 12 = 896 * 1024 + d div 2 ^ 12" by simp
  moreover have "d div 2 ^ 12 < 1024" "0 \<le> d div 2 ^ 12" using d by simp_all
  moreover have "(896 * 1024 + d div 2 ^ 12) mod 1024 = d div 2 ^ 12 mod 1024" by (rule mod_mult_self3)
  ultimately have "(VMEM_HEAP + d) div 2 ^ 12 mod 1024 = d div 2 ^ 12" by simp
  then show "TABLE_INDEX v = nat ((v - VMEM_HEAP) div PAGE_SIZE)" unfolding TABLE_INDEX_def v by (simp add: d_def)
  have "(VMEM_HEAP + d) div 2 ^ 22 = 896" using d by simp
  then show "DIRECTORY_INDEX v = 896" unfolding DIRECTORY_INDEX_def v by simp
qed

text \<open>The loop that makes a region: free pages suffice, and pages and entries are right.\<close>

lemma create_pages_ok:
  assumes "vm_wf vm" and "k \<le> card (free_page_set vm)"
  shows "\<exists>xs vm' ts'. create_pages i k base table access bs vm ts = Some (Some (bs @ map int xs), vm', ts') \<and>
    length xs = k \<and> distinct xs \<and> set xs \<subseteq> free_page_set vm \<and> vm_wf vm' \<and>
    free_page_set vm' = free_page_set vm - set xs \<and> total_pages vm' = total_pages vm \<and>
    vstart vm' = vstart vm \<and> vend vm' = vend vm \<and> used_pages vm' = used_pages vm + int k \<and>
    (\<forall>t. t \<noteq> table \<longrightarrow> ts' t = ts t) \<and>
    (\<forall>e. (\<forall>j. i \<le> j \<and> j < i + k \<longrightarrow> TABLE_INDEX (base + int j * PAGE_SIZE) \<noteq> e) \<longrightarrow> ts' table e = ts table e) \<and>
    ((\<forall>j j'. i \<le> j \<and> j < j' \<and> j' < i + k \<longrightarrow> TABLE_INDEX (base + int j * PAGE_SIZE) \<noteq> TABLE_INDEX (base + int j' * PAGE_SIZE)) \<longrightarrow>
     (\<forall>j < k. ts' table (TABLE_INDEX (base + int (i + j) * PAGE_SIZE)) = page_entry (vstart vm + int (xs ! j) * PAGE_SIZE) access))"
  using assms
proof (induction k arbitrary: i bs vm ts)
  case 0
  then show ?case by (auto intro!: exI [of _ "[]"])
next
  case (Suc k)
  from Suc.prems(1) show ?case
  proof (cases rule: vmem_alloc_cases)
    case full
    then show ?thesis using Suc.prems(2) by simp
  next
    case (page b vm1)
    let ?ix = "\<lambda>j. TABLE_INDEX (base + int j * PAGE_SIZE)"
    define ts1 where "ts1 = vmem_map ts table (base + int i * PAGE_SIZE) (vstart vm + int b * PAGE_SIZE) access"
    have ts1: "t \<noteq> table \<Longrightarrow> ts1 t = ts t" "e \<noteq> ?ix i \<Longrightarrow> ts1 table e = ts table e"
      "ts1 table (?ix i) = page_entry (vstart vm + int b * PAGE_SIZE) access" for t e
      by (simp_all add: ts1_def vmem_map_def set_entry_def)
    have card: "k \<le> card (free_page_set vm1)" using Suc.prems(2) page(2) by (simp add: page(9))
    obtain xs vm' ts' where IH: "create_pages (Suc i) k base table access (bs @ [int b]) vm1 ts1 =
        Some (Some ((bs @ [int b]) @ map int xs), vm', ts')" "length xs = k" "distinct xs" "set xs \<subseteq> free_page_set vm1"
      "vm_wf vm'" "free_page_set vm' = free_page_set vm1 - set xs" "total_pages vm' = total_pages vm1"
      "vstart vm' = vstart vm1" "vend vm' = vend vm1" "used_pages vm' = used_pages vm1 + int k"
      "\<And>t. t \<noteq> table \<Longrightarrow> ts' t = ts1 t"
      "\<And>e. (\<forall>j. Suc i \<le> j \<and> j < Suc i + k \<longrightarrow> ?ix j \<noteq> e) \<Longrightarrow> ts' table e = ts1 table e"
      "(\<forall>j j'. Suc i \<le> j \<and> j < j' \<and> j' < Suc i + k \<longrightarrow> ?ix j \<noteq> ?ix j') \<Longrightarrow>
        \<forall>j < k. ts' table (?ix (Suc i + j)) = page_entry (vstart vm1 + int (xs ! j) * PAGE_SIZE) access"
      using Suc.IH [OF page(3) card, of "Suc i" "bs @ [int b]" ts1] by blast
    have run: "create_pages i (Suc k) base table access bs vm ts = Some (Some (bs @ map int (b # xs)), vm', ts')"
    proof -
      have "0 < vstart vm" using Suc.prems(1) by (simp add: vm_wf_def)
      then have "vstart vm + int b * PAGE_SIZE \<noteq> 0" by linarith
      then show ?thesis using page(1) IH(1) by (simp add: ts1_def)
    qed
    have other: "ts' table e = ts table e" if "\<forall>j. i \<le> j \<and> j < i + Suc k \<longrightarrow> ?ix j \<noteq> e" for e
      using that IH(12) [of e] ts1(2) [of e] by auto
    have entries: "\<forall>j < Suc k. ts' table (?ix (i + j)) = page_entry (vstart vm + int ((b # xs) ! j) * PAGE_SIZE) access"
      if dj: "\<forall>j j'. i \<le> j \<and> j < j' \<and> j' < i + Suc k \<longrightarrow> ?ix j \<noteq> ?ix j'"
    proof (intro allI impI)
      fix j assume "j < Suc k"
      show "ts' table (?ix (i + j)) = page_entry (vstart vm + int ((b # xs) ! j) * PAGE_SIZE) access"
      proof (cases j)
        case 0
        have "?ix j \<noteq> ?ix i" if "Suc i \<le> j" "j < Suc i + k" for j
          using dj [rule_format, of i j] that by auto
        then have "ts' table (?ix i) = ts1 table (?ix i)" by (intro IH(12)) blast
        then show ?thesis using 0 ts1(3) by simp
      next
        case (Suc m)
        have "\<forall>j j'. Suc i \<le> j \<and> j < j' \<and> j' < Suc i + k \<longrightarrow> ?ix j \<noteq> ?ix j'" using dj by auto
        from IH(13) [OF this] show ?thesis using Suc \<open>j < Suc k\<close> page(5) by simp
      qed
    qed
    have "length (b # xs) = Suc k" "distinct (b # xs)" "set (b # xs) \<subseteq> free_page_set vm"
      "free_page_set vm' = free_page_set vm - set (b # xs)"
      using IH(2,3,4,6) page(2,9) by auto
    moreover have "\<forall>t. t \<noteq> table \<longrightarrow> ts' t = ts t" using IH(11) ts1(1) by simp
    ultimately show ?thesis using run IH(5,7-10) page(4-7) other entries
      by (intro exI [of _ "b # xs"] exI [of _ vm'] exI [of _ ts']) simp
  qed
qed
section \<open>The user heap\<close>

lemma align_size:
  assumes "0 < sz"
  obtains n where "vmem_page_align_size sz = int n * PAGE_SIZE" "vmem_page_align_size sz sdiv PAGE_SIZE = int n"
    "0 < n" "sz \<le> int n * PAGE_SIZE" "int n * PAGE_SIZE < sz + PAGE_SIZE"
proof -
  define q r where "q = sz div PAGE_SIZE" and "r = sz mod PAGE_SIZE"
  have qr: "sz = q * PAGE_SIZE + r" "0 \<le> r" "r < PAGE_SIZE" "0 \<le> q"
    using assms by (simp_all add: q_def r_def pos_imp_zdiv_nonneg_iff)
  have sq: "sz sdiv PAGE_SIZE = q" "sz smod PAGE_SIZE = r"
    using assms by (simp_all add: signed_divide_int_def signed_modulo_int_def q_def r_def minus_div_mult_eq_mod)
  define m where "m = nat (if r > 0 then q + 1 else q)"
  have m: "int m = (if r > 0 then q + 1 else q)" using qr by (simp add: m_def)
  have "vmem_page_align_size sz = int m * PAGE_SIZE"
    by (simp add: vmem_page_align_size_def sq m)
  moreover have "(int m * PAGE_SIZE) sdiv PAGE_SIZE = int m"
    by (cases "m = 0") (simp_all add: signed_divide_int_def sgn_1_pos)
  ultimately show thesis using that [of m] qr m assms by (auto split: if_splits)
qed

definition reg_end :: "vproc \<Rightarrow> allocation \<Rightarrow> int" where
  "reg_end p a = basevaddr (regions p (aregion a)) + rsize (regions p (aregion a))"

definition HEAP_LIMIT :: int where "HEAP_LIMIT = VMEM_HEAP + 0x400000"

text \<open>An allocation inside its region, the region inside the 4MB that the heap table maps.\<close>

definition inside :: "vproc \<Rightarrow> allocation \<Rightarrow> bool" where
  "inside p a \<longleftrightarrow> aregion a < next_region p \<and> 0 < asize a \<and>
     VMEM_HEAP \<le> basevaddr (regions p (aregion a)) \<and> basevaddr (regions p (aregion a)) \<le> address a \<and>
     address a + asize a \<le> reg_end p a \<and> reg_end p a \<le> HEAP_LIMIT"

definition before :: "vproc \<Rightarrow> allocation \<Rightarrow> allocation \<Rightarrow> bool" where
  "before p a b \<longleftrightarrow> address a + asize a \<le> address b \<and>
     (aregion a = aregion b \<or> reg_end p a \<le> basevaddr (regions p (aregion b)))"

lemma before_trans: "before p a b \<Longrightarrow> before p b c \<Longrightarrow> inside p b \<Longrightarrow> before p a c"
  by (auto simp: before_def inside_def reg_end_def)

definition heap_list :: "vproc \<Rightarrow> allocation list \<Rightarrow> bool" where
  "heap_list p as \<longleftrightarrow> (\<forall>a \<in> set as. inside p a) \<and> sorted_wrt (before p) as"

text \<open>The heap is well formed, and its first allocation is at the start.\<close>

definition heap_ok :: "vproc \<Rightarrow> bool" where
  "heap_ok p \<longleftrightarrow> vm_wf (vmem_default p) \<and> heap_list p (allocations p) \<and>
     (allocations p \<noteq> [] \<longrightarrow> address (hd (allocations p)) = VMEM_HEAP)"

text \<open>Only base and size of the regions matter.\<close>

definition same_extents :: "vproc \<Rightarrow> vproc \<Rightarrow> bool" where
  "same_extents p p' \<longleftrightarrow> next_region p \<le> next_region p' \<and>
     (\<forall>r < next_region p. basevaddr (regions p' r) = basevaddr (regions p r) \<and> rsize (regions p' r) = rsize (regions p r))"

lemma same_extents_inside: "same_extents p p' \<Longrightarrow> inside p a \<Longrightarrow> inside p' a"
  by (auto simp: same_extents_def inside_def reg_end_def)

lemma same_extents_before:
  "same_extents p p' \<Longrightarrow> inside p a \<Longrightarrow> inside p b \<Longrightarrow> before p' a b = before p a b"
  by (auto simp: same_extents_def inside_def before_def reg_end_def)

lemma same_extents_list:
  assumes "same_extents p p'" and "heap_list p as"
  shows "heap_list p' as"
proof -
  have "sorted_wrt (before p) xs \<Longrightarrow> (\<forall>a \<in> set xs. inside p a) \<Longrightarrow> sorted_wrt (before p') xs" for xs
    by (induction xs) (auto simp: same_extents_before [OF assms(1)])
  then show ?thesis using assms same_extents_inside by (auto simp: heap_list_def)
qed

lemma same_extents_region_alloc: "same_extents p (vmem_page_region_alloc r sz p)"
  by (simp add: same_extents_def vmem_page_region_alloc_def)

lemma usub_exact: "0 \<le> a - b \<Longrightarrow> a - b < 2 ^ 32 \<Longrightarrow> usub a b = a - b"
  by (simp add: usub_def)

lemma space_at_end_exact:
  assumes "inside p a"
  shows "space_at_end p a = reg_end p a - (address a + asize a)"
proof -
  have "0 \<le> reg_end p a - (address a + asize a)" "reg_end p a - (address a + asize a) < 2 ^ 31"
    using assms by (auto simp: inside_def HEAP_LIMIT_def)
  then show ?thesis
    by (simp add: space_at_end_def ssub_def usub_def flip: reg_end_def)
qed

text \<open>The space found behind \<open>a\<close> ends before the next allocation and inside the region of \<open>a\<close>.\<close>

lemma gap_fits_room:
  assumes "heap_list p (a # b # bs)" and "gap_fits p a b sz" and "0 < sz" and "sz < 2 ^ 31"
  shows "address a + asize a + sz \<le> address b \<and> address a + asize a + sz \<le> reg_end p a"
proof -
  have ab: "inside p a" "inside p b" "before p a b"
    using assms(1) by (auto simp: heap_list_def)
  have le: "0 \<le> address b - (address a + asize a)" "address b - (address a + asize a) < 2 ^ 32"
    using ab by (auto simp: before_def inside_def HEAP_LIMIT_def)
  have sz: "sz mod 2 ^ 32 = sz" using assms(3,4) by simp
  from assms(2) consider "sz \<le> address b - (address a + asize a)" "aregion a = aregion b"
    | "aregion a \<noteq> aregion b" "sz \<le> reg_end p a - (address a + asize a)"
    unfolding gap_fits_def usub_exact [OF le] space_at_end_exact [OF ab(1)] sz by auto
  then show ?thesis
  proof cases
    case 1
    have "address b \<le> reg_end p b" using ab(2) by (auto simp: inside_def)
    then show ?thesis using 1 by (auto simp: reg_end_def)
  next
    case 2
    then show ?thesis using ab by (auto simp: before_def inside_def)
  qed
qed

lemma inside_new:
  assumes "inside p a" and "0 < sz" and "address a + asize a + sz \<le> reg_end p a"
  shows "inside p \<lparr>address = address a + asize a, asize = sz, aregion = aregion a\<rparr>"
  using assms by (auto simp: inside_def reg_end_def)

text \<open>A new region is fresh and starts where it was asked to.\<close>

lemma create_region_ok:
  assumes vm: "vm_wf (vmem_default p)" and n: "0 < n" "n \<le> card (free_page_set (vmem_default p))"
  shows "\<exists>p'. vmem_create_page_region p base (int n) acc = Some (Some (next_region p), p') \<and>
    same_extents p p' \<and> next_region p' = Suc (next_region p) \<and>
    basevaddr (regions p' (next_region p)) = base \<and> rsize (regions p' (next_region p)) = int n * PAGE_SIZE \<and>
    refs (regions p' (next_region p)) = 0 \<and> vm_wf (vmem_default p') \<and>
    allocations p' = allocations p \<and> page_dir p' = page_dir p \<and> used_memory p' = used_memory p"
proof -
  let ?t = "vmem_get_page_table (tables p) (page_dir p) VMEM_HEAP"
  obtain xs vm' ts' where "create_pages 0 n base ?t acc [] (vmem_default p) (tables p) = Some (Some ([] @ map int xs), vm', ts')"
    "vm_wf vm'"
    using create_pages_ok [OF vm n(2), of 0 base ?t acc "[]" "tables p"] by blast
  then show ?thesis using n(1) by (simp add: vmem_create_page_region_def Let_def same_extents_def)
qed

definition heap_end :: "vproc \<Rightarrow> int" where
  "heap_end p = (if allocations p = [] then VMEM_HEAP else reg_end p (last (allocations p)))"

lemma find_spot_ok:
  assumes "heap_list p (a # as)" and "vm_wf (vmem_default p)" and sz: "0 < sz" "sz < 2 ^ 31"
    and n: "vmem_page_align_size sz = int n * PAGE_SIZE" "vmem_page_align_size sz sdiv PAGE_SIZE = int n"
      "0 < n" "sz \<le> int n * PAGE_SIZE" "n \<le> card (free_page_set (vmem_default p))"
    and room: "reg_end p (last (a # as)) + int n * PAGE_SIZE \<le> HEAP_LIMIT"
  shows "\<exists>new pre post p'. find_spot a as sz p = Some (Some (address new), a # pre @ new # post, p') \<and>
    as = pre @ post \<and> asize new = sz \<and> heap_list p' (a # pre @ new # post) \<and> vm_wf (vmem_default p') \<and>
    same_extents p p'"
  using assms(1) room
proof (induction as arbitrary: a)
  case Nil
  have a: "inside p a" using Nil.prems(1) by (simp add: heap_list_def)
  show ?case
  proof (cases "sz \<le> space_at_end p a")
    case True
    let ?new = "\<lparr>address = address a + asize a, asize = sz, aregion = aregion a\<rparr>"
    let ?p = "vmem_page_region_alloc (aregion a) sz p"
    have "inside p ?new" using inside_new [OF a sz(1)] True space_at_end_exact [OF a] by simp
    moreover have "before p a ?new" by (simp add: before_def)
    ultimately have "heap_list p [a, ?new]" using a by (simp add: heap_list_def)
    then have "heap_list ?p [a, ?new]" by (rule same_extents_list [OF same_extents_region_alloc])
    moreover have "find_spot a [] sz p = Some (Some (address ?new), a # [] @ ?new # [], ?p)"
      using True by (simp add: Let_def)
    moreover have "vm_wf (vmem_default ?p)" using assms(2) by (simp add: vmem_page_region_alloc_def)
    ultimately show ?thesis using same_extents_region_alloc
      by (intro exI [of _ ?new] exI [of _ "[]"] exI [of _ ?p]) auto
  next
    case False
    obtain p1 where p1: "vmem_create_page_region p (reg_end p a) (int n) 4 = Some (Some (next_region p), p1)"
      "same_extents p p1" "next_region p1 = Suc (next_region p)"
      "basevaddr (regions p1 (next_region p)) = reg_end p a"
      "rsize (regions p1 (next_region p)) = int n * PAGE_SIZE" "vm_wf (vmem_default p1)"
      using create_region_ok [OF assms(2) n(3,5), of "reg_end p a" 4] by blast
    let ?new = "\<lparr>address = reg_end p a, asize = sz, aregion = next_region p\<rparr>"
    let ?p = "(vmem_page_region_alloc (next_region p) sz p1)\<lparr>used_memory := used_memory p1 + int n * PAGE_SIZE\<rparr>"
    have ext: "same_extents p1 ?p" "same_extents p ?p"
      using p1(2) by (simp_all add: same_extents_def vmem_page_region_alloc_def)
    have a1: "inside p1 a" by (rule same_extents_inside [OF p1(2) a])
    have re: "reg_end p1 a = reg_end p a" using p1(2) a by (simp add: reg_end_def same_extents_def inside_def)
    have "inside p1 ?new"
      using sz(1) n(4) Nil.prems(2) p1(3-5) a by (auto simp: inside_def reg_end_def)
    moreover have "before p1 a ?new" using a re p1(4) by (auto simp: before_def inside_def)
    ultimately have "heap_list p1 [a, ?new]" using a1 by (simp add: heap_list_def)
    then have "heap_list ?p [a, ?new]" by (rule same_extents_list [OF ext(1)])
    moreover have "find_spot a [] sz p = Some (Some (address ?new), a # [] @ ?new # [], ?p)"
      using False p1(1) n(1,2) by (simp add: Let_def reg_end_def)
    moreover have "vm_wf (vmem_default ?p)" using p1(6) by (simp add: vmem_page_region_alloc_def)
    ultimately show ?thesis using ext(2)
      by (intro exI [of _ ?new] exI [of _ "[]"] exI [of _ ?p]) auto
  qed
next
  case (Cons b bs)
  have a: "inside p a" using Cons.prems(1) by (simp add: heap_list_def)
  show ?case
  proof (cases "gap_fits p a b sz")
    case True
    let ?new = "\<lparr>address = address a + asize a, asize = sz, aregion = aregion a\<rparr>"
    let ?p = "vmem_page_region_alloc (aregion a) sz p"
    have rm: "address a + asize a + sz \<le> address b" "address a + asize a + sz \<le> reg_end p a"
      using gap_fits_room [OF Cons.prems(1) True sz] by auto
    have "before p ?new c" if "c \<in> set (b # bs)" for c
    proof -
      have "before p a c" "inside p c" "address b \<le> address c"
        using Cons.prems(1) that by (auto simp: heap_list_def before_def inside_def)
      then show ?thesis using rm by (auto simp: before_def reg_end_def)
    qed
    then have "heap_list p (a # ?new # b # bs)"
      using Cons.prems(1) inside_new [OF a sz(1) rm(2)] by (auto simp: heap_list_def before_def)
    then have "heap_list ?p (a # ?new # b # bs)" by (rule same_extents_list [OF same_extents_region_alloc])
    moreover have "find_spot a (b # bs) sz p = Some (Some (address ?new), a # [] @ ?new # b # bs, ?p)"
      using True by (simp add: Let_def)
    moreover have "vm_wf (vmem_default ?p)" using assms(2) by (simp add: vmem_page_region_alloc_def)
    ultimately show ?thesis using same_extents_region_alloc
      by (intro exI [of _ ?new] exI [of _ "[]"] exI [of _ "b # bs"] exI [of _ ?p]) auto
  next
    case False
    have "heap_list p (b # bs)" "reg_end p (last (b # bs)) + int n * PAGE_SIZE \<le> HEAP_LIMIT"
      using Cons.prems by (auto simp: heap_list_def)
    from Cons.IH [OF this] obtain new pre post p' where IH:
      "find_spot b bs sz p = Some (Some (address new), b # pre @ new # post, p')" "bs = pre @ post"
      "asize new = sz" "heap_list p' (b # pre @ new # post)" "vm_wf (vmem_default p')" "same_extents p p'" by blast
    have "inside p' c \<and> before p' a c" if "c \<in> set (b # bs)" for c
    proof -
      have "before p a c" "inside p c" using Cons.prems(1) that by (auto simp: heap_list_def)
      then show ?thesis using same_extents_inside [OF IH(6)] same_extents_before [OF IH(6) a] by simp
    qed
    moreover have "before p' a new"
    proof (rule before_trans)
      show "before p' a b" using calculation by simp
      show "before p' b new" "inside p' b" using IH(4) by (auto simp: heap_list_def)
    qed
    ultimately have "heap_list p' (a # b # pre @ new # post)"
      using IH(2,4) same_extents_inside [OF IH(6) a] by (auto simp: heap_list_def)
    then show ?thesis using IH False
      by (intro exI [of _ new] exI [of _ "b # pre"] exI [of _ post] exI [of _ p']) simp
  qed
qed

section \<open>Freeing a region\<close>

lemma if_either: "(if A then z else if B then z else t) = (if B \<or> A then z else t)"
  by simp

lemma free_pages_ok:
  assumes "vm_wf vm" and "\<forall>x \<in> set xs. 0 < x \<and> int x < total_pages vm"
    and "vstart vm + total_pages vm * PAGE_SIZE \<le> vend vm"
    and "VMEM_HEAP \<le> base" and "base + 4 * (int (i + length xs) * PAGE_SIZE) \<le> HEAP_LIMIT"
    and "entry_page (ts dir 896) = table" and "table \<noteq> 0" and "dir \<noteq> table"
  shows "\<exists>vm' ts'. free_pages i (map int xs) base dir vm ts = Some (vm', ts') \<and> vm_wf vm' \<and>
    page_used vm' = (\<lambda>j. page_used vm j \<and> j \<notin> set xs) \<and> used_pages vm' = used_pages vm - int (length xs) \<and>
    (\<forall>t. t \<noteq> table \<longrightarrow> ts' t = ts t) \<and>
    (\<forall>e. ts' table e = (if \<exists>m. i \<le> m \<and> m < i + length xs \<and> e = TABLE_INDEX (base + 4 * (int m * PAGE_SIZE))
                        then 0 else ts table e))"
  using assms
proof (induction xs arbitrary: i vm ts)
  case Nil
  then show ?case by auto
next
  case (Cons x xs)
  let ?ix = "\<lambda>m. TABLE_INDEX (base + 4 * (int m * PAGE_SIZE))"
  have x: "0 < x" "int x < total_pages vm" using Cons.prems(2) by auto
  then have "int x * PAGE_SIZE \<le> total_pages vm * PAGE_SIZE" by simp
  then have "vstart vm + int x * PAGE_SIZE \<le> vend vm" using Cons.prems(3) by linarith
  from vmem_free_page [OF Cons.prems(1) x(2) this] obtain vm1 where vm1:
    "vmem_free vm (vstart vm + int x * PAGE_SIZE) = Some vm1" "vm_wf vm1"
    "page_used vm1 = (page_used vm)(x := False)" "used_pages vm1 = used_pages vm - 1"
    "total_pages vm1 = total_pages vm" "vstart vm1 = vstart vm" "vend vm1 = vend vm" by blast
  have v: "VMEM_HEAP \<le> base + 4 * (int i * PAGE_SIZE)" "base + 4 * (int i * PAGE_SIZE) < VMEM_HEAP + 0x400000"
    using Cons.prems(4,5) by (auto simp: HEAP_LIMIT_def algebra_simps)
  have tab: "vmem_get_page_table ts dir (base + 4 * (int i * PAGE_SIZE)) = table"
    using Cons.prems(6) TABLE_INDEX_heap(2) [OF v] by (simp add: vmem_get_page_table_def)
  define ts1 where "ts1 = vmem_unmap ts table (base + 4 * (int i * PAGE_SIZE))"
  have ts1: "t \<noteq> table \<Longrightarrow> ts1 t = ts t" "ts1 table e = (if e = ?ix i then 0 else ts table e)" for t e
    by (simp_all add: ts1_def vmem_unmap_def set_entry_def)
  have "entry_page (ts1 dir 896) = table" using Cons.prems(6,8) ts1(1) by simp
  moreover have "\<forall>y \<in> set xs. 0 < y \<and> int y < total_pages vm1"
    using Cons.prems(2) vm1(5) by simp
  moreover have "vstart vm1 + total_pages vm1 * PAGE_SIZE \<le> vend vm1" using Cons.prems(3) vm1(5-7) by simp
  moreover have "base + 4 * (int (Suc i + length xs) * PAGE_SIZE) \<le> HEAP_LIMIT" using Cons.prems(5) by simp
  ultimately obtain vm' ts' where IH: "free_pages (Suc i) (map int xs) base dir vm1 ts1 = Some (vm', ts')" "vm_wf vm'"
    "page_used vm' = (\<lambda>j. page_used vm1 j \<and> j \<notin> set xs)" "used_pages vm' = used_pages vm1 - int (length xs)"
    "\<And>t. t \<noteq> table \<Longrightarrow> ts' t = ts1 t"
    "\<And>e. ts' table e = (if \<exists>m. Suc i \<le> m \<and> m < Suc i + length xs \<and> e = ?ix m then 0 else ts1 table e)"
    using Cons.IH [OF vm1(2) _ _ Cons.prems(4) _ _ Cons.prems(7,8), of "Suc i" ts1] by blast
  have ran: "(\<exists>m. i \<le> m \<and> m < i + length (x # xs) \<and> e = ?ix m) \<longleftrightarrow>
      e = ?ix i \<or> (\<exists>m. Suc i \<le> m \<and> m < Suc i + length xs \<and> e = ?ix m)" for e
  proof -
    have "i \<le> m \<and> m < i + length (x # xs) \<longleftrightarrow> m = i \<or> Suc i \<le> m \<and> m < Suc i + length xs" for m by auto
    then show ?thesis by metis
  qed
  have "free_pages i (map int (x # xs)) base dir vm ts = Some (vm', ts')"
    using x(1) vm1(1) tab Cons.prems(7) IH(1) by (simp add: Let_def ts1_def)
  moreover have "ts' table e = (if \<exists>m. i \<le> m \<and> m < i + length (x # xs) \<and> e = ?ix m then 0 else ts table e)" for e
    unfolding ran IH(6) ts1(2) by (rule if_either)
  ultimately show ?case using IH(2-5) vm1(3,4) ts1(1) by (intro exI [of _ vm'] exI [of _ ts']) auto
qed

section \<open>Properties\<close>

text \<open>
  C19. Successive calls of \<open>vmem_alloc\<close> return distinct free pages of the arena, mark exactly those
  as used, and stop only when every page is used.
\<close>

theorem vmem_alloc_distinct:
  assumes "vm_sized n vm" and "take_many vmem_take k vm = (is, vm')"
  shows "distinct is \<and> (\<forall>i \<in> set is. i < n \<and> \<not> page_used vm i) \<and>
    (\<forall>i < n. page_used vm' i \<longleftrightarrow> page_used vm i \<or> i \<in> set is) \<and>
    length is = min k (card {i. i < n \<and> \<not> page_used vm i})"
proof -
  have "free_slots page_used {..<n} vm = {i. i < n \<and> \<not> page_used vm i}" for vm
    by (auto simp: free_slots_def)
  with vpages.take_many_distinct [OF assms] show ?thesis by auto
qed

text \<open>
  C20. On a well-formed heap with a first allocation at the start, room in the 4MB of the heap table and
  enough free pages, \<open>vmem_stack_alloc\<close> of a positive size succeeds: the new range lies in the heap and
  apart from every live allocation, the allocation is linked into the list, and the heap stays
  well formed (ordered, disjoint, each allocation in its region).
\<close>

theorem vmem_stack_alloc_correct:
  assumes ok: "heap_ok p" and sz: "0 < sz" and room: "heap_end p + vmem_page_align_size sz \<le> HEAP_LIMIT"
    and pages: "vmem_page_align_size sz \<le> int (card (free_page_set (vmem_default p))) * PAGE_SIZE"
  shows "\<exists>addr p' new pre post. vmem_stack_alloc sz p = Some (Some addr, p') \<and> heap_ok p' \<and>
    allocations p = pre @ post \<and> allocations p' = pre @ new # post \<and> address new = addr \<and> asize new = sz \<and>
    VMEM_HEAP \<le> addr \<and> addr + sz \<le> HEAP_LIMIT \<and>
    (\<forall>a \<in> set (allocations p). addr + sz \<le> address a \<or> address a + asize a \<le> addr)"
proof -
  obtain n where n: "vmem_page_align_size sz = int n * PAGE_SIZE" "vmem_page_align_size sz sdiv PAGE_SIZE = int n"
    "0 < n" "sz \<le> int n * PAGE_SIZE" using align_size [OF sz] by metis
  have card: "n \<le> card (free_page_set (vmem_default p))" using pages n(1) by simp
  have vm: "vm_wf (vmem_default p)" and hl: "heap_list p (allocations p)" using ok by (simp_all add: heap_ok_def)
  show ?thesis
  proof (cases "allocations p")
    case Nil
    obtain p1 where p1: "vmem_create_page_region p VMEM_HEAP (int n) 4 = Some (Some (next_region p), p1)"
      "same_extents p p1" "next_region p1 = Suc (next_region p)"
      "basevaddr (regions p1 (next_region p)) = VMEM_HEAP"
      "rsize (regions p1 (next_region p)) = int n * PAGE_SIZE" "vm_wf (vmem_default p1)"
      using create_region_ok [OF vm n(3) card, of VMEM_HEAP 4] by blast
    let ?new = "\<lparr>address = VMEM_HEAP, asize = sz, aregion = next_region p\<rparr>"
    let ?p = "(vmem_page_region_alloc (next_region p) sz p1)
      \<lparr>allocations := [?new], used_memory := used_memory p1 + vmem_page_align_size sz\<rparr>"
    have "vmem_stack_alloc sz p = Some (Some VMEM_HEAP, ?p)"
      using Nil p1(1) n(2) by (simp add: vmem_stack_alloc_def Let_def)
    moreover have lim: "VMEM_HEAP + int n * PAGE_SIZE \<le> HEAP_LIMIT" using room Nil n(1) by (simp add: heap_end_def)
    then have "inside ?p ?new" using p1(3-5) sz n(4)
      by (simp add: inside_def reg_end_def vmem_page_region_alloc_def)
    then have "heap_ok ?p" using p1(6) by (simp add: heap_ok_def heap_list_def vmem_page_region_alloc_def)
    ultimately show ?thesis using Nil lim n(4)
      by (intro exI [of _ VMEM_HEAP] exI [of _ ?p] exI [of _ ?new] exI [of _ "[]"]) simp
  next
    case (Cons a as)
    have start: "\<not> heap_start_free (address a) (vmem_page_align_size sz)"
      using ok Cons by (simp add: heap_ok_def heap_start_free_def)
    have a: "inside p a" "address a = VMEM_HEAP" using ok Cons by (simp_all add: heap_ok_def heap_list_def)
    have rm: "reg_end p (last (a # as)) + int n * PAGE_SIZE \<le> HEAP_LIMIT" using room Cons n(1) by (simp add: heap_end_def)
    have "VMEM_HEAP \<le> reg_end p (last (a # as))"
      using hl Cons last_in_set [of "a # as"] by (fastforce simp: heap_list_def inside_def)
    then have small: "sz < 2 ^ 31" using rm n(4) by (simp add: HEAP_LIMIT_def)
    obtain new pre post p' where f: "find_spot a as sz p = Some (Some (address new), a # pre @ new # post, p')"
      "as = pre @ post" "asize new = sz" "heap_list p' (a # pre @ new # post)" "vm_wf (vmem_default p')"
      "same_extents p p'"
      using find_spot_ok [OF hl [unfolded Cons] vm sz small n card rm] by blast
    let ?p = "p'\<lparr>allocations := a # pre @ new # post\<rparr>"
    have "vmem_stack_alloc sz p = Some (Some (address new), ?p)"
      using Cons start f(1) by (simp add: vmem_stack_alloc_def Let_def)
    moreover have "heap_list ?p (a # pre @ new # post)"
      by (rule same_extents_list [OF _ f(4)]) (simp add: same_extents_def)
    then have "heap_ok ?p" using f(5) a(2) by (simp add: heap_ok_def)
    moreover have "VMEM_HEAP \<le> address new" "address new + sz \<le> HEAP_LIMIT"
      using f(3,4) by (auto simp: heap_list_def inside_def)
    moreover have "address new + sz \<le> address b \<or> address b + asize b \<le> address new" if "b \<in> set (allocations p)" for b
      using f(2-4) that Cons by (auto simp: heap_list_def sorted_wrt_append before_def)
    ultimately show ?thesis using Cons f(2,3)
      by (intro exI [of _ "address new"] exI [of _ ?p] exI [of _ new] exI [of _ "a # pre"] exI [of _ post]) simp
  qed
qed

text \<open>
  C21. When the allocation at the start of the heap has been freed, an allocation that passes the test of
  part 1.5 gets the start of the heap but is not linked into the list: the next call returns the same
  address again. The first page of the heap is mapped to a fresh physical page, so what a
  live allocation kept in that page is gone.
\<close>

theorem vmem_stack_alloc_start_reused:
  assumes "allocations p = a # as" and "heap_start_free (address a) (vmem_page_align_size sz)" and "0 < sz"
    and "vm_wf (vmem_default p)" and "2 * vmem_page_align_size sz \<le> int (card (free_page_set (vmem_default p))) * PAGE_SIZE"
    and "vmem_page_align_size sz \<le> 0x400000" and "page_dir p \<noteq> vmem_get_page_table (tables p) (page_dir p) VMEM_HEAP"
  shows "\<exists>p1 p2 i. vmem_stack_alloc sz p = Some (Some VMEM_HEAP, p1) \<and> allocations p1 = allocations p \<and>
    vmem_stack_alloc sz p1 = Some (Some VMEM_HEAP, p2) \<and>
    i \<in> free_page_set (vmem_default p) \<and>
    tables p1 (vmem_get_page_table (tables p) (page_dir p) VMEM_HEAP) (TABLE_INDEX VMEM_HEAP) =
      page_entry (vstart (vmem_default p) + int i * PAGE_SIZE) 4"
proof -
  obtain n where n: "vmem_page_align_size sz = int n * PAGE_SIZE" "vmem_page_align_size sz sdiv PAGE_SIZE = int n"
    "0 < n" using align_size [OF assms(3)] by metis
  have card: "2 * n \<le> card (free_page_set (vmem_default p))" "int n * PAGE_SIZE \<le> 0x400000" using assms(5,6) n(1) by auto
  let ?t = "vmem_get_page_table (tables p) (page_dir p) VMEM_HEAP"
  have card1: "n \<le> card (free_page_set (vmem_default p))" using card(1) by simp
  have ix: "TABLE_INDEX (VMEM_HEAP + int j * PAGE_SIZE) = j" if "j < n" for j
  proof -
    have "int j * PAGE_SIZE < 0x400000" using that card(2) by linarith
    then show ?thesis using TABLE_INDEX_heap(1) [of "VMEM_HEAP + int j * PAGE_SIZE"] by simp
  qed
  obtain xs vm' ts' where c: "create_pages 0 n VMEM_HEAP ?t 4 [] (vmem_default p) (tables p) = Some (Some ([] @ map int xs), vm', ts')"
    "length xs = n" "distinct xs" "set xs \<subseteq> free_page_set (vmem_default p)" "vm_wf vm'"
    "free_page_set vm' = free_page_set (vmem_default p) - set xs"
    "(\<forall>j j'. 0 \<le> j \<and> j < j' \<and> j' < 0 + n \<longrightarrow> TABLE_INDEX (VMEM_HEAP + int j * PAGE_SIZE) \<noteq> TABLE_INDEX (VMEM_HEAP + int j' * PAGE_SIZE)) \<longrightarrow>
     (\<forall>j < n. ts' ?t (TABLE_INDEX (VMEM_HEAP + int (0 + j) * PAGE_SIZE)) = page_entry (vstart (vmem_default p) + int (xs ! j) * PAGE_SIZE) 4)"
    using create_pages_ok [OF assms(4) card1, of 0 VMEM_HEAP ?t 4 "[]" "tables p"] by blast
  have entry: "ts' ?t (TABLE_INDEX VMEM_HEAP) = page_entry (vstart (vmem_default p) + int (xs ! 0) * PAGE_SIZE) 4"
  proof -
    have "TABLE_INDEX VMEM_HEAP = 0" using ix [of 0] n(3) by simp
    then show ?thesis using c(7) n(3) ix by simp
  qed
  define r where "r = \<lparr>bits = map int xs, basevaddr = VMEM_HEAP, refs = 0, rsize = int n * PAGE_SIZE, rused = 0\<rparr>"
  define p1 where "p1 = vmem_page_region_alloc (next_region p) sz (p\<lparr>vmem_default := vm', tables := ts',
      regions := (regions p)(next_region p := r), next_region := Suc (next_region p)\<rparr>)"
  have one: "vmem_stack_alloc sz p = Some (Some VMEM_HEAP, p1)"
    using assms(1,2) n(2,3) c(1) by (simp add: vmem_stack_alloc_def Let_def vmem_create_page_region_def p1_def r_def)
  have p1: "allocations p1 = allocations p" "vmem_default p1 = vm'" "tables p1 = ts'"
    by (simp_all add: p1_def vmem_page_region_alloc_def)
  have "card (free_page_set vm') = card (free_page_set (vmem_default p)) - n"
    using c(2-4,6) by (simp add: card_Diff_subset distinct_card)
  then have "n \<le> card (free_page_set (vmem_default p1))" using card(1) p1(2) by simp
  from create_region_ok [OF _ n(3) this, of VMEM_HEAP 4] c(5) p1(2) obtain p2 where
    "vmem_create_page_region p1 VMEM_HEAP (int n) 4 = Some (Some (next_region p1), p2)" by auto
  then have "\<exists>p3. vmem_stack_alloc sz p1 = Some (Some VMEM_HEAP, p3)"
    using assms(1,2) n(2) p1(1) by (simp add: vmem_stack_alloc_def Let_def)
  moreover have "xs ! 0 \<in> free_page_set (vmem_default p)" using c(2,4) n(3) by (metis nth_mem subsetD)
  ultimately show ?thesis using one p1 entry by auto
qed

text \<open>
  Freeing the last reference of a region gives all its pages back to the allocator, but unmaps only
  one page in four: \<open>basevaddr\<close> is a pointer to 32-bit words, and the loop adds the byte offset of the page
  to it. The other pages stay mapped while the allocator counts them as free.
\<close>

theorem vmem_free_region_stays_mapped:
  assumes "vm_wf (vmem_default p)" and "refs (regions p r) \<le> 1"
    and "bits (regions p r) = map int xs" and "rsize (regions p r) = int (length xs) * PAGE_SIZE"
    and "\<forall>x \<in> set xs. 0 < x \<and> int x < total_pages (vmem_default p)"
    and "vstart (vmem_default p) + total_pages (vmem_default p) * PAGE_SIZE \<le> vend (vmem_default p)"
    and "basevaddr (regions p r) = VMEM_HEAP + int b * PAGE_SIZE"
    and "VMEM_HEAP + int (b + 4 * length xs) * PAGE_SIZE \<le> HEAP_LIMIT"
    and "table = vmem_get_page_table (tables p) (page_dir p) VMEM_HEAP" and "table \<noteq> 0" and "page_dir p \<noteq> table"
  shows "\<exists>p'. vmem_free_page_region p r sz = Some p' \<and>
    (\<forall>i. page_used (vmem_default p') i \<longleftrightarrow> page_used (vmem_default p) i \<and> i \<notin> set xs) \<and>
    (\<forall>j < length xs. tables p' table (TABLE_INDEX (basevaddr (regions p r) + int j * PAGE_SIZE)) =
       (if j mod 4 = 0 then 0 else tables p table (TABLE_INDEX (basevaddr (regions p r) + int j * PAGE_SIZE))))"
proof -
  let ?base = "basevaddr (regions p r)"
  have dir: "entry_page (tables p (page_dir p) 896) = table"
    using assms(9) TABLE_INDEX_heap(2) [of VMEM_HEAP] by (simp add: vmem_get_page_table_def)
  have lim: "?base + 4 * (int (0 + length xs) * PAGE_SIZE) \<le> HEAP_LIMIT" "VMEM_HEAP \<le> ?base"
    using assms(7,8) by (simp_all add: algebra_simps)
  obtain vm' ts' where f: "free_pages 0 (map int xs) ?base (page_dir p) (vmem_default p) (tables p) = Some (vm', ts')"
    "page_used vm' = (\<lambda>j. page_used (vmem_default p) j \<and> j \<notin> set xs)"
    "\<And>e. ts' table e = (if \<exists>m. 0 \<le> m \<and> m < 0 + length xs \<and> e = TABLE_INDEX (?base + 4 * (int m * PAGE_SIZE))
                        then 0 else tables p table e)"
    using free_pages_ok [of "vmem_default p" xs ?base 0 "tables p" "page_dir p" table]
      assms(1,5,6,10,11) lim dir by blast
  have ix: "TABLE_INDEX (?base + int j * PAGE_SIZE) = b + j" if "j < 4 * length xs" for j
  proof -
    have "int (b + j) * PAGE_SIZE < 0x400000" using that assms(8) by (simp add: HEAP_LIMIT_def)
    then show ?thesis using TABLE_INDEX_heap(1) [of "VMEM_HEAP + int (b + j) * PAGE_SIZE"]
      by (simp add: assms(7) algebra_simps)
  qed
  have ix4: "TABLE_INDEX (?base + 4 * (int m * PAGE_SIZE)) = b + 4 * m" if "m < length xs" for m
    using ix [of "4 * m"] that by (simp add: algebra_simps)
  have "(\<exists>m. 0 \<le> m \<and> m < 0 + length xs \<and> TABLE_INDEX (?base + int j * PAGE_SIZE) = TABLE_INDEX (?base + 4 * (int m * PAGE_SIZE))) \<longleftrightarrow>
      j mod 4 = 0" if "j < length xs" for j
  proof
    assume "\<exists>m. 0 \<le> m \<and> m < 0 + length xs \<and> TABLE_INDEX (?base + int j * PAGE_SIZE) = TABLE_INDEX (?base + 4 * (int m * PAGE_SIZE))"
    then obtain m where m: "m < length xs"
      "TABLE_INDEX (?base + int j * PAGE_SIZE) = TABLE_INDEX (?base + 4 * (int m * PAGE_SIZE))" by auto
    have "j < 4 * length xs" using that by simp
    then have "b + j = b + 4 * m" using m(2) unfolding ix4 [OF m(1)] by (simp only: ix)
    then show "j mod 4 = 0" by simp
  next
    assume "j mod 4 = 0"
    then obtain m where m: "j = 4 * m" by blast
    then have "m < length xs" using that by simp
    then show "\<exists>m. 0 \<le> m \<and> m < 0 + length xs \<and> TABLE_INDEX (?base + int j * PAGE_SIZE) = TABLE_INDEX (?base + 4 * (int m * PAGE_SIZE))"
      using ix [of j] ix4 [of m] m that by (intro exI [of _ m]) simp
  qed
  moreover have "vmem_free_page_region p r sz = Some (p\<lparr>vmem_default := vm', tables := ts'\<rparr>)"
  proof -
    have "(int (length xs) * PAGE_SIZE) sdiv PAGE_SIZE = int (length xs)"
      by (cases "length xs = 0") (simp_all add: signed_divide_int_def sgn_1_pos)
    then show ?thesis using assms(2-4) f(1) by (simp add: vmem_free_page_region_def Let_def)
  qed
  ultimately show ?thesis using f(2,3) by simp
qed

section \<open>Processes to evaluate on\<close>

text \<open>64 pages from 2MB; the directory of the process is page 1, its heap table page 2.\<close>

definition demo_vm :: vmem_allocator where
  "demo_vm = (vmem_allocator_create 0x200000 0x240000)\<lparr>used_pages := 3, pages := 7 # replicate 7 0\<rparr>"

definition demo_region :: vmem_page_region where
  "demo_region = \<lparr>bits = [1, 2], basevaddr = VMEM_HEAP, refs = 1, rsize = 8192, rused = 100\<rparr>"

definition demo_proc :: vproc where
  "demo_proc = \<lparr>vmem_default = demo_vm,
     tables = (\<lambda>t i. if t = 0x201000 then page_entry 0x202000 4 else 0),
     regions = (\<lambda>_. demo_region), next_region = 1,
     page_dir = 0x201000, allocations = [], used_memory = 0\<rparr>"

lemma demo_vm_sel:
  "total_pages demo_vm = 64" "vstart demo_vm = 0x200000" "vend demo_vm = 0x240000" "vm_wf demo_vm"
  by (simp_all add: demo_vm_def vmem_allocator_create_def vm_wf_def fits_def)

lemma demo_pages: "free_page_set demo_vm = {i. 3 \<le> i \<and> i < 64}"
proof -
  have "page_used demo_vm i \<longleftrightarrow> i < 3" if "i < 64" for i
  proof -
    have "i < 3 \<or> i \<in> {3, 4, 5, 6, 7} \<or> 8 \<le> i" by auto
    moreover have "page_used demo_vm i = bitset (7 # replicate 7 0) i"
      by (simp add: page_used_def demo_vm_def)
    moreover have "\<not> bitset (7 # replicate 7 0) i" if "8 \<le> i" "i < 64"
    proof -
      have "i div 8 \<noteq> 0" "i div 8 < 8" using that by auto
      then show ?thesis by (auto simp: bitset_def nth_Cons')
    qed
    moreover have "bitset (7 # replicate 7 0) 0" "bitset (7 # replicate 7 0) 1" "bitset (7 # replicate 7 0) 2"
      "\<not> bitset (7 # replicate 7 0) 3" "\<not> bitset (7 # replicate 7 0) 4" "\<not> bitset (7 # replicate 7 0) 5"
      "\<not> bitset (7 # replicate 7 0) 6" "\<not> bitset (7 # replicate 7 0) 7" by code_simp+
    moreover have "i < 3 \<Longrightarrow> i = 0 \<or> i = 1 \<or> i = 2" by auto
    ultimately show ?thesis using that by auto
  qed
  then show ?thesis by (auto simp: free_page_set_def demo_vm_sel)
qed

lemma demo_card: "card (free_page_set demo_vm) = 61"
proof -
  have "{i. 3 \<le> i \<and> i < 64} = {3 ..< 64::nat}" by auto
  then show ?thesis by (simp add: demo_pages)
qed

theorem vmem_alloc_distinct_witness:
  "\<exists>is vm. take_many vmem_take 100 demo_vm = (is, vm) \<and> distinct is \<and> length is = 61"
proof -
  have "vm_sized 64 demo_vm" by (simp add: vm_sized_def demo_vm_sel)
  moreover obtain "is" vm where run: "take_many vmem_take 100 demo_vm = (is, vm)" by fastforce
  moreover have "{i. i < 64 \<and> \<not> page_used demo_vm i} = free_page_set demo_vm"
    by (simp add: free_page_set_def demo_vm_sel)
  ultimately show ?thesis using vmem_alloc_distinct [of 64 demo_vm 100 "is" vm] demo_card by auto
qed

theorem vmem_stack_alloc_correct_witness:
  "\<exists>addr p. vmem_stack_alloc 100 demo_proc = Some (Some addr, p) \<and> heap_ok p \<and> VMEM_HEAP \<le> addr"
proof -
  have "heap_ok demo_proc" by (simp add: heap_ok_def heap_list_def demo_proc_def demo_vm_sel)
  moreover have "vmem_page_align_size 100 = 4096" by code_simp
  moreover have "heap_end demo_proc = VMEM_HEAP" "vmem_default demo_proc = demo_vm"
    by (simp_all add: heap_end_def demo_proc_def)
  ultimately show ?thesis using vmem_stack_alloc_correct [of demo_proc 100] demo_card
    by (simp add: HEAP_LIMIT_def) blast
qed

theorem vmem_stack_alloc_start_reused_witness:
  "\<exists>p1 p2. vmem_stack_alloc 50 (demo_proc\<lparr>allocations := [\<lparr>address = VMEM_HEAP + 100, asize = 20, aregion = 0\<rparr>]\<rparr>) = Some (Some VMEM_HEAP, p1) \<and>
     vmem_stack_alloc 50 p1 = Some (Some VMEM_HEAP, p2)"
proof -
  let ?p = "demo_proc\<lparr>allocations := [\<lparr>address = VMEM_HEAP + 100, asize = 20, aregion = 0\<rparr>]\<rparr>"
  have al: "vmem_page_align_size 50 = 4096" by code_simp
  have "entry_page (page_entry 0x202000 4) = 0x202000" by (rule page_entry_page) simp_all
  then have t: "vmem_get_page_table (tables demo_proc) 0x201000 VMEM_HEAP = 0x202000"
    by (simp add: demo_proc_def vmem_get_page_table_def)
  have d: "vmem_default demo_proc = demo_vm" "page_dir demo_proc = 0x201000" by (simp_all add: demo_proc_def)
  show ?thesis
    using vmem_stack_alloc_start_reused [of ?p "\<lparr>address = VMEM_HEAP + 100, asize = 20, aregion = 0\<rparr>" "[]" 50]
    by (auto simp: heap_start_free_def demo_vm_sel al t d demo_card)
qed

theorem vmem_free_region_stays_mapped_witness:
  "\<exists>p. vmem_free_page_region demo_proc 0 100 = Some p \<and> \<not> page_used (vmem_default p) 2 \<and>
     tables p 0x202000 (TABLE_INDEX (VMEM_HEAP + 4096)) = tables demo_proc 0x202000 (TABLE_INDEX (VMEM_HEAP + 4096))"
proof -
  have "entry_page (page_entry 0x202000 4) = 0x202000" by (rule page_entry_page) simp_all
  then have t: "vmem_get_page_table (tables demo_proc) 0x201000 VMEM_HEAP = 0x202000"
    by (simp add: demo_proc_def vmem_get_page_table_def)
  have d: "vmem_default demo_proc = demo_vm" "page_dir demo_proc = 0x201000" "regions demo_proc 0 = demo_region"
    by (simp_all add: demo_proc_def)
  have r: "basevaddr demo_region = VMEM_HEAP" "bits demo_region = [1, 2]" "refs demo_region = 1" "rsize demo_region = 8192"
    by (simp_all add: demo_region_def)
  have "\<exists>p'. vmem_free_page_region demo_proc 0 100 = Some p' \<and>
    (\<forall>i. page_used (vmem_default p') i \<longleftrightarrow> page_used demo_vm i \<and> i \<notin> set [1, 2]) \<and>
    (\<forall>j < length [1, 2::nat]. tables p' 0x202000 (TABLE_INDEX (VMEM_HEAP + int j * PAGE_SIZE)) =
       (if j mod 4 = 0 then 0 else tables demo_proc 0x202000 (TABLE_INDEX (VMEM_HEAP + int j * PAGE_SIZE))))"
    using vmem_free_region_stays_mapped
      [where p = demo_proc and r = 0 and xs = "[1, 2]" and b = 0 and table = "0x202000" and sz = 100]
    by (simp only: d r demo_vm_sel t) (simp add: HEAP_LIMIT_def)
  then obtain p' where "vmem_free_page_region demo_proc 0 100 = Some p'"
    "\<not> page_used (vmem_default p') 2"
    "\<forall>j < length [1, 2::nat]. tables p' 0x202000 (TABLE_INDEX (VMEM_HEAP + int j * PAGE_SIZE)) =
       (if j mod 4 = 0 then 0 else tables demo_proc 0x202000 (TABLE_INDEX (VMEM_HEAP + int j * PAGE_SIZE)))" by auto
  then show ?thesis by (intro exI [of _ p']) (auto dest: spec [of _ 1])
qed

end
