(* ===== verification/Libc_Str.thy ===== *)
theory Libc_Str imports Prelude "HOL-Library.Sublist"
begin

text \<open>
  The string functions of lib/libc.c. Two readings of a string are used. Functions that write
  through a pointer work on a buffer, the list of all its characters, and fault (\<open>None\<close>) when they
  leave it. Functions that only read get the contents of the string without its terminator;
  \<open>cs_at s i\<close> is then \<open>s[i]\<close> with \<open>NUL\<close> at the end.
\<close>

abbreviation (input) NUL :: char where "NUL \<equiv> CHR 0x00"

definition cs_at :: "string \<Rightarrow> nat \<Rightarrow> char" where
  "cs_at s i = (if i < length s then s ! i else NUL)"

definition code :: "char \<Rightarrow> int" where
  "code c = of_char c"

section \<open>Copying\<close>

fun strlen :: "char list \<Rightarrow> nat option" where
  "strlen [] = None"
| "strlen (c # cs) = (if c = NUL then Some 0 else map_option Suc (strlen cs))"

definition store :: "nat \<Rightarrow> char \<Rightarrow> char list \<Rightarrow> char list option" where
  "store i c b = (if i < length b then Some (b[i := c]) else None)"

text \<open>\<open>while (src[i] != '\0') \<dots>\<close>; the second argument is \<open>src + i\<close>.\<close>

fun copy_loop :: "nat \<Rightarrow> char list \<Rightarrow> char list \<Rightarrow> (char list \<times> nat) option" where
  "copy_loop i [] dest = None"
| "copy_loop i (c # src) dest =
     (if c = NUL then do { dest \<leftarrow> store i NUL dest; Some (dest, i) }
      else do { dest \<leftarrow> store i c dest; copy_loop (Suc i) src dest })"

definition strcpy :: "char list \<Rightarrow> char list \<Rightarrow> (char list \<times> nat) option" where
  "strcpy dest src = copy_loop 0 src dest"

fun strncpy_loop :: "nat \<Rightarrow> char list \<Rightarrow> nat \<Rightarrow> char list \<Rightarrow> (char list \<times> nat) option" where
  "strncpy_loop i [] len dest = None"
| "strncpy_loop i (c # src) len dest =
     (if c \<noteq> NUL \<and> i < len then do { dest \<leftarrow> store i c dest; strncpy_loop (Suc i) src len dest }
      else do { dest \<leftarrow> store i NUL dest; Some (dest, i) })"

definition strncpy :: "char list \<Rightarrow> char list \<Rightarrow> nat \<Rightarrow> (char list \<times> nat) option" where
  "strncpy dest src len = strncpy_loop 0 src len dest"

definition strcat :: "char list \<Rightarrow> char list \<Rightarrow> char list option" where
  "strcat dest src = do { ptr \<leftarrow> strlen dest; (dest, _) \<leftarrow> copy_loop ptr src dest; Some dest }"

section \<open>Searching and comparing\<close>

text \<open>The inner loop of \<open>strstr\<close>, which ends with \<open>needle[j] == '\0'\<close> iff the needle is at \<open>i\<close>.\<close>

function strstr_match :: "string \<Rightarrow> string \<Rightarrow> nat \<Rightarrow> nat \<Rightarrow> bool" where
  "strstr_match haystack needle i j =
     (if j < length needle
      then (if cs_at haystack (i + j) \<noteq> cs_at needle j then False else strstr_match haystack needle i (Suc j))
      else True)"
  by auto
termination by (relation "measure (\<lambda>(h, n, i, j). length n - j)") auto

definition strstr :: "string \<Rightarrow> string \<Rightarrow> int" where
  "strstr haystack needle =
     (case first_index (\<lambda>i. strstr_match haystack needle i 0) (length haystack) of
        Some i \<Rightarrow> int i | None \<Rightarrow> -1)"

fun buf_memcmp :: "char list \<Rightarrow> char list \<Rightarrow> nat \<Rightarrow> u32 option" where
  "buf_memcmp p q 0 = Some 0"
| "buf_memcmp (a # p) (b # q) (Suc n) = (if a \<noteq> b then Some (-1) else buf_memcmp p q n)"
| "buf_memcmp p q (Suc n) = None"

definition strncmp :: "char list \<Rightarrow> char list \<Rightarrow> nat \<Rightarrow> u32 option" where
  "strncmp str str2 len = buf_memcmp str str2 len"

definition strcmp :: "char list \<Rightarrow> char list \<Rightarrow> u32 option" where
  "strcmp str str2 = do { n \<leftarrow> strlen str; buf_memcmp str str2 n }"

fun strchr :: "string \<Rightarrow> char \<Rightarrow> nat option" where
  "strchr [] ch = None"
| "strchr (c # str) ch = (if c = ch then Some 0 else map_option Suc (strchr str ch))"

section \<open>Characters and numbers\<close>

definition isdigit :: "char \<Rightarrow> bool" where
  "isdigit c \<longleftrightarrow> code CHR ''0'' \<le> code c \<and> code c \<le> code CHR ''9''"

definition isspace :: "char \<Rightarrow> bool" where
  "isspace c \<longleftrightarrow> c = CHR '' ''"

definition tolower :: "int \<Rightarrow> int" where
  "tolower c = (if code CHR ''A'' \<le> c \<and> c \<le> code CHR ''Z'' then c + code CHR ''a'' - code CHR ''A'' else c)"

definition isxdigit :: "int \<Rightarrow> bool" where
  "isxdigit c \<longleftrightarrow> (code CHR ''0'' \<le> c \<and> c \<le> code CHR ''9'') \<or> (code CHR ''A'' \<le> c \<and> c \<le> code CHR ''F'') \<or>
     (code CHR ''a'' \<le> c \<and> c \<le> code CHR ''f'')"

text \<open>\<open>INT_MAX\<close>: signed arithmetic beyond it is undefined and faults here.\<close>

abbreviation (input) INT_MAX :: int where "INT_MAX \<equiv> 2147483647"

function reverse_loop :: "nat \<Rightarrow> nat \<Rightarrow> char list \<Rightarrow> char list" where
  "reverse_loop i j s = (if i < j then reverse_loop (Suc i) (j - 1) (s[i := s ! j, j := s ! i]) else s)"
  by auto
termination by (relation "measure (\<lambda>(i, j, s). j)") auto

definition reverse :: "string \<Rightarrow> string" where
  "reverse s = (if s = [] then s else reverse_loop 0 (length s - 1) s)"

text \<open>The \<open>do\<close> loops of \<open>itoa\<close> and \<open>itohex\<close>; \<open>s\<close> is what is written so far.\<close>

function itoa_loop :: "int \<Rightarrow> string \<Rightarrow> string" where
  "itoa_loop n s =
     (let s = s @ [char_of (n mod 10 + code CHR ''0'')]; n = n div 10
      in if 0 < n then itoa_loop n s else s)"
  by auto
termination by (relation "measure (\<lambda>(n, s). nat n)") auto

definition itoa :: "int \<Rightarrow> string option" where
  "itoa n =
     (let sign = n in
      if sign < 0 \<and> INT_MAX < - n then None
      else (let n = (if sign < 0 then - n else n);
                s = itoa_loop n [];
                s = (if sign < 0 then s @ [CHR ''-''] else s)
            in Some (reverse s)))"

function itohex_loop :: "u32 \<Rightarrow> string \<Rightarrow> string" where
  "itohex_loop n s =
     (let d = n mod 16;
          s = s @ [if d < 10 then char_of (uint d + code CHR ''0'') else char_of (uint d - 10 + code CHR ''a'')];
          n = n div 16
      in if n > 0 then itohex_loop n s else s)"
  by auto
termination
proof (relation "measure (\<lambda>(n, s). unat n)", simp_all add: Let_def)
  fix n :: u32
  assume "0 < n div 16"
  then have "unat n \<noteq> 0" by (metis div_0 less_irrefl unat_eq_zero)
  then show "unat (n div 16) < unat n" by (simp add: unat_div_distrib)
qed

definition itohex :: "u32 \<Rightarrow> string" where
  "itohex n = reverse (itohex_loop n [])"

fun digits_loop :: "int \<Rightarrow> string \<Rightarrow> int option" where
  "digits_loop n [] = Some n"
| "digits_loop n (c # s) =
     (if isdigit c
      then (let n = 10 * n + (code c - code CHR ''0'') in if INT_MAX < n then None else digits_loop n s)
      else Some n)"

definition atoi :: "string \<Rightarrow> int option" where
  "atoi s =
     (let s = dropWhile (\<lambda>c. c = CHR '' '' \<or> c = CHR ''0'') s;
          sign = (if cs_at s 0 = CHR ''-'' then -1 else 1);
          s = (if cs_at s 0 = CHR ''-'' \<or> cs_at s 0 = CHR ''+'' then tl s else s)
      in do { n \<leftarrow> digits_loop 0 s; Some (n * sign) })"

fun htoi_skip :: "string \<Rightarrow> string" where
  "htoi_skip [] = []"
| "htoi_skip (c # s) =
     (if c = CHR '' '' \<or> c = CHR ''0''
      then (if c = CHR ''0'' \<and> (cs_at s 0 = CHR ''x'' \<or> cs_at s 0 = CHR ''X'') then tl s else htoi_skip s)
      else c # s)"

fun hex_loop :: "int \<Rightarrow> string \<Rightarrow> int option" where
  "hex_loop n [] = Some n"
| "hex_loop n (c # s) =
     (if isxdigit (code c)
      then (let n = 16 * n + (if isdigit c then code c - code CHR ''0''
                              else tolower (code c) - code CHR ''a'' + 10)
            in if INT_MAX < n then None else hex_loop n s)
      else Some n)"

definition htoi :: "string \<Rightarrow> int option" where
  "htoi s = hex_loop 0 (htoi_skip s)"

declare strstr_match.simps [simp del] reverse_loop.simps [simp del] itoa_loop.simps [simp del] itohex_loop.simps [simp del]


section \<open>Numbers: printing and parsing\<close>

lemma reverse_loop_eq:
  "length s = length xs + length m + length ys \<Longrightarrow> s = xs @ m @ ys \<Longrightarrow> m \<noteq> [] \<Longrightarrow>
   reverse_loop (length xs) (length xs + length m - 1) s = xs @ rev m @ ys"
proof (induction "length m" arbitrary: m xs ys s rule: less_induct)
  case less
  show ?case
  proof (cases "length m = 1")
    case True
    then obtain a where "m = [a]" by (cases m) auto
    then show ?thesis using less.prems by (simp add: reverse_loop.simps)
  next
    case False
    then obtain a k b where m: "m = a # k @ [b]" using less.prems(3)
      by (metis One_nat_def append_Nil length_Cons list.exhaust list.size(3) rev_exhaust)
    let ?s = "(xs @ [b]) @ k @ (a # ys)"
    have upd: "s[length xs := s ! (length xs + length m - 1), length xs + length m - 1 := s ! length xs] = ?s"
    proof -
      have s: "s = xs @ a # k @ b # ys" using less.prems(2) m by simp
      have "s ! (length xs + length m - 1) = b"
        unfolding s by (simp add: m nth_append)
      moreover have "s ! length xs = a" unfolding s by simp
      moreover have "s[length xs := b, length xs + length m - 1 := a] = ?s"
        unfolding s by (simp add: m list_update_append)
      ultimately show ?thesis by simp
    qed
    show ?thesis
    proof (cases "k = []")
      case True
      then show ?thesis using upd m less.prems(2) by (simp add: reverse_loop.simps [of "length xs"] reverse_loop.simps [of "Suc (length xs)"])
    next
      case False
      have "reverse_loop (length (xs @ [b])) (length (xs @ [b]) + length k - 1) ?s = (xs @ [b]) @ rev k @ (a # ys)"
        by (rule less.hyps) (use m False in auto)
      moreover have "length xs < length xs + length m - 1" using m by simp
      moreover have "length (xs @ [b]) + length k - 1 = length xs + length m - 1 - 1" using m False by (cases k) auto
      ultimately show ?thesis using upd m by (subst reverse_loop.simps) simp
    qed
  qed
qed

lemma reverse_rev: "reverse s = rev s"
  using reverse_loop_eq [of s "[]" s "[]"] by (simp add: reverse_def)

lemma code_char_of: "0 \<le> n \<Longrightarrow> n < 256 \<Longrightarrow> code (char_of n) = n"
  by (simp add: code_def)

text \<open>The usual positional numerals, most significant digit first.\<close>

definition digit :: "int \<Rightarrow> char" where
  "digit d = (if d < 10 then char_of (d + 48) else char_of (d - 10 + 97))"

function numeral_of :: "int \<Rightarrow> int \<Rightarrow> string" where
  "numeral_of b n = (if 0 < n div b \<and> 1 < b then numeral_of b (n div b) @ [digit (n mod b)] else [digit (n mod b)])"
  by auto
termination
  by (relation "measure (\<lambda>(b, n). nat n)") (auto simp: pos_imp_zdiv_pos_iff int_div_less_self)

declare numeral_of.simps [simp del]


lemma digit_code: "0 \<le> d \<Longrightarrow> d < 10 \<Longrightarrow> code (digit d) = d + 48"
  by (simp add: digit_def code_char_of)

lemma isdigit_code: "isdigit c \<longleftrightarrow> 48 \<le> code c \<and> code c \<le> 57"
  by (simp add: isdigit_def code_def)

lemma code_inject: "code c = code d \<longleftrightarrow> c = d"
  by (simp add: code_def)

lemma itoa_loop_numeral: "0 \<le> n \<Longrightarrow> itoa_loop n s = s @ rev (numeral_of 10 n)"
proof (induction n s rule: itoa_loop.induct)
  case (1 n s)
  have d: "char_of (n mod 10 + code CHR ''0'') = digit (n mod 10)"
    by (simp add: digit_def code_def)
  show ?case
  proof (cases "0 < n div 10")
    case True
    then have "itoa_loop n s = itoa_loop (n div 10) (s @ [digit (n mod 10)])"
      by (subst itoa_loop.simps) (simp add: d Let_def)
    moreover have "numeral_of 10 n = numeral_of 10 (n div 10) @ [digit (n mod 10)]"
      using True by (subst numeral_of.simps) simp
    moreover have "itoa_loop (n div 10) (s @ [digit (n mod 10)]) =
        (s @ [digit (n mod 10)]) @ rev (numeral_of 10 (n div 10))"
      by (rule 1(1) [of "s @ [digit (n mod 10)]"]) (use True d in auto)
    ultimately show ?thesis by simp
  next
    case False
    then show ?thesis
      by (subst itoa_loop.simps, subst numeral_of.simps) (simp add: d Let_def)
  qed
qed

lemma uint_div_mod:
  "uint (n mod 16 :: u32) = uint n mod 16" "uint (n div 16 :: u32) = uint n div 16"
  by (simp_all add: uint_mod uint_div)

lemma itohex_loop_numeral: "itohex_loop n s = s @ rev (numeral_of 16 (uint n))"
proof (induction n s rule: itohex_loop.induct)
  case (1 n s)
  let ?c = "if n mod 16 < 10 then char_of (uint (n mod 16) + code CHR ''0'') else char_of (uint (n mod 16) - 10 + code CHR ''a'')"
  have "n mod 16 < 10 \<longleftrightarrow> uint n mod 16 < 10" by (simp add: word_less_def uint_div_mod(1) del: unsigned_less)
  then have d: "?c = digit (uint n mod 16)" by (simp add: digit_def code_def uint_div_mod(1))
  have pos: "0 < n div 16 \<longleftrightarrow> 0 < uint n div 16" by (simp add: word_less_def uint_div_mod(2))
  show ?case
  proof (cases "0 < n div 16")
    case True
    then have "itohex_loop n s = itohex_loop (n div 16) (s @ [digit (uint n mod 16)])"
      unfolding d [symmetric] by (subst itohex_loop.simps) (simp add: Let_def)
    moreover have "numeral_of 16 (uint n) = numeral_of 16 (uint n div 16) @ [digit (uint n mod 16)]"
      using True pos by (subst numeral_of.simps) simp
    moreover have "itohex_loop (n div 16) (s @ [digit (uint n mod 16)]) =
        (s @ [digit (uint n mod 16)]) @ rev (numeral_of 16 (uint (n div 16)))"
      by (rule 1(1) [of "n mod 16" "s @ [digit (uint n mod 16)]"]) (use True d in auto)
    ultimately show ?thesis by (simp add: uint_div_mod(2))
  next
    case False
    have "itohex_loop n s = s @ [?c]" using False by (subst itohex_loop.simps) (simp add: Let_def)
    moreover have "numeral_of 16 (uint n) = [digit (uint n mod 16)]"
      using False pos by (subst numeral_of.simps) simp
    ultimately show ?thesis unfolding d by simp
  qed
qed

lemma digits_loop_numeral:
  "0 \<le> n \<Longrightarrow> n \<le> INT_MAX \<Longrightarrow> digits_loop 0 (numeral_of 10 n @ rest) = digits_loop n rest"
proof (induction "10::int" n arbitrary: rest rule: numeral_of.induct)
  case (1 n)
  have c: "isdigit (digit (n mod 10))" "code (digit (n mod 10)) = n mod 10 + 48"
    by (simp_all add: isdigit_code digit_code)
  have z: "code CHR ''0'' = 48" by (simp add: code_def)
  show ?case
  proof (cases "0 < n div 10")
    case True
    then have "numeral_of 10 n = numeral_of 10 (n div 10) @ [digit (n mod 10)]" by (subst numeral_of.simps) simp
    moreover have "digits_loop 0 (numeral_of 10 (n div 10) @ digit (n mod 10) # rest) = digits_loop (n div 10) (digit (n mod 10) # rest)"
      by (rule 1(1)) (use True 1(2,3) in auto)
    ultimately show ?thesis using 1(3) by (simp add: c z Let_def)
  next
    case False
    then have "numeral_of 10 n = [digit (n mod 10)]" by (subst numeral_of.simps) simp
    moreover have "n mod 10 = n" using False 1(2) by (simp add: mod_pos_pos_trivial pos_imp_zdiv_pos_iff)
    ultimately show ?thesis using 1(3) c z by simp
  qed
qed

lemma hex_digit:
  assumes "0 \<le> d" and "d < 16"
  shows "isxdigit (code (digit d))"
    and "(if isdigit (digit d) then code (digit d) - code CHR ''0'' else tolower (code (digit d)) - code CHR ''a'' + 10) = d"
proof -
  have k: "code CHR ''0'' = 48" "code CHR ''9'' = 57" "code CHR ''A'' = 65" "code CHR ''Z'' = 90" "code CHR ''F'' = 70"
    "code CHR ''a'' = 97" "code CHR ''f'' = 102" by (simp_all add: code_def)
  have c: "code (digit d) = (if d < 10 then d + 48 else d + 87)" using assms by (simp add: digit_def code_char_of)
  show "isxdigit (code (digit d))" using assms unfolding isxdigit_def k c by simp
  show "(if isdigit (digit d) then code (digit d) - code CHR ''0'' else tolower (code (digit d)) - code CHR ''a'' + 10) = d"
    using assms unfolding isdigit_code tolower_def k c by simp
qed

lemma hex_loop_numeral:
  "0 \<le> n \<Longrightarrow> n \<le> INT_MAX \<Longrightarrow> hex_loop 0 (numeral_of 16 n @ rest) = hex_loop n rest"
proof (induction "16::int" n arbitrary: rest rule: numeral_of.induct)
  case (1 n)
  note c = hex_digit [of "n mod 16", simplified]
  show ?case
  proof (cases "0 < n div 16")
    case True
    then have "numeral_of 16 n = numeral_of 16 (n div 16) @ [digit (n mod 16)]" by (subst numeral_of.simps) simp
    moreover have "hex_loop 0 (numeral_of 16 (n div 16) @ digit (n mod 16) # rest) = hex_loop (n div 16) (digit (n mod 16) # rest)"
      by (rule 1(1)) (use True 1(2,3) in auto)
    moreover have "hex_loop (n div 16) (digit (n mod 16) # rest) = hex_loop n rest"
      using 1(3) c(1) unfolding hex_loop.simps(2) c(2) by (simp add: Let_def)
    ultimately show ?thesis by simp
  next
    case False
    then have "numeral_of 16 n = [digit (n mod 16)]" by (subst numeral_of.simps) simp
    moreover have "n mod 16 = n" using False 1(2) by (simp add: mod_pos_pos_trivial pos_imp_zdiv_pos_iff)
    moreover have "hex_loop 0 (digit (n mod 16) # rest) = hex_loop (n mod 16) rest"
      using 1(3) c(1) \<open>n mod 16 = n\<close> unfolding hex_loop.simps(2) c(2) by (simp add: Let_def)
    ultimately show ?thesis by simp
  qed
qed

text \<open>A numeral begins with 0 only if it is 0.\<close>

lemma numeral_of_hd: "1 < b \<Longrightarrow> b \<le> 16 \<Longrightarrow> 0 < n \<Longrightarrow> \<exists>d ds. numeral_of b n = digit d # ds \<and> 0 < d \<and> d < b"
proof (induction b n rule: numeral_of.induct)
  case (1 b n)
  show ?case
  proof (cases "0 < n div b")
    case True
    then obtain d ds where "numeral_of b (n div b) = digit d # ds" "0 < d" "d < b" using 1 by auto
    moreover have "numeral_of b n = numeral_of b (n div b) @ [digit (n mod b)]"
      using True 1(2) by (subst numeral_of.simps) simp
    ultimately show ?thesis by (intro exI [of _ d] exI [of _ "ds @ [digit (n mod b)]"]) simp
  next
    case False
    then have "n < b" using 1(2) by (simp add: pos_imp_zdiv_pos_iff)
    then have "numeral_of b n = [digit n]" using False 1(4) by (subst numeral_of.simps) simp
    then show ?thesis using 1(4) \<open>n < b\<close> by auto
  qed
qed

lemma digit_not: "0 < d \<Longrightarrow> d < 16 \<Longrightarrow> digit d \<noteq> CHR ''0'' \<and> digit d \<noteq> CHR '' '' \<and> digit d \<noteq> CHR ''-'' \<and> digit d \<noteq> CHR ''+''"
  unfolding code_inject [symmetric] by (auto simp: digit_def code_char_of) (auto simp: code_def)

lemma numeral_of_0: "numeral_of b 0 = [CHR ''0'']"
proof -
  have "digit 0 = CHR ''0''" unfolding code_inject [symmetric] by (simp add: digit_code) (simp add: code_def)
  then show ?thesis by (subst numeral_of.simps) simp
qed


lemma atoi_itoa:
  assumes "- INT_MAX \<le> n" and "n \<le> INT_MAX"
  shows "Option.bind (itoa n) atoi = Some n"
proof -
  let ?m = "\<bar>n\<bar>"
  have it: "itoa n = Some ((if n < 0 then [CHR ''-''] else []) @ numeral_of 10 ?m)"
    using assms by (auto simp: itoa_def Let_def itoa_loop_numeral reverse_rev)
  have dl: "digits_loop 0 (numeral_of 10 ?m) = Some ?m"
    using digits_loop_numeral [of ?m "[]"] assms by simp
  show ?thesis
  proof (cases "n = 0")
    case True
    then have "itoa n = Some ''0''" using it by (simp add: numeral_of_0)
    moreover have "atoi ''0'' = Some 0" by (simp add: atoi_def cs_at_def)
    ultimately show ?thesis using True by simp
  next
    case False
    then obtain d ds where m: "numeral_of 10 ?m = digit d # ds" "0 < d" "d < 10"
      using numeral_of_hd [of 10 ?m] by auto
    note nd = digit_not [of d]
    have id: "isdigit (digit d)" using m by (simp add: isdigit_code digit_code)
    show ?thesis using dl m nd \<open>n \<noteq> 0\<close> unfolding it bind.bind_lunit atoi_def
      by (cases "n < 0") (simp_all add: cs_at_def del: digits_loop.simps)
  qed
qed

lemma htoi_itohex: "uint n \<le> INT_MAX \<Longrightarrow> htoi (itohex n) = Some (uint n)"
proof -
  assume b: "uint n \<le> INT_MAX"
  have ih: "itohex n = numeral_of 16 (uint n)" by (simp add: itohex_def itohex_loop_numeral reverse_rev)
  have hl: "hex_loop 0 (numeral_of 16 (uint n)) = Some (uint n)"
    using hex_loop_numeral [of "uint n" "[]"] b by simp
  show ?thesis
  proof (cases "uint n = 0")
    case True
    then show ?thesis by (simp add: ih htoi_def numeral_of_0 cs_at_def)
  next
    case False
    then have "0 < uint n" using uint_nonnegative [of n] by linarith
    then obtain d ds where m: "numeral_of 16 (uint n) = digit d # ds" "0 < d" "d < 16"
      using numeral_of_hd [of 16 "uint n"] by auto
    then show ?thesis using hl digit_not [of d] unfolding ih htoi_def by (simp del: hex_loop.simps)
  qed
qed

section \<open>Contents of strings\<close>

lemma strlen_append: "NUL \<notin> set s \<Longrightarrow> strlen (s @ NUL # x) = Some (length s)"
  by (induction s) auto

lemma copy_loop_append:
  assumes "NUL \<notin> set s" and "i + length s < length dest"
  shows "copy_loop i (s @ NUL # x) dest = Some (take i dest @ s @ NUL # drop (i + length s + 1) dest, i + length s)"
  using assms
proof (induction s arbitrary: i dest)
  case Nil
  then show ?case by (simp add: store_def upd_conv_take_nth_drop)
next
  case (Cons c s)
  then have i: "i < length dest" by simp
  then have "take (Suc i) (dest[i := c]) = take i dest @ [c]" by (simp add: take_Suc_conv_app_nth)
  then show ?case using Cons i by (auto simp: store_def)
qed

lemma copy_loop_overflow: "NUL \<notin> set s \<Longrightarrow> length dest \<le> i + length s \<Longrightarrow> copy_loop i (s @ NUL # x) dest = None"
  by (induction s arbitrary: i dest) (auto simp: store_def)

lemma buf_memcmp_append:
  assumes "NUL \<notin> set s" and "NUL \<notin> set t"
  shows "buf_memcmp (s @ NUL # x) (t @ NUL # y) (length s) = Some (if prefix s t then 0 else -1)"
  using assms
proof (induction s arbitrary: t)
  case Nil
  then show ?case by simp
next
  case (Cons a s)
  then show ?case by (cases t) auto
qed

lemma strstr_match_iff: "strstr_match h n i j \<longleftrightarrow> (\<forall>k. j \<le> k \<and> k < length n \<longrightarrow> cs_at h (i + k) = n ! k)"
proof (induction h n i j rule: strstr_match.induct)
  case (1 h n i j)
  show ?case
  proof (cases "j < length n")
    case True
    have "(\<forall>k. j \<le> k \<and> k < length n \<longrightarrow> cs_at h (i + k) = n ! k) \<longleftrightarrow>
        cs_at h (i + j) = n ! j \<and> (\<forall>k. Suc j \<le> k \<and> k < length n \<longrightarrow> cs_at h (i + k) = n ! k)"
      using True by (metis Suc_le_eq le_neq_implies_less le_refl order.strict_implies_order)
    then show ?thesis using 1 [OF True] True by (subst strstr_match.simps) (auto simp: cs_at_def)
  next
    case False
    then show ?thesis by (subst strstr_match.simps) auto
  qed
qed


section \<open>Properties\<close>

text \<open>C22. Printing a number and parsing it back: \<open>atoi\<close> inverts \<open>itoa\<close> on every \<open>int\<close> but
  \<open>INT_MIN\<close> (whose negation overflows, so that \<open>itoa\<close> has no defined result there), and \<open>htoi\<close>
  inverts \<open>itohex\<close> on every number that fits a positive \<open>int\<close>.\<close>
theorem itoa_atoi_roundtrip:
  assumes "- INT_MAX \<le> n" and "n \<le> INT_MAX" and "uint m \<le> INT_MAX"
  shows "itoa n \<noteq> None \<and> Option.bind (itoa n) atoi = Some n \<and> htoi (itohex m) = Some (uint m) \<and>
    itoa (- INT_MAX - 1) = None"
proof (intro conjI)
  show "Option.bind (itoa n) atoi = Some n" by (rule atoi_itoa [OF assms(1,2)])
  then show "itoa n \<noteq> None" by (cases "itoa n") simp_all
  show "htoi (itohex m) = Some (uint m)" by (rule htoi_itohex [OF assms(3)])
  show "itoa (- INT_MAX - 1) = None" by (simp add: itoa_def)
qed

theorem itoa_atoi_roundtrip_witness:
  "Option.bind (itoa (-120)) atoi = Some (-120) \<and> htoi (itohex 0xBEEF) = Some 0xBEEF"
  using itoa_atoi_roundtrip [of "-120" "0xBEEF"] by simp

text \<open>C23. String comparison and search. For strings \<open>s\<close> and \<open>t\<close> in memory, \<open>strcmp\<close> compares only
  as many characters as its first argument has: it answers 0 iff \<open>s\<close> is a prefix of \<open>t\<close>, so it is not
  symmetric, and otherwise -1 whatever the order. \<open>strstr\<close> returns the first position of the needle
  and -1 iff it does not occur. \<open>strcpy\<close> copies exactly when the destination has room for the
  string and its terminator, and leaves the rest of the destination.\<close>
theorem strcmp_strstr_strcpy:
  assumes "NUL \<notin> set s" and "NUL \<notin> set t"
  shows "strcmp (s @ NUL # x) (t @ NUL # y) = Some (if prefix s t then 0 else -1) \<and>
    strstr s t = (if \<exists>i < length s. prefix t (drop i s)
                  then int (LEAST i. i < length s \<and> prefix t (drop i s)) else -1) \<and>
    strcpy dest (s @ NUL # x) =
      (if length s < length dest then Some (s @ NUL # drop (length s + 1) dest, length s) else None)"
proof (intro conjI)
  show "strcmp (s @ NUL # x) (t @ NUL # y) = Some (if prefix s t then 0 else -1)"
    using buf_memcmp_append [OF assms] assms by (simp add: strcmp_def strlen_append)
  show "strcpy dest (s @ NUL # x) =
      (if length s < length dest then Some (s @ NUL # drop (length s + 1) dest, length s) else None)"
    using copy_loop_append [of s 0 dest] copy_loop_overflow [of s dest 0] assms by (simp add: strcpy_def)
  have occ: "strstr_match s t i 0 \<longleftrightarrow> prefix t (drop i s)" for i
  proof -
    have "prefix t (drop i s) \<longleftrightarrow> (\<forall>k < length t. i + k < length s \<and> s ! (i + k) = t ! k)"
    proof
      assume "prefix t (drop i s)"
      then obtain u where u: "drop i s = t @ u" by (auto elim: prefixE)
      show "\<forall>k < length t. i + k < length s \<and> s ! (i + k) = t ! k"
      proof (intro allI impI)
        fix k assume k: "k < length t"
        then have "k < length (drop i s)" "drop i s ! k = t ! k" unfolding u by (simp_all add: nth_append)
        then show "i + k < length s \<and> s ! (i + k) = t ! k" by simp
      qed
    next
      assume a: "\<forall>k < length t. i + k < length s \<and> s ! (i + k) = t ! k"
      have len: "t = [] \<or> i + length t \<le> length s"
        using spec [OF a, of "length t - 1"] by (cases "t = []") auto
      have "take (length t) (drop i s) = t"
        by (rule nth_equalityI) (use a len in auto)
      then show "prefix t (drop i s)" by (metis take_is_prefix)
    qed
    moreover have "cs_at s (i + k) = t ! k \<longleftrightarrow> i + k < length s \<and> s ! (i + k) = t ! k" if "k < length t" for k
      using that assms(2) nth_mem [OF that] by (auto simp: cs_at_def)
    ultimately show ?thesis by (auto simp: strstr_match_iff)
  qed
  show "strstr s t = (if \<exists>i < length s. prefix t (drop i s)
      then int (LEAST i. i < length s \<and> prefix t (drop i s)) else -1)"
  proof (cases "\<exists>i < length s. prefix t (drop i s)")
    case True
    let ?i = "LEAST i. i < length s \<and> prefix t (drop i s)"
    have i: "?i < length s \<and> prefix t (drop ?i s)" using True by (metis (mono_tags, lifting) LeastI)
    have "first_index (\<lambda>i. strstr_match s t i 0) (length s) = Some ?i"
    proof (rule find_from_least)
      fix j assume "j < ?i"
      then show "\<not> strstr_match s t j 0" using not_less_Least [OF \<open>j < ?i\<close>] i by (simp add: occ)
    qed (use i in \<open>simp_all add: occ\<close>)
    then show ?thesis using True by (simp add: strstr_def)
  next
    case False
    then have "first_index (\<lambda>i. strstr_match s t i 0) (length s) = None"
      by (simp add: find_from_None_iff occ)
    then show ?thesis using False by (auto simp: strstr_def)
  qed
qed

theorem strcmp_strstr_strcpy_witness:
  "strcmp (''ca'' @ NUL # ''?'') (''cat'' @ NUL # []) = Some 0 \<and>
   strcpy ''......'' (''ca'' @ NUL # ''?'') = Some (''ca'' @ NUL # ''...'', 2) \<and> strcpy ''..'' (''ca'' @ NUL # ''?'') = None"
  using strcmp_strstr_strcpy [of "''ca''" "''cat''" "''?''" "[]" "''......''"]
    strcmp_strstr_strcpy [of "''ca''" "''cat''" "''?''" "[]" "''..''"] by simp

end
