(* ===== verification/Libc_Args.thy ===== *)
theory Libc_Args imports Libc_Str
begin

text \<open>
  The parts of lib/libc.c that take text apart and put it together: \<open>parse_arguments\<close> (the words of
  a command line), \<open>strtok\<close>, \<open>getopt\<close> and \<open>csprintf\<close>, each with the static variables it keeps.
\<close>

section \<open>parse_arguments\<close>

abbreviation (input) MAX_ARGS :: nat where "MAX_ARGS \<equiv> 5"

text \<open>\<open>char tokens[10][100]\<close>: a row faults when the token and its terminator do not fit.\<close>

definition add_token :: "string \<Rightarrow> nat \<Rightarrow> nat \<Rightarrow> string list \<Rightarrow> string list option" where
  "add_token inp token_start i tokens =
     (let token_end = int i - 1;
          token_length = nat (token_end - int token_start + 1)
      in if token_length < 100 \<and> length tokens < 10
         then Some (tokens @ [take token_length (drop token_start inp)]) else None)"

text \<open>The last argument is \<open>input_string + i\<close>; \<open>None\<close> is \<open>token_start == -1\<close>.\<close>

fun parse_loop :: "string \<Rightarrow> nat \<Rightarrow> nat option \<Rightarrow> string list \<Rightarrow> string \<Rightarrow> (nat \<times> nat option \<times> string list) option" where
  "parse_loop inp i token_start tokens [] = Some (i, token_start, tokens)"
| "parse_loop inp i token_start tokens (c # rest) = do {
     (token_start, tokens) \<leftarrow>
       (if c = CHR '' '' \<or> c = CHR 0x0A
        then (case token_start of None \<Rightarrow> Some (token_start, tokens)
              | Some st \<Rightarrow> do { tokens \<leftarrow> add_token inp st i tokens; Some (None, tokens) })
        else Some (if token_start = None then Some i else token_start, tokens));
     if length tokens = MAX_ARGS then Some (i, token_start, tokens)
     else parse_loop inp (Suc i) token_start tokens rest }"

definition parse_arguments :: "string \<Rightarrow> string list option" where
  "parse_arguments input_string = do {
     (i, token_start, tokens) \<leftarrow> parse_loop input_string 0 None [] input_string;
     case token_start of None \<Rightarrow> Some tokens | Some st \<Rightarrow> add_token input_string st i tokens }"

section \<open>strtok\<close>

record strtok_state =
  local_buffer :: "char list"
  tok_current :: "nat option"

definition strtok_init :: strtok_state where
  "strtok_init = \<lparr>local_buffer = replicate 128 NUL, tok_current = None\<rparr>"

text \<open>\<open>while (*current != '\0' && strchr(delim, *current) == NULL) ++current;\<close>\<close>

function tok_scan :: "char list \<Rightarrow> string \<Rightarrow> nat \<Rightarrow> nat option" where
  "tok_scan b delim cur =
     (if length b \<le> cur then None
      else if b ! cur \<noteq> NUL \<and> strchr delim (b ! cur) = None then tok_scan b delim (Suc cur) else Some cur)"
  by auto
termination by (relation "measure (\<lambda>(b, d, c). length b - c)") auto

declare tok_scan.simps [simp del]

text \<open>The result is the token as an offset into the static buffer.\<close>

definition strtok :: "string option \<Rightarrow> string \<Rightarrow> strtok_state \<Rightarrow> (nat option \<times> strtok_state) option" where
  "strtok str delim st = do {
     st \<leftarrow> (case str of None \<Rightarrow> Some st
           | Some s \<Rightarrow> do {
               b \<leftarrow> mem_write (local_buffer st) 0 s;
               b \<leftarrow> store (length s + 1) NUL b;
               Some \<lparr>local_buffer = b, tok_current = Some 0\<rparr> });
     case tok_current st of None \<Rightarrow> Some (None, st)
     | Some token \<Rightarrow>
         if length (local_buffer st) \<le> token then None
         else if local_buffer st ! token = NUL then Some (None, st)
         else do {
           cur \<leftarrow> tok_scan (local_buffer st) delim token;
           Some (Some token,
                 if local_buffer st ! cur \<noteq> NUL
                 then \<lparr>local_buffer = (local_buffer st)[cur := NUL], tok_current = Some (cur + 1)\<rparr>
                 else st\<lparr>tok_current := Some cur\<rparr>) } }"

text \<open>The string a caller sees at an offset.\<close>

definition string_at :: "char list \<Rightarrow> nat \<Rightarrow> string" where
  "string_at b p = takeWhile (\<lambda>c. c \<noteq> NUL) (drop p b)"

section \<open>getopt\<close>

record getopt_state =
  optind :: nat
  optpos :: nat

definition getopt_init :: getopt_state where
  "getopt_init = \<lparr>optind = 1, optpos = 1\<rparr>"

text \<open>
  \<open>argv\<close> has the contents of the arguments, \<open>argc\<close> is their number. A returned character is its
  code. The last component is what is stored in \<open>*optarg\<close>, an argument and an offset into it.
  Positions behind the terminator of an argument fault.
\<close>

definition getopt ::
    "string list \<Rightarrow> string \<Rightarrow> getopt_state \<Rightarrow> (int \<times> getopt_state \<times> (nat \<times> nat) option) option" where
  "getopt argv optstring st =
     (let argc = length argv; i = optind st; pos = optpos st in
      if argc = 0 \<or> i \<ge> argc \<or> cs_at (argv ! i) 0 \<noteq> CHR ''-'' \<or> cs_at (argv ! i) 1 = NUL
      then Some (-1, getopt_init, None)
      else if length (argv ! i) < pos then None
      else
        (let opt = cs_at (argv ! i) pos in
         case find_from (\<lambda>k. optstring ! k = opt) 0 (length optstring) of
           None \<Rightarrow> Some (code CHR ''?'', st, None)
         | Some k \<Rightarrow>
               (let r = (if cs_at optstring (k + 1) = CHR '':''
                         then (if cs_at (argv ! i) (pos + 1) \<noteq> NUL
                               then Some (\<lparr>optind = i + 1, optpos = 1\<rparr>, Some (i, pos + 1))
                               else if i + 1 < argc then Some (\<lparr>optind = i + 2, optpos = 1\<rparr>, Some (i + 1, 0))
                               else None)
                         else Some (if cs_at (argv ! i) (pos + 1) \<noteq> NUL then st\<lparr>optpos := pos + 1\<rparr>
                                    else \<lparr>optind = i + 1, optpos = 1\<rparr>, None))
                in case r of None \<Rightarrow> Some (code CHR '':'', st, None)
                   | Some (st', arg) \<Rightarrow>
                       if optind st' \<ge> argc then Some (-1, getopt_init, arg)
                       else Some (code opt, st', arg))))"

text \<open>The loop of a caller: \<open>while ((opt = getopt(\<dots>)) != -1) \<dots>\<close>, with the options it sees.\<close>

fun getopt_all :: "nat \<Rightarrow> string list \<Rightarrow> string \<Rightarrow> getopt_state \<Rightarrow> (int list \<times> getopt_state) option" where
  "getopt_all 0 argv optstring st = None"
| "getopt_all (Suc fuel) argv optstring st = do {
     (r, st, _) \<leftarrow> getopt argv optstring st;
     if r = -1 then Some ([], st)
     else do { (rs, st) \<leftarrow> getopt_all fuel argv optstring st; Some (r # rs, st) } }"

section \<open>csprintf\<close>

abbreviation (input) MAX_FMT_STR_SIZE :: nat where "MAX_FMT_STR_SIZE \<equiv> 256"

datatype va = Int_arg u32 | Str_arg string

definition va_int :: "va list \<Rightarrow> (u32 \<times> va list) option" where
  "va_int args = (case args of Int_arg n # rest \<Rightarrow> Some (n, rest) | _ \<Rightarrow> None)"

text \<open>\<open>'s'\<close> copies up to the 255th character of the output.\<close>

definition put_string :: "string \<Rightarrow> string \<Rightarrow> string" where
  "put_string out s = out @ take (MAX_FMT_STR_SIZE - 1 - length out) s"

text \<open>One specifier: the output so far, the text left in \<open>str\<close>, the remaining arguments.\<close>

definition directive :: "char \<Rightarrow> va list \<Rightarrow> string \<Rightarrow> (string \<times> string \<times> va list) option" where
  "directive f args out =
     (if f = CHR ''d'' \<or> f = CHR ''i'' then do { (n, args) \<leftarrow> va_int args; s \<leftarrow> itoa (sint n); Some (out, s, args) }
      else if f = CHR ''x'' \<or> f = CHR ''X'' then do { (n, args) \<leftarrow> va_int args; Some (out, itohex n, args) }
      else if f = CHR ''p'' then do {
        (n, args) \<leftarrow> va_int args; s \<leftarrow> itoa (sint n);
        Some (if length s < 5 then out @ replicate (5 - length s) CHR ''0'' else out, s, args) }
      else if f = CHR ''s'' then (case args of Str_arg s # rest \<Rightarrow> Some (put_string out s, [], rest) | _ \<Rightarrow> None)
      else if f = CHR ''c'' then do {
        (n, args) \<leftarrow> va_int args;
        Some (if length out < MAX_FMT_STR_SIZE - 1 then out @ [char_of (uint n mod 256)] else out, [], args) }
      else Some (out, [], args))"

fun csprintf_loop :: "string \<Rightarrow> va list \<Rightarrow> string \<Rightarrow> string option" where
  "csprintf_loop [] args out = Some out"
| "csprintf_loop (c # fmt) args out =
     (if MAX_FMT_STR_SIZE \<le> length out then Some out
      else if c = CHR ''%''
      then (case fmt of [] \<Rightarrow> None
            | f # fmt' \<Rightarrow>
                if length out < MAX_FMT_STR_SIZE - 1
                then do { (out, str, args) \<leftarrow> directive f args out; csprintf_loop fmt' args (out @ str) }
                else csprintf_loop fmt' args out)
      else csprintf_loop fmt args (if length out < MAX_FMT_STR_SIZE - 1 then out @ [c] else out))"

text \<open>The return value and the characters stored in \<open>buffer\<close>.\<close>

definition csprintf :: "string \<Rightarrow> va list \<Rightarrow> (int \<times> char list) option" where
  "csprintf fmt args = do {
     out \<leftarrow> csprintf_loop fmt args [];
     Some (int (length out),
           if length out < MAX_FMT_STR_SIZE then out @ [NUL] else out[MAX_FMT_STR_SIZE - 1 := NUL]) }"


section \<open>The words of a command line\<close>

definition is_sep :: "char \<Rightarrow> bool" where
  "is_sep c \<longleftrightarrow> c = CHR '' '' \<or> c = CHR 0x0A"

function words :: "string \<Rightarrow> string list" where
  "words s =
     (if \<forall>c \<in> set s. is_sep c then []
      else takeWhile (\<lambda>c. \<not> is_sep c) (dropWhile is_sep s) #
           words (dropWhile (\<lambda>c. \<not> is_sep c) (dropWhile is_sep s)))"
  by auto
termination
proof (relation "measure length", simp, simp)
  fix s
  assume "\<exists>c \<in> set s. \<not> is_sep c"
  then have "dropWhile is_sep s \<noteq> []" by (simp add: dropWhile_eq_Nil_conv)
  then have hd: "\<not> is_sep (hd (dropWhile is_sep s))" by (rule hd_dropWhile)
  have "length (dropWhile (\<lambda>c. \<not> is_sep c) (dropWhile is_sep s)) < length (dropWhile is_sep s)"
    using \<open>dropWhile is_sep s \<noteq> []\<close> hd length_dropWhile_le by (cases "dropWhile is_sep s") (auto simp: less_Suc_eq_le)
  then show "length (dropWhile (\<lambda>c. \<not> is_sep c) (dropWhile is_sep s)) < length s"
    using length_dropWhile_le [of is_sep s] by simp
qed

declare words.simps [simp del]

lemma words_Nil: "words [] = []"
  by (simp add: words.simps)

lemma words_sep: "is_sep c \<Longrightarrow> words (c # s) = words s"
  by (subst (1 2) words.simps) simp

lemma words_word:
  assumes "w \<noteq> []" and "\<forall>c \<in> set w. \<not> is_sep c"
  shows "words w = [w]" "is_sep c \<Longrightarrow> words (w @ c # s) = w # words s"
proof -
  have hd: "\<not> is_sep (hd w)" using assms by (cases w) auto
  then have dw: "dropWhile is_sep (w @ x) = w @ x" for x using assms(1) by (cases w) auto
  have tw: "takeWhile (\<lambda>c. \<not> is_sep c) w = w" "dropWhile (\<lambda>c. \<not> is_sep c) w = []"
    using assms(2) by (simp_all add: takeWhile_eq_all_conv dropWhile_eq_Nil_conv)
  have ex: "\<not> (\<forall>c \<in> set (w @ x). is_sep c)" for x using hd assms(1) by (cases w) auto
  show "words w = [w]" using ex [of "[]"] dw [of "[]"] by (subst words.simps) (simp only: append_Nil2 tw if_False words_Nil)
  show "words (w @ c # s) = w # words s" if "is_sep c"
  proof -
    have "takeWhile (\<lambda>c. \<not> is_sep c) (w @ c # s) = w" "dropWhile (\<lambda>c. \<not> is_sep c) (w @ c # s) = c # s"
      using assms(2) that by (simp_all add: takeWhile_append2 dropWhile_append2)
    then show ?thesis using ex [of "c # s"] dw [of "c # s"] by (subst words.simps) (simp add: words_sep [OF that])
  qed
qed

lemma add_token_word:
  assumes "st \<le> i" and "w = take (i - st) (drop st inp)" and "length w < 100" and "length toks < 10" and "i \<le> length inp"
  shows "add_token inp st i toks = Some (toks @ [w])"
proof -
  have "nat (int i - 1 - int st + 1) = i - st" using assms(1) by simp
  then show ?thesis using assms by (simp add: add_token_def)
qed

text \<open>
  The invariant of the loop: the tokens so far and the unfinished word in front of \<open>input_string + i\<close>.
\<close>

lemma parse_loop_words:
  assumes "drop i inp = rest" and "i \<le> length inp" and "length toks < MAX_ARGS"
    and "case ts of None \<Rightarrow> w = [] | Some st \<Rightarrow> st < i \<and> w = take (i - st) (drop st inp)"
    and "\<forall>c \<in> set w. \<not> is_sep c"
    and "\<forall>x \<in> set (take (MAX_ARGS - length toks) (words (w @ rest))). length x < 100"
  shows "do { (i, ts, toks) \<leftarrow> parse_loop inp i ts toks rest;
              case ts of None \<Rightarrow> Some toks | Some st \<Rightarrow> add_token inp st i toks } =
         Some (take MAX_ARGS (toks @ words (w @ rest)))"
  using assms
proof (induction rest arbitrary: i ts toks w)
  case Nil
  show ?case
  proof (cases ts)
    case None
    then show ?thesis using Nil by (simp add: words_Nil)
  next
    case (Some st)
    then have w: "st < i" "w = take (i - st) (drop st inp)" using Nil.prems(4) by simp_all
    have i: "i = length inp" using Nil.prems(1,2) by simp
    then have "w \<noteq> []" using w by simp
    then have ww: "words w = [w]" using words_word(1) Nil.prems(5) by blast
    then have "length w < 100" using Nil.prems(3,6) by simp
    then have "add_token inp st i toks = Some (toks @ [w])"
      using add_token_word [of st i w inp toks] w Nil.prems(2,3) by simp
    then show ?thesis using Some ww Nil.prems(3) by simp
  qed
next
  case (Cons c rest)
  have i: "i < length inp" "drop (Suc i) inp = rest" "inp ! i = c"
  proof -
    show lt: "i < length inp" using Cons.prems(1) by (metis drop_all leI list.distinct(1))
    show "drop (Suc i) inp = rest" "inp ! i = c" using Cons.prems(1) Cons_nth_drop_Suc [OF lt] by simp_all
  qed
  show ?case
  proof (cases "is_sep c")
    case sep: True
    show ?thesis
    proof (cases ts)
      case None
      then have w: "w = []" using Cons.prems(4) by simp
      have "words (w @ c # rest) = words rest" using w words_sep [OF sep] by simp
      then show ?thesis
        using Cons.IH [of "Suc i" toks "[]" None] Cons.prems i None w sep by (simp add: is_sep_def)
    next
      case (Some st)
      then have w: "st < i" "w = take (i - st) (drop st inp)" using Cons.prems(4) by simp_all
      then have "w \<noteq> []" using i by simp
      then have ww: "words (w @ c # rest) = w # words rest" using words_word(2) Cons.prems(5) sep by blast
      have m: "MAX_ARGS - length toks = Suc (4 - length toks)" using Cons.prems(3) by simp
      have "length w < 100" using Cons.prems(6) unfolding ww m by simp
      then have add: "add_token inp st i toks = Some (toks @ [w])"
        using add_token_word [of st i w inp toks] w Cons.prems(2,3) by simp
      show ?thesis
      proof (cases "length (toks @ [w]) = MAX_ARGS")
        case True
        then show ?thesis using add Some sep ww by (simp add: is_sep_def)
      next
        case False
        have "\<forall>x \<in> set (take (MAX_ARGS - length (toks @ [w])) (words ([] @ rest))). length x < 100"
          using Cons.prems(6) unfolding ww m by simp
        then show ?thesis
          using Cons.IH [of "Suc i" "toks @ [w]" "[]" None] Cons.prems False i add Some sep ww by (simp add: is_sep_def)
      qed
    qed
  next
    case False
    let ?ts = "if ts = None then Some i else ts"
    have w': "case ?ts of None \<Rightarrow> w @ [c] = [] | Some st \<Rightarrow> st < Suc i \<and> w @ [c] = take (Suc i - st) (drop st inp)"
    proof (cases ts)
      case None
      then show ?thesis using Cons.prems(4) i by (simp add: take_Suc_conv_app_nth)
    next
      case (Some st)
      then have w: "st < i" "w = take (i - st) (drop st inp)" using Cons.prems(4) by simp_all
      have "take (Suc (i - st)) (drop st inp) = take (i - st) (drop st inp) @ [drop st inp ! (i - st)]"
        by (rule take_Suc_conv_app_nth) (use w i in simp)
      then show ?thesis using Some w i by (simp add: Suc_diff_le)
    qed
    have "\<not> (c = CHR '' '' \<or> c = CHR 0x0A)" using False by (simp add: is_sep_def)
    then have "parse_loop inp i ts toks (c # rest) = parse_loop inp (Suc i) ?ts toks rest"
      using Cons.prems(3) by simp
    moreover have "do { (i, ts, toks) \<leftarrow> parse_loop inp (Suc i) ?ts toks rest;
        case ts of None \<Rightarrow> Some toks | Some st \<Rightarrow> add_token inp st i toks } =
        Some (take MAX_ARGS (toks @ words ((w @ [c]) @ rest)))"
      by (rule Cons.IH) (use w' Cons.prems i False in auto)
    ultimately show ?thesis by simp
  qed
qed


text \<open>C24. \<open>parse_arguments\<close> returns the first five words of the command line, the maximal runs of
  characters that are neither blanks nor newlines, provided each of them leaves room for its
  terminator in a row of 100 characters; the rest of the line is ignored. A longer word does not
  fit and is written beyond its row.\<close>
theorem parse_arguments_words:
  "((\<forall>w \<in> set (take MAX_ARGS (words s)). length w < 100) \<longrightarrow>
      parse_arguments s = Some (take MAX_ARGS (words s))) \<and>
   (s \<noteq> [] \<and> (\<forall>c \<in> set s. \<not> is_sep c) \<and> 100 \<le> length s \<longrightarrow> parse_arguments s = None)"
proof (intro conjI impI)
  assume "\<forall>w \<in> set (take MAX_ARGS (words s)). length w < 100"
  then show "parse_arguments s = Some (take MAX_ARGS (words s))"
    using parse_loop_words [of 0 s s "[]" "[]" None] unfolding parse_arguments_def by simp
next
  assume a: "s \<noteq> [] \<and> (\<forall>c \<in> set s. \<not> is_sep c) \<and> 100 \<le> length s"
  have step: "parse_loop s i (Some 0) [] r = Some (i + length r, Some 0, [])" if "\<forall>c \<in> set r. \<not> is_sep c" for i r
    using that by (induction r arbitrary: i) (auto simp: is_sep_def)
  obtain c r where s: "s = c # r" using a by (cases s) auto
  have "parse_loop s 0 None [] s = Some (length s, Some 0, [])"
    using a step [of r 1] unfolding s by (simp add: is_sep_def)
  moreover have "add_token s 0 (length s) [] = None" using a by (simp add: add_token_def)
  ultimately show "parse_arguments s = None" unfolding parse_arguments_def by simp
qed

theorem parse_arguments_words_witness:
  "parse_arguments ''cp  a b'' = Some (take 5 (words ''cp  a b'')) \<and> parse_arguments (replicate 100 CHR ''x'') = None"
proof
  have w: "words ''cp  a b'' = [''cp'', ''a'', ''b'']"
    using words_word(2) [of "''cp''" "CHR '' ''" "'' a b''"] words_word(2) [of "''a''" "CHR '' ''" "''b''"]
      words_word(1) [of "''b''"] words_sep [of "CHR '' ''" "''a b''"] by (simp add: is_sep_def)
  show "parse_arguments ''cp  a b'' = Some (take 5 (words ''cp  a b''))"
    using parse_arguments_words [of "''cp  a b''"] by (simp add: w)
  show "parse_arguments (replicate 100 CHR ''x'') = None"
    using parse_arguments_words [of "replicate 100 CHR ''x''"] by (simp add: is_sep_def)
qed

section \<open>strtok\<close>

lemma tok_scan_at:
  assumes "cur \<le> p" and "p < length b" and "b ! p = NUL"
    and "\<And>k. cur \<le> k \<Longrightarrow> k < p \<Longrightarrow> b ! k \<noteq> NUL \<and> strchr delim (b ! k) = None"
  shows "tok_scan b delim cur = Some p"
  using assms
proof (induction "p - cur" arbitrary: cur)
  case 0
  then show ?case by (simp add: tok_scan.simps)
next
  case (Suc n)
  then have "tok_scan b delim (Suc cur) = Some p" by simp
  then show ?case using Suc.prems(2) Suc.prems(4) [of cur] Suc.hyps(2) by (subst tok_scan.simps) simp
qed

lemma strchr_None: "strchr s c = None \<longleftrightarrow> c \<notin> set s"
  by (induction s) auto

text \<open>A call with a new string, when nothing in it or in the character behind it is a delimiter.\<close>

lemma strtok_new:
  assumes "length (local_buffer st) = 128" and "s \<noteq> []" and "length s < 127"
    and "NUL \<notin> set s" and "set s \<inter> set delim = {}"
    and "local_buffer st ! length s \<notin> set delim"
  defines "b \<equiv> s @ local_buffer st ! length s # NUL # drop (length s + 2) (local_buffer st)"
  shows "strtok (Some s) delim st = Some (Some 0, \<lparr>local_buffer = b,
      tok_current = Some (if local_buffer st ! length s = NUL then length s else length s + 1)\<rparr>)"
proof -
  let ?B = "local_buffer st" and ?p = "if local_buffer st ! length s = NUL then length s else length s + 1"
  have len: "length s + 1 < 128" using assms(3) by simp
  have w: "mem_write ?B 0 s = Some (s @ drop (length s) ?B)" using assms(1,3) by (simp add: mem_write_def)
  have d: "drop (length s) ?B = ?B ! length s # ?B ! (length s + 1) # drop (length s + 2) ?B"
    using assms(1,3) by (simp add: Cons_nth_drop_Suc)
  have st: "store (length s + 1) NUL (s @ drop (length s) ?B) = Some b"
    using assms(1,3) unfolding store_def d b_def by (simp add: list_update_append)
  have lb: "length b = 128" using assms(1,3) by (simp add: b_def)
  have nth: "k < length s \<Longrightarrow> b ! k = s ! k" "b ! length s = ?B ! length s" "b ! (length s + 1) = NUL" for k
    by (simp_all add: b_def nth_append)
  have b0: "b ! 0 \<noteq> NUL" using nth(1) [of 0] assms(2,4) nth_mem [of 0 s] by (cases s) auto
  have bp: "b ! ?p = NUL" using nth by auto
  have "tok_scan b delim 0 = Some ?p"
  proof (rule tok_scan_at)
    fix k assume "0 \<le> k" "k < ?p"
    then have "k < length s \<or> (k = length s \<and> ?B ! length s \<noteq> NUL)" by (auto split: if_splits)
    then show "b ! k \<noteq> NUL \<and> strchr delim (b ! k) = None"
    proof
      assume k: "k < length s"
      then have "s ! k \<noteq> NUL" "s ! k \<notin> set delim"
        using assms(4,5) nth_mem [OF k] by (metis, metis IntI empty_iff)
      then show ?thesis using nth(1) [OF k] by (simp add: strchr_None)
    qed (use nth(2) assms(6) in \<open>simp add: strchr_None\<close>)
  qed (use bp lb assms(3) in auto)
  then show ?thesis using w st lb b0 bp unfolding strtok_def by simp
qed

text \<open>\<open>strtok\<close> copies the string without its terminator and then writes the terminator one place
  too far, so a character of the previous string survives behind the new one. After a call with
  \<open>s\<close>, a call with a shorter string \<open>t\<close> returns \<open>t\<close> extended by the character of \<open>s\<close> at that place; only
  the first call after boot returns its word as it is.\<close>
theorem strtok_stale:
  assumes "s \<noteq> []" and "t \<noteq> []" and "length t < length s" and "length s < 127" and "NUL \<notin> set s" and "NUL \<notin> set t"
    and "set s \<inter> set delim = {}" and "set t \<inter> set delim = {}" and "NUL \<notin> set delim"
  shows "\<exists>st1 st2. strtok (Some s) delim strtok_init = Some (Some 0, st1) \<and> string_at (local_buffer st1) 0 = s \<and>
    strtok (Some t) delim st1 = Some (Some 0, st2) \<and> string_at (local_buffer st2) 0 = t @ [s ! length t]"
proof -
  let ?B = "replicate 128 NUL"
  have B: "local_buffer strtok_init = ?B" by (simp add: strtok_init_def)
  have Bs: "?B ! length s = NUL" using assms(4) by simp
  define b where "b = s @ NUL # NUL # drop (length s + 2) ?B"
  define st1 where "st1 = \<lparr>local_buffer = b, tok_current = Some (length s)\<rparr>"
  have c1: "strtok (Some s) delim strtok_init = Some (Some 0, st1)"
    using strtok_new [of strtok_init s delim] assms Bs unfolding B by (simp add: st1_def b_def)
  have s1: "string_at (local_buffer st1) 0 = s"
    using assms(5) unfolding st1_def b_def string_at_def by (simp add: takeWhile_append)
  have bt: "b ! length t = s ! length t" using assms(3) by (simp add: b_def nth_append)
  have st: "s ! length t \<in> set s" using assms(3) by simp
  have lb: "length b = 128" using assms(4) by (simp add: b_def)
  define b2 where "b2 = t @ s ! length t # NUL # drop (length t + 2) b"
  define st2 where "st2 = \<lparr>local_buffer = b2, tok_current = Some (length t + 1)\<rparr>"
  have "s ! length t \<notin> set delim" "s ! length t \<noteq> NUL" using st assms(5,7) by auto
  then have c2: "strtok (Some t) delim st1 = Some (Some 0, st2)"
    using strtok_new [of st1 t delim] assms lb bt by (simp add: st1_def st2_def b2_def)
  have "string_at (local_buffer st2) 0 = t @ [s ! length t]"
    using assms(6) \<open>s ! length t \<noteq> NUL\<close> unfolding st2_def b2_def string_at_def by (simp add: takeWhile_append)
  then show ?thesis using c1 s1 c2 by blast
qed

theorem strtok_stale_witness:
  "\<exists>st1 st2. strtok (Some ''hello'') '' '' strtok_init = Some (Some 0, st1) \<and> string_at (local_buffer st1) 0 = ''hello'' \<and>
    strtok (Some ''abc'') '' '' st1 = Some (Some 0, st2) \<and> string_at (local_buffer st2) 0 = ''abcl''"
  using strtok_stale [of "''hello''" "''abc''" "'' ''"] by simp


section \<open>getopt\<close>

text \<open>Single-letter options without arguments, one per element of \<open>argv\<close>.\<close>

lemma getopt_plain:
  assumes "c \<in> set opts" and "c \<noteq> NUL" and "c \<noteq> CHR '':''" and "CHR '':'' \<notin> set opts"
    and "i < length argv" and "argv ! i = [CHR ''-'', c]"
  shows "getopt argv opts \<lparr>optind = i, optpos = 1\<rparr> =
    Some (if i + 1 < length argv then (code c, \<lparr>optind = i + 1, optpos = 1\<rparr>, None) else (-1, getopt_init, None))"
proof -
  obtain k where k: "find_from (\<lambda>k. opts ! k = c) 0 (length opts) = Some k"
    using assms(1) by (cases "find_from (\<lambda>k. opts ! k = c) 0 (length opts)") (auto simp: find_from_None_iff in_set_conv_nth)
  have nc: "cs_at opts (k + 1) \<noteq> CHR '':''" using assms(4) by (auto simp: cs_at_def in_set_conv_nth)
  have c: "cs_at (argv ! i) 0 = CHR ''-''" "cs_at (argv ! i) 1 = c" "cs_at (argv ! i) (1 + 1) = NUL" "length (argv ! i) = 2"
    using assms(6) by (simp_all add: cs_at_def)
  have "argv \<noteq> []" using assms(5) by auto
  then show ?thesis unfolding getopt_def Let_def
    using k nc c assms(2,5) by simp
qed

text \<open>A caller that loops over \<open>getopt\<close> never sees the last option: when the option that is
  parsed is the last element of \<open>argv\<close>, the function resets itself and returns -1 instead of the
  option. For a command line of plain options the loop sees all of them but the last.\<close>
theorem getopt_last_option_lost:
  assumes "cs \<noteq> []" and "set cs \<subseteq> set opts" and "NUL \<notin> set opts" and "CHR '':'' \<notin> set opts"
  shows "getopt_all (length cs) (prog # map (\<lambda>c. [CHR ''-'', c]) cs) opts getopt_init =
    Some (map code (butlast cs), getopt_init)"
proof -
  let ?argv = "prog # map (\<lambda>c. [CHR ''-'', c]) cs"
  have "getopt_all (length cs - j) ?argv opts \<lparr>optind = j + 1, optpos = 1\<rparr> =
      Some (map code (butlast (drop j cs)), getopt_init)" if "j < length cs" for j
    using that
  proof (induction "length cs - j" arbitrary: j)
    case (Suc n)
    have in_opts: "cs ! j \<in> set opts" "cs ! j \<noteq> NUL" "cs ! j \<noteq> CHR '':''"
      using assms(2,3,4) nth_mem [OF Suc.prems] by (metis subsetD)+
    have g: "getopt ?argv opts \<lparr>optind = j + 1, optpos = 1\<rparr> =
        Some (if j + 1 < length cs then (code (cs ! j), \<lparr>optind = j + 2, optpos = 1\<rparr>, None) else (-1, getopt_init, None))"
      using getopt_plain [OF in_opts assms(4), of "j + 1" ?argv] Suc.prems by simp
    have d: "drop j cs = cs ! j # drop (Suc j) cs" using Cons_nth_drop_Suc [OF Suc.prems] by simp
    have f: "length cs - j = Suc (length cs - Suc j)" using Suc.prems by simp
    show ?case
    proof (cases "j + 1 < length cs")
      case True
      have "0 \<le> code (cs ! j)" by (simp add: code_def of_char_def horner_sum_nonnegative)
      then have "code (cs ! j) \<noteq> -1" by linarith
      moreover have "getopt_all (length cs - Suc j) ?argv opts \<lparr>optind = Suc j + 1, optpos = 1\<rparr> =
          Some (map code (butlast (drop (Suc j) cs)), getopt_init)"
        using Suc.hyps(1) [of "Suc j"] Suc.hyps(2) True by simp
      moreover have "drop (Suc j) cs \<noteq> []" using True by simp
      ultimately show ?thesis using g True unfolding f d by simp
    next
      case False
      then have "drop (Suc j) cs = []" by simp
      then show ?thesis using g False unfolding f d by simp
    qed
  qed simp
  from this [of 0] show ?thesis using assms(1) by (simp add: getopt_init_def)
qed

theorem getopt_last_option_lost_witness:
  "getopt_all 2 [''ls'', ''-a'', ''-l''] ''al'' getopt_init = Some ([97], getopt_init)"
proof -
  have "code CHR ''a'' = 97" by (simp add: code_def)
  then show ?thesis using getopt_last_option_lost [of "''al''" "''al''" "''ls''"]
    by (simp only: list.map butlast.simps list.size add_0_right add_Suc_right numeral_2_eq_2) simp
qed

section \<open>csprintf\<close>

lemma numeral_of_length: "1 < b \<Longrightarrow> 0 \<le> m \<Longrightarrow> m < b ^ Suc k \<Longrightarrow> 1 \<le> length (numeral_of b m) \<and> length (numeral_of b m) \<le> Suc k"
proof (induction k arbitrary: m)
  case 0
  then show ?case by (subst (1 2) numeral_of.simps) (simp add: pos_imp_zdiv_pos_iff)
next
  case (Suc k)
  have "m div b * b \<le> m" using Suc.prems(1) pos_mod_sign [of b m] by (simp add: minus_mod_eq_div_mult [symmetric])
  also have "\<dots> < b ^ Suc k * b" using Suc.prems(3) by (simp add: mult.commute)
  finally have "m div b < b ^ Suc k" using Suc.prems(1) by (simp only: mult_less_cancel_right)
  then have "length (numeral_of b (m div b)) \<le> Suc k" using Suc by (simp add: pos_imp_zdiv_nonneg_iff)
  then show ?case by (subst (1 2) numeral_of.simps) simp
qed

lemma itoa_length: "itoa (sint (n :: u32)) = Some s \<Longrightarrow> 1 \<le> length s \<and> length s \<le> 11"
proof -
  assume s: "itoa (sint n) = Some s"
  have "\<bar>sint n\<bar> < 10 ^ Suc 9"
    using sint_greater_eq [of n] sint_less [of n] by simp
  then have "1 \<le> length (numeral_of 10 \<bar>sint n\<bar>) \<and> length (numeral_of 10 \<bar>sint n\<bar>) \<le> Suc 9"
    by (intro numeral_of_length) simp_all
  then show ?thesis using s by (auto simp: itoa_def Let_def itoa_loop_numeral reverse_rev split: if_splits)
qed

lemma itohex_length: "length (itohex n) \<le> 8"
proof -
  have "uint n < 16 ^ Suc 7" using uint_bounded [of n] by simp
  then have "length (numeral_of 16 (uint n)) \<le> Suc 7" using numeral_of_length [of 16 "uint n" 7] by simp
  then show ?thesis by (simp add: itohex_def itohex_loop_numeral reverse_rev)
qed

lemma directive_length:
  assumes "directive f args out = Some (out', str, args')" and "length out < 255"
  shows "length (out' @ str) \<le> length out + 11 \<or> (length (out' @ str) \<le> 255)"
proof -
  show ?thesis
    using assms itohex_length
    by (auto simp: directive_def va_int_def put_string_def dest!: itoa_length
        split: if_splits list.splits va.splits Option.bind_splits intro: order_trans [OF itohex_length])
qed


lemma csprintf_loop_length:
  "csprintf_loop fmt args out = Some out' \<Longrightarrow> length out \<le> 265 \<Longrightarrow> length out' \<le> 265"
proof (induction fmt args out rule: csprintf_loop.induct)
  case (1 args out)
  then show ?case by simp
next
  case (2 c fmt args out)
  show ?case
  proof (cases "256 \<le> length out")
    case True
    then show ?thesis using 2 by simp
  next
    case small: False
    show ?thesis
    proof (cases "c = CHR ''%''")
      case pc: True
      then obtain f fmt' where fmt: "fmt = f # fmt'" using "2.prems" small by (cases fmt) auto
      show ?thesis
      proof (cases "length out < 255")
        case True
        then obtain o1 str a1 where d: "directive f args out = Some (o1, str, a1)"
          "csprintf_loop fmt' a1 (o1 @ str) = Some out'"
          using "2.prems" small pc fmt by (auto split: Option.bind_splits)
        then have "length (o1 @ str) \<le> 265" using directive_length [OF d(1)] True by auto
        then show ?thesis using 2(1) [OF _ pc fmt _ d(1) refl refl d(2)] small True by simp
      next
        case False
        then show ?thesis using 2 small pc fmt by simp
      qed
    next
      case False
      then show ?thesis using 2 small by (auto split: if_splits)
    qed
  qed
qed

text \<open>The bound of 256 characters that \<open>csprintf\<close> checks before each specifier is not a bound on
  what it stores: a number is appended without a further check. Whatever the format and the
  arguments, at most 265 characters are stored, and a format of 254 characters followed by a
  number of eleven reaches that, nine beyond a buffer of 256.\<close>
theorem csprintf_bound:
  "(\<forall>fmt args r b. csprintf fmt args = Some (r, b) \<longrightarrow> length b \<le> 265 \<and> r \<le> 265) \<and>
   (\<exists>b. csprintf (replicate 254 CHR ''a'' @ ''%d'') [Int_arg (-1234567890)] = Some (265, b) \<and> length b = 265)"
proof (intro conjI allI impI)
  fix fmt args r b
  assume "csprintf fmt args = Some (r, b)"
  then obtain out where o: "csprintf_loop fmt args [] = Some out" "r = int (length out)"
    "b = (if length out < 256 then out @ [NUL] else out[255 := NUL])"
    by (auto simp: csprintf_def split: Option.bind_splits)
  have "length out \<le> 265" using csprintf_loop_length [OF o(1)] by simp
  then show "length b \<le> 265" "r \<le> 265" using o by auto
next
  have lit: "csprintf_loop (replicate k CHR ''a'' @ fmt) args out = csprintf_loop fmt args (out @ replicate k CHR ''a'')"
    if "length out + k \<le> 255" for k fmt args out
    using that by (induction k arbitrary: out) (simp_all add: replicate_append_same)
  have n: "sint (-1234567890 :: u32) = -1234567890" by (simp add: sint_uint)
  have "itoa (-1234567890) = Some ''-1234567890''" by code_simp
  then have "csprintf_loop (replicate 254 CHR ''a'' @ ''%d'') [Int_arg (-1234567890)] [] =
      Some (replicate 254 CHR ''a'' @ ''-1234567890'')"
    unfolding lit [of "[]" 254, simplified] by (simp add: directive_def va_int_def n)
  then show "\<exists>b. csprintf (replicate 254 CHR ''a'' @ ''%d'') [Int_arg (-1234567890)] = Some (265, b) \<and> length b = 265"
    unfolding csprintf_def by simp
qed

theorem csprintf_bound_witness:
  "\<exists>r b. csprintf (replicate 254 CHR ''a'' @ ''%d'') [Int_arg (-1234567890)] = Some (r, b) \<and> length b \<le> 265"
  using csprintf_bound by blast

end
