(* ===== verification/Bytes.thy ===== *)
theory Bytes imports Prelude
begin

text \<open>
  The bytes of packed structures: little-endian 16 and 32 bit fields in memory, the packet headers
  and on-disk structures of the kernel.
\<close>

section \<open>Fields of packed structures\<close>

definition le16 :: "u8 \<Rightarrow> u8 \<Rightarrow> u16" where
  "le16 a b = ucast a OR push_bit 8 (ucast b)"

definition le16_bytes :: "u16 \<Rightarrow> u8 list" where
  "le16_bytes w = [ucast w, ucast (drop_bit 8 w)]"

definition le32_bytes :: "u32 \<Rightarrow> u8 list" where
  "le32_bytes w = [ucast w, ucast (drop_bit 8 w), ucast (drop_bit 16 w), ucast (drop_bit 24 w)]"

definition le32 :: "u8 \<Rightarrow> u8 \<Rightarrow> u8 \<Rightarrow> u8 \<Rightarrow> u32" where
  "le32 a b c d = ucast a OR push_bit 8 (ucast b) OR push_bit 16 (ucast c) OR push_bit 24 (ucast d)"

definition u16_at :: "u8 list \<Rightarrow> nat \<Rightarrow> u16 option" where
  "u16_at m p = (if p + 2 \<le> length m then Some (le16 (m ! p) (m ! (p + 1))) else None)"

definition u32_at :: "u8 list \<Rightarrow> nat \<Rightarrow> u32 option" where
  "u32_at m p = (if p + 4 \<le> length m then Some (le32 (m ! p) (m ! (p + 1)) (m ! (p + 2)) (m ! (p + 3))) else None)"

section \<open>Facts about the fields\<close>

lemma le16_le16_bytes: "le16 (ucast w) (ucast (drop_bit 8 w)) = w"
  by (rule bit_word_eqI) (auto simp: le16_def bit_simps)

lemma le32_le32_bytes:
  "le32 (ucast w) (ucast (drop_bit 8 w)) (ucast (drop_bit 16 w)) (ucast (drop_bit 24 w)) = w"
proof (rule bit_word_eqI)
  fix n assume "n < LENGTH(32)"
  then consider "n < 8" | "8 \<le> n" "n < 16" | "16 \<le> n" "n < 24" | "24 \<le> n" "n < 32" by fastforce
  then show "bit (le32 (ucast w) (ucast (drop_bit 8 w)) (ucast (drop_bit 16 w)) (ucast (drop_bit 24 w))) n = bit w n"
    by cases (auto simp: le32_def bit_simps)
qed

lemma length_le_bytes [simp]: "length (le16_bytes w) = 2" "length (le32_bytes x) = 4"
  by (simp_all add: le16_bytes_def le32_bytes_def)

end
