(* ===== verification/Net_Utils.thy ===== *)
theory Net_Utils imports Libc_Str Bytes
begin

text \<open>
  net/utils.c: byte order, the Internet checksum of RFC 1071 and the parsing of dotted addresses.
  A block of memory is the list of its bytes; the machine is little endian, so the 16-bit word at
  an even offset is \<open>b\<^sub>0 + 256 * b\<^sub>1\<close>.
\<close>

section \<open>net/utils.c\<close>

definition ntohl :: "u32 \<Rightarrow> u32" where
  "ntohl data = (push_bit 24 (data AND 0x000000ff)) OR (push_bit 8 (data AND 0x0000ff00)) OR
     (drop_bit 8 (data AND 0x00ff0000)) OR (drop_bit 24 (data AND 0xff000000))"

definition htonl :: "u32 \<Rightarrow> u32" where
  "htonl data = ntohl data"

definition ntohs :: "u16 \<Rightarrow> u16" where
  "ntohs data = (push_bit 8 (data AND 0x00ff)) OR (drop_bit 8 (data AND 0xff00))"

definition htons :: "u16 \<Rightarrow> u16" where
  "htons data = ntohs data"

text \<open>The inner loop of \<open>checksum\<close> with the left-over byte, on the bytes from \<open>ptr\<close> on.\<close>

fun sum_words :: "u32 \<Rightarrow> u8 list \<Rightarrow> u32" where
  "sum_words acc [] = acc"
| "sum_words acc [a] = acc + ucast a"
| "sum_words acc (a # b # xs) = sum_words (acc + ucast (le16 a b)) xs"

text \<open>\<open>while (sum>>16) sum = (sum & 0xffff) + (sum >> 16);\<close>\<close>

lemma fold_step:
  assumes "drop_bit 16 (s :: u32) \<noteq> 0"
  shows "unat ((s AND 0xffff) + drop_bit 16 s) < unat s"
    and "unat ((s AND 0xffff) + drop_bit 16 s) = unat s mod 65536 + unat s div 65536"
proof -
  have lo: "unat (s AND 0xffff) = unat s mod 65536"
  proof -
    have "s AND 0xffff = take_bit 16 s" by (simp add: take_bit_eq_mask mask_eq_exp_minus_1)
    then show ?thesis by (simp add: unsigned_take_bit_eq take_bit_eq_mod unat_mod_distrib)
  qed
  have hi: "unat (drop_bit 16 s) = unat s div 65536" by (simp add: unat_drop_bit_eq drop_bit_eq_div unat_div_distrib)
  have bound: "unat s < 2 ^ 32" by (rule order_less_le_trans [OF unsigned_less]) simp
  have "unat s div 65536 < 65536" using bound by (simp add: div_less_iff_less_mult)
  moreover have "unat s mod 65536 < 65536" by simp
  ultimately have "unat s mod 65536 + unat s div 65536 < 65536 + 65536" by (intro add_strict_mono)
  then have "unat s mod 65536 + unat s div 65536 < 2 ^ 32" by simp
  then show eq: "unat ((s AND 0xffff) + drop_bit 16 s) = unat s mod 65536 + unat s div 65536"
    by (simp add: unat_word_ariths lo hi)
  have "unat s div 65536 \<noteq> 0" using assms hi by (metis unat_eq_zero)
  moreover have "unat s = unat s div 65536 * 65536 + unat s mod 65536" by simp
  ultimately show "unat ((s AND 0xffff) + drop_bit 16 s) < unat s" unfolding eq by linarith
qed

function fold_sum :: "u32 \<Rightarrow> u32" where
  "fold_sum s = (if drop_bit 16 s \<noteq> 0 then fold_sum ((s AND 0xffff) + drop_bit 16 s) else s)"
  by auto
termination by (relation "measure unat") (use fold_step(1) in auto)

declare fold_sum.simps [simp del]

definition checksum :: "u8 list \<Rightarrow> u32 \<Rightarrow> u16" where
  "checksum bs start_sum = NOT (ucast (fold_sum (sum_words start_sum bs)))"

text \<open>\<open>data\<close> are the bytes at the pointer; \<open>len\<close> is in network byte order.\<close>

definition transport_checksum :: "u32 \<Rightarrow> u32 \<Rightarrow> u8 \<Rightarrow> u8 list \<Rightarrow> u16 \<Rightarrow> u16" where
  "transport_checksum saddr daddr proto data len =
     (let acc = htonl saddr + htonl daddr + ucast (htons (ucast proto)) + ucast len
      in checksum (take (unat (ntohs len)) data) acc)"

text \<open>
  The inner \<open>while (1)\<close> of \<open>ip_to_int\<close>, from \<open>start\<close> on: \<open>None\<close> is the overflow of \<open>n\<close>, \<open>Some None\<close> the
  \<open>return 0\<close>, \<open>Some (Some (n, start))\<close> the \<open>break\<close>.
\<close>

fun ip_octet :: "nat \<Rightarrow> int \<Rightarrow> string \<Rightarrow> (int \<times> string) option option" where
  "ip_octet i n [] = Some (if i = 3 then Some (n, []) else None)"
| "ip_octet i n (c # start) =
     (if isdigit c
      then (let n = n * 10 + (code c - code CHR ''0'') in if INT_MAX < n then None else ip_octet i n start)
      else if (i < 3 \<and> c = CHR ''.'') \<or> i = 3 then Some (Some (n, start))
      else Some None)"

fun ip_loop :: "nat \<Rightarrow> nat \<Rightarrow> u32 \<Rightarrow> string \<Rightarrow> u32 option" where
  "ip_loop 0 i v start = Some v"
| "ip_loop (Suc k) i v start = do {
     r \<leftarrow> ip_octet i 0 start;
     case r of None \<Rightarrow> Some 0
     | Some (n, start) \<Rightarrow> if n \<ge> 256 then Some 0 else ip_loop k (Suc i) (v * 256 + word_of_int n) start }"

definition ip_to_int :: "string \<Rightarrow> u32 option" where
  "ip_to_int ip = ip_loop 4 0 0 ip"

text \<open>The specifier \<open>%i\<close> of lib/printf.c, which prints an address in network byte order.\<close>

definition printf_i :: "u32 \<Rightarrow> string option" where
  "printf_i num = do {
     b0 \<leftarrow> itoa (uint (drop_bit 24 num AND 0xFF));
     b1 \<leftarrow> itoa (uint (drop_bit 16 num AND 0xFF));
     b2 \<leftarrow> itoa (uint (drop_bit 8 num AND 0xFF));
     b3 \<leftarrow> itoa (uint (num AND 0xFF));
     Some (b3 @ ''.'' @ b2 @ ''.'' @ b1 @ ''.'' @ b0) }"


section \<open>Byte order\<close>

lemma bit_masks:
  "bit (0xff :: int) n \<longleftrightarrow> n < 8" "bit (0xff00 :: int) n \<longleftrightarrow> 8 \<le> n \<and> n < 16"
  "bit (0xff0000 :: int) n \<longleftrightarrow> 16 \<le> n \<and> n < 24" "bit (0xff000000 :: int) n \<longleftrightarrow> 24 \<le> n \<and> n < 32"
proof -
  have m: "(0xff :: int) = mask 8" "(0xff00 :: int) = push_bit 8 (mask 8)" "(0xff0000 :: int) = push_bit 16 (mask 8)"
    "(0xff000000 :: int) = push_bit 24 (mask 8)"
    by (simp_all add: mask_eq_exp_minus_1 push_bit_eq_mult)
  show "bit (0xff :: int) n \<longleftrightarrow> n < 8" "bit (0xff00 :: int) n \<longleftrightarrow> 8 \<le> n \<and> n < 16"
    "bit (0xff0000 :: int) n \<longleftrightarrow> 16 \<le> n \<and> n < 24" "bit (0xff000000 :: int) n \<longleftrightarrow> 24 \<le> n \<and> n < 32"
    unfolding m by (auto simp: bit_push_bit_iff bit_mask_iff)
qed

lemma ntohs_bytes: "ntohs (le16 a b) = le16 b a"
  by (rule bit_word_eqI) (auto simp: ntohs_def le16_def bit_simps bit_masks dest: bit_imp_le_length)

lemma bit_ntohs: "bit (ntohs w) n \<longleftrightarrow> n < 16 \<and> bit w (if n < 8 then n + 8 else n - 8)"
  by (auto simp: ntohs_def bit_simps bit_masks add.commute dest: bit_imp_le_length)

lemma ntohs_ntohs: "ntohs (ntohs w) = w"
  by (rule bit_word_eqI) (auto simp: bit_ntohs)

lemma bit_ntohl:
  "bit (ntohl w) n \<longleftrightarrow> n < 32 \<and>
     bit w (if n < 8 then n + 24 else if n < 16 then n + 8 else if n < 24 then n - 8 else n - 24)"
  by (auto simp: ntohl_def bit_simps bit_masks add.commute dest: bit_imp_le_length)

lemma ntohl_ntohl: "ntohl (ntohl w) = w"
  by (rule bit_word_eqI) (auto simp: bit_ntohl)

section \<open>The checksum as arithmetic modulo 65535\<close>

fun word_sum :: "u8 list \<Rightarrow> nat" where
  "word_sum [] = 0"
| "word_sum [a] = unat a"
| "word_sum (a # b # xs) = unat a + 256 * unat b + word_sum xs"

lemma unat_u8: "unat (a :: u8) < 256" "unat (w :: u16) < 65536"
  using unsigned_less [of a] unsigned_less [of w] by simp_all

lemma unat_widen [simp]:
  "unat (ucast (a :: u8) :: u32) = unat a" "unat (ucast (a :: u8) :: u16) = unat a" "unat (ucast (w :: u16) :: u32) = unat w"
  using unat_u8(1) [of a] unat_u8(2) [of w] by (simp_all add: unsigned_ucast_eq take_bit_nat_eq_self)

lemma unat_le16: "unat (le16 a b) = unat a + 256 * unat b"
proof -
  have "le16 a b = ucast a + push_bit 8 (ucast b)"
    unfolding le16_def by (rule disjunctive_add [symmetric]) (auto simp: bit_simps dest: bit_imp_le_length)
  also have "\<dots> = ucast a + 256 * ucast b" by (simp add: push_bit_eq_mult)
  finally have "unat (le16 a b) = (unat a + 256 * unat b) mod 65536"
    by (simp only: unat_word_ariths unat_widen) (simp add: mod_simps)
  moreover have "unat a + 256 * unat b < 65536" using unat_u8(1) [of a] unat_u8(1) [of b] by linarith
  ultimately show ?thesis by simp
qed

lemma word_sum_bound: "word_sum bs \<le> 65535 * length bs"
proof (induction bs rule: word_sum.induct)
  case (3 a b xs)
  then show ?case using unat_u8(1) [of a] unat_u8(1) [of b] by simp
next
  case (2 a)
  then show ?case using unat_u8(1) [of a] by simp
qed simp

lemma word_sum_append: "even (length xs) \<Longrightarrow> word_sum (xs @ ys) = word_sum xs + word_sum ys"
  by (induction xs rule: word_sum.induct) auto

lemma unat_sum_words: "unat acc + word_sum bs < 2 ^ 32 \<Longrightarrow> unat (sum_words acc bs) = unat acc + word_sum bs"
proof (induction acc bs rule: sum_words.induct)
  case (2 acc a)
  then show ?case by (simp add: unat_word_ariths)
next
  case (3 acc a b xs)
  have add: "unat (acc + ucast (le16 a b)) = unat acc + (unat a + 256 * unat b)"
    using 3(2) by (simp add: unat_word_ariths unat_le16)
  then show ?case using 3 by simp
qed simp

text \<open>Folding keeps the residue and does not reach 0.\<close>

lemma fold_sum_residue:
  "unat (fold_sum s) < 65536 \<and> unat (fold_sum s) mod 65535 = unat s mod 65535 \<and>
   (unat (fold_sum s) = 0 \<longleftrightarrow> unat s = 0)"
proof (induction s rule: fold_sum.induct)
  case (1 s)
  show ?case
  proof (cases "drop_bit 16 s \<noteq> 0")
    case True
    let ?t = "(s AND 0xffff) + drop_bit 16 s"
    have t: "unat ?t = unat s mod 65536 + unat s div 65536" by (rule fold_step(2) [OF True])
    have dm: "unat s = 65536 * (unat s div 65536) + unat s mod 65536" by simp
    have s: "unat s = 65535 * (unat s div 65536) + unat ?t" unfolding t using dm by linarith
    have "unat ?t = 0 \<longleftrightarrow> unat s = 0" unfolding t by (rule iffI) (use dm in linarith)+
    moreover have "unat ?t mod 65535 = unat s mod 65535" by (subst s) simp
    ultimately show ?thesis using 1 [OF True] True by (subst (1 2 3) fold_sum.simps) simp
  next
    case False
    then have "drop_bit 16 s = 0" by simp
    then have "unat s div 65536 = 0"
      using unat_drop_bit_eq [of 16 s] by (simp add: drop_bit_eq_div)
    then have "unat s < 65536" by (simp add: div_eq_0_iff)
    then show ?thesis using False by (simp add: fold_sum.simps [of s])
  qed
qed

lemma unat_not16: "unat (NOT w :: u16) = 65535 - unat w"
proof -
  have "uint w < 65536" "0 \<le> uint w" using unsigned_less [of w, where ?'a = int] by simp_all
  then have m: "(65535 - uint w) mod 65536 = 65535 - uint w" by (intro mod_pos_pos_trivial) linarith+
  have "65535 - uint w = 65536 + (- uint w - 1)" by simp
  then have "(- uint w - 1) mod 65536 = 65535 - uint w" using m by (metis mod_add_self1)
  then have "uint (NOT w) = 65535 - uint w" by (simp add: unsigned_not_eq take_bit_eq_mod not_int_def)
  then have "int (unat (NOT w)) = 65535 - int (unat w)" by simp
  then show ?thesis by linarith
qed

text \<open>The value of the checksum, for blocks so short that the 32-bit sum does not wrap.\<close>

lemma unat_checksum:
  assumes "unat s + word_sum bs < 2 ^ 32"
  obtains f where "f < 65536" "unat (checksum bs s) = 65535 - f" "f mod 65535 = (unat s + word_sum bs) mod 65535"
    "f = 0 \<longleftrightarrow> unat s + word_sum bs = 0"
proof -
  let ?f = "unat (fold_sum (sum_words s bs))"
  note res = fold_sum_residue [of "sum_words s bs", unfolded unat_sum_words [OF assms]]
  have "unat (ucast (fold_sum (sum_words s bs)) :: u16) = ?f"
    using res by (simp add: unsigned_ucast_eq take_bit_nat_eq_self)
  then have "unat (checksum bs s) = 65535 - ?f" unfolding checksum_def unat_not16 by (simp only:)
  then show thesis using res by (intro that [of ?f]) (elim conjE, assumption)+
qed

lemma checksum_0_iff:
  assumes "unat s + word_sum bs < 2 ^ 32"
  shows "checksum bs s = 0 \<longleftrightarrow> 0 < unat s + word_sum bs \<and> (unat s + word_sum bs) mod 65535 = 0"
proof -
  obtain f where f: "f < 65536" "unat (checksum bs s) = 65535 - f" "f mod 65535 = (unat s + word_sum bs) mod 65535"
    "f = 0 \<longleftrightarrow> unat s + word_sum bs = 0"
    using assms by (rule unat_checksum)
  have "checksum bs s = 0 \<longleftrightarrow> unat (checksum bs s) = 0" by (simp only: unat_eq_zero)
  also have "\<dots> \<longleftrightarrow> f = 65535" using f(1,2) by auto
  also have "\<dots> \<longleftrightarrow> f \<noteq> 0 \<and> f mod 65535 = 0" using f(1) by (auto simp: mod_eq_0_iff_dvd dest: dvd_imp_le)
  finally show ?thesis using f(3,4) by simp
qed

text \<open>A checksum stored over a zero field makes the checksum of the block zero.\<close>

lemma checksum_stored:
  assumes ev: "even (length xs)" and small: "unat s + word_sum xs + word_sum ys + 65535 < 2 ^ 32"
  defines "c \<equiv> checksum (xs @ [0, 0] @ ys) s"
  shows "checksum (xs @ [ucast c, ucast (drop_bit 8 c)] @ ys) s = 0"
proof -
  let ?T = "unat s + word_sum xs + word_sum ys"
  have sum: "word_sum (xs @ [a, b] @ ys) = word_sum xs + word_sum ys + (unat a + 256 * unat b)" for a b
    using word_sum_append [OF ev, of "[a, b] @ ys"] by simp
  have cb: "unat (ucast c :: u8) + 256 * unat (ucast (drop_bit 8 c) :: u8) = unat c"
  proof -
    have "unat (ucast c :: u8) = unat c mod 256" by (simp add: unsigned_ucast_eq take_bit_eq_mod)
    moreover have dr: "unat (drop_bit 8 c) = unat c div 256" using unat_drop_bit_eq [of 8 c] by (simp add: drop_bit_eq_div)
    then have "unat (drop_bit 8 c) < 256" using unat_u8(2) [of c] by (simp add: div_less_iff_less_mult)
    then have "unat (ucast (drop_bit 8 c) :: u8) = unat c div 256"
      by (simp only: unsigned_ucast_eq dr) (simp add: take_bit_nat_eq_self dr)
    ultimately show ?thesis by simp
  qed
  have lt: "unat s + word_sum (xs @ [0, 0] @ ys) < 2 ^ 32" using small by (simp only: sum) simp
  obtain f where f: "f < 65536" "unat c = 65535 - f" "f mod 65535 = ?T mod 65535" "f = 0 \<longleftrightarrow> ?T = 0"
  proof -
    obtain f where "f < 65536" "unat c = 65535 - f"
      "f mod 65535 = (unat s + word_sum (xs @ [0, 0] @ ys)) mod 65535"
      "f = 0 \<longleftrightarrow> unat s + word_sum (xs @ [0, 0] @ ys) = 0"
      using lt unfolding c_def by (rule unat_checksum)
    then show thesis using that [of f] unfolding sum by (simp only: unsigned_0 mult_0_right add_0_right add.assoc)
  qed
  let ?bs = "xs @ [ucast c, ucast (drop_bit 8 c)] @ ys"
  have tot: "unat s + word_sum ?bs = ?T + (65535 - f)" using sum cb f(2) by simp
  have "(?T + (65535 - f)) mod 65535 = 0"
  proof -
    have "(?T + (65535 - f)) mod 65535 = (f mod 65535 + (65535 - f)) mod 65535" unfolding f(3) by (simp add: mod_simps)
    also have "\<dots> = (f + (65535 - f)) mod 65535" by (simp add: mod_simps)
    finally show ?thesis using f(1) by simp
  qed
  moreover have "0 < ?T + (65535 - f)" using f(1,4) by auto
  moreover have "unat s + word_sum ?bs < 2 ^ 32" unfolding tot using small by simp
  ultimately show ?thesis using checksum_0_iff [of s ?bs] unfolding tot by simp
qed

lemma mod_add_cancel:
  assumes "((t::nat) + x) mod m = (t + y) mod m" shows "x mod m = y mod m"
proof -
  have "int (t + x) mod int m = int (t + y) mod int m" using assms by (simp only: of_nat_mod [symmetric])
  then have "(int (t + x) - int t) mod int m = (int (t + y) - int t) mod int m" by (rule mod_diff_cong) simp
  then have "int x mod int m = int y mod int m" by simp
  then show ?thesis by (simp only: of_nat_mod [symmetric] of_nat_eq_iff)
qed

lemma checksum_change:
  assumes ev: "even (length xs)" and small: "unat s + word_sum xs + word_sum ys + 65535 < 2 ^ 32"
    and ok: "checksum (xs @ [a, b] @ ys) s = 0" and ne: "le16 a b \<noteq> le16 a' b'"
    and zeros: "\<not> (le16 a b \<in> {0, -1} \<and> le16 a' b' \<in> {0, -1})"
  shows "checksum (xs @ [a', b'] @ ys) s \<noteq> 0"
proof
  assume ok': "checksum (xs @ [a', b'] @ ys) s = 0"
  let ?T = "unat s + word_sum xs + word_sum ys"
  have sum: "word_sum (xs @ [c, d] @ ys) = word_sum xs + word_sum ys + unat (le16 c d)" for c d
    using word_sum_append [OF ev, of "[c, d] @ ys"] by (simp add: unat_le16)
  have lt: "unat s + word_sum (xs @ [c, d] @ ys) < 2 ^ 32" for c d
    unfolding sum using small unat_u8(2) [of "le16 c d"] by simp
  have z: "(?T + unat (le16 c d)) mod 65535 = 0" if "checksum (xs @ [c, d] @ ys) s = 0" for c d
    using checksum_0_iff [OF lt, of c d] that unfolding sum by (simp add: add.assoc)
  have "(?T + unat (le16 a b)) mod 65535 = (?T + unat (le16 a' b')) mod 65535" using z ok ok' by simp
  then have cong: "unat (le16 a b) mod 65535 = unat (le16 a' b') mod 65535"
    by (rule mod_add_cancel)
  have unat_minus16: "unat (-1 :: u16) = 65535" by (simp add: unsigned_minus_1_eq_mask mask_eq_exp_minus_1)
  have res: "unat w mod 65535 = (if w = -1 then 0 else unat w)" for w :: u16
  proof (cases "w = -1")
    case True
    then show ?thesis by (simp only: unat_minus16) simp
  next
    case False
    then have "unat w \<noteq> 65535" unfolding unat_minus16 [symmetric] by (simp only: word_unat_eq_iff not_False_eq_True)
    then have "unat w < 65535" using unat_u8(2) [of w] by simp
    then show ?thesis using False by simp
  qed
  show False
  proof (cases "le16 a b = -1 \<or> le16 a' b' = -1")
    case True
    then show ?thesis using cong ne zeros unfolding res by (auto simp: unat_eq_zero split: if_splits)
  next
    case False
    then have "unat (le16 a b) = unat (le16 a' b')" using cong unfolding res by simp
    then show ?thesis using ne by (simp only: word_unat_eq_iff)
  qed
qed


text \<open>C26. The Internet checksum does what RFC 1071 asks of it, for a block and a pseudo header
  whose 32-bit sum does not wrap (any packet of this system): stored over a zeroed field at an even offset it
  makes the receiver's checksum of the block 0; and if the checksum of a block is 0, then replacing
  any one 16-bit word by another is detected, except that all-zero and all-one words are the same.\<close>
theorem checksum_verifies_and_detects:
  assumes "even (length xs)" and "unat s + word_sum xs + word_sum ys + 65535 < 2 ^ 32"
  shows "(let c = checksum (xs @ [0, 0] @ ys) s
          in checksum (xs @ [ucast c, ucast (drop_bit 8 c)] @ ys) s = 0) \<and>
    (\<forall>a b a' b'. checksum (xs @ [a, b] @ ys) s = 0 \<longrightarrow> le16 a b \<noteq> le16 a' b' \<longrightarrow>
      \<not> (le16 a b \<in> {0, -1} \<and> le16 a' b' \<in> {0, -1}) \<longrightarrow> checksum (xs @ [a', b'] @ ys) s \<noteq> 0)"
  using checksum_stored [OF assms] checksum_change [OF assms] by (simp add: Let_def)

theorem checksum_verifies_and_detects_witness:
  "let c = checksum ([0x45, 0] @ [0, 0] @ [0x12]) 7 in checksum ([0x45, 0] @ [ucast c, ucast (drop_bit 8 c)] @ [0x12]) 7 = 0"
  by (rule conjunct1 [OF checksum_verifies_and_detects]) simp_all

section \<open>Dotted addresses\<close>

lemma ip_octet_numeral: "0 \<le> n \<Longrightarrow> n \<le> 255 \<Longrightarrow> ip_octet i 0 (numeral_of 10 n @ rest) = ip_octet i n rest"
proof (induction "10::int" n arbitrary: rest rule: numeral_of.induct)
  case (1 n)
  have c: "isdigit (digit (n mod 10))" "code (digit (n mod 10)) = n mod 10 + 48"
    by (simp_all add: isdigit_code digit_code)
  have z: "code CHR ''0'' = 48" by (simp add: code_def)
  show ?case
  proof (cases "0 < n div 10")
    case True
    then have "numeral_of 10 n = numeral_of 10 (n div 10) @ [digit (n mod 10)]" by (subst numeral_of.simps) simp
    moreover have "ip_octet i 0 (numeral_of 10 (n div 10) @ digit (n mod 10) # rest) = ip_octet i (n div 10) (digit (n mod 10) # rest)"
      by (rule 1(1)) (use True 1(2,3) in auto)
    ultimately show ?thesis using 1(3) by (simp add: c z Let_def)
  next
    case False
    then have "numeral_of 10 n = [digit (n mod 10)]" by (subst numeral_of.simps) simp
    moreover have "n mod 10 = n" using False 1(2) by (simp add: mod_pos_pos_trivial pos_imp_zdiv_pos_iff)
    ultimately show ?thesis using 1(3) c z by simp
  qed
qed

lemma itoa_octet: "0 \<le> n \<Longrightarrow> n \<le> 255 \<Longrightarrow> itoa n = Some (numeral_of 10 n)"
  by (simp add: itoa_def Let_def itoa_loop_numeral reverse_rev)

lemma uint_byte: "0 \<le> uint (w AND 0xFF :: u32)" "uint (w AND 0xFF :: u32) \<le> 255"
proof -
  have "w AND 0xFF = take_bit 8 w" by (simp add: take_bit_eq_mask mask_eq_exp_minus_1)
  then have "uint (w AND 0xFF) = uint w mod 256" by (simp only: unsigned_take_bit_eq) (simp add: take_bit_eq_mod)
  then show "0 \<le> uint (w AND 0xFF)" "uint (w AND 0xFF) \<le> 255" using pos_mod_bound [of 256 "uint w"] by simp_all
qed

lemma ntohl_octets:
  "ntohl w = (((w AND 0xFF) * 256 + (drop_bit 8 w AND 0xFF)) * 256 + (drop_bit 16 w AND 0xFF)) * 256 + (drop_bit 24 w AND 0xFF)"
proof -
  let ?A = "push_bit 24 (w AND 0xFF)" and ?B = "push_bit 16 (drop_bit 8 w AND 0xFF)"
    and ?C = "push_bit 8 (drop_bit 16 w AND 0xFF)" and ?D = "drop_bit 24 w AND 0xFF"
  have "ntohl w = ?A OR (?B OR (?C OR ?D))"
    by (rule bit_word_eqI) (auto simp: bit_ntohl bit_simps bit_masks add.commute dest: bit_imp_le_length)
  also have "\<dots> = ?A + (?B OR (?C OR ?D))" by (rule disjunctive_add [symmetric]) (auto simp: bit_simps bit_masks)
  also have "?B OR (?C OR ?D) = ?B + (?C OR ?D)" by (rule disjunctive_add [symmetric]) (auto simp: bit_simps bit_masks)
  also have "?C OR ?D = ?C + ?D" by (rule disjunctive_add [symmetric]) (auto simp: bit_simps bit_masks)
  finally show ?thesis by (simp add: push_bit_eq_mult algebra_simps)
qed

text \<open>C27. \<open>ip_to_int\<close> reads back what the kernel prints for an address: parsing the dotted form
  printed by \<open>%i\<close> for an address in network order gives the address in host order.\<close>
theorem ip_to_int_printf:
  "\<exists>s. printf_i x = Some s \<and> ip_to_int s = Some (ntohl x)"
proof -
  let ?n0 = "uint (drop_bit 24 x AND 0xFF)" and ?n1 = "uint (drop_bit 16 x AND 0xFF)"
    and ?n2 = "uint (drop_bit 8 x AND 0xFF)" and ?n3 = "uint (x AND 0xFF)"
  let ?num = "numeral_of 10"
  let ?s = "?num ?n3 @ ''.'' @ ?num ?n2 @ ''.'' @ ?num ?n1 @ ''.'' @ ?num ?n0"
  have p: "printf_i x = Some ?s" unfolding printf_i_def by (simp add: itoa_octet uint_byte)
  note b = uint_byte [of x] uint_byte [of "drop_bit 8 x"] uint_byte [of "drop_bit 16 x"] uint_byte [of "drop_bit 24 x"]
  have dot: "ip_octet i n (''.'' @ rest) = Some (Some (n, rest))" if "i < 3" for i n rest
    using that by (simp add: isdigit_code code_def)
  have o: "ip_octet 0 0 ?s = Some (Some (?n3, ?num ?n2 @ ''.'' @ ?num ?n1 @ ''.'' @ ?num ?n0))"
    "ip_octet (Suc 0) 0 (?num ?n2 @ ''.'' @ ?num ?n1 @ ''.'' @ ?num ?n0) = Some (Some (?n2, ?num ?n1 @ ''.'' @ ?num ?n0))"
    "ip_octet (Suc (Suc 0)) 0 (?num ?n1 @ ''.'' @ ?num ?n0) = Some (Some (?n1, ?num ?n0))"
    "ip_octet (Suc (Suc (Suc 0))) 0 (?num ?n0) = Some (Some (?n0, []))"
    using dot [of 0] dot [of "Suc 0"] dot [of "Suc (Suc 0)"] ip_octet_numeral [OF b(7,8), of "Suc (Suc (Suc 0))" "[]"]
    by (simp_all only: ip_octet_numeral [OF b(1,2)] ip_octet_numeral [OF b(3,4)] ip_octet_numeral [OF b(5,6)]) simp_all
  have l: "ip_loop (Suc k) i v t = ip_loop k (Suc i) (v * 256 + word_of_int n) t'"
    if "ip_octet i 0 t = Some (Some (n, t'))" "n \<le> 255" for k i v t n t'
    using that by simp
  have four: "(4 :: nat) = Suc (Suc (Suc (Suc 0)))" by simp
  have "ip_to_int ?s = Some (((((0 * 256 + word_of_int ?n3) * 256 + word_of_int ?n2) * 256) + word_of_int ?n1) * 256 + word_of_int ?n0)"
    unfolding ip_to_int_def four l [OF o(1) b(2)] l [OF o(2) b(4)] l [OF o(3) b(6)] l [OF o(4) b(8)] ip_loop.simps(1) ..
  then have "ip_to_int ?s = Some (ntohl x)" unfolding ntohl_octets by simp
  then show ?thesis using p by blast
qed

end
