(* ===== verification/Skb.thy ===== *)
theory Skb imports Fifo Net_Utils
begin

text \<open>
  Socket buffers (include/net/skb.h, net/skb.c). A buffer owns 0x600 bytes of memory, \<open>skb_mem\<close>; the
  pointers \<open>data\<close> and \<open>hdr.*\<close> into that memory are offsets; \<open>interface\<close> is an index of the interfaces. The second part is the queue of
  buffers, a singly linked list with head, tail and size in a store of buffers; the lock of the
  queue makes each operation one step. Last, the access to the fields of packed headers.
\<close>

section \<open>include/net/skb.h\<close>

abbreviation (input) SKB_SIZE :: nat where "SKB_SIZE \<equiv> 0x600"

record sk_buff =
  skb_next :: "nat option"
  skb_iface :: "nat option"
  hdr_eth :: "nat option"
  hdr_ip :: "nat option"
  hdr_udp :: "nat option"
  hdr_tcp :: "nat option"
  hdr_icmp :: "nat option"
  skb_len :: u16
  data_len :: u16
  skb_proto :: u16
  skb_mem :: "u8 list"
  skb_data :: nat
  retries :: int

text \<open>\<open>skb_new\<close> zeroes the structure and \<open>ALLOCATE_SKB\<close> its memory.\<close>

definition skb_new :: sk_buff where
  "skb_new = \<lparr>skb_next = None, skb_iface = None, hdr_eth = None, hdr_ip = None, hdr_udp = None, hdr_tcp = None, hdr_icmp = None,
     skb_len = 0, data_len = 0, skb_proto = 0, skb_mem = replicate SKB_SIZE 0, skb_data = 0, retries = 0\<rparr>"

type_synonym skb_heap = "nat \<Rightarrow> sk_buff"

record skb_queue =
  sq_head :: "nat option"
  sq_tail :: "nat option"
  sq_size :: int

section \<open>net/skb.c\<close>

definition skb_new_queue :: skb_queue where
  "skb_new_queue = \<lparr>sq_head = None, sq_tail = None, sq_size = 0\<rparr>"

text \<open>
  The queue's lock makes each operation one step. \<open>__skb_queue_add\<close> always returns 0 (its comment
  announces 1, or an error code); the result here is the state only.
\<close>

definition skb_queue_add :: "nat \<Rightarrow> skb_heap \<times> skb_queue \<Rightarrow> skb_heap \<times> skb_queue" where
  "skb_queue_add skb s =
     (let (h, q) = s;
          (h, q) = (case (sq_head q, sq_tail q) of
              (Some _, Some tail) \<Rightarrow>
                (let h = h(tail := (h tail)\<lparr>skb_next := Some skb\<rparr>);
                     q = q\<lparr>sq_tail := Some skb\<rparr>;
                     h = h(skb := (h skb)\<lparr>skb_next := None\<rparr>)
                 in (h, q))
            | _ \<Rightarrow> (h, q\<lparr>sq_head := Some skb, sq_tail := Some skb\<rparr>))
      in (h, q\<lparr>sq_size := sq_size q + 1\<rparr>))"

definition skb_queue_remove :: "skb_heap \<times> skb_queue \<Rightarrow> nat option \<times> skb_heap \<times> skb_queue" where
  "skb_queue_remove s =
     (let (h, q) = s in
      case sq_head q of None \<Rightarrow> (None, h, q)
      | Some next \<Rightarrow>
          (let q = q\<lparr>sq_head := skb_next (h next)\<rparr>;
               h = h(next := (h next)\<lparr>skb_next := None\<rparr>)
           in (Some next, h, q\<lparr>sq_size := sq_size q - 1\<rparr>)))"

section \<open>The queue\<close>

text \<open>
  \<open>skbs s xs\<close>: the queue holds the buffers \<open>xs\<close>. Removing the last buffer leaves the tail pointer
  behind, so the tail says nothing while the queue is empty.
\<close>

definition skbs :: "skb_heap \<times> skb_queue \<Rightarrow> nat list \<Rightarrow> bool" where
  "skbs s xs \<longleftrightarrow> chain (\<lambda>p. skb_next (fst s p)) (sq_head (snd s)) xs \<and>
     (xs \<noteq> [] \<longrightarrow> sq_tail (snd s) = Some (last xs)) \<and> sq_size (snd s) = int (length xs)"

definition skb_unlinked :: "nat \<Rightarrow> skb_heap \<times> skb_queue \<Rightarrow> nat list \<Rightarrow> bool" where
  "skb_unlinked skb s xs \<longleftrightarrow> skb \<notin> set xs \<and> skb_next (fst s skb) = None"

lemma skb_next_upd:
  "(\<lambda>p. skb_next ((h(a := (h a)\<lparr>skb_next := v\<rparr>)) p)) = (\<lambda>p. skb_next (h p))(a := v)"
  by (rule ext) simp

lemma skbs_add:
  assumes "skbs s xs" and "skb_unlinked x s xs"
  shows "skbs (skb_queue_add x s) (xs @ [x])"
proof -
  obtain h q where s: "s = (h, q)" by (cases s)
  have c: "chain (\<lambda>p. skb_next (h p)) (sq_head q) xs" and x: "x \<notin> set xs" "skb_next (h x) = None"
    and sz: "sq_size q = int (length xs)"
    using assms by (simp_all add: skbs_def skb_unlinked_def s)
  show ?thesis
  proof (cases "xs = []")
    case True
    then have "sq_head q = None" using c by simp
    then show ?thesis using True x sz by (simp add: skbs_def skb_queue_add_def s)
  next
    case False
    then obtain hd where hd: "sq_head q = Some hd" using c by (cases xs) auto
    have tl: "sq_tail q = Some (last xs)" using assms(1) False by (simp add: skbs_def s)
    have "chain ((\<lambda>p. skb_next (h p))(last xs := Some x, x := None)) (sq_head q) (xs @ [x])"
      by (rule chain_snoc [OF c False x(1)])
    moreover let ?h = "h(last xs := (h (last xs))\<lparr>skb_next := Some x\<rparr>)"
    have "(\<lambda>p. skb_next ((?h(x := (?h x)\<lparr>skb_next := None\<rparr>)) p)) = (\<lambda>p. skb_next (h p))(last xs := Some x, x := None)"
      unfolding skb_next_upd ..
    ultimately have "chain (\<lambda>p. skb_next ((?h(x := (?h x)\<lparr>skb_next := None\<rparr>)) p)) (sq_head q) (xs @ [x])"
      by (simp only:)
    moreover have "skb_queue_add x s =
        (?h(x := (?h x)\<lparr>skb_next := None\<rparr>), q\<lparr>sq_tail := Some x, sq_size := sq_size q + 1\<rparr>)"
      by (simp add: skb_queue_add_def s hd tl Let_def)
    ultimately show ?thesis using sz by (simp only: skbs_def fst_conv snd_conv) simp
  qed
qed

lemma skbs_remove_Cons:
  assumes "skbs s (x # xs)"
  shows "\<exists>s'. skb_queue_remove s = (Some x, s') \<and> skbs s' xs \<and> skb_unlinked x s' xs"
proof -
  obtain h q where s: "s = (h, q)" by (cases s)
  have c: "chain (\<lambda>p. skb_next (h p)) (sq_head q) (x # xs)" using assms by (simp add: skbs_def s)
  then have h: "sq_head q = Some x" and c': "chain (\<lambda>p. skb_next (h p)) (skb_next (h x)) xs" by auto
  have x: "x \<notin> set xs" using chain_distinct [OF c] by simp
  let ?s = "(h(x := (h x)\<lparr>skb_next := None\<rparr>), q\<lparr>sq_head := skb_next (h x), sq_size := sq_size q - 1\<rparr>)"
  have "chain (\<lambda>p. skb_next ((h(x := (h x)\<lparr>skb_next := None\<rparr>)) p)) (skb_next (h x)) xs"
    using c' chain_update [OF x, of "\<lambda>p. skb_next (h p)" None] unfolding skb_next_upd by simp
  then have "skbs ?s xs" using assms unfolding skbs_def s fst_conv snd_conv by (auto split: if_splits)
  then show ?thesis using h x by (auto simp: skb_queue_remove_def s skb_unlinked_def)
qed

lemma skbs_remove_Nil: "skbs s [] \<Longrightarrow> skb_queue_remove s = (None, s)"
  by (cases s) (simp add: skbs_def skb_queue_remove_def)

interpretation skbq: fifo skbs skb_unlinked "\<lambda>x s. Some (skb_queue_add x s)"
  "\<lambda>s. let (r, s') = skb_queue_remove s in Some (r, s')"
proof (unfold_locales)
  fix s x xs assume "skbs s (x # xs)"
  then show "\<exists>s'. (let (r, s') = skb_queue_remove s in Some (r, s')) = Some (Some x, s') \<and> skbs s' xs"
    using skbs_remove_Cons [of s x xs] by auto
qed (use skbs_add skbs_remove_Nil in auto)


section \<open>The queue under any sequence of operations\<close>

datatype skb_op = Add nat | Remove

fun skb_run :: "skb_op list \<Rightarrow> skb_heap \<times> skb_queue \<Rightarrow> nat option list \<times> skb_heap \<times> skb_queue" where
  "skb_run [] s = ([], s)"
| "skb_run (Add x # ops) s = skb_run ops (skb_queue_add x s)"
| "skb_run (Remove # ops) s =
     (let (r, s) = skb_queue_remove s; (rs, s) = skb_run ops s in (r # rs, s))"

text \<open>The specification: a list. \<open>fresh_adds\<close> is what callers owe, a buffer is not added twice.\<close>

fun list_run :: "skb_op list \<Rightarrow> nat list \<Rightarrow> nat option list \<times> nat list" where
  "list_run [] xs = ([], xs)"
| "list_run (Add x # ops) xs = list_run ops (xs @ [x])"
| "list_run (Remove # ops) xs =
     (let (rs, ys) = list_run ops (tl xs) in ((if xs = [] then None else Some (hd xs)) # rs, ys))"

fun fresh_adds :: "skb_op list \<Rightarrow> nat list \<Rightarrow> bool" where
  "fresh_adds [] xs \<longleftrightarrow> True"
| "fresh_adds (Add x # ops) xs \<longleftrightarrow> x \<notin> set xs \<and> fresh_adds ops (xs @ [x])"
| "fresh_adds (Remove # ops) xs \<longleftrightarrow> fresh_adds ops (tl xs)"

lemma skb_next_add: "p \<noteq> x \<Longrightarrow> skbs s xs \<Longrightarrow> p \<notin> set xs \<Longrightarrow> skb_next (fst (skb_queue_add x s) p) = skb_next (fst s p)"
  by (cases s; cases "xs = []") (auto simp: skb_queue_add_def skbs_def Let_def split: option.splits)

lemma skb_next_remove: "p \<noteq> x \<Longrightarrow> skb_queue_remove s = (Some x, s') \<Longrightarrow> skb_next (fst s' p) = skb_next (fst s p)"
  by (cases s) (auto simp: skb_queue_remove_def Let_def split: option.splits)

lemma skb_run_list:
  assumes "skbs s xs" and "\<forall>p. p \<notin> set xs \<longrightarrow> skb_next (fst s p) = None" and "fresh_adds ops xs"
  shows "fst (skb_run ops s) = fst (list_run ops xs) \<and> skbs (snd (skb_run ops s)) (snd (list_run ops xs))"
  using assms
proof (induction ops xs arbitrary: s rule: fresh_adds.induct)
  case (2 x ops xs)
  have u: "skb_unlinked x s xs" using 2(3,4) by (simp add: skb_unlinked_def)
  have "\<forall>p. p \<notin> set (xs @ [x]) \<longrightarrow> skb_next (fst (skb_queue_add x s) p) = None"
    using 2(2,3) skb_next_add [of _ x s xs] by simp
  then show ?case using 2(1) [OF skbs_add [OF 2(2) u]] 2(4) by simp
next
  case (3 ops xs)
  show ?case
  proof (cases xs)
    case Nil
    then show ?thesis using 3(1) [of s] 3(2-4) skbs_remove_Nil [of s] by (simp add: case_prod_unfold Let_def)
  next
    case (Cons x ys)
    then obtain s' where r: "skb_queue_remove s = (Some x, s')" "skbs s' ys" "skb_unlinked x s' ys"
      using 3(2) skbs_remove_Cons [of s x ys] by auto
    have "\<forall>p. p \<notin> set ys \<longrightarrow> skb_next (fst s' p) = None"
    proof (intro allI impI)
      fix p assume p: "p \<notin> set ys"
      show "skb_next (fst s' p) = None"
        using r(3) skb_next_remove [OF _ r(1), of p] p 3(3) Cons by (cases "p = x") (simp_all add: skb_unlinked_def)
    qed
    then show ?thesis using 3(1) [of s'] r 3(4) Cons by (simp add: case_prod_unfold Let_def)
  qed
qed simp

text \<open>C28. A queue of socket buffers behaves as a list under every sequence of adds and removes that
  never adds a buffer twice: removes return the buffers in the order of the adds and \<open>NULL\<close> exactly
  on the empty queue, and the size is the number of buffers, although the tail pointer is stale
  whenever the queue is empty.\<close>
theorem skb_queue_refines_list:
  assumes "\<forall>p. skb_next (h p) = None" and "fresh_adds ops []"
  shows "fst (skb_run ops (h, skb_new_queue)) = fst (list_run ops []) \<and>
    skbs (snd (skb_run ops (h, skb_new_queue))) (snd (list_run ops []))"
  by (rule skb_run_list) (use assms in \<open>simp_all add: skbs_def skb_new_queue_def\<close>)

theorem skb_queue_refines_list_witness:
  "fst (skb_run [Add 4, Add 7, Remove, Remove, Remove, Add 4, Remove] (\<lambda>_. skb_new, skb_new_queue)) =
     [Some 4, Some 7, None, Some 4]"
  using skb_queue_refines_list [of "\<lambda>_. skb_new" "[Add 4, Add 7, Remove, Remove, Remove, Add 4, Remove]"]
  by (simp add: skb_new_def)

end
