(* ===== verification/Net_Link.thy ===== *)
theory Net_Link imports Skb Libc_Mem
begin

text \<open>
  The lower half of the network stack: interfaces and their choice (kernel/kthreads/networking.c,
  net/routing.c), the ARP cache and ARP packets (net/arp.c) and Ethernet frames (net/ethernet.c).
  The packed headers of the protocols are the bytes they occupy in the memory of a socket buffer.
\<close>

text \<open>\<open>memcpy(skb->data, hdr, n)\<close>.\<close>

definition put_data :: "u8 list \<Rightarrow> sk_buff \<Rightarrow> sk_buff option" where
  "put_data bs skb = do { m \<leftarrow> mem_write (skb_mem skb) (int (skb_data skb)) bs; Some (skb\<lparr>skb_mem := m\<rparr>) }"

section \<open>Interfaces\<close>

record net_interface =
  if_ip :: u32
  if_up :: bool
  if_mac :: "u8 list"

abbreviation (input) LOOPBACK_IP :: u32 where "LOOPBACK_IP \<equiv> 0x7f000001"
abbreviation (input) BROADCAST_IP :: u32 where "BROADCAST_IP \<equiv> 0xffffffff"

text \<open>\<open>while (mask && (a & mask) == (b & mask)) { prefix_length++; mask >>= 1; }\<close>\<close>

function prefix_loop :: "u32 \<Rightarrow> u32 \<Rightarrow> u32 \<Rightarrow> int \<Rightarrow> int" where
  "prefix_loop a b msk prefix_length =
     (if msk \<noteq> 0 \<and> (a AND msk) = (b AND msk)
      then prefix_loop a b (drop_bit 1 msk) (prefix_length + 1) else prefix_length)"
  by auto
termination
proof (relation "measure (\<lambda>(a, b, m, n). unat m)", simp, simp)
  fix a b m :: u32
  assume "m \<noteq> 0 \<and> a AND m = b AND m"
  then have "0 < unat m" by (simp add: unat_gt_0)
  then show "unat (drop_bit (Suc 0) m) < unat m"
    by (simp add: drop_bit_Suc unat_div_distrib)
qed

declare prefix_loop.simps [simp del]

text \<open>The loop over the interfaces; \<open>best\<close> is \<open>best_match\<close> with \<open>longest_prefix_length\<close>.\<close>

fun iface_loop :: "u32 \<Rightarrow> nat \<Rightarrow> nat option \<Rightarrow> int \<Rightarrow> net_interface list \<Rightarrow> nat option" where
  "iface_loop ip i best_match longest [] = best_match"
| "iface_loop ip i best_match longest (f # ifs) =
     (let prefix_length = prefix_loop (if_ip f) ip 0x80000000 0
      in if longest < prefix_length then iface_loop ip (Suc i) (Some i) prefix_length ifs
         else iface_loop ip (Suc i) best_match longest ifs)"

definition net_get_iface :: "net_interface list \<Rightarrow> u32 \<Rightarrow> nat option" where
  "net_get_iface ifs ip = iface_loop ip 0 None (-1) ifs"

text \<open>At most four interfaces.\<close>

definition net_register_interface :: "net_interface list \<Rightarrow> net_interface \<Rightarrow> int \<times> net_interface list" where
  "net_register_interface ifs f = (if 4 \<le> length ifs then (-1, ifs) else (0, ifs @ [f]))"

text \<open>\<open>gw\<close> is what \<open>dhcp_get_gw()\<close> returns.\<close>

definition route :: "u32 \<Rightarrow> u32 \<Rightarrow> u32" where
  "route gw destination = (if destination = htonl LOOPBACK_IP then LOOPBACK_IP else htonl gw)"

section \<open>The ARP cache\<close>

abbreviation (input) MAX_ARP_ENTRIES :: nat where "MAX_ARP_ENTRIES \<equiv> 25"

record arp_entry =
  smac :: "u8 list"
  sip :: u32

type_synonym arp_table = "arp_entry list"

definition net_init_arp :: "arp_table \<Rightarrow> arp_table" where
  "net_init_arp t = (map (\<lambda>e. e\<lparr>sip := 0\<rparr>) t)[0 := \<lparr>smac = replicate 6 255, sip = BROADCAST_IP\<rparr>]"

text \<open>The table before \<open>net_init_arp\<close>, in zeroed memory.\<close>

definition arp_zero :: arp_table where
  "arp_zero = replicate MAX_ARP_ENTRIES \<lparr>smac = replicate 6 0, sip = 0\<rparr>"

definition net_arp_add_entry :: "u8 list \<Rightarrow> u32 \<Rightarrow> arp_table \<Rightarrow> int \<times> arp_table" where
  "net_arp_add_entry mac ip t =
     (if first_index (\<lambda>i. smac (t ! i) = mac) MAX_ARP_ENTRIES \<noteq> None then (1, t)
      else case first_index (\<lambda>i. sip (t ! i) = 0) MAX_ARP_ENTRIES of
             Some i \<Rightarrow> (1, t[i := \<lparr>smac = mac, sip = ip\<rparr>])
           | None \<Rightarrow> (0, t))"

definition net_arp_find_entry :: "u32 \<Rightarrow> arp_table \<Rightarrow> int \<times> u8 list option" where
  "net_arp_find_entry ip t =
     (case first_index (\<lambda>i. sip (t ! i) = ip) MAX_ARP_ENTRIES of
        Some i \<Rightarrow> (1, Some (smac (t ! i))) | None \<Rightarrow> (-1, None))"

section \<open>Ethernet\<close>

abbreviation (input) ETHER_HDR_LENGTH :: nat where "ETHER_HDR_LENGTH \<equiv> 14"
abbreviation (input) IP :: u16 where "IP \<equiv> 0x0800"
abbreviation (input) ARP :: u16 where "ARP \<equiv> 0x0806"

definition net_ethernet_add_header ::
    "arp_table \<Rightarrow> net_interface \<Rightarrow> sk_buff \<Rightarrow> u32 \<Rightarrow> (int \<times> sk_buff) option" where
  "net_ethernet_add_header arp ifc skb ip =
     (let skb = skb\<lparr>skb_len := skb_len skb + 14\<rparr> in
      case net_arp_find_entry (ntohl ip) arp of
        (ret, Some dmac) \<Rightarrow> do {
          skb \<leftarrow> put_data (dmac @ if_mac ifc @ le16_bytes (htons (skb_proto skb))) skb;
          Some (0, skb\<lparr>skb_data := skb_data skb + ETHER_HDR_LENGTH\<rparr>) }
      | (ret, None) \<Rightarrow> Some (ret, skb))"

definition net_ethernet_parse :: "net_interface \<Rightarrow> sk_buff \<Rightarrow> (int \<times> sk_buff) option" where
  "net_ethernet_parse ifc skb = do {
     let p = skb_data skb;
     ty \<leftarrow> u16_at (skb_mem skb) (p + 12);
     m \<leftarrow> mem_write (skb_mem skb) (int (p + 12)) (le16_bytes (ntohs ty));
     let skb = skb\<lparr>skb_mem := m, hdr_eth := Some p, skb_data := p + ETHER_HDR_LENGTH\<rparr>;
     dmac \<leftarrow> mem_read m (int p) 6;
     Some (if dmac = if_mac ifc \<or> dmac = replicate 6 255 then 0 else -1, skb) }"

section \<open>The choice of the interface\<close>

text \<open>\<open>common a b k\<close>: the k most significant bits agree.\<close>

definition common :: "u32 \<Rightarrow> u32 \<Rightarrow> nat \<Rightarrow> bool" where
  "common a b k \<longleftrightarrow> (\<forall>n. 32 - k \<le> n \<and> n < 32 \<longrightarrow> bit a n = bit b n)"

lemma common_0 [simp]: "common a b 0"
  by (auto simp: common_def)

lemma common_mono: "common a b k \<Longrightarrow> j \<le> k \<Longrightarrow> common a b j"
  by (auto simp: common_def)

lemma and_bit_eq: "n < 32 \<Longrightarrow> ((a :: u32) AND push_bit n 1) = (b AND push_bit n 1) \<longleftrightarrow> bit a n = bit b n"
proof
  assume eq: "(a AND push_bit n 1) = (b AND push_bit n 1)" and n: "n < 32"
  have "bit (a AND push_bit n 1) n = bit (b AND push_bit n 1) n" by (simp only: eq)
  then show "bit a n = bit b n" using n by (simp add: bit_simps)
qed (auto intro!: bit_word_eqI simp: bit_simps)

lemma prefix_loop_common:
  "j \<le> 32 \<Longrightarrow> common a b (32 - j) \<Longrightarrow> m = (if j = 0 then 0 else push_bit (j - 1) 1) \<Longrightarrow>
   \<exists>k. prefix_loop a b m (int (32 - j)) = int k \<and> k \<le> 32 \<and> common a b k \<and> (k < 32 \<longrightarrow> \<not> common a b (Suc k))"
proof (induction j arbitrary: m)
  case 0
  then show ?case by (intro exI [of _ 32]) (simp add: prefix_loop.simps)
next
  case (Suc j)
  have m: "m = push_bit j 1" using Suc.prems by simp
  have "bit m j" unfolding m using Suc.prems(1) by (simp add: bit_simps)
  then have nz: "m \<noteq> 0" by auto
  have bits: "(a AND m) = (b AND m) \<longleftrightarrow> bit a j = bit b j" unfolding m by (rule and_bit_eq) (use Suc.prems in simp)
  have ext: "common a b (32 - j) \<longleftrightarrow> bit a j = bit b j"
  proof -
    have "32 - (32 - j) = j" "32 - (32 - Suc j) = Suc j" using Suc.prems(1) by simp_all
    moreover have "j \<le> n \<and> n < 32 \<longleftrightarrow> n = j \<or> (Suc j \<le> n \<and> n < 32)" for n using Suc.prems(1) by arith
    ultimately have "common a b (32 - j) \<longleftrightarrow> bit a j = bit b j \<and> common a b (32 - Suc j)"
      unfolding common_def by simp blast
    then show ?thesis using Suc.prems(2) by simp
  qed
  show ?case
  proof (cases "bit a j = bit b j")
    case True
    have "drop_bit 1 m = (if j = 0 then 0 else push_bit (j - 1) 1)"
      unfolding m using Suc.prems(1) by (intro bit_word_eqI) (auto simp: bit_simps)
    moreover have "prefix_loop a b m (int (32 - Suc j)) = prefix_loop a b (drop_bit 1 m) (int (32 - j))"
      using nz bits True Suc.prems(1) by (subst prefix_loop.simps) (simp add: of_nat_diff)
    ultimately show ?thesis using Suc.IH [of "drop_bit 1 m"] Suc.prems(1) ext True by simp
  next
    case False
    then have "prefix_loop a b m (int (32 - Suc j)) = int (32 - Suc j)"
      using bits by (subst prefix_loop.simps) simp
    moreover have "Suc (32 - Suc j) = 32 - j" using Suc.prems(1) by simp
    then have "\<not> common a b (Suc (32 - Suc j))" using ext False by simp
    ultimately show ?thesis using Suc.prems(2) by (intro exI [of _ "32 - Suc j"]) simp
  qed
qed

definition plen :: "u32 \<Rightarrow> u32 \<Rightarrow> int" where
  "plen a b = prefix_loop a b 0x80000000 0"

lemma plen_common: "\<exists>k. plen a b = int k \<and> k \<le> 32 \<and> common a b k \<and> (k < 32 \<longrightarrow> \<not> common a b (Suc k))"
proof -
  have "\<exists>k. prefix_loop a b (push_bit 31 1) (int (32 - 32)) = int k \<and> k \<le> 32 \<and> common a b k \<and> (k < 32 \<longrightarrow> \<not> common a b (Suc k))"
    by (rule prefix_loop_common) simp_all
  moreover have "(push_bit 31 1 :: u32) = 0x80000000" by (simp add: push_bit_eq_mult)
  ultimately show ?thesis unfolding plen_def by simp
qed

lemma common_plen: "k \<le> 32 \<Longrightarrow> common a b k \<longleftrightarrow> int k \<le> plen a b"
proof -
  assume k: "k \<le> 32"
  obtain l where l: "plen a b = int l" "l \<le> 32" "common a b l" "l < 32 \<longrightarrow> \<not> common a b (Suc l)"
    using plen_common [of a b] by blast
  show ?thesis
  proof (cases "k \<le> l")
    case True
    then show ?thesis using l(1) common_mono [OF l(3)] by simp
  next
    case False
    then have "\<not> common a b k" using l(4) k common_mono [of a b k "Suc l"] by auto
    then show ?thesis using l(1) False by simp
  qed
qed

text \<open>The loop invariant: \<open>best\<close> is the first of the best interfaces among \<open>seen\<close>.\<close>

definition best_of :: "u32 \<Rightarrow> net_interface list \<Rightarrow> nat \<Rightarrow> bool" where
  "best_of ip seen b \<longleftrightarrow> b < length seen \<and> (\<forall>j < length seen. plen (if_ip (seen ! j)) ip \<le> plen (if_ip (seen ! b)) ip) \<and>
     (\<forall>j < b. plen (if_ip (seen ! j)) ip < plen (if_ip (seen ! b)) ip)"

lemma best_of_snoc:
  assumes "best_of ip seen b"
  shows "best_of ip (seen @ [f]) (if plen (if_ip (seen ! b)) ip < plen (if_ip f) ip then length seen else b)"
proof -
  have nth: "(seen @ [f]) ! j = (if j < length seen then seen ! j else f)" if "j \<le> length seen" for j
    using that by (auto simp: nth_append)
  have b: "b < length seen" using assms by (simp add: best_of_def)
  show ?thesis
  proof (cases "plen (if_ip (seen ! b)) ip < plen (if_ip f) ip")
    case True
    have "plen (if_ip (seen ! j)) ip < plen (if_ip f) ip" if "j < length seen" for j
      using assms that True by (meson best_of_def le_less_trans)
    then show ?thesis using True nth by (simp add: best_of_def less_Suc_eq_le order.strict_implies_order le_less)
  next
    case False
    then have "\<forall>j < length (seen @ [f]). plen (if_ip ((seen @ [f]) ! j)) ip \<le> plen (if_ip ((seen @ [f]) ! b)) ip"
      using assms nth b by (simp add: best_of_def less_Suc_eq_le)
    moreover have "\<forall>j < b. plen (if_ip ((seen @ [f]) ! j)) ip < plen (if_ip ((seen @ [f]) ! b)) ip"
      using assms nth b by (simp add: best_of_def)
    ultimately show ?thesis using False b by (simp add: best_of_def)
  qed
qed

lemma iface_loop_best:
  "best_of ip seen b \<Longrightarrow>
   \<exists>b'. iface_loop ip (length seen) (Some b) (plen (if_ip (seen ! b)) ip) todo = Some b' \<and> best_of ip (seen @ todo) b'"
proof (induction todo arbitrary: seen b)
  case Nil
  then show ?case by simp
next
  case (Cons f todo)
  let ?b = "if plen (if_ip (seen ! b)) ip < plen (if_ip f) ip then length seen else b"
  have b: "b < length seen" using Cons.prems by (simp add: best_of_def)
  have "iface_loop ip (length seen) (Some b) (plen (if_ip (seen ! b)) ip) (f # todo) =
      iface_loop ip (length (seen @ [f])) (Some ?b) (plen (if_ip ((seen @ [f]) ! ?b)) ip) todo"
    using b by (simp add: Let_def nth_append plen_def)
  then show ?case using Cons.IH [OF best_of_snoc [OF Cons.prems, of f]] by simp
qed

lemma net_get_iface_best: "ifs \<noteq> [] \<Longrightarrow> \<exists>i. net_get_iface ifs ip = Some i \<and> best_of ip ifs i"
proof -
  assume "ifs \<noteq> []"
  then obtain f todo where ifs: "ifs = f # todo" by (cases ifs) auto
  have "0 \<le> plen (if_ip f) ip" using common_plen [of 0 "if_ip f" ip] by simp
  then have "net_get_iface ifs ip = iface_loop ip (length [f]) (Some 0) (plen (if_ip ([f] ! 0)) ip) todo"
    by (simp add: net_get_iface_def ifs Let_def plen_def)
  moreover have "best_of ip [f] 0" by (simp add: best_of_def)
  ultimately show ?thesis using iface_loop_best [of ip "[f]" 0 todo] ifs by simp
qed

text \<open>C29. \<open>net_get_iface\<close> is longest-prefix matching: it fails only without interfaces, no interface
  shares more leading bits with the address than the chosen one, and every interface before
  the chosen one shares fewer.\<close>
theorem net_get_iface_longest_prefix:
  "case net_get_iface ifs ip of
     None \<Rightarrow> ifs = []
   | Some i \<Rightarrow> i < length ifs \<and>
       (\<forall>j < length ifs. \<forall>k \<le> 32. common (if_ip (ifs ! j)) ip k \<longrightarrow> common (if_ip (ifs ! i)) ip k) \<and>
       (\<forall>j < i. \<exists>k \<le> 32. common (if_ip (ifs ! i)) ip k \<and> \<not> common (if_ip (ifs ! j)) ip k)"
proof (cases "ifs = []")
  case True
  then show ?thesis by (simp add: net_get_iface_def)
next
  case False
  then obtain i where i: "net_get_iface ifs ip = Some i" "best_of ip ifs i" using net_get_iface_best by blast
  have "\<exists>k \<le> 32. common (if_ip (ifs ! i)) ip k \<and> \<not> common (if_ip (ifs ! j)) ip k" if "j < i" for j
  proof -
    obtain l where "plen (if_ip (ifs ! i)) ip = int l" "l \<le> 32" using plen_common by blast
    moreover have "plen (if_ip (ifs ! j)) ip < plen (if_ip (ifs ! i)) ip" using i(2) that by (simp add: best_of_def)
    ultimately show ?thesis by (intro exI [of _ l]) (simp add: common_plen)
  qed
  moreover have "common (if_ip (ifs ! i)) ip k" if "j < length ifs" "k \<le> 32" "common (if_ip (ifs ! j)) ip k" for j k
    using i(2) that by (auto simp: best_of_def common_plen intro: order_trans)
  ultimately show ?thesis using i by (simp add: best_of_def)
qed

theorem net_get_iface_longest_prefix_witness:
  "\<exists>i. net_get_iface [\<lparr>if_ip = LOOPBACK_IP, if_up = True, if_mac = []\<rparr>] 0x0A000202 = Some i"
  using net_get_iface_longest_prefix [of "[\<lparr>if_ip = LOOPBACK_IP, if_up = True, if_mac = []\<rparr>]" "0x0A000202"]
  by (simp split: option.splits)


section \<open>The ARP cache as a list of hosts\<close>

text \<open>
  What the cache promises: \<open>hosts\<close> lists the known hosts in the order in which they were first seen.
  A host that is known keeps its first address, a new one is added while there is room.
\<close>

definition host_add :: "u8 list \<times> u32 \<Rightarrow> (u8 list \<times> u32) list \<Rightarrow> (u8 list \<times> u32) list" where
  "host_add h hosts = (if fst h \<in> fst ` set hosts \<or> MAX_ARP_ENTRIES \<le> length hosts then hosts else hosts @ [h])"

definition host_find :: "u32 \<Rightarrow> (u8 list \<times> u32) list \<Rightarrow> u8 list option" where
  "host_find ip hosts = map_of (map (\<lambda>(m, i). (i, m)) hosts) ip"

abbreviation (input) zero_mac :: "u8 list" where "zero_mac \<equiv> replicate 6 0"

definition arp_rep :: "arp_table \<Rightarrow> (u8 list \<times> u32) list \<Rightarrow> bool" where
  "arp_rep t hosts \<longleftrightarrow> length hosts \<le> MAX_ARP_ENTRIES \<and>
     t = map (\<lambda>(m, i). \<lparr>smac = m, sip = i\<rparr>) hosts @ replicate (MAX_ARP_ENTRIES - length hosts) \<lparr>smac = zero_mac, sip = 0\<rparr> \<and>
     (\<forall>(m, i) \<in> set hosts. m \<noteq> zero_mac \<and> i \<noteq> 0)"

lemma arp_rep_nth:
  assumes "arp_rep t hosts" and "i < MAX_ARP_ENTRIES"
  shows "smac (t ! i) = (if i < length hosts then fst (hosts ! i) else zero_mac)"
    and "sip (t ! i) = (if i < length hosts then snd (hosts ! i) else 0)"
  using assms by (auto simp: arp_rep_def nth_append split: prod.splits)

lemma arp_rep_hosts:
  assumes "arp_rep t hosts" and "i < length hosts"
  shows "fst (hosts ! i) \<noteq> zero_mac" "snd (hosts ! i) \<noteq> 0"
proof -
  have "hosts ! i \<in> set hosts" using assms(2) by simp
  then show "fst (hosts ! i) \<noteq> zero_mac" "snd (hosts ! i) \<noteq> 0" using assms(1) by (auto simp: arp_rep_def case_prod_unfold)
qed

lemma arp_add_rep:
  assumes rep: "arp_rep t hosts" and m: "m \<noteq> zero_mac" and ip: "ip \<noteq> 0"
  shows "arp_rep (snd (net_arp_add_entry m ip t)) (host_add (m, ip) hosts)"
    and "fst (net_arp_add_entry m ip t) = (if m \<in> fst ` set (host_add (m, ip) hosts) then 1 else 0)"
proof -
  have len: "length hosts \<le> 25" using rep by (simp add: arp_rep_def)
  have known: "first_index (\<lambda>i. smac (t ! i) = m) 25 \<noteq> None \<longleftrightarrow> m \<in> fst ` set hosts"
  proof -
    have "(\<exists>i < 25. smac (t ! i) = m) \<longleftrightarrow> (\<exists>i < length hosts. fst (hosts ! i) = m)"
    proof
      assume "\<exists>i < 25. smac (t ! i) = m"
      then obtain i where i: "i < 25" "smac (t ! i) = m" by blast
      then have "i < length hosts" using arp_rep_nth(1) [OF rep i(1)] m by (cases "i < length hosts") simp_all
      then show "\<exists>i < length hosts. fst (hosts ! i) = m" using arp_rep_nth(1) [OF rep i(1)] i(2) by auto
    next
      assume "\<exists>i < length hosts. fst (hosts ! i) = m"
      then obtain i where i: "i < length hosts" "fst (hosts ! i) = m" by blast
      then have "i < 25" using len by simp
      then show "\<exists>i < 25. smac (t ! i) = m" using arp_rep_nth(1) [OF rep, of i] i by auto
    qed
    also have "\<dots> \<longleftrightarrow> m \<in> fst ` set hosts" by (metis (no_types, lifting) image_iff in_set_conv_nth)
    finally show ?thesis by (auto simp: find_from_None_iff)
  qed
  have free: "first_index (\<lambda>i. sip (t ! i) = 0) 25 = (if length hosts < 25 then Some (length hosts) else None)"
  proof (cases "length hosts < 25")
    case True
    then show ?thesis using arp_rep_nth(2) [OF rep] arp_rep_hosts(2) [OF rep] by (simp add: find_from_least)
  next
    case False
    then show ?thesis using arp_rep_nth(2) [OF rep] arp_rep_hosts(2) [OF rep] by (simp add: find_from_None_iff)
  qed
  let ?e = "\<lambda>(m, i). \<lparr>smac = m, sip = i\<rparr>" and ?z = "\<lparr>smac = zero_mac, sip = 0\<rparr>"
  have upd: "t[length hosts := \<lparr>smac = m, sip = ip\<rparr>] = map ?e (hosts @ [(m, ip)]) @ replicate (25 - length (hosts @ [(m, ip)])) ?z"
    if "length hosts < 25"
  proof -
    have r: "replicate (25 - length hosts) ?z = ?z # replicate (25 - length (hosts @ [(m, ip)])) ?z"
      using that by (simp add: replicate_Suc [symmetric] del: replicate_Suc)
    have t: "t = map ?e hosts @ ?z # replicate (25 - length (hosts @ [(m, ip)])) ?z" using rep r by (simp only: arp_rep_def)
    show ?thesis by (subst t) (simp add: list_update_append)
  qed
  consider "m \<in> fst ` set hosts" | "m \<notin> fst ` set hosts" "length hosts < 25" | "m \<notin> fst ` set hosts" "length hosts = 25"
    using len by fastforce
  then show "arp_rep (snd (net_arp_add_entry m ip t)) (host_add (m, ip) hosts)"
  proof cases
    case 1
    then show ?thesis using known rep by (simp add: net_arp_add_entry_def host_add_def)
  next
    case 2
    have h: "host_add (m, ip) hosts = hosts @ [(m, ip)]" using 2 by (simp add: host_add_def)
    have a: "snd (net_arp_add_entry m ip t) = t[length hosts := \<lparr>smac = m, sip = ip\<rparr>]"
      using known free 2 by (simp add: net_arp_add_entry_def)
    have "\<forall>(m, i) \<in> set (hosts @ [(m, ip)]). m \<noteq> zero_mac \<and> i \<noteq> 0" using rep m ip by (auto simp: arp_rep_def)
    moreover have "length (hosts @ [(m, ip)]) \<le> 25" using 2 by simp
    ultimately show ?thesis using upd [OF 2(2)] unfolding h a arp_rep_def by blast
  next
    case 3
    then show ?thesis using known free rep by (simp add: net_arp_add_entry_def host_add_def)
  qed
  show "fst (net_arp_add_entry m ip t) = (if m \<in> fst ` set (host_add (m, ip) hosts) then 1 else 0)"
    using known free len by (auto simp: net_arp_add_entry_def host_add_def)
qed

lemma arp_find_rep:
  assumes rep: "arp_rep t hosts" and ip: "ip \<noteq> 0"
  shows "net_arp_find_entry ip t = (case host_find ip hosts of Some m \<Rightarrow> (1, Some m) | None \<Rightarrow> (-1, None))"
proof -
  have len: "length hosts \<le> 25" using rep by (simp add: arp_rep_def)
  have "first_index (\<lambda>i. sip (t ! i) = ip) 25 = first_index (\<lambda>i. snd (hosts ! i) = ip) (length hosts)"
  proof (cases "first_index (\<lambda>i. snd (hosts ! i) = ip) (length hosts)")
    case None
    then have "\<forall>i < length hosts. snd (hosts ! i) \<noteq> ip" by (auto simp: find_from_None_iff)
    then have "first_index (\<lambda>i. sip (t ! i) = ip) 25 = None"
      using arp_rep_nth(2) [OF rep] ip by (auto simp: find_from_None_iff)
    then show ?thesis using None by simp
  next
    case (Some i)
    then have "i < length hosts" "snd (hosts ! i) = ip" "\<forall>j < i. snd (hosts ! j) \<noteq> ip" by (auto simp: find_from_Some_iff)
    then have "first_index (\<lambda>i. sip (t ! i) = ip) 25 = Some i"
      using arp_rep_nth(2) [OF rep] len by (intro find_from_least) auto
    then show ?thesis using Some by simp
  qed
  moreover have "host_find ip hosts = map_option (\<lambda>i. fst (hosts ! i)) (first_index (\<lambda>i. snd (hosts ! i) = ip) (length hosts))"
  proof (cases "first_index (\<lambda>i. snd (hosts ! i) = ip) (length hosts)")
    case None
    then have "\<forall>j < length hosts. snd (hosts ! j) \<noteq> ip" by (auto simp: find_from_None_iff)
    then have "ip \<notin> snd ` set hosts" by (metis (no_types, lifting) image_iff in_set_conv_nth)
    then show ?thesis using None by (force simp: host_find_def map_of_eq_None_iff)
  next
    case (Some i)
    then have i: "i < length hosts" "snd (hosts ! i) = ip" "\<forall>j < i. snd (hosts ! j) \<noteq> ip" by (auto simp: find_from_Some_iff)
    have "ip \<notin> snd ` set (take i hosts)"
    proof
      assume "ip \<in> snd ` set (take i hosts)"
      then obtain j where "j < length (take i hosts)" "snd (take i hosts ! j) = ip"
        by (metis (no_types, lifting) image_iff in_set_conv_nth)
      then show False using i by simp
    qed
    then have "map_of (map (\<lambda>(m, i). (i, m)) (take i hosts)) ip = None" by (force simp: map_of_eq_None_iff)
    moreover have "(case hosts ! i of (m, i) \<Rightarrow> (i, m)) = (ip, fst (hosts ! i))" using i(2) by (simp add: case_prod_unfold)
    ultimately have "map_of (map (\<lambda>(m, i). (i, m)) (take i hosts @ hosts ! i # drop (Suc i) hosts)) ip = Some (fst (hosts ! i))"
      by (simp add: map_add_def del: append_take_drop_id)
    then have "map_of (map (\<lambda>(m, i). (i, m)) hosts) ip = Some (fst (hosts ! i))"
      by (simp only: id_take_nth_drop [OF i(1), symmetric])
    then show ?thesis using Some by (simp add: host_find_def)
  qed
  moreover have "smac (t ! i) = fst (hosts ! i)" if "first_index (\<lambda>i. snd (hosts ! i) = ip) (length hosts) = Some i" for i
    using that arp_rep_nth(1) [OF rep, of i] len by (auto simp: find_from_Some_iff)
  ultimately show ?thesis
    by (cases "first_index (\<lambda>i. snd (hosts ! i) = ip) (length hosts)") (simp_all add: net_arp_find_entry_def)
qed

text \<open>C30. After \<open>net_init_arp\<close> and any sequence of additions of hosts with a non-zero address, the ARP
  cache answers every lookup as the list of the first 25 distinct hosts in the order in which they were first seen
  (the broadcast entry is the first): a host keeps the address it was first seen with, and the
  first host with an address answers for it.\<close>
theorem arp_cache_refines:
  assumes "\<forall>(m, i) \<in> set adds. m \<noteq> zero_mac \<and> i \<noteq> 0" and "ip \<noteq> 0"
  shows "net_arp_find_entry ip (fold (\<lambda>(m, i) t. snd (net_arp_add_entry m i t)) adds (net_init_arp arp_zero)) =
    (case host_find ip (fold host_add adds [(replicate 6 255, BROADCAST_IP)]) of
       Some m \<Rightarrow> (1, Some m) | None \<Rightarrow> (-1, None))"
proof -
  have "arp_rep (fold (\<lambda>(m, i) t. snd (net_arp_add_entry m i t)) adds t) (fold host_add adds hosts)"
    if "arp_rep t hosts" "\<forall>(m, i) \<in> set adds. m \<noteq> zero_mac \<and> i \<noteq> 0" for adds t hosts
    using that arp_add_rep(1) by (induction adds arbitrary: t hosts) auto
  moreover have "arp_rep (net_init_arp arp_zero) [(replicate 6 255, BROADCAST_IP)]"
  proof -
    have "(25 :: nat) = Suc 24" by simp
    then have "replicate 25 \<lparr>smac = zero_mac, sip = 0\<rparr> = \<lparr>smac = zero_mac, sip = 0\<rparr> # replicate 24 \<lparr>smac = zero_mac, sip = 0\<rparr>"
      by (simp only: replicate_Suc)
    moreover have "replicate 6 255 \<noteq> zero_mac" by (simp add: replicate_eq_replicate)
    ultimately show ?thesis by (simp add: arp_rep_def net_init_arp_def arp_zero_def)
  qed
  ultimately show ?thesis using arp_find_rep [OF _ assms(2)] assms(1) by blast
qed

theorem arp_cache_refines_witness:
  "net_arp_find_entry 7 (fold (\<lambda>(m, i) t. snd (net_arp_add_entry m i t))
     [([1, 2, 3, 4, 5, 6], 7), ([1, 2, 3, 4, 5, 6], 8), ([9, 2, 3, 4, 5, 6], 7)] (net_init_arp arp_zero)) = (1, Some [1, 2, 3, 4, 5, 6])"
proof -
  have h: "host_find 7 (fold host_add [([1, 2, 3, 4, 5, 6], 7), ([1, 2, 3, 4, 5, 6], 8), ([9, 2, 3, 4, 5, 6], 7)]
      [(replicate 6 255, BROADCAST_IP)]) = Some [1, 2, 3, 4, 5, 6]"
    by code_simp
  have "(7 :: u32) \<noteq> 0" by simp
  moreover have "\<forall>(m, i) \<in> set [([1, 2, 3, 4, 5, 6], 7), ([1, 2, 3, 4, 5, 6], 8), ([9, 2, 3, 4, 5, 6], 7 :: u32)]. m \<noteq> zero_mac \<and> i \<noteq> 0"
    by code_simp
  ultimately show ?thesis by (subst arp_cache_refines) (assumption, assumption, simp only: h option.case)
qed

end
