(* ===== verification/Net_Ip.thy ===== *)
theory Net_Ip imports Net_Link
begin

text \<open>
  IPv4 and ICMP (net/ipv4.c, net/icmp.c). The IPv4 header is a record; \<open>ip_bytes\<close> is its layout in
  memory (little endian, the low nibble of the first byte is \<open>ihl\<close>) and \<open>ip_header_at\<close> reads it back.
  The network configuration is the list of interfaces, the gateway and the ARP cache.
\<close>

section \<open>include/net/ipv4.h\<close>

record ip_header =
  ihl :: "4 word"
  version :: "4 word"
  tos :: u8
  ip_len :: u16
  ip_id :: u16
  frag_offset :: u16
  ttl :: u8
  ip_proto :: u8
  ip_csum :: u16
  saddr :: u32
  daddr :: u32

abbreviation (input) IPV4 :: "4 word" where "IPV4 \<equiv> 4"
abbreviation (input) ICMPV4 :: u8 where "ICMPV4 \<equiv> 1"
abbreviation (input) UDP :: u8 where "UDP \<equiv> 0x11"
abbreviation (input) TCP :: u8 where "TCP \<equiv> 0x06"

definition nibbles :: "4 word \<Rightarrow> 4 word \<Rightarrow> u8" where
  "nibbles lo hi = ucast lo OR push_bit 4 (ucast hi)"

definition ip_bytes :: "ip_header \<Rightarrow> u8 list" where
  "ip_bytes h = [nibbles (ihl h) (version h), tos h] @ le16_bytes (ip_len h) @ le16_bytes (ip_id h) @
     le16_bytes (frag_offset h) @ [ttl h, ip_proto h] @ le16_bytes (ip_csum h) @
     le32_bytes (saddr h) @ le32_bytes (daddr h)"

definition ip_header_at :: "u8 list \<Rightarrow> nat \<Rightarrow> ip_header option" where
  "ip_header_at m p =
     (if p + 20 \<le> length m
      then Some \<lparr>ihl = ucast (m ! p), version = ucast (drop_bit 4 (m ! p)), tos = m ! (p + 1),
             ip_len = le16 (m ! (p + 2)) (m ! (p + 3)), ip_id = le16 (m ! (p + 4)) (m ! (p + 5)),
             frag_offset = le16 (m ! (p + 6)) (m ! (p + 7)), ttl = m ! (p + 8), ip_proto = m ! (p + 9),
             ip_csum = le16 (m ! (p + 10)) (m ! (p + 11)),
             saddr = le32 (m ! (p + 12)) (m ! (p + 13)) (m ! (p + 14)) (m ! (p + 15)),
             daddr = le32 (m ! (p + 16)) (m ! (p + 17)) (m ! (p + 18)) (m ! (p + 19))\<rparr>
      else None)"

definition IP_HTONL :: "ip_header \<Rightarrow> ip_header" where
  "IP_HTONL h = h\<lparr>ip_len := htons (ip_len h), ip_id := htons (ip_id h), daddr := htonl (daddr h),
     saddr := saddr h, ip_csum := htons (ip_csum h), frag_offset := htons (frag_offset h)\<rparr>"

definition IP_NTOHL :: "ip_header \<Rightarrow> ip_header" where
  "IP_NTOHL h = h\<lparr>saddr := ntohl (saddr h), daddr := ntohl (daddr h), ip_len := ntohs (ip_len h),
     ip_id := ntohs (ip_id h)\<rparr>"

section \<open>net/ipv4.c\<close>

record net_config =
  ifs :: "net_interface list"
  gw :: u32
  arp :: arp_table

text \<open>
  The header that \<open>net_ipv4_add_header\<close> builds. \<open>ihl0\<close> is the value of \<open>hdr.ihl\<close> when the initialiser of
  \<open>.len\<close> reads it: the order of the initialisers is not specified in C.
\<close>

definition ipv4_header :: "4 word \<Rightarrow> u32 \<Rightarrow> u32 \<Rightarrow> u8 \<Rightarrow> u32 \<Rightarrow> ip_header" where
  "ipv4_header ihl0 src ip proto len =
     (let hdr = IP_HTONL \<lparr>ihl = 5, version = IPV4, tos = 0, ip_len = ucast (len + ucast ihl0 * 4), ip_id = 0,
            frag_offset = 0x4000, ttl = 64, ip_proto = proto, ip_csum = 0, saddr = src, daddr = ip\<rparr>
      in hdr\<lparr>ip_csum := checksum (take (unat (ihl hdr) * 4) (ip_bytes hdr)) 0\<rparr>)"

definition net_ipv4_add_header ::
    "net_config \<Rightarrow> 4 word \<Rightarrow> sk_buff \<Rightarrow> u32 \<Rightarrow> u8 \<Rightarrow> u32 \<Rightarrow> (int \<times> sk_buff) option" where
  "net_ipv4_add_header net ihl0 skb ip proto len =
     (let next_hop = route (gw net) ip in
      case net_get_iface (ifs net) next_hop of
        None \<Rightarrow> Some (-1, skb)
      | Some i \<Rightarrow>
          let iface = ifs net ! i;
              hdr = ipv4_header ihl0 (if_ip iface) ip proto len;
              skb = skb\<lparr>skb_iface := Some i, skb_proto := IP\<rparr>
          in do {
            (ret, skb) \<leftarrow> net_ethernet_add_header (arp net) iface skb next_hop;
            if ret < 0 then Some (ret, skb)
            else do {
              skb \<leftarrow> put_data (ip_bytes hdr) skb;
              Some (0, skb\<lparr>hdr_ip := Some (skb_data skb), skb_len := skb_len skb + ucast (ihl hdr) * 4,
                           skb_data := skb_data skb + unat (ihl hdr) * 4\<rparr>) } })"

fun count_dots :: "string \<Rightarrow> nat" where
  "count_dots [] = 0"
| "count_dots (c # ip) = (if c = CHR ''.'' then Suc (count_dots ip) else count_dots ip)"

definition net_is_ipv4 :: "string \<Rightarrow> bool" where
  "net_is_ipv4 ip \<longleftrightarrow> count_dots ip = 3"

text \<open>The header is rewritten in place; the sender is added to the cache when it is not found.\<close>

definition net_ipv4_parse :: "net_config \<Rightarrow> sk_buff \<Rightarrow> (int \<times> sk_buff \<times> arp_table) option" where
  "net_ipv4_parse net skb = do {
     let p = skb_data skb;
     hdr \<leftarrow> ip_header_at (skb_mem skb) p;
     let hdr_len = unat (ihl hdr) * 4;
     let skb = skb\<lparr>hdr_ip := Some p\<rparr>;
     bs \<leftarrow> mem_read (skb_mem skb) (int p) (int hdr_len);
     if checksum bs 0 \<noteq> 0 then Some (-1, skb, arp net)
     else do {
       let hdr = IP_NTOHL hdr;
       m \<leftarrow> mem_write (skb_mem skb) (int p) (ip_bytes hdr);
       let skb = skb\<lparr>skb_mem := m, skb_data := p + hdr_len\<rparr>;
       i \<leftarrow> skb_iface skb;
       if BROADCAST_IP \<noteq> ntohl (daddr hdr) \<and> ntohl (daddr hdr) \<noteq> if_ip (ifs net ! i) then Some (-1, skb, arp net)
       else if fst (net_arp_find_entry (saddr hdr) (arp net)) < 0
       then do {
         mac \<leftarrow> mem_read m 6 6;
         Some (0, skb, snd (net_arp_add_entry mac (ntohl (saddr hdr)) (arp net))) }
       else Some (0, skb, arp net) } }"

section \<open>net/icmp.c\<close>

abbreviation (input) ICMP_REPLY :: u8 where "ICMP_REPLY \<equiv> 0"
abbreviation (input) ICMP_V4_ECHO :: u8 where "ICMP_V4_ECHO \<equiv> 8"

definition icmp_bytes :: "u8 \<Rightarrow> u8 \<Rightarrow> u16 \<Rightarrow> u16 \<Rightarrow> u16 \<Rightarrow> u8 list" where
  "icmp_bytes ty cd csum ident seq = [ty, cd] @ le16_bytes csum @ le16_bytes ident @ le16_bytes seq"

text \<open>Appending \<open>n\<close> bytes of payload: \<open>memcpy(skb->data, \<dots>); skb->len += n; skb->data += n\<close>.\<close>

definition append_data :: "u8 list \<Rightarrow> sk_buff \<Rightarrow> sk_buff option" where
  "append_data bs skb = do {
     skb \<leftarrow> put_data bs skb;
     Some (skb\<lparr>skb_len := skb_len skb + of_nat (length bs), skb_data := skb_data skb + length bs\<rparr>) }"

text \<open>The buffer handed to \<open>net_send_skb\<close>, if any.\<close>

definition net_icmp_request :: "net_config \<Rightarrow> 4 word \<Rightarrow> u32 \<Rightarrow> (int \<times> sk_buff option) option" where
  "net_icmp_request net ihl0 ip = do {
     (ret, skb) \<leftarrow> net_ipv4_add_header net ihl0 skb_new ip ICMPV4 8;
     if ret < 0 then Some (-1, None)
     else do {
       let csum = checksum (icmp_bytes ICMP_V4_ECHO 0 (ntohs 0) (ntohs 0) (ntohs 0)) 0;
       skb \<leftarrow> append_data (icmp_bytes ICMP_V4_ECHO 0 csum (ntohs 0) (ntohs 0)) skb;
       Some (0, Some skb) } }"

definition net_icmp_parse :: "sk_buff \<Rightarrow> (int \<times> sk_buff) option" where
  "net_icmp_parse skb = do {
     let p = skb_data skb;
     bs \<leftarrow> mem_read (skb_mem skb) (int p) (max 0 (sint (skb_len skb)));
     csum \<leftarrow> u16_at (skb_mem skb) (p + 2);
     ident \<leftarrow> u16_at (skb_mem skb) (p + 4);
     seq \<leftarrow> u16_at (skb_mem skb) (p + 6);
     let skb = skb\<lparr>hdr_icmp := Some p, skb_data := p + 8\<rparr>;
     if checksum bs 0 \<noteq> 0 then Some (-1, skb)
     else do {
       m \<leftarrow> mem_write (skb_mem skb) (int (p + 2)) (le16_bytes (htons csum) @ le16_bytes (htons ident) @ le16_bytes (htons seq));
       Some (0, skb\<lparr>skb_mem := m\<rparr>) } }"

text \<open>
  \<open>net_icmp_handle\<close> answers an echo request. The reply is filled from \<open>&skb->hdr.icmp\<close>, the address of
  the pointer field: the eight bytes copied are the pointer (\<open>base\<close> is the address of the buffer's
  memory) and the fields \<open>len\<close> and \<open>data_len\<close> behind it. The result is the buffer sent.
\<close>

definition net_icmp_handle :: "net_config \<Rightarrow> 4 word \<Rightarrow> u32 \<Rightarrow> sk_buff \<Rightarrow> (sk_buff \<times> sk_buff option) option" where
  "net_icmp_handle net ihl0 base skb = do {
     p \<leftarrow> hdr_icmp skb;
     q \<leftarrow> hdr_ip skb;
     iph \<leftarrow> ip_header_at (skb_mem skb) q;
     if length (skb_mem skb) \<le> p then None
     else if skb_mem skb ! p \<noteq> ICMP_V4_ECHO then Some (skb, None)
     else do {
       m \<leftarrow> mem_write (skb_mem skb) (int p) [ICMP_REPLY];
       m \<leftarrow> mem_write m (int (p + 2)) (le16_bytes 0);
       bs \<leftarrow> mem_read m (int p) (max 0 (sint (skb_len skb)));
       m \<leftarrow> mem_write m (int (p + 2)) (le16_bytes (checksum bs 0));
       let skb = skb\<lparr>skb_mem := m\<rparr>;
       let response = le32_bytes (base + of_nat p) @ le16_bytes (skb_len skb) @ le16_bytes (data_len skb);
       (ret, out) \<leftarrow> net_ipv4_add_header net ihl0 skb_new (saddr iph) ICMPV4 8;
       if ret < 0 then Some (skb, None)
       else do { out \<leftarrow> append_data response out; Some (skb, Some out) } } }"


section \<open>The layout of the header\<close>

lemma length_ip_bytes [simp]: "length (ip_bytes h) = 20"
  by (simp add: ip_bytes_def le16_bytes_def le32_bytes_def)

lemma nibbles_parts: "ucast (nibbles lo hi) = lo" "ucast (drop_bit 4 (nibbles lo hi)) = hi"
proof -
  show "ucast (nibbles lo hi) = lo"
    by (rule bit_word_eqI) (auto simp: nibbles_def bit_simps)
  show "ucast (drop_bit 4 (nibbles lo hi)) = hi"
    by (rule bit_word_eqI) (auto simp: nibbles_def bit_simps dest: bit_imp_le_length)
qed

lemma ip_header_at_nth:
  assumes "p + 20 \<le> length m" and n: "\<forall>k < 20. m ! (p + k) = ip_bytes h ! k"
  shows "ip_header_at m p = Some h"
proof -
  have all: "m ! p = ip_bytes h ! 0" "m ! (p + 1) = ip_bytes h ! 1" "m ! (p + 2) = ip_bytes h ! 2" "m ! (p + 3) = ip_bytes h ! 3"
    "m ! (p + 4) = ip_bytes h ! 4" "m ! (p + 5) = ip_bytes h ! 5" "m ! (p + 6) = ip_bytes h ! 6" "m ! (p + 7) = ip_bytes h ! 7"
    "m ! (p + 8) = ip_bytes h ! 8" "m ! (p + 9) = ip_bytes h ! 9" "m ! (p + 10) = ip_bytes h ! 10" "m ! (p + 11) = ip_bytes h ! 11"
    "m ! (p + 12) = ip_bytes h ! 12" "m ! (p + 13) = ip_bytes h ! 13" "m ! (p + 14) = ip_bytes h ! 14" "m ! (p + 15) = ip_bytes h ! 15"
    "m ! (p + 16) = ip_bytes h ! 16" "m ! (p + 17) = ip_bytes h ! 17" "m ! (p + 18) = ip_bytes h ! 18" "m ! (p + 19) = ip_bytes h ! 19"
    by (use n [rule_format, of 0] in simp) (rule n [rule_format]; simp)+
  show ?thesis unfolding ip_header_at_def all using assms(1)
    by (simp add: ip_bytes_def le16_bytes_def le32_bytes_def nibbles_parts le16_le16_bytes le32_le32_bytes)
qed

lemma ip_header_at_bytes: "ip_header_at (xs @ ip_bytes h @ ys) (length xs) = Some h"
  by (rule ip_header_at_nth) (auto simp: nth_append)

lemma mem_write_inside:
  "length ys = length zs \<Longrightarrow> mem_write (xs @ ys @ ws) (int (length xs)) zs = Some (xs @ zs @ ws)"
  by (simp add: mem_write_def)

lemma mem_read_inside: "mem_read (xs @ ys @ ws) (int (length xs)) (int (length ys)) = Some ys"
  by (simp add: mem_read_def)

text \<open>A header built by the sender verifies at the receiver.\<close>

lemma word_sum_le: "length bs = n \<Longrightarrow> word_sum bs \<le> 65535 * n"
  using word_sum_bound [of bs] by simp

lemma checksum_ipv4_header: "checksum (ip_bytes (ipv4_header ihl0 src ip proto len)) 0 = 0"
proof -
  let ?h = "IP_HTONL \<lparr>ihl = 5, version = IPV4, tos = 0, ip_len = ucast (len + ucast ihl0 * 4), ip_id = 0,
            frag_offset = 0x4000, ttl = 64, ip_proto = proto, ip_csum = 0, saddr = src, daddr = ip\<rparr>"
  let ?xs = "[nibbles (ihl ?h) (version ?h), tos ?h] @ le16_bytes (ip_len ?h) @ le16_bytes (ip_id ?h) @
     le16_bytes (frag_offset ?h) @ [ttl ?h, ip_proto ?h]" and ?ys = "le32_bytes (saddr ?h) @ le32_bytes (daddr ?h)"
  have c0: "htons 0 = 0" by (simp add: htons_def ntohs_def)
  then have h: "ip_bytes ?h = ?xs @ [0, 0] @ ?ys"
    by (simp add: ip_bytes_def IP_HTONL_def le16_bytes_def [of 0])
  have "unat (ihl ?h) * 4 = 20" by (simp add: IP_HTONL_def)
  then have t: "take (unat (ihl ?h) * 4) (ip_bytes ?h) = ip_bytes ?h" by simp
  let ?c = "checksum (?xs @ [0, 0] @ ?ys) 0"
  have "ip_bytes (ipv4_header ihl0 src ip proto len) = ?xs @ [ucast ?c, ucast (drop_bit 8 ?c)] @ ?ys"
    unfolding ipv4_header_def Let_def t h [symmetric]
    by (simp add: ip_bytes_def le16_bytes_def [of "ip_csum (_\<lparr>ip_csum := _\<rparr>)"] IP_HTONL_def) (simp add: le16_bytes_def)
  moreover have "even (length ?xs)" by (simp add: le16_bytes_def)
  moreover have "unat (0 :: u32) + word_sum ?xs + word_sum ?ys + 65535 < 2 ^ 32"
    using word_sum_bound [of ?xs] word_sum_bound [of ?ys] by (simp add: le16_bytes_def le32_bytes_def)
  ultimately show ?thesis using checksum_stored [of ?xs 0 ?ys] by (simp only:)
qed


section \<open>Sending and receiving\<close>

definition macs_ok :: "net_config \<Rightarrow> bool" where
  "macs_ok net \<longleftrightarrow> (\<forall>f \<in> set (ifs net). length (if_mac f) = 6) \<and> length (arp net) = MAX_ARP_ENTRIES \<and>
     (\<forall>e \<in> set (arp net). length (smac e) = 6)"

lemma ethernet_add_header_new:
  assumes "net_ethernet_add_header t ifc skb ip = Some (ret, skb')" and "0 \<le> ret"
    and "length t = 25" "\<forall>e \<in> set t. length (smac e) = 6" and "length (if_mac ifc) = 6"
    and "skb_mem skb = replicate SKB_SIZE 0" "skb_data skb = 0"
  shows "\<exists>fr. length fr = 14 \<and> ret = 0 \<and>
     skb' = skb\<lparr>skb_len := skb_len skb + 14, skb_mem := fr @ replicate (SKB_SIZE - 14) 0, skb_data := 14\<rparr>"
proof -
  have f: "net_arp_find_entry ip' t = (-1, None) \<or> (\<exists>m. net_arp_find_entry ip' t = (1, Some m) \<and> length m = 6)" for ip'
    using assms(3,4) by (auto simp: net_arp_find_entry_def find_from_Some_iff split: option.splits)
  then obtain m where m: "net_arp_find_entry (ntohl ip) t = (1, Some m)" "length m = 6"
  proof (cases "net_arp_find_entry (ntohl ip) t = (-1, None)")
    case True
    then show ?thesis using assms(1,2) by (simp add: net_ethernet_add_header_def Let_def)
  qed (use f [of "ntohl ip"] that in blast)
  let ?fr = "m @ if_mac ifc @ le16_bytes (htons (skb_proto skb))"
  have "length ?fr = 14" using m(2) assms(5) by simp
  moreover have "mem_write (replicate SKB_SIZE 0) 0 ?fr = Some (?fr @ replicate (SKB_SIZE - 14) 0)"
    using m(2) assms(5) by (simp add: mem_write_def)
  ultimately show ?thesis
    using assms(1,6,7) m(1) by (intro exI [of _ ?fr]) (auto simp: net_ethernet_add_header_def put_data_def)
qed

text \<open>The frame of a header sent in a fresh buffer.\<close>

lemma ipv4_add_header_new:
  assumes "net_ipv4_add_header net ihl0 skb_new ip proto len = Some (ret, skb)" and "0 \<le> ret" and "macs_ok net"
  shows "\<exists>i fr. net_get_iface (ifs net) (route (gw net) ip) = Some i \<and> i < length (ifs net) \<and> length fr = 14 \<and> ret = 0 \<and>
     skb_mem skb = fr @ ip_bytes (ipv4_header ihl0 (if_ip (ifs net ! i)) ip proto len) @ replicate (SKB_SIZE - 34) 0 \<and>
     skb_data skb = 34 \<and> skb_len skb = 34 \<and> skb_iface skb = Some i \<and> hdr_ip skb = Some 14"
proof -
  obtain i where i: "net_get_iface (ifs net) (route (gw net) ip) = Some i"
    using assms(1,2) by (cases "net_get_iface (ifs net) (route (gw net) ip)") (auto simp: net_ipv4_add_header_def)
  then have "ifs net \<noteq> []" by (auto simp: net_get_iface_def)
  then obtain i' where "net_get_iface (ifs net) (route (gw net) ip) = Some i'" "best_of (route (gw net) ip) (ifs net) i'"
    using net_get_iface_best by blast
  then have il: "i < length (ifs net)" using i by (simp add: best_of_def)
  let ?f = "ifs net ! i" and ?hop = "route (gw net) ip"
  let ?h = "ipv4_header ihl0 (if_ip ?f) ip proto len" and ?s = "skb_new\<lparr>skb_iface := Some i, skb_proto := IP\<rparr>"
  have step: "net_ipv4_add_header net ihl0 skb_new ip proto len = do {
      (ret, skb) \<leftarrow> net_ethernet_add_header (arp net) ?f ?s ?hop;
      if ret < 0 then Some (ret, skb)
      else do { skb \<leftarrow> put_data (ip_bytes ?h) skb;
                Some (0, skb\<lparr>hdr_ip := Some (skb_data skb), skb_len := skb_len skb + ucast (ihl ?h) * 4,
                             skb_data := skb_data skb + unat (ihl ?h) * 4\<rparr>) } }"
    by (simp only: net_ipv4_add_header_def Let_def i option.case)
  obtain r1 s1 where e: "net_ethernet_add_header (arp net) ?f ?s ?hop = Some (r1, s1)"
    using assms(1) unfolding step by (cases "net_ethernet_add_header (arp net) ?f ?s ?hop") auto
  have r1: "0 \<le> r1" using assms(1,2) unfolding step e by (cases "r1 < 0") auto
  obtain fr where fr: "length fr = 14" "s1 = ?s\<lparr>skb_len := 14, skb_mem := fr @ replicate (SKB_SIZE - 14) 0, skb_data := 14\<rparr>"
    using ethernet_add_header_new [OF e r1] assms(3) il by (auto simp: macs_ok_def skb_new_def)
  have ihl: "ihl ?h = 5" by (simp add: ipv4_header_def IP_HTONL_def Let_def)
  have "SKB_SIZE - 14 = 20 + (SKB_SIZE - 34)" by simp
  then have rep: "replicate (SKB_SIZE - 14) (0 :: u8) = replicate 20 0 @ replicate (SKB_SIZE - 34) 0"
    by (simp only: replicate_add)
  have "mem_write (skb_mem s1) (int (skb_data s1)) (ip_bytes ?h) = Some (fr @ ip_bytes ?h @ replicate (SKB_SIZE - 34) 0)"
    using mem_write_inside [of "replicate 20 0" "ip_bytes ?h" fr "replicate (SKB_SIZE - 34) 0"] fr rep by simp
  then have put: "put_data (ip_bytes ?h) s1 = Some (s1\<lparr>skb_mem := fr @ ip_bytes ?h @ replicate (SKB_SIZE - 34) 0\<rparr>)"
    by (simp add: put_data_def)
  have "Some (ret, skb) = Some (0, s1\<lparr>skb_mem := fr @ ip_bytes ?h @ replicate (SKB_SIZE - 34) 0, hdr_ip := Some 14, skb_len := 34, skb_data := 34\<rparr>)"
    using assms(1) r1 unfolding step e bind.bind_lunit by (simp add: put ihl) (simp add: fr(2))
  then show ?thesis using i il fr by (auto simp: skb_new_def)
qed

text \<open>What a parser makes of a frame sent, byte for byte.\<close>

lemma ipv4_parse_sent:
  assumes "net_ipv4_add_header net ihl0 skb_new ip proto len = Some (0, skb)" and "macs_ok net"
    and "skb_data r = 14" and "skb_iface r = Some j" and "take 34 (skb_mem r) = take 34 (skb_mem skb)"
  shows "\<exists>i ret r' arp' h. net_get_iface (ifs net) (route (gw net) ip) = Some i \<and> skb_iface skb = Some i \<and>
     net_ipv4_parse net' r = Some (ret, r', arp') \<and>
     (ret = 0 \<longleftrightarrow> if_ip (ifs net' ! j) = htonl ip \<or> ip = BROADCAST_IP) \<and>
     ip_header_at (skb_mem r') 14 = Some h \<and> saddr h = ntohl (if_ip (ifs net ! i)) \<and> daddr h = ip \<and> ip_proto h = proto \<and>
     (ihl0 = 5 \<and> unat len + 20 < 65536 \<longrightarrow> unat (ip_len h) = unat len + 20) \<and>
     ihl h = 5 \<and> r' = r\<lparr>hdr_ip := Some 14, skb_mem := take 14 (skb_mem r) @ ip_bytes h @ drop 34 (skb_mem r), skb_data := 34\<rparr>"
proof -
  obtain i fr where i: "net_get_iface (ifs net) (route (gw net) ip) = Some i" "i < length (ifs net)" "length fr = 14"
    "skb_mem skb = fr @ ip_bytes (ipv4_header ihl0 (if_ip (ifs net ! i)) ip proto len) @ replicate (SKB_SIZE - 34) 0"
    "skb_iface skb = Some i"
    using ipv4_add_header_new [OF assms(1) _ assms(2)] by auto
  define h0 where "h0 = ipv4_header ihl0 (if_ip (ifs net ! i)) ip proto len"
  define rest where "rest = drop 34 (skb_mem r)"
  have "take 34 (skb_mem r) = fr @ ip_bytes h0" using assms(5) i(3,4) by (simp add: h0_def)
  then have m: "skb_mem r = fr @ ip_bytes h0 @ rest" unfolding rest_def by (metis append.assoc append_take_drop_id)
  have h0: "ihl h0 = 5" "saddr h0 = if_ip (ifs net ! i)" "daddr h0 = htonl ip" "ip_proto h0 = proto"
    "ip_len h0 = htons (ucast (len + ucast ihl0 * 4))"
    by (simp_all add: h0_def ipv4_header_def IP_HTONL_def Let_def)
  have p0: "ip_header_at (skb_mem r) 14 = Some h0" using ip_header_at_bytes [of fr h0 rest] m i(3) by simp
  have rd: "mem_read (skb_mem r) (int 14) (int (unat (ihl h0) * 4)) = Some (ip_bytes h0)"
    using mem_read_inside [of fr "ip_bytes h0" rest] m i(3) h0(1) by simp
  have cs: "checksum (ip_bytes h0) 0 = 0" unfolding h0_def by (rule checksum_ipv4_header)
  let ?h = "IP_NTOHL h0"
  have wr: "mem_write (skb_mem r) (int 14) (ip_bytes ?h) = Some (fr @ ip_bytes ?h @ rest)"
    using mem_write_inside [of "ip_bytes h0" "ip_bytes ?h" fr rest] m i(3) by simp
  have h: "saddr ?h = ntohl (if_ip (ifs net ! i))" "daddr ?h = ip" "ip_proto ?h = proto" "ihl ?h = 5"
    "ip_len ?h = ucast (len + ucast ihl0 * 4)"
    using h0 by (simp_all add: IP_NTOHL_def htonl_def htons_def ntohl_ntohl ntohs_ntohs)
  have len: "unat (ip_len ?h) = unat len + 20" if "ihl0 = 5" "unat len + 20 < 65536"
  proof -
    have "unat (len + 20) = unat len + 20" using that(2) by (simp add: unat_word_ariths)
    then show ?thesis using that h(5) by (simp add: unsigned_ucast_eq take_bit_nat_eq_self)
  qed
  have at: "ip_header_at (fr @ ip_bytes ?h @ rest) 14 = Some ?h" using ip_header_at_bytes [of fr ?h rest] i(3) by simp
  have mac: "mem_read (fr @ ip_bytes ?h @ rest) 6 6 \<noteq> None" using i(3) by (simp add: mem_read_def)
  have bc: "BROADCAST_IP \<noteq> ntohl ip \<and> ntohl ip \<noteq> if_ip (ifs net' ! j) \<longleftrightarrow> \<not> (if_ip (ifs net' ! j) = htonl ip \<or> ip = BROADCAST_IP)"
  proof -
    have "ntohl BROADCAST_IP = BROADCAST_IP" by (simp add: ntohl_def)
    then have "BROADCAST_IP = ntohl ip \<longleftrightarrow> ip = BROADCAST_IP" by (metis ntohl_ntohl)
    then show ?thesis by (auto simp: htonl_def)
  qed
  let ?r = "r\<lparr>hdr_ip := Some 14, skb_mem := fr @ ip_bytes ?h @ rest, skb_data := 34\<rparr>"
  have "\<exists>ret arp'. net_ipv4_parse net' r = Some (ret, ?r, arp') \<and> (ret = 0 \<longleftrightarrow> if_ip (ifs net' ! j) = htonl ip \<or> ip = BROADCAST_IP)"
    using p0 rd cs wr assms(3,4) mac h h0(1) bc unfolding net_ipv4_parse_def Let_def
    by (cases "mem_read (fr @ ip_bytes ?h @ rest) 6 6") auto
  moreover have "take 14 (skb_mem r) = fr" "drop 34 (skb_mem r) = rest" using m i(3) by simp_all
  ultimately show ?thesis using i h len at by fastforce
qed

text \<open>C35. A datagram sent by \<open>net_ipv4_add_header\<close> is accepted by \<open>net_ipv4_parse\<close> on the host it is
  addressed to: the checksum verifies, the parsed header names the sender's interface, the
  destination and the protocol in host byte order, the total length is that of the payload and the
  header (when the initialiser of \<open>.len\<close> sees \<open>ihl\<close>), and \<open>data\<close> points behind the header. Any other host
  refuses it unless the destination is the broadcast address.\<close>
theorem ipv4_send_receive:
  assumes "net_ipv4_add_header net ihl0 skb_new ip proto len = Some (0, skb)" and "macs_ok net"
    and "skb_data r = 14" and "skb_iface r = Some j" and "take 34 (skb_mem r) = take 34 (skb_mem skb)"
  shows "\<exists>i ret r' arp' h. net_get_iface (ifs net) (route (gw net) ip) = Some i \<and> skb_iface skb = Some i \<and>
     net_ipv4_parse net' r = Some (ret, r', arp') \<and>
     (ret = 0 \<longleftrightarrow> if_ip (ifs net' ! j) = htonl ip \<or> ip = BROADCAST_IP) \<and>
     ip_header_at (skb_mem r') 14 = Some h \<and> saddr h = ntohl (if_ip (ifs net ! i)) \<and> daddr h = ip \<and> ip_proto h = proto \<and>
     (ihl0 = 5 \<and> unat len + 20 < 65536 \<longrightarrow> unat (ip_len h) = unat len + 20) \<and> skb_data r' = 34"
proof -
  obtain i ret r' arp' h where p: "net_get_iface (ifs net) (route (gw net) ip) = Some i" "skb_iface skb = Some i"
     "net_ipv4_parse net' r = Some (ret, r', arp')" "ret = 0 \<longleftrightarrow> if_ip (ifs net' ! j) = htonl ip \<or> ip = BROADCAST_IP"
     "ip_header_at (skb_mem r') 14 = Some h" "saddr h = ntohl (if_ip (ifs net ! i))" "daddr h = ip" "ip_proto h = proto"
     "ihl0 = 5 \<and> unat len + 20 < 65536 \<longrightarrow> unat (ip_len h) = unat len + 20"
     "r' = r\<lparr>hdr_ip := Some 14, skb_mem := take 14 (skb_mem r) @ ip_bytes h @ drop 34 (skb_mem r), skb_data := 34\<rparr>"
    using ipv4_parse_sent [OF assms, of net'] by blast
  have "skb_data r' = 34" unfolding p(10) by simp
  then show ?thesis using p(1-9) by blast
qed


lemma ipv4_add_header_succeeds:
  assumes "macs_ok net" and i: "net_get_iface (ifs net) (route (gw net) ip) = Some i" "i < length (ifs net)"
    and m: "net_arp_find_entry (ntohl (route (gw net) ip)) (arp net) = (1, Some m)" "length m = 6"
  shows "\<exists>skb. net_ipv4_add_header net ihl0 skb_new ip proto len = Some (0, skb)"
proof -
  let ?f = "ifs net ! i" and ?hop = "route (gw net) ip"
  let ?s = "skb_new\<lparr>skb_iface := Some i, skb_proto := IP\<rparr>" and ?h = "ipv4_header ihl0 (if_ip (ifs net ! i)) ip proto len"
  let ?fr = "m @ if_mac ?f @ le16_bytes (htons IP)"
  have l: "length (if_mac ?f) = 6" using assms(1) i(2) by (simp add: macs_ok_def)
  have w: "\<exists>y. put_data bs s = Some (s\<lparr>skb_mem := y\<rparr>)" if "skb_data s + length bs \<le> length (skb_mem s)" for bs s
    using that by (auto simp: put_data_def mem_write_def)
  obtain y where "put_data ?fr (?s\<lparr>skb_len := 14\<rparr>) = Some (?s\<lparr>skb_len := 14, skb_mem := y\<rparr>)" "length y = SKB_SIZE"
    using l m(2) by (simp add: put_data_def mem_write_def skb_new_def)
  then have e: "net_ethernet_add_header (arp net) ?f ?s ?hop = Some (0, ?s\<lparr>skb_len := 14, skb_mem := y, skb_data := 14\<rparr>)"
    by (simp add: net_ethernet_add_header_def Let_def m skb_new_def)
  obtain z where "put_data (ip_bytes ?h) (?s\<lparr>skb_len := 14, skb_mem := y, skb_data := 14\<rparr>) =
      Some (?s\<lparr>skb_len := 14, skb_mem := y, skb_data := 14, skb_mem := z\<rparr>)"
  proof -
    have "skb_data (?s\<lparr>skb_len := 14, skb_mem := y, skb_data := 14\<rparr>) + length (ip_bytes ?h) \<le>
        length (skb_mem (?s\<lparr>skb_len := 14, skb_mem := y, skb_data := 14\<rparr>))" using \<open>length y = SKB_SIZE\<close> by simp
    from w [OF this] show ?thesis using that by blast
  qed
  then show ?thesis by (simp add: net_ipv4_add_header_def Let_def i(1) e)
qed

text \<open>One interface with the broadcast address as its gateway.\<close>

definition demo_net :: net_config where
  "demo_net = \<lparr>ifs = [\<lparr>if_ip = 0x0F02000A, if_up = True, if_mac = [2, 0, 0, 0, 0, 1]\<rparr>], gw = BROADCAST_IP,
     arp = net_init_arp arp_zero\<rparr>"

lemma demo_net_ok:
  "macs_ok demo_net" "net_get_iface (ifs demo_net) x = Some 0"
  "\<exists>m. net_arp_find_entry (ntohl (route (gw demo_net) 0x0A00020F)) (arp demo_net) = (1, Some m) \<and> length m = 6"
proof -
  have len: "length (net_init_arp arp_zero) = 25" by (simp add: net_init_arp_def arp_zero_def)
  have "\<forall>e \<in> set (net_init_arp arp_zero). length (smac e) = 6"
  proof
    fix e assume "e \<in> set (net_init_arp arp_zero)"
    then have "e = \<lparr>smac = replicate 6 255, sip = BROADCAST_IP\<rparr> \<or> e \<in> set (map (\<lambda>e. e\<lparr>sip := 0\<rparr>) arp_zero)"
      unfolding net_init_arp_def using set_update_subset_insert by fastforce
    then show "length (smac e) = 6" by (auto simp: arp_zero_def)
  qed
  then show "macs_ok demo_net" using len by (simp add: macs_ok_def demo_net_def)
  show "net_get_iface (ifs demo_net) x = Some 0"
    using net_get_iface_best [of "ifs demo_net" x] by (auto simp: demo_net_def best_of_def)
  have "route BROADCAST_IP 0x0A00020F = BROADCAST_IP" "ntohl BROADCAST_IP = BROADCAST_IP"
    by (simp_all add: route_def htonl_def ntohl_def)
  moreover have "first_index (\<lambda>i. sip (net_init_arp arp_zero ! i) = BROADCAST_IP) 25 = Some 0"
    by (rule find_from_least) (simp_all add: net_init_arp_def arp_zero_def)
  then have "net_arp_find_entry BROADCAST_IP (net_init_arp arp_zero) = (1, Some (replicate 6 255))"
    by (simp add: net_arp_find_entry_def) (simp add: net_init_arp_def arp_zero_def)
  ultimately show "\<exists>m. net_arp_find_entry (ntohl (route (gw demo_net) 0x0A00020F)) (arp demo_net) = (1, Some m) \<and> length m = 6"
    by (simp add: demo_net_def)
qed

theorem ipv4_send_receive_witness:
  "\<exists>skb r' arp' h. net_ipv4_add_header demo_net 5 skb_new 0x0A00020F ICMPV4 8 = Some (0, skb) \<and>
     net_ipv4_parse demo_net (skb\<lparr>skb_data := 14\<rparr>) = Some (0, r', arp') \<and>
     ip_header_at (skb_mem r') 14 = Some h \<and> daddr h = 0x0A00020F \<and> ip_len h = 28"
proof -
  obtain skb where s: "net_ipv4_add_header demo_net 5 skb_new 0x0A00020F ICMPV4 8 = Some (0, skb)"
  proof -
    obtain m where "net_arp_find_entry (ntohl (route (gw demo_net) 0x0A00020F)) (arp demo_net) = (1, Some m)" "length m = 6"
      using demo_net_ok(3) by blast
    moreover have "0 < length (ifs demo_net)" by (simp add: demo_net_def)
    ultimately show ?thesis using ipv4_add_header_succeeds [OF demo_net_ok(1,2)] that by blast
  qed
  then have "skb_iface (skb\<lparr>skb_data := 14\<rparr>) = Some 0"
    using ipv4_add_header_new [OF s _ demo_net_ok(1)] demo_net_ok(2) by auto
  then obtain ret r' arp' h where r: "net_ipv4_parse demo_net (skb\<lparr>skb_data := 14\<rparr>) = Some (ret, r', arp')"
    "ret = 0 \<longleftrightarrow> if_ip (ifs demo_net ! 0) = htonl 0x0A00020F \<or> 0x0A00020F = BROADCAST_IP"
    "ip_header_at (skb_mem r') 14 = Some h" "daddr h = 0x0A00020F" "unat (ip_len h) = 28"
    using ipv4_send_receive [OF s demo_net_ok(1), of "skb\<lparr>skb_data := 14\<rparr>" 0 demo_net] by auto
  have "if_ip (ifs demo_net ! 0) = htonl 0x0A00020F" by (simp add: demo_net_def htonl_def ntohl_def)
  then have "ret = 0" using r(2) by blast
  moreover have "ip_len h = 28" using r(5) by (simp add: word_unat_eq_iff)
  ultimately show ?thesis using s r by blast
qed

end
