(* ===== verification/Socket.thy ===== *)
theory Socket imports Net_Ip Rbuffer Bitmap
begin

text \<open>
  Sockets (net/socket.c, include/net/socket.h) with the TCP connection each may hold
  (include/net/tcp.h). The socket table has 128 entries beside a bitmap of the ones in use; a socket
  owns a ring buffer for received bytes and queues of segments. \<open>Skb\<close> shows that the linked queues
  are lists, so a queue is a list of segments here; a segment is what the parser hands to a
  socket: the header, the sender, the bytes from \<open>skb->data\<close> on and the length \<open>skb->data_len\<close>.
\<close>

section \<open>include/net/tcp.h\<close>

datatype tcp_state = TCP_CREATED | TCP_CLOSED | TCP_LISTEN | TCP_WAIT_ACK | TCP_SYN_RCVD | TCP_SYN_SENT
  | TCP_ESTABLISHED | TCP_FIN_WAIT | TCP_FIN_WAIT_2 | TCP_CLOSING | TCP_TIME_WAIT | TCP_CLOSE_WAIT
  | TCP_LAST_ACK | TCP_PREPARE | TCP_CLOSE_WAIT2

text \<open>The values of the enumeration, which the code compares.\<close>

definition tcp_state_num :: "tcp_state \<Rightarrow> nat" where
  "tcp_state_num s = (case s of TCP_CREATED \<Rightarrow> 0 | TCP_CLOSED \<Rightarrow> 1 | TCP_LISTEN \<Rightarrow> 2 | TCP_WAIT_ACK \<Rightarrow> 3
     | TCP_SYN_RCVD \<Rightarrow> 4 | TCP_SYN_SENT \<Rightarrow> 5 | TCP_ESTABLISHED \<Rightarrow> 6 | TCP_FIN_WAIT \<Rightarrow> 7 | TCP_FIN_WAIT_2 \<Rightarrow> 8
     | TCP_CLOSING \<Rightarrow> 9 | TCP_TIME_WAIT \<Rightarrow> 10 | TCP_CLOSE_WAIT \<Rightarrow> 11 | TCP_LAST_ACK \<Rightarrow> 12
     | TCP_PREPARE \<Rightarrow> 13 | TCP_CLOSE_WAIT2 \<Rightarrow> 14)"

lemma tcp_state_num_inject: "tcp_state_num s = tcp_state_num t \<longleftrightarrow> s = t"
  by (cases s; cases t) (simp_all add: tcp_state_num_def)

instantiation tcp_state :: linorder
begin

definition less_eq_tcp_state :: "tcp_state \<Rightarrow> tcp_state \<Rightarrow> bool" where
  "less_eq_tcp_state s t \<longleftrightarrow> tcp_state_num s \<le> tcp_state_num t"

definition less_tcp_state :: "tcp_state \<Rightarrow> tcp_state \<Rightarrow> bool" where
  "less_tcp_state s t \<longleftrightarrow> tcp_state_num s < tcp_state_num t"

instance
  by standard (auto simp: less_eq_tcp_state_def less_tcp_state_def tcp_state_num_inject)

end

record tcp_connection =
  tstate :: tcp_state
  sequence :: u32
  acknowledgement :: u32
  dport :: u16
  sport :: u16

text \<open>The one-bit fields are booleans; the fields are as they lie in memory, in network byte order.\<close>

record tcp_header =
  source :: u16
  dest :: u16
  seq :: u32
  ack_seq :: u32
  doff :: "4 word"
  fin :: bool
  syn :: bool
  rst :: bool
  psh :: bool
  ack :: bool
  window :: u16

record segment =
  th :: tcp_header
  from_ip :: u32
  payload :: "u8 list"
  seg_len :: u16
  seg_retries :: int

section \<open>include/net/socket.h\<close>

abbreviation (input) NET_NUMBER_OF_SOCKETS :: nat where "NET_NUMBER_OF_SOCKETS \<equiv> 128"
abbreviation (input) NET_DYNAMIC_PORT_START :: nat where "NET_DYNAMIC_PORT_START \<equiv> 49152"
abbreviation (input) NET_NUMBER_OF_DYMANIC_PORTS :: nat where "NET_NUMBER_OF_DYMANIC_PORTS \<equiv> 16383"
abbreviation (input) NET_MAX_BUFFER_SIZE :: u32 where "NET_MAX_BUFFER_SIZE \<equiv> 16384"
abbreviation (input) INADDR_ANY :: u32 where "INADDR_ANY \<equiv> 1"
abbreviation (input) SOCK_STREAM :: int where "SOCK_STREAM \<equiv> 2"

record sock =
  socket :: nat
  sock_type :: int
  sock_protocol :: int
  sock_domain :: int
  rx :: int
  tx :: int
  bound_port :: u16
  bound_ip :: u16
  pending :: "segment list"
  backlog_queue :: "segment list"
  backlog_count :: int
  backlog_size :: int
  recv_buffer :: ring_buffer
  data_ready :: int
  recvd :: u32
  sin_port :: u16
  sin_addr :: u32
  tcp :: "tcp_connection option"
  waiting :: "nat option"

record sockets =
  socket_table :: "sock option list"
  socket_map :: bitmap
  port_map :: bitmap
  total_sockets :: int

section \<open>net/socket.c\<close>

definition net_init_sockets :: sockets where
  "net_init_sockets = \<lparr>socket_table = replicate NET_NUMBER_OF_SOCKETS None,
     socket_map = create_bitmap NET_NUMBER_OF_SOCKETS, port_map = create_bitmap NET_NUMBER_OF_DYMANIC_PORTS,
     total_sockets = 0\<rparr>"

text \<open>\<open>ntohs(get_free_bitmap(\<dots>) + NET_DYNAMIC_PORT_START)\<close>: without a free port the sum is 49151.\<close>

definition get_free_port :: "sockets \<Rightarrow> (u16 \<times> sockets) option" where
  "get_free_port s = do {
     (i, m) \<leftarrow> get_free_bitmap (port_map s) NET_NUMBER_OF_DYMANIC_PORTS;
     Some (ntohs (word_of_int (i + int NET_DYNAMIC_PORT_START)), s\<lparr>port_map := m\<rparr>) }"

text \<open>\<open>bound_ip\<close> is a \<open>uint16_t\<close>.\<close>

definition net_sock_bind :: "sock \<Rightarrow> u16 \<Rightarrow> u32 \<Rightarrow> sockets \<Rightarrow> (sock \<times> sockets) option" where
  "net_sock_bind sk port ip s = do {
     (p, s) \<leftarrow> (if port = 0 then get_free_port s else Some (port, s));
     Some (sk\<lparr>bound_ip := ucast ip, bound_port := p\<rparr>, s) }"

definition net_sock_data_ready :: "sock \<Rightarrow> u32 \<Rightarrow> bool" where
  "net_sock_data_ready sk len \<longleftrightarrow> data_ready sk = 1 \<or> recvd sk \<ge> len \<or> data_ready sk = -1"

text \<open>
  The waiting process is set to \<open>RUNNING\<close> when it is blocked (\<open>blocked p\<close>); with no process waiting the
  code reads the state through a null pointer, that is from the identity-mapped first page, which is
  taken not to hold \<open>BLOCKED\<close> there. The
  second component of the result is the process woken.
\<close>

definition net_sock_add_data_segment ::
    "(nat \<Rightarrow> bool) \<Rightarrow> sock \<Rightarrow> segment \<Rightarrow> (int \<times> nat option \<times> sock) option" where
  "net_sock_add_data_segment blocked sk skb = do {
     (ret, rb) \<leftarrow> ring_buffer_add (recv_buffer sk) (payload skb) (int (unat (seg_len skb)));
     if ret < 0 then Some (ret, None, sk)
     else
       (let sk = sk\<lparr>recv_buffer := rb, recvd := recvd sk + ucast (seg_len skb),
                    data_ready := (if tcp sk = None then 1 else if psh (th skb) then 1 else 0)\<rparr>;
            (woken, sk) = (case waiting sk of
                Some p \<Rightarrow> if blocked p then (Some p, sk\<lparr>waiting := None\<rparr>) else (None, sk)
              | None \<Rightarrow> (None, sk))
        in Some (ERROR_OK, woken, sk\<lparr>rx := rx sk + int (unat (seg_len skb))\<rparr>)) }"

text \<open>The \<open>while\<close> loop of \<open>net_sock_add_data\<close> over the queued segments.\<close>

fun add_queued :: "(nat \<Rightarrow> bool) \<Rightarrow> sock \<Rightarrow> segment list \<Rightarrow> (nat list \<times> sock) option" where
  "add_queued blocked sk [] = Some ([], sk\<lparr>pending := []\<rparr>)"
| "add_queued blocked sk (skb # q) =
     (if net_sock_data_ready sk NET_MAX_BUFFER_SIZE then Some ([], sk\<lparr>pending := skb # q\<rparr>)
      else do {
        (_, w, sk) \<leftarrow> net_sock_add_data_segment blocked sk skb;
        (ws, sk) \<leftarrow> add_queued blocked sk q;
        Some ((case w of None \<Rightarrow> ws | Some p \<Rightarrow> p # ws), sk) })"

definition net_sock_add_data :: "(nat \<Rightarrow> bool) \<Rightarrow> sock \<Rightarrow> segment \<Rightarrow> (int \<times> nat list \<times> sock) option" where
  "net_sock_add_data blocked sk skb =
     (if net_sock_data_ready sk NET_MAX_BUFFER_SIZE
      then Some (-1, [], sk\<lparr>pending := pending sk @ [skb]\<rparr>)
      else do {
        (ret, w, sk) \<leftarrow> net_sock_add_data_segment blocked sk skb;
        (ws, sk) \<leftarrow> add_queued blocked sk (pending sk);
        Some (ret, (case w of None \<Rightarrow> ws | Some p \<Rightarrow> p # ws), sk) })"

text \<open>
  One pass of \<open>net_sock_read\<close>: \<open>None\<close> in the first component is the process blocking until it is
  woken. \<open>break\<close> leaves the locked block, so \<open>to_read\<close> is returned even when the buffer gave less.
\<close>

definition net_sock_read :: "nat \<Rightarrow> sock \<Rightarrow> u32 \<Rightarrow> ((int \<times> u8 list) option \<times> sock) option" where
  "net_sock_read pid sk len =
     (if \<not> net_sock_data_ready sk len then Some (None, sk\<lparr>waiting := Some pid\<rparr>)
      else if data_ready sk = -1 then Some (Some (-1, []), sk)
      else do {
        let to_read = (if len > recvd sk then recvd sk else len);
        (ret, out, rb) \<leftarrow> ring_buffer_read (recv_buffer sk) (sint to_read);
        let sk = sk\<lparr>recv_buffer := rb\<rparr>;
        if ret \<noteq> sint to_read then Some (Some (sint to_read, out), sk)
        else
          (let sk = sk\<lparr>recvd := recvd sk - to_read\<rparr>;
               sk = (if recvd sk = 0 then sk\<lparr>data_ready := 0\<rparr> else sk)
           in Some (Some (sint to_read, out), sk)) })"

definition sock_get :: "sockets \<Rightarrow> nat \<Rightarrow> sock option option" where
  "sock_get s i =
     (if i > NET_NUMBER_OF_SOCKETS then Some None
      else if i < length (socket_table s) then Some (socket_table s ! i) else None)"

definition net_sock_is_established :: "sock \<Rightarrow> bool option" where
  "net_sock_is_established sk = map_option (\<lambda>c. tstate c = TCP_ESTABLISHED) (tcp sk)"

definition net_sock_awaiting_ack :: "sock \<Rightarrow> bool option" where
  "net_sock_awaiting_ack sk = map_option (\<lambda>c. tstate c = TCP_WAIT_ACK) (tcp sk)"

definition tcp_in :: "sock option \<Rightarrow> (sock \<Rightarrow> tcp_connection \<Rightarrow> bool) \<Rightarrow> bool" where
  "tcp_in e P \<longleftrightarrow> (case e of None \<Rightarrow> False | Some sk \<Rightarrow> (case tcp sk of None \<Rightarrow> False | Some c \<Rightarrow> P sk c))"

definition sock_find_listen_tcp :: "sockets \<Rightarrow> u16 \<Rightarrow> nat option" where
  "sock_find_listen_tcp s d_port =
     first_index (\<lambda>i. tcp_in (socket_table s ! i) (\<lambda>sk c. bound_port sk = d_port \<and> tstate c = TCP_LISTEN)) NET_NUMBER_OF_SOCKETS"

text \<open>The loop of \<open>net_sock_find_tcp\<close>; \<open>sk\<close> is \<open>_sk\<close>.\<close>

definition accepting :: "u16 \<Rightarrow> sock \<Rightarrow> tcp_connection \<Rightarrow> bool" where
  "accepting d_port sk c \<longleftrightarrow> bound_port sk = d_port \<and> (tstate c = TCP_LISTEN \<or> tstate c = TCP_SYN_RCVD)"

definition connected :: "u16 \<Rightarrow> u16 \<Rightarrow> u32 \<Rightarrow> sock \<Rightarrow> tcp_connection \<Rightarrow> bool" where
  "connected s_port d_port ip sk c \<longleftrightarrow> bound_port sk = d_port \<and> sin_port sk = s_port \<and> tstate c \<noteq> TCP_LISTEN \<and>
     tstate c \<noteq> TCP_SYN_RCVD \<and> tstate c \<noteq> TCP_PREPARE \<and> ntohl (sin_addr sk) = ip"

fun find_tcp_loop :: "u16 \<Rightarrow> u16 \<Rightarrow> u32 \<Rightarrow> nat option \<Rightarrow> nat \<Rightarrow> sock option list \<Rightarrow> nat option" where
  "find_tcp_loop s_port d_port ip sk i [] = sk"
| "find_tcp_loop s_port d_port ip sk i (e # t) =
     (if \<not> tcp_in e (\<lambda>_ _. True) then find_tcp_loop s_port d_port ip sk (Suc i) t
      else
        (let sk = (if tcp_in e (accepting d_port) then Some i else sk)
         in if tcp_in e (connected s_port d_port ip) then Some i
            else find_tcp_loop s_port d_port ip sk (Suc i) t))"

definition net_sock_find_tcp :: "sockets \<Rightarrow> u16 \<Rightarrow> u16 \<Rightarrow> u32 \<Rightarrow> nat option" where
  "net_sock_find_tcp s s_port d_port ip = find_tcp_loop s_port d_port ip None 0 (socket_table s)"

definition net_socket_find_udp :: "sockets \<Rightarrow> u32 \<Rightarrow> u16 \<Rightarrow> nat option" where
  "net_socket_find_udp s ip port =
     first_index (\<lambda>i. case socket_table s ! i of None \<Rightarrow> False
       | Some sk \<Rightarrow> bound_port sk = htons port \<and> (ucast (bound_ip sk) = ip \<or> ucast (bound_ip sk) = INADDR_ANY))
     NET_NUMBER_OF_SOCKETS"

text \<open>
  \<open>kernel_socket_create\<close>. \<open>raw\<close> is the memory of the ring buffer, \<open>None\<close> when \<open>rbuffer_new\<close> fails;
  \<open>queue_ok\<close> is the success of \<open>skb_new_queue\<close>.
\<close>

definition new_sock :: "nat \<Rightarrow> int \<Rightarrow> int \<Rightarrow> int \<Rightarrow> u8 list \<Rightarrow> sock" where
  "new_sock i af ty proto raw = \<lparr>socket = i, sock_type = ty, sock_protocol = proto, sock_domain = af,
     rx = 0, tx = 0, bound_port = 0, bound_ip = 0, pending = [], backlog_queue = [], backlog_count = 0,
     backlog_size = 0, recv_buffer = rbuffer_new raw, data_ready = 0, recvd = 0, sin_port = 0, sin_addr = 0,
     tcp = None, waiting = None\<rparr>"

definition kernel_socket_create ::
    "int \<Rightarrow> int \<Rightarrow> int \<Rightarrow> u8 list option \<Rightarrow> bool \<Rightarrow> sockets \<Rightarrow> (nat option \<times> sockets) option" where
  "kernel_socket_create af ty proto raw queue_ok s = do {
     (cur, m) \<leftarrow> get_free_bitmap (socket_map s) NET_NUMBER_OF_SOCKETS;
     if cur = -1 then Some (None, s\<lparr>socket_map := m\<rparr>)
     else
       (let i = nat cur; s = s\<lparr>socket_map := m\<rparr> in
        case (raw, queue_ok) of
          (Some raw, True) \<Rightarrow>
            Some (Some i, s\<lparr>socket_table := (socket_table s)[i := Some (new_sock i af ty proto raw)],
                            total_sockets := total_sockets s + 1\<rparr>)
        | _ \<Rightarrow> do { m \<leftarrow> unset_bitmap m i;
                    Some (None, s\<lparr>socket_map := m, socket_table := (socket_table s)[i := None]\<rparr>) }) }"

definition kernel_sock_cleanup :: "nat \<Rightarrow> sockets \<Rightarrow> sockets option" where
  "kernel_sock_cleanup i s = do {
     m \<leftarrow> unset_bitmap (socket_map s) i;
     Some (s\<lparr>socket_map := m, socket_table := (socket_table s)[i := None], total_sockets := total_sockets s - 1\<rparr>) }"


section \<open>The socket table as a table of slots\<close>

definition sockets_ok :: "sockets \<Rightarrow> bool" where
  "sockets_ok s \<longleftrightarrow> fits (socket_map s) NET_NUMBER_OF_SOCKETS \<and> length (socket_table s) = NET_NUMBER_OF_SOCKETS \<and>
     (\<forall>i < NET_NUMBER_OF_SOCKETS. bitset (socket_map s) i \<longleftrightarrow> socket_table s ! i \<noteq> None)"

definition sock_used :: "sockets \<Rightarrow> nat \<Rightarrow> bool" where
  "sock_used s i \<longleftrightarrow> socket_table s ! i \<noteq> None"

definition socket_take :: "int \<times> int \<times> int \<Rightarrow> u8 list \<Rightarrow> sockets \<Rightarrow> (nat \<times> sockets) option" where
  "socket_take k raw s = (case kernel_socket_create (fst k) (fst (snd k)) (snd (snd k)) (Some raw) True s of
     Some (Some i, s') \<Rightarrow> Some (i, s') | _ \<Rightarrow> None)"

definition socket_give :: "nat \<Rightarrow> sockets \<Rightarrow> sockets" where
  "socket_give i s = (case kernel_sock_cleanup i s of Some s' \<Rightarrow> s' | None \<Rightarrow> s)"

lemma socket_take_cases:
  assumes "sockets_ok s"
  obtains (full) "socket_take k raw s = None" "\<And>i. i < NET_NUMBER_OF_SOCKETS \<Longrightarrow> sock_used s i"
  | (slot) i s' where "socket_take k raw s = Some (i, s')" "i < NET_NUMBER_OF_SOCKETS" "\<not> sock_used s i" "sockets_ok s'"
      "socket_table s' = (socket_table s)[i := Some (new_sock i (fst k) (fst (snd k)) (snd (snd k)) raw)]"
proof -
  have ok: "fits (socket_map s) 128" "length (socket_table s) = 128"
    "\<And>i. i < 128 \<Longrightarrow> bitset (socket_map s) i \<longleftrightarrow> sock_used s i"
    using assms by (simp_all add: sockets_ok_def sock_used_def)
  show thesis
  proof (cases rule: get_free_bitmap_cases [OF ok(1)])
    case 1
    then show ?thesis using ok(3) by (intro full) (auto simp: socket_take_def kernel_socket_create_def)
  next
    case (2 i b')
    let ?s = "s\<lparr>socket_map := b', socket_table := (socket_table s)[i := Some (new_sock i (fst k) (fst (snd k)) (snd (snd k)) raw)],
        total_sockets := total_sockets s + 1\<rparr>"
    have "socket_take k raw s = Some (i, ?s)"
      using 2(1) by (simp add: socket_take_def kernel_socket_create_def)
    moreover have "sockets_ok ?s"
      using ok 2(2,5,6) by (auto simp: sockets_ok_def sock_used_def fits_def nth_list_update)
    ultimately show ?thesis using 2(2,3) ok(3) by (intro slot [of i ?s]) simp_all
  qed
qed

interpretation socks: slots sockets_ok sock_used "{..<NET_NUMBER_OF_SOCKETS}" "socket_take k raw" socket_give
proof
  show "finite {..<NET_NUMBER_OF_SOCKETS}" by simp
next
  fix s i s' assume "sockets_ok s" "socket_take k raw s = Some (i, s')"
  then show "sockets_ok s' \<and> i \<in> {..<NET_NUMBER_OF_SOCKETS} \<and> \<not> sock_used s i \<and>
      (\<forall>j \<in> {..<NET_NUMBER_OF_SOCKETS}. sock_used s' j = (j = i \<or> sock_used s j))"
    by (cases rule: socket_take_cases [of s k raw]) (auto simp: sock_used_def sockets_ok_def nth_list_update)
next
  fix s i assume "sockets_ok s" "socket_take k raw s = None" "i \<in> {..<NET_NUMBER_OF_SOCKETS}"
  then show "sock_used s i" by (cases rule: socket_take_cases [of s k raw]) auto
next
  fix s i assume s: "sockets_ok s" "i \<in> {..<NET_NUMBER_OF_SOCKETS}" "sock_used s i"
  have "i div 8 < length (socket_map s)" using s by (auto simp: sockets_ok_def fits_def)
  then obtain b' where b': "unset_bitmap (socket_map s) i = Some b'" "length b' = length (socket_map s)"
    "bitset b' = (bitset (socket_map s))(i := False)" by (rule unset_bitmap_bitset)
  then have g: "socket_give i s = s\<lparr>socket_map := b', socket_table := (socket_table s)[i := None], total_sockets := total_sockets s - 1\<rparr>"
    by (simp add: socket_give_def kernel_sock_cleanup_def)
  show "sockets_ok (socket_give i s) \<and>
      (\<forall>j \<in> {..<NET_NUMBER_OF_SOCKETS}. sock_used (socket_give i s) j = (j \<noteq> i \<and> sock_used s j))"
    unfolding g using s b' by (auto simp: sockets_ok_def sock_used_def fits_def nth_list_update)
qed

section \<open>Which socket a segment goes to\<close>

text \<open>The first connected socket; failing that, the last one that accepts connections on the port.\<close>

lemma find_tcp_loop_eq:
  "find_tcp_loop sp dp ip sk i t =
     (case find_from (\<lambda>j. tcp_in (t ! (j - i)) (connected sp dp ip)) i (length t) of
        Some j \<Rightarrow> Some j
      | None \<Rightarrow> (if \<exists>e \<in> set t. tcp_in e (accepting dp)
                 then Some (i + (GREATEST j. j < length t \<and> tcp_in (t ! j) (accepting dp))) else sk))"
proof (induction t arbitrary: sk i)
  case Nil
  then show ?case by simp
next
  case (Cons e t)
  have shift: "find_from (\<lambda>j. tcp_in ((e # t) ! (j - i)) (connected sp dp ip)) (Suc i) (length t) =
      find_from (\<lambda>j. tcp_in (t ! (j - Suc i)) (connected sp dp ip)) (Suc i) (length t)"
    by (rule find_from_cong) (simp add: nth_Cons')
  have gr: "(GREATEST j. j < length (e # t) \<and> tcp_in ((e # t) ! j) (accepting dp)) =
      Suc (GREATEST j. j < length t \<and> tcp_in (t ! j) (accepting dp))" if ex: "\<exists>e \<in> set t. tcp_in e (accepting dp)"
  proof (rule Greatest_equality)
    let ?Q = "\<lambda>j. j < length t \<and> tcp_in (t ! j) (accepting dp)"
    obtain k where k: "?Q k" using ex by (metis in_set_conv_nth)
    have g: "?Q (Greatest ?Q)" using k by (intro GreatestI_nat [of ?Q k "length t"]) simp_all
    show "Suc (Greatest ?Q) < length (e # t) \<and> tcp_in ((e # t) ! Suc (Greatest ?Q)) (accepting dp)" using g by simp
    fix y assume y: "y < length (e # t) \<and> tcp_in ((e # t) ! y) (accepting dp)"
    show "y \<le> Suc (Greatest ?Q)"
    proof (cases y)
      case (Suc z)
      then have "?Q z" using y by simp
      then have "z \<le> Greatest ?Q" by (rule Greatest_le_nat [where b = "length t"]) simp
      then show ?thesis using Suc by simp
    qed simp
  qed
  have g0: "(GREATEST j. j < length (e # t) \<and> tcp_in ((e # t) ! j) (accepting dp)) = 0"
    if "\<not> (\<exists>e \<in> set t. tcp_in e (accepting dp))" "tcp_in e (accepting dp)"
  proof (rule Greatest_equality)
    fix y assume "y < length (e # t) \<and> tcp_in ((e # t) ! y) (accepting dp)"
    then show "y \<le> 0" using that(1) by (cases y) auto
  qed (use that in simp)
  have tt: "tcp_in e P \<Longrightarrow> tcp_in e (\<lambda>_ _. True)" for P by (auto simp: tcp_in_def split: option.splits)
  show ?case
  proof (cases "tcp_in e (connected sp dp ip)")
    case True
    then show ?thesis using tt [OF True] by (simp add: Let_def)
  next
    case False
    have "find_tcp_loop sp dp ip sk i (e # t) = find_tcp_loop sp dp ip (if tcp_in e (accepting dp) then Some i else sk) (Suc i) t"
      using False tt [of "accepting dp"] by (auto simp: Let_def)
    also note Cons.IH
    finally show ?thesis using False shift gr g0 by (auto split: option.splits)
  qed
qed

lemma find_tcp_connected:
  assumes "i < length (socket_table s)" and "tcp_in (socket_table s ! i) (connected sp dp ip)"
    and "\<forall>j < i. \<not> tcp_in (socket_table s ! j) (connected sp dp ip)"
  shows "net_sock_find_tcp s sp dp ip = Some i"
proof -
  have "first_index (\<lambda>j. tcp_in (socket_table s ! j) (connected sp dp ip)) (length (socket_table s)) = Some i"
    by (rule find_from_least) (use assms in auto)
  then show ?thesis by (simp add: net_sock_find_tcp_def find_tcp_loop_eq)
qed

lemma find_tcp_accepting:
  assumes "i < length (socket_table s)" and "tcp_in (socket_table s ! i) (accepting dp)"
    and "\<forall>j < length (socket_table s). \<not> tcp_in (socket_table s ! j) (connected sp dp ip)"
    and "\<forall>j. i < j \<and> j < length (socket_table s) \<longrightarrow> \<not> tcp_in (socket_table s ! j) (accepting dp)"
  shows "net_sock_find_tcp s sp dp ip = Some i"
proof -
  have n: "first_index (\<lambda>j. tcp_in (socket_table s ! j) (connected sp dp ip)) (length (socket_table s)) = None"
    using assms(3) by (simp add: find_from_None_iff)
  have "(GREATEST j. j < length (socket_table s) \<and> tcp_in (socket_table s ! j) (accepting dp)) = i"
  proof (rule Greatest_equality)
    fix y assume y: "y < length (socket_table s) \<and> tcp_in (socket_table s ! y) (accepting dp)"
    show "y \<le> i"
    proof (rule ccontr)
      assume "\<not> y \<le> i"
      then show False using assms(4) y by auto
    qed
  qed (use assms in auto)
  moreover have "\<exists>e \<in> set (socket_table s). tcp_in e (accepting dp)" using assms(1,2) nth_mem by blast
  ultimately show ?thesis using n by (simp add: net_sock_find_tcp_def find_tcp_loop_eq)
qed

lemma find_tcp_range: "net_sock_find_tcp s sp dp ip = Some i \<Longrightarrow> i < length (socket_table s) \<and> tcp_in (socket_table s ! i) (\<lambda>_ _. True)"
proof -
  have r: "find_tcp_loop sp dp ip sk k t = Some i \<Longrightarrow> sk = Some i \<or> (k \<le> i \<and> i < k + length t \<and> tcp_in (t ! (i - k)) (\<lambda>_ _. True))"
    for sk k t
  proof (induction t arbitrary: sk k)
    case (Cons e t)
    show ?case
    proof (cases "tcp_in e (\<lambda>_ _. True)")
      case True
      then show ?thesis using Cons.IH [of "Some k" "Suc k"] Cons.IH [of sk "Suc k"] Cons.prems
        by (auto simp: Let_def nth_Cons' split: if_splits)
    next
      case False
      then show ?thesis using Cons.IH [of sk "Suc k"] Cons.prems by (auto simp: nth_Cons')
    qed
  qed simp
  show "net_sock_find_tcp s sp dp ip = Some i \<Longrightarrow> i < length (socket_table s) \<and> tcp_in (socket_table s ! i) (\<lambda>_ _. True)"
    unfolding net_sock_find_tcp_def by (drule r) simp
qed

end
