(* ===== verification/Tcp.thy ===== *)
theory Tcp imports Socket
begin

text \<open>
  TCP (net/tcp.c). The world of the state machine is the socket table, the retry queue, the
  segments sent so far and the processes woken. A segment sent is logged with its destination, its header
  before \<open>TCP_HTONS\<close> and its data; whether the lower layer takes it (\<open>__tcp_send\<close> fails when
  \<open>net_ipv4_add_header\<close> finds no interface or no hardware address) is the parameter \<open>link\<close>, and
  \<open>blocked\<close> says which processes are blocked. Each state of the connection has its own handler,
  the case of the \<open>switch\<close> in \<open>tcp_state_machine\<close>.
\<close>

record tcp_env =
  link :: "u32 \<Rightarrow> bool"
  blocked_pid :: "nat \<Rightarrow> bool"

record tcp_world =
  socks :: sockets
  retry_queue :: "segment list"
  sent :: "(u32 \<times> tcp_header \<times> u8 list) list"
  woken :: "nat list"

definition set_sock :: "nat \<Rightarrow> sock \<Rightarrow> tcp_world \<Rightarrow> tcp_world" where
  "set_sock i sk w = w\<lparr>socks := (socks w)\<lparr>socket_table := (socket_table (socks w))[i := Some sk]\<rparr>\<rparr>"

section \<open>Sending\<close>

definition plain_header :: tcp_header where
  "plain_header = \<lparr>source = 0, dest = 0, seq = 0, ack_seq = 0, doff = 5, fin = False, syn = False, rst = False,
     psh = False, ack = False, window = 1500\<rparr>"

definition tcp_send :: "tcp_env \<Rightarrow> sock \<Rightarrow> tcp_header \<Rightarrow> u8 list \<Rightarrow> tcp_world \<Rightarrow> int \<times> tcp_world" where
  "tcp_send env sk hdr data w =
     (if link env (sin_addr sk) then (ERROR_OK, w\<lparr>sent := sent w @ [(sin_addr sk, hdr, data)]\<rparr>) else (-1, w))"

text \<open>\<open>skb_new\<close> always succeeds here, so the \<open>assert\<close> of \<open>tcp_send_ack\<close> on its result does not appear.\<close>

definition tcp_send_ack ::
    "tcp_env \<Rightarrow> sock \<Rightarrow> tcp_connection \<Rightarrow> tcp_header \<Rightarrow> u32 \<Rightarrow> tcp_world \<Rightarrow> tcp_connection \<times> tcp_world" where
  "tcp_send_ack env sk c h len w =
     (let hdr = plain_header\<lparr>source := dest h, dest := source h, seq := htonl (ack_seq h),
                             ack_seq := htonl (seq h) + len, ack := True\<rparr>;
          c = c\<lparr>sequence := htonl (ack_seq h), acknowledgement := htonl (seq h) + len\<rparr>
      in (c, snd (tcp_send env sk hdr [] w)))"

definition tcp_send_fin :: "tcp_env \<Rightarrow> sock \<Rightarrow> tcp_connection \<Rightarrow> tcp_world \<Rightarrow> tcp_connection \<times> tcp_world" where
  "tcp_send_fin env sk c w =
     (let hdr = plain_header\<lparr>source := bound_port sk, dest := sin_port sk, seq := sequence c,
                             ack_seq := acknowledgement c, ack := True, fin := True\<rparr>
      in (c\<lparr>sequence := sequence c + 1\<rparr>, snd (tcp_send env sk hdr [] w)))"

definition tcp_connect :: "tcp_env \<Rightarrow> sock \<Rightarrow> tcp_connection \<Rightarrow> tcp_world \<Rightarrow> tcp_world" where
  "tcp_connect env sk c w =
     snd (tcp_send env sk (plain_header\<lparr>source := bound_port sk, dest := sin_port sk, seq := sequence c,
            ack_seq := 0, syn := True\<rparr>) [] w)"

section \<open>Connections\<close>

definition tcp_new_connection :: "sock \<Rightarrow> u16 \<Rightarrow> u16 \<Rightarrow> sock" where
  "tcp_new_connection sk dst_port src_port =
     sk\<lparr>tcp := Some \<lparr>tstate = TCP_CREATED, sequence = 1, acknowledgement = 0, dport = dst_port, sport = src_port\<rparr>\<rparr>"

definition tcp_free_connection :: "sock \<Rightarrow> sock" where
  "tcp_free_connection sk = sk\<lparr>tcp := None\<rparr>"

definition tcp_is_listening :: "sock \<Rightarrow> bool option" where
  "tcp_is_listening sk = map_option (\<lambda>c. tstate c = TCP_LISTEN) (tcp sk)"

definition tcp_set_listening :: "sock \<Rightarrow> int \<Rightarrow> sock option" where
  "tcp_set_listening sk backlog =
     map_option (\<lambda>c. sk\<lparr>backlog_queue := [], backlog_size := backlog, backlog_count := 0, tcp := Some (c\<lparr>tstate := TCP_LISTEN\<rparr>)\<rparr>) (tcp sk)"

definition net_prepare_tcp_sock :: "sock \<Rightarrow> u16 \<Rightarrow> u16 \<Rightarrow> u32 \<Rightarrow> sockets \<Rightarrow> (sock \<times> sockets) option" where
  "net_prepare_tcp_sock sk port rport raddr s = do {
     (sk, s) \<leftarrow> net_sock_bind sk port INADDR_ANY s;
     let sk = tcp_new_connection (sk\<lparr>sin_port := rport, sin_addr := raddr\<rparr>) rport port;
     Some (sk\<lparr>tcp := map_option (\<lambda>c. c\<lparr>tstate := TCP_PREPARE\<rparr>) (tcp sk)\<rparr>, s) }"

text \<open>
  \<open>tcp_accept_connection\<close> for the sockets with index \<open>i\<close> (listening) and \<open>j\<close> (new). The result \<open>None\<close>
  in the first component is the process blocking because the backlog is empty.
\<close>

definition tcp_accept_connection :: "nat \<Rightarrow> nat \<Rightarrow> nat \<Rightarrow> tcp_world \<Rightarrow> (int option \<times> tcp_world) option" where
  "tcp_accept_connection pid i j w = do {
     sk \<leftarrow> socket_table (socks w) ! i;
     new \<leftarrow> socket_table (socks w) ! j;
     case tcp sk of None \<Rightarrow> Some (Some (-1), w)
     | Some c \<Rightarrow>
         if tstate c \<noteq> TCP_LISTEN then Some (Some (-1), w)
         else if backlog_count sk = 0 then Some (None, set_sock i (sk\<lparr>waiting := Some pid\<rparr>) w)
         else (case backlog_queue sk of
             [] \<Rightarrow> Some (Some (- ERROR_NULL_POINTER), w)
           | skb # q \<Rightarrow> do {
               (new, s) \<leftarrow> net_prepare_tcp_sock new (bound_port sk) (sin_port sk) (sin_addr sk) (socks w);
               let new = new\<lparr>tcp := map_option (\<lambda>c. c\<lparr>tstate := TCP_ESTABLISHED, acknowledgement := htonl (seq (th skb)),
                                       sequence := ack_seq (th skb)\<rparr>) (tcp new)\<rparr>;
               let sk = sk\<lparr>backlog_queue := q, backlog_count := backlog_count sk - 1, sin_port := 0, sin_addr := 0\<rparr>;
               Some (Some ERROR_OK, set_sock j new (set_sock i sk (w\<lparr>socks := s\<rparr>))) }) }"

section \<open>Receiving\<close>

definition tcp_recv_ack :: "tcp_connection \<Rightarrow> tcp_header \<Rightarrow> tcp_connection" where
  "tcp_recv_ack c h =
     (if sequence c = htonl (ack_seq h) then c\<lparr>acknowledgement := htonl (seq h), tstate := TCP_ESTABLISHED\<rparr> else c)"

definition tcp_recv_syn ::
    "tcp_env \<Rightarrow> sock \<Rightarrow> tcp_connection \<Rightarrow> tcp_header \<Rightarrow> tcp_world \<Rightarrow> int \<times> sock \<times> tcp_world" where
  "tcp_recv_syn env sk c h w =
     (let hdr = plain_header\<lparr>source := bound_port sk, dest := sin_port sk, seq := sequence c,
                             ack_seq := htonl (seq h) + 1, syn := True, ack := True\<rparr>
      in if tstate c \<noteq> TCP_LISTEN then (-1, sk, w)
         else
           (let c = c\<lparr>tstate := TCP_SYN_RCVD\<rparr>; (ret, w) = tcp_send env sk hdr [] w
            in if ret < 0 then (-1, sk\<lparr>tcp := Some c\<rparr>, w)
               else
                 (let c = c\<lparr>sequence := sequence c + 1, acknowledgement := htonl (seq h) + 1\<rparr>
                  in (ERROR_OK, sk\<lparr>tcp := Some c, sin_port := source h\<rparr>, w))))"

definition wake :: "sock \<Rightarrow> tcp_world \<Rightarrow> sock \<times> tcp_world" where
  "wake sk w = (case waiting sk of None \<Rightarrow> (sk, w) | Some p \<Rightarrow> (sk\<lparr>waiting := None\<rparr>, w\<lparr>woken := woken w @ [p]\<rparr>))"

text \<open>A \<open>RST\<close> in a state that looks at it.\<close>

definition tcp_reset :: "nat \<Rightarrow> sock \<Rightarrow> tcp_connection \<Rightarrow> tcp_world \<Rightarrow> tcp_world" where
  "tcp_reset i sk c w =
     (let (sk, w) = wake (sk\<lparr>tcp := Some (c\<lparr>tstate := TCP_CLOSED\<rparr>), data_ready := -1\<rparr>) w in set_sock i sk w)"

definition in_listen where
  "in_listen env i sk c skb w =
     (let h = th skb in
      if syn h \<and> \<not> ack h
      then if backlog_count sk = backlog_size sk then Some (-1, w)
           else (let (r, sk, w) = tcp_recv_syn env (sk\<lparr>sin_port := source h, sin_addr := from_ip skb\<rparr>) c h w
                 in Some (ERROR_OK, set_sock i sk w))
      else if ack h \<and> psh h \<and> seg_retries skb < 3
      then Some (ERROR_OK, w\<lparr>retry_queue := retry_queue w @ [skb\<lparr>seg_retries := seg_retries skb + 1\<rparr>]\<rparr>)
      else Some (-1, w))"

definition in_syn_rcvd where
  "in_syn_rcvd (env :: tcp_env) i sk c skb w =
     (let h = th skb in
      if rst h then Some (ERROR_OK, tcp_reset i sk c w)
      else if \<not> syn h \<and> ack h
      then if backlog_count sk < backlog_size sk
           then (let sk = sk\<lparr>backlog_queue := backlog_queue sk @ [skb], backlog_count := backlog_count sk + 1,
                             tcp := Some (c\<lparr>tstate := TCP_LISTEN\<rparr>)\<rparr>;
                     (sk, w) = wake sk w
                 in Some (ERROR_OK, set_sock i sk w))
           else Some (-1, w)
      else Some (-1, w))"

definition in_syn_sent where
  "in_syn_sent env i sk c skb w =
     (let h = th skb in
      if syn h \<and> ack h
      then (let (c, w) = tcp_send_ack env sk c h 1 w
            in Some (ERROR_OK, set_sock i (sk\<lparr>tcp := Some (c\<lparr>tstate := TCP_ESTABLISHED\<rparr>)\<rparr>) w))
      else Some (-1, w))"

definition in_wait_ack where
  "in_wait_ack (env :: tcp_env) i sk c skb w =
     (let h = th skb in
      if rst h then Some (ERROR_OK, tcp_reset i sk c w)
      else if \<not> syn h \<and> ack h
      then if sequence c > htonl (ack_seq h) then Some (ERROR_OK, w)
           else Some (ERROR_OK, set_sock i (sk\<lparr>tcp := Some (tcp_recv_ack c h)\<rparr>) w)
      else Some (-1, w))"

definition in_established where
  "in_established env i sk c skb w =
     (let h = th skb in
      if rst h then Some (ERROR_OK, tcp_reset i sk c w)
      else if \<not> syn h \<and> ack h \<and> \<not> fin h
      then if acknowledgement c \<noteq> htonl (seq h) then Some (-1, w)
           else (let (c, w) = tcp_send_ack env sk c h (ucast (seg_len skb)) w in do {
             (ret, ws, sk) \<leftarrow> net_sock_add_data (blocked_pid env) (sk\<lparr>tcp := Some c\<rparr>) skb;
             Some (ERROR_OK, set_sock i sk (w\<lparr>woken := woken w @ ws\<rparr>)) })
      else if fin h \<and> ack h
      then (let (c, w) = tcp_send_ack env sk c h 1 w; (c, w) = tcp_send_fin env sk c w
            in Some (ERROR_OK, set_sock i (sk\<lparr>tcp := Some (c\<lparr>tstate := TCP_CLOSE_WAIT2\<rparr>)\<rparr>) w))
      else Some (-1, w))"

definition in_fin_wait where
  "in_fin_wait env i sk c skb w =
     (let h = th skb in
      if fin h \<and> ack h
      then (let (c, w) = tcp_send_ack env sk c h 1 w
            in Some (-1 :: int, set_sock i (sk\<lparr>tcp := Some (c\<lparr>tstate := TCP_CLOSED\<rparr>)\<rparr>) w))
      else Some (-1, w))"

definition in_close_wait where
  "in_close_wait (env :: tcp_env) i sk c skb w =
     (let h = th skb in
      Some (-1 :: int, if \<not> fin h \<and> ack h then set_sock i (sk\<lparr>tcp := Some (c\<lparr>tstate := TCP_FIN_WAIT\<rparr>)\<rparr>) w else w))"

definition in_close_wait2 where
  "in_close_wait2 (env :: tcp_env) i sk c skb w =
     (let h = th skb in
      if \<not> fin h \<and> ack h
      then (let sk = sk\<lparr>tcp := Some (c\<lparr>tstate := TCP_CLOSED\<rparr>)\<rparr>;
                (sk, w) = (case waiting sk of None \<Rightarrow> (sk, w)
                   | Some p \<Rightarrow> (sk\<lparr>waiting := None, data_ready := -1\<rparr>, w\<lparr>woken := woken w @ [p]\<rparr>))
            in Some (-1 :: int, set_sock i sk w))
      else Some (-1, w))"

definition tcp_state_machine :: "tcp_env \<Rightarrow> segment \<Rightarrow> tcp_world \<Rightarrow> (int \<times> tcp_world) option" where
  "tcp_state_machine env skb w =
     (case net_sock_find_tcp (socks w) (source (th skb)) (dest (th skb)) (htonl (from_ip skb)) of
        None \<Rightarrow> Some (-1, w)
      | Some i \<Rightarrow> do {
          sk \<leftarrow> socket_table (socks w) ! i;
          c \<leftarrow> tcp sk;
          case tstate c of
            TCP_LISTEN \<Rightarrow> in_listen env i sk c skb w
          | TCP_SYN_RCVD \<Rightarrow> in_syn_rcvd env i sk c skb w
          | TCP_SYN_SENT \<Rightarrow> in_syn_sent env i sk c skb w
          | TCP_WAIT_ACK \<Rightarrow> in_wait_ack env i sk c skb w
          | TCP_ESTABLISHED \<Rightarrow> in_established env i sk c skb w
          | TCP_FIN_WAIT \<Rightarrow> in_fin_wait env i sk c skb w
          | TCP_CLOSE_WAIT \<Rightarrow> in_close_wait env i sk c skb w
          | TCP_CLOSE_WAIT2 \<Rightarrow> in_close_wait2 env i sk c skb w
          | _ \<Rightarrow> Some (-1, w) })"

text \<open>\<open>kernel_sock_shutdown\<close> closes a stream that is not closed; \<open>tcp_close_connection\<close> up to the wait for \<open>TCP_CLOSED\<close>.\<close>

definition tcp_close_connection :: "tcp_env \<Rightarrow> nat \<Rightarrow> tcp_world \<Rightarrow> tcp_world option" where
  "tcp_close_connection env i w = do {
     sk \<leftarrow> socket_table (socks w) ! i;
     c \<leftarrow> tcp sk;
     let (c, w) = tcp_send_fin env sk (c\<lparr>tstate := TCP_CLOSE_WAIT\<rparr>) w;
     Some (set_sock i (sk\<lparr>tcp := Some c\<rparr>) w) }"

definition kernel_sock_shutdown :: "tcp_env \<Rightarrow> nat \<Rightarrow> tcp_world \<Rightarrow> tcp_world option" where
  "kernel_sock_shutdown env i w = do {
     sk \<leftarrow> socket_table (socks w) ! i;
     if sock_type sk = SOCK_STREAM \<and> (case tcp sk of None \<Rightarrow> False | Some c \<Rightarrow> tstate c \<noteq> TCP_CLOSED)
     then tcp_close_connection env i w else Some w }"

section \<open>Sending data\<close>

text \<open>
  \<open>tcp_send_segment\<close>: \<open>acked n\<close> says that \<open>net_sock_awaiting_ack\<close> answers false within the timeout
  of attempt \<open>n\<close>. The sequence number moves on before the first attempt; every attempt carries the old one.
\<close>

fun send_attempts :: "tcp_env \<Rightarrow> (nat \<Rightarrow> bool) \<Rightarrow> sock \<Rightarrow> tcp_header \<Rightarrow> u8 list \<Rightarrow> nat \<Rightarrow> nat \<Rightarrow> tcp_world \<Rightarrow> int \<times> tcp_world" where
  "send_attempts env acked sk hdr data n left w =
     (let w = snd (tcp_send env sk hdr data w)
      in if acked n then (ERROR_OK, w)
         else if left = 0 then (-1, w)
         else send_attempts env acked sk hdr data (n + 1) (left - 1) w)"

declare send_attempts.simps [simp del]

definition tcp_send_segment ::
    "tcp_env \<Rightarrow> (nat \<Rightarrow> bool) \<Rightarrow> sock \<Rightarrow> u8 list \<Rightarrow> bool \<Rightarrow> tcp_world \<Rightarrow> (int \<times> sock \<times> tcp_world) option" where
  "tcp_send_segment env acked sk data push w = do {
     c \<leftarrow> tcp sk;
     let hdr = plain_header\<lparr>source := bound_port sk, dest := sin_port sk, seq := sequence c, ack_seq := acknowledgement c,
                            ack := True, psh := push\<rparr>;
     let sk = sk\<lparr>tcp := Some (c\<lparr>sequence := sequence c + word_of_nat (length data)\<rparr>)\<rparr>;
     let (r, w) = send_attempts env acked sk hdr data 0 3 w;
     Some (r, sk, w) }"

lemma send_attempts_sent:
  assumes "link env (sin_addr sk)"
  shows "\<exists>n \<le> Suc left. 0 < n \<and> sent (snd (send_attempts env acked sk hdr data r left w)) = sent w @ replicate n (sin_addr sk, hdr, data)"
proof (induction left arbitrary: r w)
  case 0
  show ?case using assms by (intro exI [of _ 1]) (simp add: Let_def send_attempts.simps [of _ _ _ _ _ _ 0] tcp_send_def)
next
  case (Suc left)
  let ?w = "snd (tcp_send env sk hdr data w)"
  have s: "sent ?w = sent w @ [(sin_addr sk, hdr, data)]" using assms by (simp add: tcp_send_def)
  show ?case
  proof (cases "acked r")
    case True
    then show ?thesis using s by (intro exI [of _ 1]) (simp add: Let_def send_attempts.simps [of _ _ _ _ _ _ "Suc left"])
  next
    case False
    obtain n where "n \<le> Suc left" "0 < n" "sent (snd (send_attempts env acked sk hdr data (r + 1) left ?w)) = sent ?w @ replicate n (sin_addr sk, hdr, data)"
      using Suc.IH [of "r + 1" ?w] by blast
    then show ?thesis using False s by (intro exI [of _ "Suc n"]) (simp add: Let_def send_attempts.simps [of _ _ _ _ _ _ "Suc left"])
  qed
qed

section \<open>tcp_state_to_str\<close>

definition tcp_state_str :: "string list" where
  "tcp_state_str = [''TCP_CREATED'', ''TCP_CLOSED'', ''TCP_LISTEN'', ''TCP_WAIT_ACK'', ''TCP_SYN_RCVD'', ''TCP_SYN_SENT'',
     ''TCP_ESTABLISHED'', ''TCP_FIN_WAIT'', ''TCP_FIN_WAIT_2'', ''TCP_CLOSING'', ''TCP_TIME_WAIT'', ''TCP_CLOSE_WAIT'',
     ''TCP_LAST_ACK'', ''TCP_PREPARE'']"

definition tcp_state_to_str :: "tcp_state \<Rightarrow> string" where
  "tcp_state_to_str s =
     (if s > TCP_PREPARE then ''UNKNOWN'' else if s < TCP_CREATED then ''UNKNOWN''
      else tcp_state_str ! tcp_state_num s)"


section \<open>Segments over sockets\<close>

lemma socket_table_set_sock: "socket_table (socks (set_sock i sk w)) = (socket_table (socks w))[i := Some sk]"
  by (simp add: set_sock_def)

lemma tcp_send_frame [simp]: "socks (snd (tcp_send env sk h d w)) = socks w"
  "retry_queue (snd (tcp_send env sk h d w)) = retry_queue w" "woken (snd (tcp_send env sk h d w)) = woken w"
  by (simp_all add: tcp_send_def)

lemma set_sock_frame [simp]: "retry_queue (set_sock i sk w) = retry_queue w" "sent (set_sock i sk w) = sent w"
  "woken (set_sock i sk w) = woken w"
  by (simp_all add: set_sock_def)

lemma wake_frame: "socks (snd (wake sk w)) = socks w" "retry_queue (snd (wake sk w)) = retry_queue w"
  "tcp (fst (wake sk w)) = tcp sk" "sent (snd (wake sk w)) = sent w"
  by (simp_all add: wake_def split: option.splits)

lemma add_data_segment_tcp: "net_sock_add_data_segment b sk skb = Some (r, wk, sk') \<Longrightarrow> tcp sk' = tcp sk"
  by (auto simp: net_sock_add_data_segment_def Let_def split: if_splits option.splits Option.bind_splits)

lemma add_queued_tcp: "add_queued b sk q = Some (ws, sk') \<Longrightarrow> tcp sk' = tcp sk"
proof (induction b sk q arbitrary: ws sk' rule: add_queued.induct)
  case (2 b sk skb q)
  show ?case
  proof (cases "net_sock_data_ready sk NET_MAX_BUFFER_SIZE")
    case True
    then show ?thesis using 2(2) by auto
  next
    case False
    then obtain r wk s1 ws1 where s: "net_sock_add_data_segment b sk skb = Some (r, wk, s1)" "add_queued b s1 q = Some (ws1, sk')"
      using 2(2) by (auto split: Option.bind_splits)
    then show ?thesis using 2(1) [OF False s(1) refl refl s(2)] add_data_segment_tcp by metis
  qed
qed auto

lemma add_data_tcp: "net_sock_add_data b sk skb = Some (r, ws, sk') \<Longrightarrow> tcp sk' = tcp sk"
  by (auto simp: net_sock_add_data_def dest!: add_data_segment_tcp add_queued_tcp split: if_splits Option.bind_splits)

section \<open>The transitions of the state machine\<close>

text \<open>
  Which state changes a segment can cause. A step of the machine changes the state of at most the
  one socket it finds, and along an edge of this relation.
\<close>

inductive tcp_edge :: "tcp_header \<Rightarrow> tcp_state \<Rightarrow> tcp_state \<Rightarrow> bool" for h :: "tcp_header" where
  stay: "tcp_edge h s s"
| syn_received: "syn h \<Longrightarrow> \<not> ack h \<Longrightarrow> tcp_edge h TCP_LISTEN TCP_SYN_RCVD"
| handshake_done: "\<not> rst h \<Longrightarrow> \<not> syn h \<Longrightarrow> ack h \<Longrightarrow> tcp_edge h TCP_SYN_RCVD TCP_LISTEN"
| connected: "syn h \<Longrightarrow> ack h \<Longrightarrow> tcp_edge h TCP_SYN_SENT TCP_ESTABLISHED"
| data_acked: "\<not> rst h \<Longrightarrow> \<not> syn h \<Longrightarrow> ack h \<Longrightarrow> tcp_edge h TCP_WAIT_ACK TCP_ESTABLISHED"
| reset: "rst h \<Longrightarrow> s \<in> {TCP_SYN_RCVD, TCP_WAIT_ACK, TCP_ESTABLISHED} \<Longrightarrow> tcp_edge h s TCP_CLOSED"
| peer_closed: "\<not> rst h \<Longrightarrow> fin h \<Longrightarrow> ack h \<Longrightarrow> tcp_edge h TCP_ESTABLISHED TCP_CLOSE_WAIT2"
| last_ack: "\<not> fin h \<Longrightarrow> ack h \<Longrightarrow> tcp_edge h TCP_CLOSE_WAIT2 TCP_CLOSED"
| fin_acked: "\<not> fin h \<Longrightarrow> ack h \<Longrightarrow> tcp_edge h TCP_CLOSE_WAIT TCP_FIN_WAIT"
| closed: "fin h \<Longrightarrow> ack h \<Longrightarrow> tcp_edge h TCP_FIN_WAIT TCP_CLOSED"

inductive_simps tcp_edge_closed: "tcp_edge h TCP_CLOSED t"
inductive_simps tcp_edge_created: "tcp_edge h TCP_CREATED t"
inductive_cases tcp_edge_to_established: "tcp_edge h s TCP_ESTABLISHED"

text \<open>A step seen from one socket: the entry and the retry queue before and after.\<close>

definition sock_step :: "nat \<Rightarrow> sock \<Rightarrow> tcp_connection \<Rightarrow> segment \<Rightarrow> tcp_world \<Rightarrow> tcp_world \<Rightarrow> bool" where
  "sock_step i sk c skb w w' \<longleftrightarrow>
     (socket_table (socks w') = socket_table (socks w) \<or>
      (\<exists>sk' c'. socket_table (socks w') = (socket_table (socks w))[i := Some sk'] \<and> tcp sk' = Some c' \<and>
         tcp_edge (th skb) (tstate c) (tstate c'))) \<and>
     (retry_queue w' = retry_queue w \<or>
      (seg_retries skb < 3 \<and> retry_queue w' = retry_queue w @ [skb\<lparr>seg_retries := seg_retries skb + 1\<rparr>]))"

lemma sock_step_same: "sock_step i sk c skb w w"
  by (simp add: sock_step_def)

lemma sock_stepI:
  assumes "tcp sk' = Some c'" and "tcp_edge (th skb) (tstate c) (tstate c')" and "socket_table (socks w1) = socket_table (socks w)"
    and "retry_queue w1 = retry_queue w"
  shows "sock_step i sk c skb w (set_sock i sk' w1)"
  using assms by (auto simp: sock_step_def socket_table_set_sock)

lemma tcp_reset_step:
  assumes "rst (th skb)" and "tstate c \<in> {TCP_SYN_RCVD, TCP_WAIT_ACK, TCP_ESTABLISHED}"
  shows "sock_step i sk c skb w (tcp_reset i sk c w)"
proof -
  let ?sk = "sk\<lparr>tcp := Some (c\<lparr>tstate := TCP_CLOSED\<rparr>), data_ready := -1\<rparr>"
  have "tcp_reset i sk c w = set_sock i (fst (wake ?sk w)) (snd (wake ?sk w))"
    by (simp add: tcp_reset_def case_prod_unfold Let_def)
  then show ?thesis using assms by (auto intro!: sock_stepI tcp_edge.reset simp: wake_frame)
qed

lemma in_listen_step: "tstate c = TCP_LISTEN \<Longrightarrow> in_listen env i sk c skb w = Some (r, w') \<Longrightarrow> sock_step i sk c skb w w'"
proof -
  assume st: "tstate c = TCP_LISTEN" and eq: "in_listen env i sk c skb w = Some (r, w')"
  consider (syn) "syn (th skb)" "\<not> ack (th skb)" "backlog_count sk \<noteq> backlog_size sk"
    | (retry) "w' = w\<lparr>retry_queue := retry_queue w @ [skb\<lparr>seg_retries := seg_retries skb + 1\<rparr>]\<rparr>" "seg_retries skb < 3"
    | (same) "w' = w"
    using eq by (auto simp: in_listen_def Let_def split: if_splits)
  then show ?thesis
  proof cases
    case syn
    let ?sk = "sk\<lparr>sin_port := source (th skb), sin_addr := from_ip skb\<rparr>"
    obtain r1 sk1 w1 where s: "tcp_recv_syn env ?sk c (th skb) w = (r1, sk1, w1)" by (cases "tcp_recv_syn env ?sk c (th skb) w")
    then have "w' = set_sock i sk1 w1" using eq syn by (simp add: in_listen_def Let_def)
    moreover have "\<exists>c'. tcp sk1 = Some c' \<and> tstate c' = TCP_SYN_RCVD \<and> socks w1 = socks w \<and> retry_queue w1 = retry_queue w"
      using s st by (auto simp: tcp_recv_syn_def tcp_send_def Let_def split: if_splits)
    ultimately show ?thesis using st syn by (auto intro!: sock_stepI intro: tcp_edge.syn_received)
  next
    case retry
    then show ?thesis by (simp add: sock_step_def)
  next
    case same
    then show ?thesis by (simp add: sock_step_same)
  qed
qed

lemma in_syn_rcvd_step: "tstate c = TCP_SYN_RCVD \<Longrightarrow> in_syn_rcvd env i sk c skb w = Some (r, w') \<Longrightarrow> sock_step i sk c skb w w'"
proof -
  assume st: "tstate c = TCP_SYN_RCVD" and eq: "in_syn_rcvd env i sk c skb w = Some (r, w')"
  let ?sk = "sk\<lparr>backlog_queue := backlog_queue sk @ [skb], backlog_count := backlog_count sk + 1, tcp := Some (c\<lparr>tstate := TCP_LISTEN\<rparr>)\<rparr>"
  consider (rst) "rst (th skb)" "w' = tcp_reset i sk c w"
    | (ack) "\<not> rst (th skb)" "\<not> syn (th skb)" "ack (th skb)" "w' = set_sock i (fst (wake ?sk w)) (snd (wake ?sk w))"
    | (same) "w' = w"
    using eq by (auto simp: in_syn_rcvd_def Let_def case_prod_unfold split: if_splits)
  then show ?thesis
  proof cases
    case rst
    then show ?thesis using st by (simp add: tcp_reset_step)
  next
    case ack
    have "tcp_edge (th skb) TCP_SYN_RCVD TCP_LISTEN" using ack by (intro tcp_edge.handshake_done)
    then show ?thesis unfolding ack(4) using st by (intro sock_stepI [where c' = "c\<lparr>tstate := TCP_LISTEN\<rparr>"]) (simp_all add: wake_frame)
  next
    case same
    then show ?thesis by (simp add: sock_step_same)
  qed
qed


lemma in_syn_sent_step: "tstate c = TCP_SYN_SENT \<Longrightarrow> in_syn_sent env i sk c skb w = Some (r, w') \<Longrightarrow> sock_step i sk c skb w w'"
  by (auto simp: in_syn_sent_def tcp_send_ack_def Let_def sock_step_same intro!: sock_stepI tcp_edge.connected split: if_splits)

lemma in_wait_ack_step: "tstate c = TCP_WAIT_ACK \<Longrightarrow> in_wait_ack env i sk c skb w = Some (r, w') \<Longrightarrow> sock_step i sk c skb w w'"
proof -
  assume st: "tstate c = TCP_WAIT_ACK" and eq: "in_wait_ack env i sk c skb w = Some (r, w')"
  consider (rst) "rst (th skb)" "w' = tcp_reset i sk c w"
    | (ack) "\<not> rst (th skb)" "\<not> syn (th skb)" "ack (th skb)" "w' = set_sock i (sk\<lparr>tcp := Some (tcp_recv_ack c (th skb))\<rparr>) w"
    | (same) "w' = w"
    using eq by (auto simp: in_wait_ack_def Let_def split: if_splits)
  then show ?thesis
  proof cases
    case rst
    then show ?thesis using st by (simp add: tcp_reset_step)
  next
    case ack
    have "tcp_edge (th skb) TCP_WAIT_ACK (tstate (tcp_recv_ack c (th skb)))"
      using ack st tcp_edge.stay [of "th skb" TCP_WAIT_ACK] tcp_edge.data_acked [of "th skb"] by (simp add: tcp_recv_ack_def)
    then show ?thesis unfolding ack(4) using st by (intro sock_stepI) simp_all
  next
    case same
    then show ?thesis by (simp add: sock_step_same)
  qed
qed

lemma in_established_step: "tstate c = TCP_ESTABLISHED \<Longrightarrow> in_established env i sk c skb w = Some (r, w') \<Longrightarrow> sock_step i sk c skb w w'"
proof -
  assume st: "tstate c = TCP_ESTABLISHED" and eq: "in_established env i sk c skb w = Some (r, w')"
  consider (rst) "rst (th skb)" "w' = tcp_reset i sk c w"
    | (data) c1 w1 r1 ws sk1 where "tcp_send_ack env sk c (th skb) (ucast (seg_len skb)) w = (c1, w1)"
        "net_sock_add_data (blocked_pid env) (sk\<lparr>tcp := Some c1\<rparr>) skb = Some (r1, ws, sk1)"
        "w' = set_sock i sk1 (w1\<lparr>woken := woken w1 @ ws\<rparr>)"
    | (fin) c1 w1 c2 w2 where "\<not> rst (th skb)" "fin (th skb)" "ack (th skb)" "tcp_send_ack env sk c (th skb) 1 w = (c1, w1)" "tcp_send_fin env sk c1 w1 = (c2, w2)"
        "w' = set_sock i (sk\<lparr>tcp := Some (c2\<lparr>tstate := TCP_CLOSE_WAIT2\<rparr>)\<rparr>) w2"
    | (same) "w' = w"
    using eq by (auto simp: in_established_def Let_def split: if_splits Option.bind_splits prod.splits)
  then show ?thesis
  proof cases
    case rst
    then show ?thesis using st by (simp add: tcp_reset_step)
  next
    case data
    have "tcp sk1 = Some c1" using add_data_tcp [OF data(2)] by simp
    moreover have "tstate c1 = TCP_ESTABLISHED" "socks w1 = socks w" "retry_queue w1 = retry_queue w"
      using data(1) st by (auto simp: tcp_send_ack_def Let_def)
    ultimately show ?thesis unfolding data(3) using st by (intro sock_stepI [where c' = c1]) (simp_all add: tcp_edge.stay)
  next
    case fin
    have "socks w2 = socks w" "retry_queue w2 = retry_queue w"
      using fin(4,5) by (auto simp: tcp_send_ack_def tcp_send_fin_def Let_def)
    then show ?thesis unfolding fin(6) using st fin(1-3)
      by (intro sock_stepI [where c' = "c2\<lparr>tstate := TCP_CLOSE_WAIT2\<rparr>"]) (simp_all add: tcp_edge.peer_closed)
  next
    case same
    then show ?thesis by (simp add: sock_step_same)
  qed
qed

lemma in_fin_wait_step: "tstate c = TCP_FIN_WAIT \<Longrightarrow> in_fin_wait env i sk c skb w = Some (r, w') \<Longrightarrow> sock_step i sk c skb w w'"
  by (auto simp: in_fin_wait_def tcp_send_ack_def Let_def sock_step_same intro!: sock_stepI tcp_edge.closed split: if_splits)

lemma in_close_wait_step: "tstate c = TCP_CLOSE_WAIT \<Longrightarrow> in_close_wait env i sk c skb w = Some (r, w') \<Longrightarrow> sock_step i sk c skb w w'"
  by (auto simp: in_close_wait_def Let_def sock_step_same intro!: sock_stepI tcp_edge.fin_acked split: if_splits)

lemma in_close_wait2_step: "tstate c = TCP_CLOSE_WAIT2 \<Longrightarrow> in_close_wait2 env i sk c skb w = Some (r, w') \<Longrightarrow> sock_step i sk c skb w w'"
  by (auto simp: in_close_wait2_def Let_def sock_step_same intro!: sock_stepI tcp_edge.last_ack split: if_splits option.splits)

lemmas handler_steps = in_listen_step in_syn_rcvd_step in_syn_sent_step in_wait_ack_step in_established_step
  in_fin_wait_step in_close_wait_step in_close_wait2_step

lemma tcp_state_machine_step:
  assumes "tcp_state_machine env skb w = Some (r, w')"
  shows "w' = w \<or> (\<exists>i sk c. net_sock_find_tcp (socks w) (source (th skb)) (dest (th skb)) (htonl (from_ip skb)) = Some i \<and>
    socket_table (socks w) ! i = Some sk \<and> tcp sk = Some c \<and> sock_step i sk c skb w w')"
proof (cases "net_sock_find_tcp (socks w) (source (th skb)) (dest (th skb)) (htonl (from_ip skb))")
  case None
  then show ?thesis using assms by (simp add: tcp_state_machine_def)
next
  case (Some i)
  then obtain sk c where s: "socket_table (socks w) ! i = Some sk" "tcp sk = Some c"
    using assms by (auto simp: tcp_state_machine_def split: Option.bind_splits)
  have "sock_step i sk c skb w w'"
    using assms Some s by (cases "tstate c") (simp_all add: tcp_state_machine_def handler_steps sock_step_same)
  then show ?thesis using Some s by blast
qed

section \<open>The retry queue\<close>

text \<open>
  \<open>tcp_retry_all\<close> runs until the queue is empty. A segment is put back only while it has been retried
  fewer than three times, which is why the loop ends.
\<close>

definition retry_weight :: "segment list \<Rightarrow> nat" where
  "retry_weight q = (\<Sum>skb \<leftarrow> q. Suc (nat (3 - seg_retries skb)))"

lemma tcp_state_machine_retry:
  "tcp_state_machine env skb w = Some (r, w') \<Longrightarrow> retry_weight (retry_queue w') \<le> retry_weight (retry_queue w) + nat (3 - seg_retries skb)"
  by (drule tcp_state_machine_step) (auto simp: sock_step_def retry_weight_def)

lemma tcp_retry_decreases:
  "tcp_state_machine env skb (w\<lparr>retry_queue := q\<rparr>) = Some (r, w') \<Longrightarrow> retry_weight (retry_queue w') < retry_weight (skb # q)"
  using tcp_state_machine_retry [of env skb "w\<lparr>retry_queue := q\<rparr>" r w'] by (simp add: retry_weight_def)

function tcp_retry_all :: "tcp_env \<Rightarrow> tcp_world \<Rightarrow> tcp_world option" where
  "tcp_retry_all env w =
     (case retry_queue w of [] \<Rightarrow> Some w
      | skb # q \<Rightarrow>
          (case tcp_state_machine env skb (w\<lparr>retry_queue := q\<rparr>) of
             None \<Rightarrow> None
           | Some (r, w') \<Rightarrow> tcp_retry_all env w'))"
  by auto
termination
  by (relation "measure (\<lambda>(env, w). retry_weight (retry_queue w))") (auto intro: tcp_retry_decreases)

declare tcp_retry_all.simps [simp del]


text \<open>What a run of the queue leaves: no segment, and every socket reached its state along edges.\<close>

lemma tcp_retry_all_empty: "tcp_retry_all env w = Some w' \<Longrightarrow> retry_queue w' = []"
proof (induction env w rule: tcp_retry_all.induct)
  case (1 env w)
  show ?case
  proof (cases "retry_queue w")
    case Nil
    then show ?thesis using 1(2) by (simp add: tcp_retry_all.simps)
  next
    case (Cons skb q)
    then obtain r w1 where s: "tcp_state_machine env skb (w\<lparr>retry_queue := q\<rparr>) = Some (r, w1)" "tcp_retry_all env w1 = Some w'"
      using 1(2) by (subst (asm) tcp_retry_all.simps) (auto split: option.splits)
    show ?thesis using 1(1) [OF Cons s(1) refl s(2)] .
  qed
qed

section \<open>No fault: the buffers stay well formed\<close>

text \<open>
  A segment is complete when its bytes reach to its length; a socket is well formed when its ring
  buffer is and its queued segments are complete.
\<close>

definition seg_ok :: "segment \<Rightarrow> bool" where
  "seg_ok s \<longleftrightarrow> unat (seg_len s) \<le> length (payload s)"

definition sock_ok :: "sock \<Rightarrow> bool" where
  "sock_ok sk \<longleftrightarrow> rb_wf (recv_buffer sk) \<and> (\<forall>s \<in> set (pending sk). seg_ok s)"

definition world_ok :: "tcp_world \<Rightarrow> bool" where
  "world_ok w \<longleftrightarrow> (\<forall>sk. Some sk \<in> set (socket_table (socks w)) \<longrightarrow> sock_ok sk) \<and> (\<forall>s \<in> set (retry_queue w). seg_ok s)"

lemma ring_buffer_add_total:
  assumes "rb_wf rb" and "n \<le> length data"
  shows "\<exists>r rb'. ring_buffer_add rb data (int n) = Some (r, rb') \<and> rb_wf rb'"
proof (cases "rb_size rb - rb_end rb + rb_start rb < int n")
  case True
  then show ?thesis using assms(1) by (simp add: ring_buffer_add_def)
next
  case room: False
  have wf: "rb_size rb = int (length (rb_buffer rb))" "0 \<le> rb_start rb" "rb_start rb \<le> rb_size rb" "0 \<le> rb_end rb" "rb_end rb \<le> rb_size rb"
    using assms(1) by (auto simp: rb_wf_def)
  show ?thesis
  proof (cases "rb_end rb + int n \<le> rb_size rb")
    case True
    then have "mem_read data 0 (int n) = Some (take n data)" using assms(2) by (simp add: mem_read_def)
    moreover obtain b where "mem_write (rb_buffer rb) (rb_end rb) (take n data) = Some b"
      using True wf assms(2) by (auto simp: mem_write_def)
    moreover from this have "length b = length (rb_buffer rb)" by (rule mem_write_length)
    ultimately show ?thesis using room True wf by (auto simp: ring_buffer_add_def rb_wf_def)
  next
    case False
    let ?f = "rb_size rb - rb_end rb"
    have f: "0 \<le> ?f" "?f \<le> int n" "int n - ?f \<le> rb_start rb" using wf False room by linarith+
    have r1: "mem_read data 0 ?f = Some (take (nat ?f) data)" using f assms(2) by (simp add: mem_read_def)
    have "rb_end rb + int (length (take (nat ?f) data)) \<le> int (length (rb_buffer rb))" using wf f by auto
    then obtain b where b: "mem_write (rb_buffer rb) (rb_end rb) (take (nat ?f) data) = Some b"
      using wf by (auto simp: mem_write_def)
    have lb: "length b = length (rb_buffer rb)" using b by (rule mem_write_length)
    have "?f + (int n - ?f) \<le> int (length data)" using assms(2) by simp
    then obtain ys where ys: "mem_read data ?f (int n - ?f) = Some ys" using f by (auto simp: mem_read_def)
    have "int (length ys) = int n - ?f" using ys by (rule mem_read_length)
    then have "0 + int (length ys) \<le> int (length b)" using f(3) wf lb by linarith
    then obtain b2 where b2: "mem_write b 0 ys = Some b2" by (auto simp: mem_write_def)
    have lb2: "length b2 = length b" using b2 by (rule mem_write_length)
    have e: "0 \<le> int n - ?f" "int n - ?f \<le> rb_size rb" using f wf by linarith+
    show ?thesis using room False r1 b ys b2 lb lb2 wf e by (auto simp: ring_buffer_add_def rb_wf_def Let_def)
  qed
qed

lemma add_data_segment_total:
  assumes "sock_ok sk" and "seg_ok skb"
  shows "\<exists>r wk sk'. net_sock_add_data_segment b sk skb = Some (r, wk, sk') \<and> sock_ok sk' \<and> pending sk' = pending sk"
proof -
  obtain r rb' where "ring_buffer_add (recv_buffer sk) (payload skb) (int (unat (seg_len skb))) = Some (r, rb')" "rb_wf rb'"
    using ring_buffer_add_total assms by (metis seg_ok_def sock_ok_def)
  then show ?thesis using assms by (cases "waiting sk") (auto simp: net_sock_add_data_segment_def sock_ok_def Let_def)
qed

lemma add_queued_total:
  "sock_ok sk \<Longrightarrow> \<forall>s \<in> set q. seg_ok s \<Longrightarrow> \<exists>ws sk'. add_queued b sk q = Some (ws, sk') \<and> sock_ok sk'"
proof (induction q arbitrary: sk)
  case Nil
  then show ?case by (simp add: sock_ok_def)
next
  case (Cons skb q)
  obtain r wk s1 where s1: "net_sock_add_data_segment b sk skb = Some (r, wk, s1)" "sock_ok s1"
    using add_data_segment_total Cons.prems by (metis list.set_intros(1))
  obtain ws sk' where "add_queued b s1 q = Some (ws, sk')" "sock_ok sk'" using Cons.IH [OF s1(2)] Cons.prems(2) by auto
  then show ?case using s1(1) Cons.prems by (auto simp: sock_ok_def)
qed

lemma add_data_total:
  assumes "sock_ok sk" and "seg_ok skb"
  shows "\<exists>r ws sk'. net_sock_add_data b sk skb = Some (r, ws, sk') \<and> sock_ok sk'"
proof (cases "net_sock_data_ready sk NET_MAX_BUFFER_SIZE")
  case True
  then show ?thesis using assms by (auto simp: net_sock_add_data_def sock_ok_def)
next
  case False
  obtain r wk s1 where s1: "net_sock_add_data_segment b sk skb = Some (r, wk, s1)" "sock_ok s1"
    using add_data_segment_total [OF assms] by blast
  have "\<forall>s \<in> set (pending s1). seg_ok s" using s1(2) by (simp add: sock_ok_def)
  then obtain ws sk' where "add_queued b s1 (pending s1) = Some (ws, sk')" "sock_ok sk'" using add_queued_total [OF s1(2)] by blast
  then show ?thesis using False s1(1) by (auto simp: net_sock_add_data_def)
qed

lemma world_ok_set_sock: "world_ok w \<Longrightarrow> sock_ok sk \<Longrightarrow> world_ok (set_sock i sk w)"
  using set_update_subset_insert by (fastforce simp: world_ok_def socket_table_set_sock)

lemma world_ok_cong: "socket_table (socks w') = socket_table (socks w) \<Longrightarrow> retry_queue w' = retry_queue w \<Longrightarrow> world_ok w \<Longrightarrow> world_ok w'"
  by (simp add: world_ok_def)

lemma sock_ok_cong: "recv_buffer sk' = recv_buffer sk \<Longrightarrow> pending sk' = pending sk \<Longrightarrow> sock_ok sk \<Longrightarrow> sock_ok sk'"
  by (simp add: sock_ok_def)

lemma wake_ok: "sock_ok sk \<Longrightarrow> sock_ok (fst (wake sk w))" "world_ok w \<Longrightarrow> world_ok (snd (wake sk w))"
  by (auto simp: wake_def sock_ok_def world_ok_def split: option.splits)

lemma tcp_reset_ok: "world_ok w \<Longrightarrow> sock_ok sk \<Longrightarrow> world_ok (tcp_reset i sk c w)"
proof -
  let ?sk = "sk\<lparr>tcp := Some (c\<lparr>tstate := TCP_CLOSED\<rparr>), data_ready := -1\<rparr>"
  assume "world_ok w" "sock_ok sk"
  moreover have "tcp_reset i sk c w = set_sock i (fst (wake ?sk w)) (snd (wake ?sk w))"
    by (simp add: tcp_reset_def case_prod_unfold Let_def)
  moreover have "sock_ok ?sk" using \<open>sock_ok sk\<close> by (simp add: sock_ok_def)
  ultimately show ?thesis by (simp add: world_ok_set_sock wake_ok)
qed


text \<open>Every handler runs to an answer and keeps the world well formed.\<close>

lemma tcp_send_ok [simp]: "world_ok (snd (tcp_send env sk h d w)) = world_ok w"
  by (simp add: world_ok_def)

lemma send_ack_ok: "tcp_send_ack env sk c h n w = (c', w') \<Longrightarrow> world_ok w \<Longrightarrow> world_ok w'"
  by (auto simp: tcp_send_ack_def Let_def)

lemma send_fin_ok: "tcp_send_fin env sk c w = (c', w') \<Longrightarrow> world_ok w \<Longrightarrow> world_ok w'"
  by (auto simp: tcp_send_fin_def Let_def)

lemma recv_syn_ok:
  "tcp_recv_syn env sk c h w = (r, sk', w') \<Longrightarrow> world_ok w \<Longrightarrow> sock_ok sk \<Longrightarrow> world_ok w' \<and> sock_ok sk'"
  by (auto simp: tcp_recv_syn_def tcp_send_def sock_ok_def world_ok_def Let_def split: if_splits)

definition answers :: "(int \<times> tcp_world) option \<Rightarrow> bool" where
  "answers x \<longleftrightarrow> (\<exists>r w. x = Some (r, w) \<and> world_ok w)"

lemma answers_Some [simp]: "answers (Some (r, w)) = world_ok w"
  by (simp add: answers_def)

lemma sock_ok_simps [simp]:
  "sock_ok (sk\<lparr>tcp := a\<rparr>) = sock_ok sk" "sock_ok (sk\<lparr>sin_port := b\<rparr>) = sock_ok sk" "sock_ok (sk\<lparr>sin_addr := d\<rparr>) = sock_ok sk"
  "sock_ok (sk\<lparr>waiting := e\<rparr>) = sock_ok sk" "sock_ok (sk\<lparr>data_ready := f\<rparr>) = sock_ok sk"
  "sock_ok (sk\<lparr>backlog_queue := g\<rparr>) = sock_ok sk" "sock_ok (sk\<lparr>backlog_count := n\<rparr>) = sock_ok sk"
  by (simp_all add: sock_ok_def)

lemma world_ok_woken [simp]: "world_ok (w\<lparr>woken := a\<rparr>) = world_ok w"
  by (simp add: world_ok_def)

lemma world_ok_retry: "world_ok w \<Longrightarrow> seg_ok skb \<Longrightarrow> world_ok (w\<lparr>retry_queue := retry_queue w @ [skb\<lparr>seg_retries := n\<rparr>]\<rparr>)"
  by (auto simp: world_ok_def seg_ok_def)

lemma in_listen_answers:
  assumes "world_ok w" and "sock_ok sk" and "seg_ok skb"
  shows "answers (in_listen env i sk c skb w)"
proof -
  let ?sk = "sk\<lparr>sin_port := source (th skb), sin_addr := from_ip skb\<rparr>"
  obtain r sk1 w1 where s: "tcp_recv_syn env ?sk c (th skb) w = (r, sk1, w1)" by (cases "tcp_recv_syn env ?sk c (th skb) w")
  then have "world_ok w1" "sock_ok sk1" using recv_syn_ok [OF s] assms by simp_all
  then show ?thesis using s assms by (simp add: in_listen_def Let_def world_ok_set_sock world_ok_retry)
qed

lemma in_syn_rcvd_answers: "world_ok w \<Longrightarrow> sock_ok sk \<Longrightarrow> answers (in_syn_rcvd env i sk c skb w)"
  by (simp add: in_syn_rcvd_def Let_def case_prod_unfold world_ok_set_sock wake_ok tcp_reset_ok)

lemma in_syn_sent_answers: "world_ok w \<Longrightarrow> sock_ok sk \<Longrightarrow> answers (in_syn_sent env i sk c skb w)"
  by (cases "tcp_send_ack env sk c (th skb) 1 w") (auto simp: in_syn_sent_def Let_def world_ok_set_sock dest: send_ack_ok)

lemma in_wait_ack_answers: "world_ok w \<Longrightarrow> sock_ok sk \<Longrightarrow> answers (in_wait_ack env i sk c skb w)"
  by (simp add: in_wait_ack_def Let_def world_ok_set_sock tcp_reset_ok)

lemma in_established_answers:
  assumes "world_ok w" and "sock_ok sk" and "seg_ok skb"
  shows "answers (in_established env i sk c skb w)"
proof -
  obtain c1 w1 where a: "tcp_send_ack env sk c (th skb) (ucast (seg_len skb)) w = (c1, w1)" by fastforce
  obtain c2 w2 where b: "tcp_send_ack env sk c (th skb) 1 w = (c2, w2)" by fastforce
  obtain c3 w3 where d: "tcp_send_fin env sk c2 w2 = (c3, w3)" by fastforce
  obtain r ws sk1 where e: "net_sock_add_data (blocked_pid env) (sk\<lparr>tcp := Some c1\<rparr>) skb = Some (r, ws, sk1)" "sock_ok sk1"
    using add_data_total [of "sk\<lparr>tcp := Some c1\<rparr>" skb "blocked_pid env"] assms by auto
  have "world_ok w1" "world_ok w2" using a b assms send_ack_ok by blast+
  moreover from this have "world_ok w3" using d send_fin_ok by blast
  ultimately show ?thesis using assms a b d e
    by (simp add: in_established_def Let_def tcp_reset_ok world_ok_set_sock)
qed

lemma in_fin_wait_answers: "world_ok w \<Longrightarrow> sock_ok sk \<Longrightarrow> answers (in_fin_wait env i sk c skb w)"
  by (cases "tcp_send_ack env sk c (th skb) 1 w") (auto simp: in_fin_wait_def Let_def world_ok_set_sock dest: send_ack_ok)

lemma in_close_wait_answers: "world_ok w \<Longrightarrow> sock_ok sk \<Longrightarrow> answers (in_close_wait env i sk c skb w)"
  by (simp add: in_close_wait_def Let_def world_ok_set_sock)

lemma in_close_wait2_answers: "world_ok w \<Longrightarrow> sock_ok sk \<Longrightarrow> answers (in_close_wait2 env i sk c skb w)"
  by (cases "waiting sk") (simp_all add: in_close_wait2_def Let_def world_ok_set_sock)

lemmas handler_answers = in_listen_answers in_syn_rcvd_answers in_syn_sent_answers in_wait_ack_answers
  in_established_answers in_fin_wait_answers in_close_wait_answers in_close_wait2_answers

lemma tcp_state_machine_answers:
  assumes "world_ok w" and "seg_ok skb"
  shows "answers (tcp_state_machine env skb w)"
proof (cases "net_sock_find_tcp (socks w) (source (th skb)) (dest (th skb)) (htonl (from_ip skb))")
  case None
  then show ?thesis using assms by (simp add: tcp_state_machine_def)
next
  case (Some i)
  then obtain sk c where s: "i < length (socket_table (socks w))" "socket_table (socks w) ! i = Some sk" "tcp sk = Some c"
    using find_tcp_range by (fastforce simp: tcp_in_def split: option.splits)
  then have "sock_ok sk" using assms(1) by (metis nth_mem world_ok_def)
  then show ?thesis
    using assms Some s by (cases "tstate c") (simp_all add: tcp_state_machine_def handler_answers)
qed

lemma tcp_retry_all_runs: "world_ok w \<Longrightarrow> \<exists>w'. tcp_retry_all env w = Some w' \<and> world_ok w'"
proof (induction env w rule: tcp_retry_all.induct)
  case (1 env w)
  show ?case
  proof (cases "retry_queue w")
    case Nil
    then show ?thesis using 1(2) by (simp add: tcp_retry_all.simps)
  next
    case (Cons skb q)
    have "world_ok (w\<lparr>retry_queue := q\<rparr>)" "seg_ok skb" using 1(2) Cons by (auto simp: world_ok_def)
    then obtain r w1 where s: "tcp_state_machine env skb (w\<lparr>retry_queue := q\<rparr>) = Some (r, w1)" "world_ok w1"
      using tcp_state_machine_answers by (metis answers_def)
    then obtain w' where "tcp_retry_all env w1 = Some w'" "world_ok w'" using 1(1) [OF Cons s(1) refl] by blast
    then show ?thesis using Cons s(1) by (subst tcp_retry_all.simps) auto
  qed
qed

section \<open>Properties\<close>

text \<open>C31. The transitions of the TCP state machine: a segment changes the entry of at most one socket,
  the one it is addressed to, and the state of that socket moves only along an edge of
  \<open>tcp_edge\<close>, in particular the segment carries the flags the edge asks for; a closed or created
  connection is never revived by a segment, and a connection becomes established only from
  \<open>SYN_SENT\<close> by a \<open>SYN\<close>/\<open>ACK\<close> or from \<open>WAIT_ACK\<close> by an \<open>ACK\<close> without \<open>SYN\<close>.\<close>
theorem tcp_transitions:
  assumes "tcp_state_machine env skb w = Some (r, w')" and "j < length (socket_table (socks w))"
    and "socket_table (socks w) ! j = Some sk" and "tcp sk = Some c"
  shows "\<exists>sk' c'. socket_table (socks w') ! j = Some sk' \<and> tcp sk' = Some c' \<and>
    tcp_edge (th skb) (tstate c) (tstate c') \<and>
    (tstate c \<in> {TCP_CLOSED, TCP_CREATED} \<longrightarrow> tstate c' = tstate c) \<and>
    (tstate c' = TCP_ESTABLISHED \<longrightarrow> tstate c = TCP_ESTABLISHED \<or> (tstate c = TCP_SYN_SENT \<and> syn (th skb) \<and> ack (th skb)) \<or>
       (tstate c = TCP_WAIT_ACK \<and> \<not> syn (th skb) \<and> ack (th skb))) \<and>
    (sk' \<noteq> sk \<longrightarrow> net_sock_find_tcp (socks w) (source (th skb)) (dest (th skb)) (htonl (from_ip skb)) = Some j)"
proof -
  have edge: "\<exists>sk' c'. socket_table (socks w') ! j = Some sk' \<and> tcp sk' = Some c' \<and> tcp_edge (th skb) (tstate c) (tstate c') \<and>
    (sk' \<noteq> sk \<longrightarrow> net_sock_find_tcp (socks w) (source (th skb)) (dest (th skb)) (htonl (from_ip skb)) = Some j)"
    using tcp_state_machine_step [OF assms(1)]
  proof (elim disjE exE conjE)
    assume "w' = w"
    then show ?thesis using assms(3,4) tcp_edge.stay by auto
  next
    fix i sk0 c0
    assume i: "net_sock_find_tcp (socks w) (source (th skb)) (dest (th skb)) (htonl (from_ip skb)) = Some i"
      "socket_table (socks w) ! i = Some sk0" "tcp sk0 = Some c0" "sock_step i sk0 c0 skb w w'"
    show ?thesis
    proof (cases "i = j \<and> socket_table (socks w') \<noteq> socket_table (socks w)")
      case True
      then obtain sk' c' where "socket_table (socks w') = (socket_table (socks w))[j := Some sk']" "tcp sk' = Some c'"
        "tcp_edge (th skb) (tstate c0) (tstate c')" using i(4) by (auto simp: sock_step_def)
      then show ?thesis using i True assms by auto
    next
      case False
      then have "socket_table (socks w') ! j = socket_table (socks w) ! j" using i(4) by (auto simp: sock_step_def)
      then show ?thesis using assms(3,4) tcp_edge.stay by auto
    qed
  qed
  have "tstate c' = tstate c" if "tcp_edge (th skb) (tstate c) (tstate c')" "tstate c \<in> {TCP_CLOSED, TCP_CREATED}" for c'
    using that by (auto simp: tcp_edge_closed tcp_edge_created)
  moreover have "tstate c = TCP_ESTABLISHED \<or> (tstate c = TCP_SYN_SENT \<and> syn (th skb) \<and> ack (th skb)) \<or>
       (tstate c = TCP_WAIT_ACK \<and> \<not> syn (th skb) \<and> ack (th skb))"
    if "tcp_edge (th skb) (tstate c) (tstate c')" "tstate c' = TCP_ESTABLISHED" for c'
    using that(1) unfolding that(2) by (rule tcp_edge_to_established) auto
  ultimately show ?thesis using edge by blast
qed

text \<open>C34. \<open>tcp_retry_all\<close> ends: with well-formed buffers and complete segments, it runs to a
  result without a fault, whatever the segments do to the connections, and leaves the retry queue
  empty and the buffers well formed. A segment waits for its connection during at most three
  retries, all of them within one call.\<close>
theorem tcp_retry_all_terminates:
  assumes "world_ok w"
  shows "\<exists>w'. tcp_retry_all env w = Some w' \<and> retry_queue w' = [] \<and> world_ok w'"
  using tcp_retry_all_runs [OF assms, of env] tcp_retry_all_empty by blast

section \<open>Witnesses\<close>

definition demo_header :: tcp_header where
  "demo_header = plain_header\<lparr>source := 0x9C40, dest := 0x5000, seq := 7, ack := True, psh := True\<rparr>"

definition demo_segment :: segment where
  "demo_segment = \<lparr>th = demo_header, from_ip = 0x0A00020F, payload = [1, 2, 3], seg_len = 3, seg_retries = 0\<rparr>"

definition demo_listener :: sock where
  "demo_listener = (new_sock 0 2 SOCK_STREAM 0 (replicate 8 0))\<lparr>bound_port := 0x5000, bound_ip := 1, backlog_size := 5,
     tcp := Some \<lparr>tstate = TCP_LISTEN, sequence = 1, acknowledgement = 0, dport = 0, sport = 0x5000\<rparr>\<rparr>"

definition demo_world :: tcp_world where
  "demo_world = \<lparr>socks = \<lparr>socket_table = [Some demo_listener], socket_map = [1], port_map = [], total_sockets = 1\<rparr>,
     retry_queue = [demo_segment], sent = [], woken = []\<rparr>"

definition demo_env :: tcp_env where
  "demo_env = \<lparr>link = (\<lambda>_. True), blocked_pid = (\<lambda>_. True)\<rparr>"

lemma demo_world_ok: "world_ok demo_world"
  by (auto simp: demo_world_def world_ok_def demo_listener_def new_sock_def sock_ok_def seg_ok_def demo_segment_def
      rb_wf_def rbuffer_new_def)

lemmas demo_defs = demo_world_def demo_segment_def demo_header_def demo_listener_def new_sock_def plain_header_def demo_env_def

theorem tcp_retry_all_terminates_witness:
  "\<exists>w'. tcp_retry_all demo_env demo_world = Some w' \<and> retry_queue w' = [] \<and> world_ok w'"
  using tcp_retry_all_terminates [OF demo_world_ok] .

theorem tcp_transitions_witness:
  "\<exists>w' sk' c'. tcp_state_machine demo_env (demo_segment\<lparr>th := demo_header\<lparr>ack := False, psh := False, syn := True\<rparr>\<rparr>) demo_world = Some (0, w') \<and>
     socket_table (socks w') ! 0 = Some sk' \<and> tcp sk' = Some c' \<and> tstate c' = TCP_SYN_RCVD \<and>
     tcp_edge (demo_header\<lparr>ack := False, psh := False, syn := True\<rparr>) TCP_LISTEN (tstate c')"
proof -
  let ?s = "demo_segment\<lparr>th := demo_header\<lparr>ack := False, psh := False, syn := True\<rparr>\<rparr>"
  obtain w' where w': "tcp_state_machine demo_env ?s demo_world = Some (0, w')"
      "map_option (map_option tstate \<circ> tcp) (socket_table (socks w') ! 0) = Some (Some TCP_SYN_RCVD)"
    by (simp add: demo_defs tcp_state_machine_def net_sock_find_tcp_def tcp_in_def accepting_def Socket.connected_def
        in_listen_def tcp_recv_syn_def tcp_send_def set_sock_def)
  have e: "0 < length (socket_table (socks demo_world))" "socket_table (socks demo_world) ! 0 = Some demo_listener"
    by (simp_all add: demo_world_def)
  have "tcp demo_listener = Some \<lparr>tstate = TCP_LISTEN, sequence = 1, acknowledgement = 0, dport = 0, sport = 0x5000\<rparr>"
    by (simp add: demo_listener_def)
  from tcp_transitions [OF w'(1) e this] show ?thesis using w' by (auto simp: demo_segment_def)
qed

end
