(* ===== verification/Tcp_Session.thy ===== *)
theory Tcp_Session imports Tcp
begin

text \<open>
  Whole exchanges over the TCP state machine: the passive open (a listening socket, the client's
  \<open>SYN\<close> and \<open>ACK\<close>, the accept) and the in-order delivery of a stream of segments to an established
  connection.
\<close>

section \<open>Finding the socket again\<close>

lemma find_tcp_loop_cong:
  assumes "length t' = length t"
    and "\<And>k. k < length t \<Longrightarrow> tcp_in (t' ! k) (\<lambda>_ _. True) = tcp_in (t ! k) (\<lambda>_ _. True) \<and>
      tcp_in (t' ! k) (accepting dp) = tcp_in (t ! k) (accepting dp) \<and>
      tcp_in (t' ! k) (Socket.connected sp dp ip) = tcp_in (t ! k) (Socket.connected sp dp ip)"
  shows "find_tcp_loop sp dp ip sk i t' = find_tcp_loop sp dp ip sk i t"
  using assms
proof (induction t arbitrary: sk i t')
  case (Cons e t)
  obtain e' u where t': "t' = e' # u" "length u = length t" using Cons.prems(1) by (cases t') auto
  have "find_tcp_loop sp dp ip sk i u = find_tcp_loop sp dp ip sk i t" for sk i
    using Cons.IH [OF t'(2)] Cons.prems(2) [of "Suc _"] t'(1) by simp
  then show ?case using Cons.prems(2) [of 0] t'(1) by simp
qed simp

text \<open>A change of a socket that keeps its ports, its peer and its state.\<close>

lemma find_tcp_set_sock:
  assumes "socket_table (socks w) ! i = Some sk" and "tcp sk = Some c" and "tcp sk' = Some c'"
    and "tstate c' = tstate c" "bound_port sk' = bound_port sk" "sin_port sk' = sin_port sk" "sin_addr sk' = sin_addr sk"
  shows "net_sock_find_tcp (socks (set_sock i sk' w)) sp dp ip = net_sock_find_tcp (socks w) sp dp ip"
  unfolding net_sock_find_tcp_def socket_table_set_sock
proof (rule find_tcp_loop_cong)
  fix k assume "k < length (socket_table (socks w))"
  then show "tcp_in ((socket_table (socks w))[i := Some sk'] ! k) (\<lambda>_ _. True) = tcp_in (socket_table (socks w) ! k) (\<lambda>_ _. True) \<and>
      tcp_in ((socket_table (socks w))[i := Some sk'] ! k) (accepting dp) = tcp_in (socket_table (socks w) ! k) (accepting dp) \<and>
      tcp_in ((socket_table (socks w))[i := Some sk'] ! k) (Socket.connected sp dp ip) =
        tcp_in (socket_table (socks w) ! k) (Socket.connected sp dp ip)"
    using assms by (cases "k = i") (simp_all add: tcp_in_def accepting_def Socket.connected_def)
qed simp

lemma find_tcp_socks_cong: "socket_table s' = socket_table s \<Longrightarrow> net_sock_find_tcp s' sp dp ip = net_sock_find_tcp s sp dp ip"
  by (simp add: net_sock_find_tcp_def)

section \<open>A stream of segments\<close>

text \<open>The bytes of the segments that carry the next expected sequence number.\<close>

fun in_order :: "u32 \<Rightarrow> segment list \<Rightarrow> u8 list" where
  "in_order n [] = []"
| "in_order n (s # t) =
     (if htonl (seq (th s)) = n then payload s @ in_order (n + ucast (seg_len s)) t else in_order n t)"

fun tcp_deliver :: "tcp_env \<Rightarrow> segment list \<Rightarrow> tcp_world \<Rightarrow> tcp_world option" where
  "tcp_deliver env [] w = Some w"
| "tcp_deliver env (s # t) w = do { (_, w) \<leftarrow> tcp_state_machine env s w; tcp_deliver env t w }"

text \<open>A data segment from the peer, complete and without \<open>PSH\<close>.\<close>

definition data_segment :: "u16 \<Rightarrow> u16 \<Rightarrow> u32 \<Rightarrow> segment \<Rightarrow> bool" where
  "data_segment sp dp ip s \<longleftrightarrow> source (th s) = sp \<and> dest (th s) = dp \<and> from_ip s = ip \<and> ack (th s) \<and> \<not> syn (th s) \<and>
     \<not> fin (th s) \<and> \<not> rst (th s) \<and> \<not> psh (th s) \<and> unat (seg_len s) = length (payload s)"

text \<open>The socket of an established connection with nothing queued and no reader held up.\<close>

definition streaming :: "nat \<Rightarrow> u16 \<Rightarrow> u16 \<Rightarrow> u32 \<Rightarrow> u32 \<Rightarrow> u8 list \<Rightarrow> tcp_world \<Rightarrow> bool" where
  "streaming i sp dp ip n bs w \<longleftrightarrow> net_sock_find_tcp (socks w) sp dp (htonl ip) = Some i \<and> i < length (socket_table (socks w)) \<and>
     (\<exists>sk c. socket_table (socks w) ! i = Some sk \<and> tcp sk = Some c \<and> tstate c = TCP_ESTABLISHED \<and>
        acknowledgement c = n \<and> pending sk = [] \<and> data_ready sk = 0 \<and> recvd sk = word_of_nat (length bs) \<and>
        linear (recv_buffer sk) \<and> rb_start (recv_buffer sk) = 0 \<and> contents (recv_buffer sk) = bs \<and>
        rb_size (recv_buffer sk) = 16384 \<and> length bs < 16384)"

lemma add_segment_streaming:
  assumes "linear (recv_buffer sk)" "rb_start (recv_buffer sk) = 0" "contents (recv_buffer sk) = bs"
    and "rb_size (recv_buffer sk) = 16384" "length bs + length (payload s) < 16384"
    and "unat (seg_len s) = length (payload s)" "\<not> psh (th s)" "tcp sk \<noteq> None" "pending sk = []"
    and "data_ready sk = 0" "recvd sk = word_of_nat (length bs)"
  obtains ws sk' where "net_sock_add_data b sk s = Some (ERROR_OK, ws, sk')" "data_ready sk' = 0" "pending sk' = []"
    "recvd sk' = word_of_nat (length (bs @ payload s))" "linear (recv_buffer sk')" "rb_start (recv_buffer sk') = 0"
    "contents (recv_buffer sk') = bs @ payload s" "rb_size (recv_buffer sk') = 16384" "tcp sk' = tcp sk"
    "bound_port sk' = bound_port sk" "sin_port sk' = sin_port sk" "sin_addr sk' = sin_addr sk"
proof -
  have "rb_end (recv_buffer sk) = int (length bs)"
    using assms(1-3) by (cases rule: linear_cases) auto
  then obtain rb where rb: "ring_buffer_add (recv_buffer sk) (payload s) (int (length (payload s))) = Some (int (length (payload s)), rb)"
    "linear rb" "contents rb = bs @ payload s" "rb_size rb = 16384" "rb_start rb = 0"
    using add_append [OF assms(1), of "payload s"] assms by auto
  have len: "(word_of_nat (length (payload s)) :: u32) = ucast (seg_len s)"
    using assms(6) by (metis of_nat_unat)
  have "unat (word_of_nat (length bs) :: u32) = length bs" using assms(5) by (simp add: unat_of_nat take_bit_nat_eq_self)
  then have nr: "\<not> net_sock_data_ready sk NET_MAX_BUFFER_SIZE"
    using assms(5,10,11) by (simp add: net_sock_data_ready_def word_le_nat_alt)
  let ?kept = "\<lambda>sk1. recv_buffer sk1 = rb \<and> recvd sk1 = recvd sk + ucast (seg_len s) \<and> data_ready sk1 = 0 \<and> tcp sk1 = tcp sk \<and>
    pending sk1 = [] \<and> bound_port sk1 = bound_port sk \<and> sin_port sk1 = sin_port sk \<and> sin_addr sk1 = sin_addr sk"
  obtain wk sk1 where sk1: "net_sock_add_data_segment b sk s = Some (ERROR_OK, wk, sk1)" "?kept sk1"
  proof -
    have "\<exists>wk sk1. net_sock_add_data_segment b sk s = Some (ERROR_OK, wk, sk1) \<and> ?kept sk1"
      using rb(1) assms(6-9)
      by (cases "waiting sk"; cases "b (the (waiting sk))") (auto simp: net_sock_add_data_segment_def Let_def)
    then show ?thesis using that by blast
  qed
  then have "net_sock_add_data b sk s = Some (ERROR_OK, (case wk of None \<Rightarrow> [] | Some p \<Rightarrow> [p]), sk1\<lparr>pending := []\<rparr>)"
    using nr assms(9) by (auto simp: net_sock_add_data_def)
  then show thesis using sk1(2) rb assms len by (elim that) auto
qed

lemma streaming_step:
  assumes "streaming i sp dp ip n bs w" and "data_segment sp dp ip s"
    and "length bs + length (in_order n [s]) < 16384"
  obtains r w' where "tcp_state_machine env s w = Some (r, w')"
    "streaming i sp dp ip (n + word_of_nat (length (in_order n [s]))) (bs @ in_order n [s]) w'"
proof -
  obtain sk c where st: "net_sock_find_tcp (socks w) sp dp (htonl ip) = Some i" "i < length (socket_table (socks w))"
    "socket_table (socks w) ! i = Some sk" "tcp sk = Some c" "tstate c = TCP_ESTABLISHED"
    "acknowledgement c = n" "pending sk = []" "data_ready sk = 0" "recvd sk = word_of_nat (length bs)"
    "linear (recv_buffer sk)" "rb_start (recv_buffer sk) = 0" "contents (recv_buffer sk) = bs"
    "rb_size (recv_buffer sk) = 16384"
    using assms(1) by (auto simp: streaming_def)
  have sm: "tcp_state_machine env s w = in_established env i sk c s w"
    using st assms(2) by (simp add: tcp_state_machine_def data_segment_def)
  have fl: "ack (th s)" "\<not> syn (th s)" "\<not> fin (th s)" "\<not> rst (th s)" "\<not> psh (th s)" "unat (seg_len s) = length (payload s)"
    using assms(2) by (auto simp: data_segment_def)
  show thesis
  proof (cases "htonl (seq (th s)) = n")
    case False
    then have "in_established env i sk c s w = Some (-1, w)" using fl st by (simp add: in_established_def)
    then show ?thesis using that [of "-1" w] sm False assms(1) by simp
  next
    case True
    obtain c1 w1 where a: "tcp_send_ack env sk c (th s) (ucast (seg_len s)) w = (c1, w1)" by fastforce
    then have c1: "tstate c1 = TCP_ESTABLISHED" "acknowledgement c1 = n + ucast (seg_len s)" "socks w1 = socks w"
      using st True by (auto simp: tcp_send_ack_def Let_def)
    let ?sk = "sk\<lparr>tcp := Some c1\<rparr>"
    obtain ws sk' where d: "net_sock_add_data (blocked_pid env) ?sk s = Some (ERROR_OK, ws, sk')" "data_ready sk' = 0" "pending sk' = []"
      "recvd sk' = word_of_nat (length (bs @ payload s))" "linear (recv_buffer sk')" "rb_start (recv_buffer sk') = 0"
      "contents (recv_buffer sk') = bs @ payload s" "rb_size (recv_buffer sk') = 16384" "tcp sk' = Some c1"
      "bound_port sk' = bound_port sk" "sin_port sk' = sin_port sk" "sin_addr sk' = sin_addr sk"
      using add_segment_streaming [of ?sk bs s "blocked_pid env"] st fl assms(3) True by simp metis
    let ?w = "set_sock i sk' (w1\<lparr>woken := woken w1 @ ws\<rparr>)"
    have run: "tcp_state_machine env s w = Some (ERROR_OK, ?w)"
      using sm st fl True a d(1) by (simp add: in_established_def)
    have len: "(word_of_nat (length (payload s)) :: u32) = ucast (seg_len s)" using fl(6) by (metis of_nat_unat)
    have "net_sock_find_tcp (socks ?w) sp dp (htonl ip) = Some i"
      using find_tcp_set_sock [of "w1\<lparr>woken := woken w1 @ ws\<rparr>" i sk c sk' c1 sp dp "htonl ip"] st c1 d by simp
    moreover have "socket_table (socks ?w) ! i = Some sk'" "i < length (socket_table (socks ?w))"
      using st(2) c1(3) by (simp_all add: socket_table_set_sock)
    ultimately have "streaming i sp dp ip (n + ucast (seg_len s)) (bs @ payload s) ?w"
      unfolding streaming_def using d c1 assms(3) True by simp
    then show ?thesis using that [OF run] True len by simp
  qed
qed

lemma in_order_Cons: "data_segment sp dp ip s \<Longrightarrow>
  in_order n (s # t) = in_order n [s] @ in_order (n + word_of_nat (length (in_order n [s]))) t"
  by (auto simp: data_segment_def) (metis of_nat_unat)

lemma streaming_run:
  "streaming i sp dp ip n bs w \<Longrightarrow> \<forall>s \<in> set segs. data_segment sp dp ip s \<Longrightarrow> length bs + length (in_order n segs) < 16384 \<Longrightarrow>
   \<exists>w'. tcp_deliver env segs w = Some w' \<and>
     streaming i sp dp ip (n + word_of_nat (length (in_order n segs))) (bs @ in_order n segs) w'"
proof (induction segs arbitrary: n bs w)
  case Nil
  then show ?case by simp
next
  case (Cons s t)
  let ?a = "in_order n [s]"
  have ds: "data_segment sp dp ip s" using Cons.prems(2) by simp
  note io = in_order_Cons [OF ds, of n t]
  have "length bs + length ?a < 16384" using Cons.prems(3) unfolding io by simp
  then obtain r w1 where w1: "tcp_state_machine env s w = Some (r, w1)"
    "streaming i sp dp ip (n + word_of_nat (length ?a)) (bs @ ?a) w1"
    using streaming_step [OF Cons.prems(1) ds] by blast
  have "length (bs @ ?a) + length (in_order (n + word_of_nat (length ?a)) t) < 16384"
    using Cons.prems(3) unfolding io by simp
  from Cons.IH [OF w1(2) _ this] Cons.prems(2) obtain w' where "tcp_deliver env t w1 = Some w'"
    "streaming i sp dp ip (n + word_of_nat (length ?a) + word_of_nat (length (in_order (n + word_of_nat (length ?a)) t)))
      ((bs @ ?a) @ in_order (n + word_of_nat (length ?a)) t) w'" by auto
  then show ?case using w1(1) unfolding io by (intro exI [of _ w']) (simp add: add.assoc)
qed

lemma streaming_read:
  assumes "streaming i sp dp ip n bs w" and "0 < k" and "k \<le> length bs"
  obtains sk sk' where "socket_table (socks w) ! i = Some sk"
    "net_sock_read pid sk (word_of_nat k) = Some (Some (int k, take k bs), sk')" "contents (recv_buffer sk') = drop k bs"
    "recvd sk' = recvd sk - word_of_nat k"
proof -
  obtain sk where st: "socket_table (socks w) ! i = Some sk" "data_ready sk = 0" "recvd sk = word_of_nat (length bs)"
    "linear (recv_buffer sk)" "contents (recv_buffer sk) = bs" "length bs < 16384"
    using assms(1) by (auto simp: streaming_def)
  have u: "unat (word_of_nat k :: u32) = k" "unat (word_of_nat (length bs) :: u32) = length bs"
    using st(6) assms(3) by (simp_all add: unat_of_nat take_bit_nat_eq_self)
  have sk: "sint (word_of_nat k :: u32) = int k"
    using st(6) assms(3) by (simp add: signed_of_nat signed_take_bit_int_eq_self)
  have le: "(word_of_nat k :: u32) \<le> recvd sk" using u st(3) assms(3) by (simp add: word_le_nat_alt)
  then have rdy: "net_sock_data_ready sk (word_of_nat k)" by (simp add: net_sock_data_ready_def)
  have "bs \<noteq> []" using assms(2,3) by auto
  then obtain rb where rb: "ring_buffer_read (recv_buffer sk) (int k) = Some (int k, take k bs, rb)" "contents rb = drop k bs"
    using read_take [OF st(4), of k] st(5) assms(3) by (auto simp: min_def)
  let ?sk = "let s = sk\<lparr>recv_buffer := rb, recvd := recvd sk - word_of_nat k\<rparr> in if recvd s = 0 then s\<lparr>data_ready := 0\<rparr> else s"
  have "net_sock_read pid sk (word_of_nat k) = Some (Some (int k, take k bs), ?sk)"
    using rdy st(2) leD [OF le] rb sk by (simp add: net_sock_read_def Let_def)
  then show thesis using st(1) rb(2) by (intro that [of sk ?sk]) (simp_all add: Let_def)
qed

section \<open>The passive open\<close>

text \<open>Only one socket has the port; it decides what a segment for the port finds.\<close>

definition sole_port :: "nat \<Rightarrow> u16 \<Rightarrow> sockets \<Rightarrow> bool" where
  "sole_port i dp s \<longleftrightarrow> (\<forall>k sk. k < length (socket_table s) \<and> k \<noteq> i \<and> socket_table s ! k = Some sk \<longrightarrow> bound_port sk \<noteq> dp)"

lemma find_sole_listener:
  assumes "sole_port i dp s" and "i < length (socket_table s)" and "socket_table s ! i = Some sk" and "tcp sk = Some c"
    and "tstate c = TCP_LISTEN \<or> tstate c = TCP_SYN_RCVD" and "bound_port sk = dp"
  shows "net_sock_find_tcp s sp dp ip = Some i"
proof (rule find_tcp_accepting)
  have other: "\<not> tcp_in (socket_table s ! k) (accepting dp)" "\<not> tcp_in (socket_table s ! k) (Socket.connected sp dp ip)"
    if "k < length (socket_table s)" "k \<noteq> i" for k
    using assms(1) that by (auto simp: sole_port_def tcp_in_def accepting_def Socket.connected_def split: option.splits)
  show "tcp_in (socket_table s ! i) (accepting dp)" using assms by (simp add: tcp_in_def accepting_def)
  show "\<forall>j<length (socket_table s). \<not> tcp_in (socket_table s ! j) (Socket.connected sp dp ip)"
  proof (intro allI impI)
    fix j assume "j < length (socket_table s)"
    then show "\<not> tcp_in (socket_table s ! j) (Socket.connected sp dp ip)"
      using other assms(3-5) by (cases "j = i") (auto simp: tcp_in_def Socket.connected_def)
  qed
  show "\<forall>j. i < j \<and> j < length (socket_table s) \<longrightarrow> \<not> tcp_in (socket_table s ! j) (accepting dp)" using other by auto
qed (use assms in simp)

lemma sole_port_set_sock: "sole_port i dp (socks w) \<Longrightarrow> sole_port i dp (socks (set_sock i sk w))"
  unfolding sole_port_def socket_table_set_sock length_list_update by (metis nth_list_update_neq)

lemma sole_port_cong: "socket_table s' = socket_table s \<Longrightarrow> sole_port i dp s' = sole_port i dp s"
  by (simp add: sole_port_def)

text \<open>The listener after a \<open>SYN\<close>, and the world with the \<open>SYN\<close>/\<open>ACK\<close> sent.\<close>

definition syn_ack_of :: "sock \<Rightarrow> tcp_connection \<Rightarrow> tcp_header \<Rightarrow> tcp_header" where
  "syn_ack_of sk c h = plain_header\<lparr>source := bound_port sk, dest := source h, seq := sequence c,
     ack_seq := htonl (seq h) + 1, syn := True, ack := True\<rparr>"

definition half_open :: "sock \<Rightarrow> tcp_connection \<Rightarrow> segment \<Rightarrow> sock" where
  "half_open sk c s = sk\<lparr>sin_addr := from_ip s,
     tcp := Some (c\<lparr>tstate := TCP_SYN_RCVD, sequence := sequence c + 1, acknowledgement := htonl (seq (th s)) + 1\<rparr>),
     sin_port := source (th s)\<rparr>"

lemma listen_syn:
  assumes "net_sock_find_tcp (socks w) (source (th s)) (dest (th s)) (htonl (from_ip s)) = Some i"
    and "socket_table (socks w) ! i = Some sk" "tcp sk = Some c" "tstate c = TCP_LISTEN"
    and "backlog_count sk \<noteq> backlog_size sk" "link env (from_ip s)" "syn (th s)" "\<not> ack (th s)"
  shows "tcp_state_machine env s w = Some (ERROR_OK, set_sock i (half_open sk c s)
    (w\<lparr>sent := sent w @ [(from_ip s, syn_ack_of sk c (th s), [])]\<rparr>))"
  using assms by (simp add: tcp_state_machine_def in_listen_def tcp_recv_syn_def tcp_send_def half_open_def syn_ack_of_def Let_def)

lemma syn_rcvd_ack:
  assumes "net_sock_find_tcp (socks w) (source (th s)) (dest (th s)) (htonl (from_ip s)) = Some i"
    and "socket_table (socks w) ! i = Some sk" "tcp sk = Some c" "tstate c = TCP_SYN_RCVD"
    and "backlog_count sk < backlog_size sk" "\<not> rst (th s)" "\<not> syn (th s)" "ack (th s)"
  obtains w' sk' where "tcp_state_machine env s w = Some (ERROR_OK, set_sock i sk' w')" "socks w' = socks w" "sent w' = sent w"
    "backlog_queue sk' = backlog_queue sk @ [s]" "backlog_count sk' = backlog_count sk + 1"
    "tcp sk' = Some (c\<lparr>tstate := TCP_LISTEN\<rparr>)" "waiting sk' = None"
    "bound_port sk' = bound_port sk" "sin_port sk' = sin_port sk" "sin_addr sk' = sin_addr sk"
    "backlog_size sk' = backlog_size sk" "woken w' = woken w @ (case waiting sk of None \<Rightarrow> [] | Some p \<Rightarrow> [p])"
proof -
  let ?sk = "sk\<lparr>backlog_queue := backlog_queue sk @ [s], backlog_count := backlog_count sk + 1, tcp := Some (c\<lparr>tstate := TCP_LISTEN\<rparr>)\<rparr>"
  have "tcp_state_machine env s w = Some (ERROR_OK, set_sock i (fst (wake ?sk w)) (snd (wake ?sk w)))"
    using assms by (simp add: tcp_state_machine_def in_syn_rcvd_def case_prod_unfold Let_def)
  then show thesis by (rule that) (auto simp: wake_def split: option.splits)
qed

text \<open>The accept of a listener with one segment in its backlog.\<close>

lemma accept_one:
  assumes "socket_table (socks w) ! i = Some sk" "tcp sk = Some c" "tstate c = TCP_LISTEN" "backlog_queue sk = s # q"
    and "backlog_count sk \<noteq> 0" "socket_table (socks w) ! j = Some new" "bound_port sk \<noteq> 0"
  obtains new' sk' where "tcp_accept_connection pid i j w = Some (Some ERROR_OK, set_sock j new' (set_sock i sk' w))"
    "tcp sk' = Some c" "bound_port sk' = bound_port sk" "backlog_queue sk' = q" "backlog_count sk' = backlog_count sk - 1"
    "bound_port new' = bound_port sk" "sin_port new' = sin_port sk" "sin_addr new' = sin_addr sk"
    "tcp new' = Some \<lparr>tstate = TCP_ESTABLISHED, sequence = ack_seq (th s), acknowledgement = htonl (seq (th s)),
       dport = sin_port sk, sport = bound_port sk\<rparr>"
    "recv_buffer new' = recv_buffer new" "pending new' = pending new" "data_ready new' = data_ready new" "recvd new' = recvd new"
proof -
  let ?new = "new\<lparr>bound_ip := ucast INADDR_ANY, bound_port := bound_port sk, sin_port := sin_port sk, sin_addr := sin_addr sk,
      tcp := Some \<lparr>tstate = TCP_ESTABLISHED, sequence = ack_seq (th s), acknowledgement = htonl (seq (th s)),
       dport = sin_port sk, sport = bound_port sk\<rparr>\<rparr>"
  let ?sk = "sk\<lparr>backlog_queue := q, backlog_count := backlog_count sk - 1, sin_port := 0, sin_addr := 0\<rparr>"
  have "tcp_accept_connection pid i j w = Some (Some ERROR_OK, set_sock j ?new (set_sock i ?sk w))"
    using assms by (simp add: tcp_accept_connection_def net_prepare_tcp_sock_def net_sock_bind_def tcp_new_connection_def)
  then show thesis using assms by (intro that [of ?new ?sk]) simp_all
qed

text \<open>
  C32. The passive open. A listening socket, alone on its port, with an empty backlog that has room receives a
  client's \<open>SYN\<close> and then its \<open>ACK\<close>: it answers the \<open>SYN\<close> with one \<open>SYN\<close>/\<open>ACK\<close> that acknowledges the
  client's sequence number plus one, returns to \<open>LISTEN\<close> with one more segment in the backlog, and
  wakes the accepting process. The accept then makes the new socket an \<open>ESTABLISHED\<close> connection to
  the client that expects the sequence number of the \<open>ACK\<close> next, leaves the listener
  listening with its backlog empty again, and from then on every segment of the client is delivered to the new
  socket, not to the listener. (With a segment of another client waiting in the backlog this would not
  hold: the accept takes the oldest segment of the backlog, but the address of the latest client.)
\<close>

theorem tcp_passive_open:
  assumes "socket_table (socks w) ! i = Some sk" "i < length (socket_table (socks w))" "tcp sk = Some c" "tstate c = TCP_LISTEN"
    and "sole_port i (bound_port sk) (socks w)" "bound_port sk \<noteq> 0" "backlog_queue sk = []" "backlog_count sk = 0" "0 < backlog_size sk"
    and "waiting sk = Some pid" "link env ip"
    and "source (th s) = p" "dest (th s) = bound_port sk" "from_ip s = ip" "syn (th s)" "\<not> ack (th s)"
    and "source (th a) = p" "dest (th a) = bound_port sk" "from_ip a = ip" "\<not> rst (th a)" "\<not> syn (th a)" "ack (th a)"
    and "j \<noteq> i" "j < length (socket_table (socks w))" "socket_table (socks w) ! j = Some new"
  shows "\<exists>w1 w2 w3 sk3 new3. tcp_state_machine env s w = Some (ERROR_OK, w1) \<and>
    sent w1 = sent w @ [(ip, syn_ack_of sk c (th s), [])] \<and>
    tcp_state_machine env a w1 = Some (ERROR_OK, w2) \<and> sent w2 = sent w1 \<and> woken w2 = woken w @ [pid] \<and>
    tcp_accept_connection pid i j w2 = Some (Some ERROR_OK, w3) \<and>
    socket_table (socks w3) ! i = Some sk3 \<and> map_option tstate (tcp sk3) = Some TCP_LISTEN \<and>
    backlog_queue sk3 = [] \<and> backlog_count sk3 = 0 \<and>
    socket_table (socks w3) ! j = Some new3 \<and>
    tcp new3 = Some \<lparr>tstate = TCP_ESTABLISHED, sequence = ack_seq (th a), acknowledgement = htonl (seq (th a)),
       dport = p, sport = bound_port sk\<rparr> \<and>
    net_sock_find_tcp (socks w3) p (bound_port sk) (htonl ip) = Some j"
proof -
  let ?dp = "bound_port sk"
  let ?w1 = "set_sock i (half_open sk c s) (w\<lparr>sent := sent w @ [(ip, syn_ack_of sk c (th s), [])]\<rparr>)"
  let ?c1 = "c\<lparr>tstate := TCP_SYN_RCVD, sequence := sequence c + 1, acknowledgement := htonl (seq (th s)) + 1\<rparr>"
  have find: "net_sock_find_tcp (socks w) p ?dp (htonl ip) = Some i"
    using find_sole_listener [OF assms(5,2,1,3)] assms(4) by blast
  have s1: "tcp_state_machine env s w = Some (ERROR_OK, ?w1)"
    using listen_syn [of w s i sk c env] find assms by simp
  have e1: "socket_table (socks ?w1) ! i = Some (half_open sk c s)" "i < length (socket_table (socks ?w1))"
    using assms(2) by (simp_all add: socket_table_set_sock)
  have ho: "tcp (half_open sk c s) = Some ?c1" "bound_port (half_open sk c s) = ?dp" "backlog_queue (half_open sk c s) = []"
    "backlog_count (half_open sk c s) = 0" "backlog_size (half_open sk c s) = backlog_size sk" "waiting (half_open sk c s) = Some pid"
    "sin_port (half_open sk c s) = p" "sin_addr (half_open sk c s) = ip"
    using assms by (simp_all add: half_open_def)
  have sole1: "sole_port i ?dp (socks ?w1)" using assms(5) by (intro sole_port_set_sock) (simp add: sole_port_def)
  have find1: "net_sock_find_tcp (socks ?w1) p ?dp (htonl ip) = Some i"
    using find_sole_listener [OF sole1 e1(2,1) ho(1)] ho by simp
  obtain w2 sk2 where s2: "tcp_state_machine env a ?w1 = Some (ERROR_OK, set_sock i sk2 w2)" "socks w2 = socks ?w1" "sent w2 = sent ?w1"
    "backlog_queue sk2 = [a]" "backlog_count sk2 = 1" "tcp sk2 = Some (?c1\<lparr>tstate := TCP_LISTEN\<rparr>)"
    "bound_port sk2 = ?dp" "sin_port sk2 = p" "sin_addr sk2 = ip" "woken w2 = woken ?w1 @ [pid]"
  proof -
    have "net_sock_find_tcp (socks ?w1) (source (th a)) (dest (th a)) (htonl (from_ip a)) = Some i"
      unfolding assms(17-19) by (rule find1)
    moreover have "tstate ?c1 = TCP_SYN_RCVD" "backlog_count (half_open sk c s) < backlog_size (half_open sk c s)"
      using ho(4,5) assms(9) by simp_all
    ultimately show thesis
    proof (rule syn_rcvd_ack [OF _ e1(1) ho(1) _ _ assms(20-22), of env])
      fix w' sk'
      assume g: "tcp_state_machine env a ?w1 = Some (ERROR_OK, set_sock i sk' w')" "socks w' = socks ?w1" "sent w' = sent ?w1"
        "backlog_queue sk' = backlog_queue (half_open sk c s) @ [a]" "backlog_count sk' = backlog_count (half_open sk c s) + 1"
        "tcp sk' = Some (?c1\<lparr>tstate := TCP_LISTEN\<rparr>)" "bound_port sk' = bound_port (half_open sk c s)"
        "sin_port sk' = sin_port (half_open sk c s)" "sin_addr sk' = sin_addr (half_open sk c s)"
        "woken w' = woken ?w1 @ (case waiting (half_open sk c s) of None \<Rightarrow> [] | Some p \<Rightarrow> [p])"
      show thesis by (rule that [OF g(1-3)]) (simp_all only: g ho append_Nil add_0 option.case)
    qed
  qed
  let ?w2 = "set_sock i sk2 w2"
  have e2: "socket_table (socks ?w2) ! i = Some sk2" "i < length (socket_table (socks ?w2))" "j < length (socket_table (socks ?w2))"
    "socket_table (socks ?w2) ! j = Some new"
    using assms(2,23,24,25) s2(2) by (simp_all add: socket_table_set_sock)
  obtain new3 sk3 where s3: "tcp_accept_connection pid i j ?w2 = Some (Some ERROR_OK, set_sock j new3 (set_sock i sk3 ?w2))"
    "tcp sk3 = Some (?c1\<lparr>tstate := TCP_LISTEN\<rparr>)" "bound_port sk3 = ?dp" "backlog_queue sk3 = []" "backlog_count sk3 = 0"
    "bound_port new3 = ?dp" "sin_port new3 = p" "sin_addr new3 = ip"
    "tcp new3 = Some \<lparr>tstate = TCP_ESTABLISHED, sequence = ack_seq (th a), acknowledgement = htonl (seq (th a)),
       dport = p, sport = ?dp\<rparr>"
  proof (rule accept_one [OF e2(1) s2(6) _ s2(4) _ e2(4), of pid])
    show "tstate (?c1\<lparr>tstate := TCP_LISTEN\<rparr>) = TCP_LISTEN" "backlog_count sk2 \<noteq> 0" "bound_port sk2 \<noteq> 0"
      using s2(5,7) assms(6) by simp_all
    fix new' sk'
    assume g: "tcp_accept_connection pid i j ?w2 = Some (Some ERROR_OK, set_sock j new' (set_sock i sk' ?w2))"
      "tcp sk' = Some (?c1\<lparr>tstate := TCP_LISTEN\<rparr>)" "bound_port sk' = bound_port sk2" "backlog_queue sk' = []"
      "backlog_count sk' = backlog_count sk2 - 1" "bound_port new' = bound_port sk2" "sin_port new' = sin_port sk2" "sin_addr new' = sin_addr sk2"
      "tcp new' = Some \<lparr>tstate = TCP_ESTABLISHED, sequence = ack_seq (th a), acknowledgement = htonl (seq (th a)),
         dport = sin_port sk2, sport = bound_port sk2\<rparr>"
    show thesis by (rule that [OF g(1,2)]) (simp_all add: g s2)
  qed
  let ?w3 = "set_sock j new3 (set_sock i sk3 ?w2)"
  have e3: "socket_table (socks ?w3) ! i = Some sk3" "socket_table (socks ?w3) ! j = Some new3" "j < length (socket_table (socks ?w3))"
    using e2(2,3) assms(23) by (simp_all add: socket_table_set_sock)
  have find3: "net_sock_find_tcp (socks ?w3) p ?dp (htonl ip) = Some j"
  proof (rule find_tcp_connected [OF e3(3)])
    show "tcp_in (socket_table (socks ?w3) ! j) (Socket.connected p ?dp (htonl ip))"
      unfolding e3(2) using s3 by (simp add: tcp_in_def Socket.connected_def htonl_def ntohl_def)
    show "\<forall>k<j. \<not> tcp_in (socket_table (socks ?w3) ! k) (Socket.connected p ?dp (htonl ip))"
    proof (intro allI impI)
      fix k assume k: "k < j"
      show "\<not> tcp_in (socket_table (socks ?w3) ! k) (Socket.connected p ?dp (htonl ip))"
      proof (cases "k = i")
        case True
        then show ?thesis unfolding True e3(1) using s3(2) by (simp add: tcp_in_def Socket.connected_def)
      next
        case False
        have "socket_table (socks ?w3) ! k = socket_table (socks w) ! k"
          using False k s2(2) by (simp add: socket_table_set_sock)
        moreover have "k < length (socket_table (socks w))" using k assms(24) by simp
        ultimately show ?thesis using assms(5) False
          by (auto simp: sole_port_def tcp_in_def Socket.connected_def split: option.splits)
      qed
    qed
  qed
  show ?thesis
    using s1 s2(1,3,10) s3(1,2,4,5,9) e3(1,2) find3
    by (intro exI [of _ ?w1] exI [of _ ?w2] exI [of _ ?w3] exI [of _ sk3] exI [of _ new3]) simp
qed

text \<open>
  C33. In-order delivery. Segments of the peer without \<open>PSH\<close>, in any order and with any sequence
  numbers, are delivered to an established connection with nothing queued on its socket and no
  unread \<open>PSH\<close>, whose receive buffer has room for them: the buffer then holds, after what it held, exactly
  the bytes of the segments that carried the next expected sequence number when they arrived
  (\<open>in_order\<close>, the reference), the acknowledgement number has advanced by that many bytes, and
  the connection is still established; what a process then reads are the oldest of these bytes, in order.
\<close>

theorem tcp_stream_in_order:
  assumes "streaming i sp dp ip n bs w" and "\<forall>s \<in> set segs. data_segment sp dp ip s"
    and "length bs + length (in_order n segs) < 16384"
  shows "\<exists>w'. tcp_deliver env segs w = Some w' \<and>
    streaming i sp dp ip (n + word_of_nat (length (in_order n segs))) (bs @ in_order n segs) w' \<and>
    (\<forall>k pid. 0 < k \<and> k \<le> length (bs @ in_order n segs) \<longrightarrow>
       (\<exists>sk sk'. socket_table (socks w') ! i = Some sk \<and>
          net_sock_read pid sk (word_of_nat k) = Some (Some (int k, take k (bs @ in_order n segs)), sk') \<and>
          contents (recv_buffer sk') = drop k (bs @ in_order n segs)))"
proof -
  obtain w' where w': "tcp_deliver env segs w = Some w'"
    "streaming i sp dp ip (n + word_of_nat (length (in_order n segs))) (bs @ in_order n segs) w'"
    using streaming_run [OF assms] by blast
  moreover have "\<exists>sk sk'. socket_table (socks w') ! i = Some sk \<and>
      net_sock_read pid sk (word_of_nat k) = Some (Some (int k, take k (bs @ in_order n segs)), sk') \<and>
      contents (recv_buffer sk') = drop k (bs @ in_order n segs)"
    if "0 < k \<and> k \<le> length (bs @ in_order n segs)" for k pid
    using streaming_read [OF w'(2), of k pid] that by blast
  ultimately show ?thesis by blast
qed

section \<open>Witnesses\<close>

definition open_world :: tcp_world where
  "open_world = demo_world\<lparr>socks := \<lparr>socket_table = [Some (demo_listener\<lparr>waiting := Some 4\<rparr>), Some (new_sock 1 2 SOCK_STREAM 0 [])],
     socket_map = [3], port_map = [], total_sockets = 2\<rparr>\<rparr>"

definition demo_syn :: segment where
  "demo_syn = demo_segment\<lparr>th := demo_header\<lparr>ack := False, psh := False, syn := True\<rparr>\<rparr>"

theorem tcp_passive_open_witness:
  "\<exists>w1 w2 w3. tcp_state_machine demo_env demo_syn open_world = Some (0, w1) \<and>
     tcp_state_machine demo_env demo_segment w1 = Some (0, w2) \<and> woken w2 = [4] \<and>
     tcp_accept_connection 4 0 1 w2 = Some (Some 0, w3) \<and>
     net_sock_find_tcp (socks w3) 0x9C40 0x5000 (htonl 0x0A00020F) = Some 1"
proof -
  let ?sk = "demo_listener\<lparr>waiting := Some 4\<rparr>"
  let ?c = "\<lparr>tstate = TCP_LISTEN, sequence = 1, acknowledgement = 0, dport = 0, sport = 0x5000\<rparr>"
  have tab: "socket_table (socks open_world) ! 0 = Some ?sk" "0 < length (socket_table (socks open_world))" "tcp ?sk = Some ?c"
    "tstate ?c = TCP_LISTEN" "bound_port ?sk = 0x5000"
    by (simp_all add: open_world_def demo_listener_def)
  have sole: "sole_port 0 (bound_port ?sk) (socks open_world)"
    by (auto simp: sole_port_def open_world_def demo_listener_def new_sock_def less_Suc_eq)
  have "woken open_world = []" by (simp add: open_world_def demo_world_def)
  then show ?thesis
    using tcp_passive_open [OF tab(1-4) sole, of 4 demo_env "0x0A00020F" demo_syn "0x9C40" demo_segment 1 "new_sock 1 2 SOCK_STREAM 0 []"] tab(5)
    by (auto simp: open_world_def demo_syn_def demo_defs)
qed

definition stream_world :: tcp_world where
  "stream_world = demo_world\<lparr>socks := \<lparr>socket_table = [Some (demo_listener\<lparr>sin_port := 0x9C40, sin_addr := 0x0A00020F,
       recv_buffer := rbuffer_new (replicate 16384 0),
       tcp := Some \<lparr>tstate = TCP_ESTABLISHED, sequence = 1, acknowledgement = 7, dport = 0x9C40, sport = 0x5000\<rparr>\<rparr>)],
     socket_map = [1], port_map = [], total_sockets = 1\<rparr>\<rparr>"

definition stream_segment :: "u32 \<Rightarrow> u8 list \<Rightarrow> segment" where
  "stream_segment n bs = \<lparr>th = demo_header\<lparr>seq := htonl n, psh := False\<rparr>, from_ip = 0x0A00020F, payload = bs,
     seg_len = word_of_nat (length bs), seg_retries = 0\<rparr>"

text \<open>The second segment comes first, is dropped, and is taken when it comes again in its place.\<close>

theorem tcp_stream_in_order_witness:
  "\<exists>w'. tcp_deliver demo_env [stream_segment 9 [3, 4], stream_segment 7 [1, 2], stream_segment 9 [3, 4]] stream_world = Some w' \<and>
     streaming 0 0x9C40 0x5000 0x0A00020F 11 [1, 2, 3, 4] w'"
proof -
  let ?segs = "[stream_segment 9 [3, 4], stream_segment 7 [1, 2], stream_segment 9 [3, 4]]"
  have io: "in_order 7 ?segs = [1, 2, 3, 4]"
    by (simp add: stream_segment_def htonl_def ntohl_def)
  have "\<forall>s \<in> set ?segs. data_segment 0x9C40 0x5000 0x0A00020F s"
    by (simp add: stream_segment_def data_segment_def demo_header_def plain_header_def)
  moreover have "streaming 0 0x9C40 0x5000 0x0A00020F 7 [] stream_world"
    by (simp add: streaming_def stream_world_def demo_defs net_sock_find_tcp_def tcp_in_def Socket.connected_def accepting_def)
       (simp add: htonl_def ntohl_def)
  ultimately show ?thesis
    using tcp_stream_in_order [where env = demo_env and n = 7 and segs = ?segs and bs = "[]" and w = stream_world and i = 0 and sp = "0x9C40" and dp = "0x5000" and ip = "0x0A00020F"] unfolding io by auto
qed

end
