(* ===== verification/Udp.thy ===== *)
theory Udp imports Socket
begin

text \<open>
  UDP (net/udp.c): sending a datagram in a fresh buffer and parsing one into the socket bound to its
  port. The result of the checksum is only logged, so the model reads its bytes (the length is the
  one the datagram claims) and drops it.
\<close>

section \<open>net/udp.c\<close>

definition udp_bytes :: "u16 \<Rightarrow> u16 \<Rightarrow> u16 \<Rightarrow> u16 \<Rightarrow> u8 list" where
  "udp_bytes srcport destport udp_length csum = le16_bytes srcport @ le16_bytes destport @ le16_bytes udp_length @ le16_bytes csum"

text \<open>The buffer handed to \<open>net_send_skb\<close>, if any.\<close>

definition net_udp_send :: "net_config \<Rightarrow> 4 word \<Rightarrow> u8 list \<Rightarrow> u32 \<Rightarrow> u16 \<Rightarrow> u16 \<Rightarrow> (int \<times> sk_buff option) option" where
  "net_udp_send net ihl0 data dip src_port dst_port = do {
     let len = (word_of_nat (length data) :: u32);
     (ret, skb) \<leftarrow> net_ipv4_add_header net ihl0 skb_new dip UDP (len + 8);
     if ret < 0 then Some (-1, None)
     else do {
       skb \<leftarrow> put_data (udp_bytes (htons src_port) (htons dst_port) (htons (ucast (len + 8))) (htons 0) @ data) skb;
       Some (0, Some (skb\<lparr>skb_len := skb_len skb + (8 + ucast len), skb_data := skb_data skb + 8 + length data\<rparr>)) } }"

text \<open>The datagram as the socket sees it: a UDP socket has no connection and does not look at a TCP header.\<close>

definition udp_segment :: "tcp_header \<Rightarrow> u32 \<Rightarrow> sk_buff \<Rightarrow> segment" where
  "udp_segment h src skb = \<lparr>th = h, from_ip = src, payload = drop (skb_data skb) (skb_mem skb), seg_len = data_len skb, seg_retries = retries skb\<rparr>"

definition net_udp_parse ::
    "(nat \<Rightarrow> bool) \<Rightarrow> tcp_header \<Rightarrow> sk_buff \<Rightarrow> sockets \<Rightarrow> (int \<times> nat list \<times> sk_buff \<times> sockets) option" where
  "net_udp_parse blocked h skb s = do {
     let p = skb_data skb;
     q \<leftarrow> hdr_ip skb;
     iph \<leftarrow> ip_header_at (skb_mem skb) q;
     srcport \<leftarrow> u16_at (skb_mem skb) p;
     destport \<leftarrow> u16_at (skb_mem skb) (p + 2);
     udp_length \<leftarrow> u16_at (skb_mem skb) (p + 4);
     csum \<leftarrow> u16_at (skb_mem skb) (p + 6);
     _ \<leftarrow> mem_read (skb_mem skb) (int p) (int (unat (ntohs udp_length)));
     m \<leftarrow> mem_write (skb_mem skb) (int p) (udp_bytes (ntohs srcport) (ntohs destport) (ntohs udp_length) (ntohs csum));
     let payload_size = int (unat (ntohs udp_length)) - 8;
     let skb = skb\<lparr>hdr_udp := Some p, skb_mem := m, skb_data := p + 8, data_len := word_of_int payload_size\<rparr>;
     case net_socket_find_udp s (daddr iph) (ntohs destport) of
       None \<Rightarrow> Some (-1, [], skb, s)
     | Some i \<Rightarrow> do {
         sk \<leftarrow> socket_table s ! i;
         (ret, ws, sk) \<leftarrow> net_sock_add_data blocked sk (udp_segment h (saddr iph) skb);
         Some (0, ws, skb, s\<lparr>socket_table := (socket_table s)[i := Some sk]\<rparr>) } }"

section \<open>From one host to the other\<close>

lemma length_udp_bytes [simp]: "length (udp_bytes a b c d) = 8"
  by (simp add: udp_bytes_def le16_bytes_def)

lemma u16_at_nth: "m ! (p + k) = x \<Longrightarrow> m ! (p + Suc k) = y \<Longrightarrow> p + k + 2 \<le> length m \<Longrightarrow> u16_at m (p + k) = Some (le16 x y)"
  by (simp add: u16_at_def)

lemma udp_header_at:
  assumes "m = xs @ udp_bytes a b c d @ ys"
  shows "u16_at m (length xs) = Some a" "u16_at m (length xs + 2) = Some b" "u16_at m (length xs + 4) = Some c"
    "u16_at m (length xs + 6) = Some d"
proof -
  have n: "m ! (length xs + k) = udp_bytes a b c d ! k" if "k < 8" for k using that by (simp add: assms nth_append)
  have at: "u16_at m (length xs + k) = Some (le16 (udp_bytes a b c d ! k) (udp_bytes a b c d ! Suc k))" if "k < 7" for k
    using that by (intro u16_at_nth n) (simp_all add: assms)
  note defs = udp_bytes_def le16_bytes_def le16_le16_bytes
  show "u16_at m (length xs) = Some a" using at [of 0] by (simp add: defs)
  show "u16_at m (length xs + 2) = Some b" by (subst at) (simp_all add: defs)
  show "u16_at m (length xs + 4) = Some c" by (subst at) (simp_all add: defs)
  show "u16_at m (length xs + 6) = Some d" by (subst at) (simp_all add: defs)
qed

lemma udp_send_new:
  assumes "net_udp_send net ihl0 data dip src_port dst_port = Some (0, Some skb)" and "macs_ok net"
  shows "\<exists>skb0 fr. net_ipv4_add_header net ihl0 skb_new dip UDP (word_of_nat (length data) + 8) = Some (0, skb0) \<and>
     length fr = 34 \<and> 42 + length data \<le> SKB_SIZE \<and> take 34 (skb_mem skb0) = fr \<and>
     skb_mem skb = fr @ udp_bytes (htons src_port) (htons dst_port) (htons (word_of_nat (length data) + 8)) (htons 0) @ data @
       replicate (SKB_SIZE - 42 - length data) 0"
proof -
  obtain ret skb0 where a: "net_ipv4_add_header net ihl0 skb_new dip UDP (word_of_nat (length data) + 8) = Some (ret, skb0)" "\<not> ret < 0"
    using assms(1) by (auto simp: net_udp_send_def Let_def split: Option.bind_splits if_splits)
  obtain i fr where s0: "length fr = 14" "ret = 0" "skb_data skb0 = 34"
    "skb_mem skb0 = fr @ ip_bytes (ipv4_header ihl0 (if_ip (ifs net ! i)) dip UDP (word_of_nat (length data) + 8)) @ replicate (SKB_SIZE - 34) 0"
    using ipv4_add_header_new [OF a(1) _ assms(2)] a(2) by auto
  let ?u = "udp_bytes (htons src_port) (htons dst_port) (htons (ucast (word_of_nat (length data) + 8 :: u32))) (htons 0) @ data"
  obtain skb1 where p: "put_data ?u skb0 = Some skb1" "skb_mem skb = skb_mem skb1"
    using assms(1) a by (auto simp: net_udp_send_def Let_def split: Option.bind_splits if_splits)
  then have fit: "42 + length data \<le> SKB_SIZE"
    and m: "skb_mem skb1 = take 34 (skb_mem skb0) @ ?u @ drop (42 + length data) (skb_mem skb0)"
    using s0 by (auto simp: put_data_def mem_write_Some_iff split: Option.bind_splits) 
  have d: "drop (42 + length data) (skb_mem skb0) = replicate (SKB_SIZE - 42 - length data) 0"
    using s0(1,4) by simp
  have e: "(word_of_nat (length data) + 8 :: u32) = word_of_nat (length data + 8)" by simp
  have u: "(ucast (word_of_nat (length data) + 8 :: u32) :: u16) = word_of_nat (length data) + 8"
  proof -
    have "(ucast (word_of_nat k :: u32) :: u16) = word_of_nat k" if "k < 2 ^ 32" for k
      using that by (simp add: unsigned_of_nat take_bit_nat_eq_self)
    from this [of "length data + 8"] show ?thesis unfolding e using fit by simp
  qed
  have "length (take 34 (skb_mem skb0)) = 34" using s0(1,4) by simp
  then show ?thesis using a s0(2) fit m p(2) u unfolding d by (intro exI [of _ skb0]) auto
qed

text \<open>The whole way up: the frame arrives in a buffer and goes through \<open>net_ipv4_parse\<close> and \<open>net_udp_parse\<close>.\<close>

definition udp_receive ::
    "net_config \<Rightarrow> (nat \<Rightarrow> bool) \<Rightarrow> tcp_header \<Rightarrow> sk_buff \<Rightarrow> sockets \<Rightarrow> (int \<times> nat list \<times> sockets) option" where
  "udp_receive net blocked h r s = do {
     (ret, r, arp') \<leftarrow> net_ipv4_parse net r;
     if ret < 0 then Some (ret, [], s)
     else do { (ret, ws, _, s) \<leftarrow> net_udp_parse blocked h r s; Some (ret, ws, s) } }"

text \<open>A socket that takes a datagram at once.\<close>

definition idle :: "sock \<Rightarrow> nat \<Rightarrow> bool" where
  "idle sk n \<longleftrightarrow> tcp sk = None \<and> data_ready sk = 0 \<and> recvd sk < NET_MAX_BUFFER_SIZE \<and> pending sk = [] \<and> linear (recv_buffer sk) \<and>
     rb_end (recv_buffer sk) + int n \<le> rb_size (recv_buffer sk)"

lemma ring_buffer_add_take:
  "n \<le> length data \<Longrightarrow> ring_buffer_add rb data (int n) = ring_buffer_add rb (take n data) (int n)"
  by (auto simp: ring_buffer_add_def mem_read_def Let_def take_drop min_def nat_le_iff split: if_splits)

lemma idle_add:
  assumes "idle sk n" and "unat (seg_len g) = n" and "n \<le> length (payload g)"
  obtains ws sk' where "net_sock_add_data b sk g = Some (ERROR_OK, ws, sk')"
    "contents (recv_buffer sk') = contents (recv_buffer sk) @ take n (payload g)" "data_ready sk' = 1"
    "recvd sk' = recvd sk + ucast (seg_len g)" "bound_port sk' = bound_port sk"
proof -
  have i: "tcp sk = None" "data_ready sk = 0" "recvd sk < NET_MAX_BUFFER_SIZE" "pending sk = []" "linear (recv_buffer sk)"
    "rb_end (recv_buffer sk) + int (length (take n (payload g))) \<le> rb_size (recv_buffer sk)"
    using assms(1,3) by (auto simp: idle_def)
  obtain rb where rb: "ring_buffer_add (recv_buffer sk) (take n (payload g)) (int (length (take n (payload g)))) =
      Some (int (length (take n (payload g))), rb)" "contents rb = contents (recv_buffer sk) @ take n (payload g)"
    using add_append [OF i(5,6)] by metis
  then have r: "ring_buffer_add (recv_buffer sk) (payload g) (int n) = Some (int n, rb)"
    using ring_buffer_add_take [OF assms(3)] assms(3) by simp
  have nr: "\<not> net_sock_data_ready sk NET_MAX_BUFFER_SIZE" using i by (simp add: net_sock_data_ready_def)
  have "\<exists>wk sk1. net_sock_add_data_segment b sk g = Some (ERROR_OK, wk, sk1) \<and> recv_buffer sk1 = rb \<and> data_ready sk1 = 1 \<and>
      recvd sk1 = recvd sk + ucast (seg_len g) \<and> bound_port sk1 = bound_port sk \<and> pending sk1 = []"
    using r i assms(2)
    by (cases "waiting sk"; cases "b (the (waiting sk))") (auto simp: net_sock_add_data_segment_def Let_def)
  then obtain wk sk1 where s1: "net_sock_add_data_segment b sk g = Some (ERROR_OK, wk, sk1)" "recv_buffer sk1 = rb" "data_ready sk1 = 1"
    "recvd sk1 = recvd sk + ucast (seg_len g)" "bound_port sk1 = bound_port sk" "pending sk1 = []" by blast
  then have "net_sock_add_data b sk g = Some (ERROR_OK, (case wk of None \<Rightarrow> [] | Some p \<Rightarrow> [p]), sk1\<lparr>pending := []\<rparr>)"
    using nr by (simp add: net_sock_add_data_def)
  then show thesis by (rule that) (use s1 rb(2) in simp_all)
qed

lemma find_udp_first:
  assumes "k < 128" and "socket_table s ! k = Some sk" and "bound_port sk = htons port"
    and "ucast (bound_ip sk) = ip \<or> ucast (bound_ip sk) = INADDR_ANY"
    and "\<forall>j < k. \<forall>sj. socket_table s ! j = Some sj \<longrightarrow> bound_port sj \<noteq> htons port"
  shows "net_socket_find_udp s ip port = Some k"
  unfolding net_socket_find_udp_def
  by (rule find_from_least) (use assms in \<open>auto split: option.splits\<close>)

text \<open>
  C36. A datagram sent with \<open>net_udp_send\<close> to the address of another host goes up that host's stack,
  \<open>net_ipv4_parse\<close> then \<open>net_udp_parse\<close>, and exactly its bytes are appended to the receive buffer of the
  first socket bound to the destination port, which is marked ready, when that socket is idle: it has
  no unread datagram, nothing queued and room in its buffer. No other socket changes.
\<close>

theorem udp_send_receive:
  assumes "net_udp_send net ihl0 data dip src_port dst_port = Some (0, Some skb)" and "macs_ok net"
    and "skb_mem r = skb_mem skb" and "skb_data r = 14" and "skb_iface r = Some j" and "if_ip (ifs net' ! j) = htonl dip"
    and "k < 128" and "k < length (socket_table s)" and "socket_table s ! k = Some sk" and "bound_port sk = htons dst_port"
    and "ucast (bound_ip sk) = dip \<or> ucast (bound_ip sk) = INADDR_ANY"
    and "\<forall>j < k. \<forall>sj. socket_table s ! j = Some sj \<longrightarrow> bound_port sj \<noteq> htons dst_port" and "idle sk (length data)"
  shows "\<exists>ws s' sk'. udp_receive net' blocked h r s = Some (0, ws, s') \<and> socket_table s' = (socket_table s)[k := Some sk'] \<and>
    contents (recv_buffer sk') = contents (recv_buffer sk) @ data \<and> data_ready sk' = 1 \<and>
    recvd sk' = recvd sk + word_of_nat (length data)"
proof -
  let ?n = "length data" and ?l = "word_of_nat (length data) + 8 :: u16"
  obtain skb0 fr where snd: "net_ipv4_add_header net ihl0 skb_new dip UDP (word_of_nat ?n + 8) = Some (0, skb0)"
    "length fr = 34" "42 + ?n \<le> SKB_SIZE" "take 34 (skb_mem skb0) = fr"
    "skb_mem skb = fr @ udp_bytes (htons src_port) (htons dst_port) (htons ?l) (htons 0) @ data @ replicate (SKB_SIZE - 42 - ?n) 0"
    using udp_send_new [OF assms(1,2)] by (elim exE conjE) (rule that)
  let ?rest = "data @ replicate (SKB_SIZE - 42 - ?n) 0"
  have "take 34 (skb_mem r) = take 34 (skb_mem skb0)" using snd assms(3) by simp
  then obtain i ret r' arp' hd where ip: "net_ipv4_parse net' r = Some (ret, r', arp')"
    "ret = 0 \<longleftrightarrow> if_ip (ifs net' ! j) = htonl dip \<or> dip = BROADCAST_IP" "ip_header_at (skb_mem r') 14 = Some hd" "daddr hd = dip"
    "r' = r\<lparr>hdr_ip := Some 14, skb_mem := take 14 (skb_mem r) @ ip_bytes hd @ drop 34 (skb_mem r), skb_data := 34\<rparr>"
    using ipv4_parse_sent [OF snd(1) assms(2,4,5), of net'] by blast
  have ret: "ret = 0" using ip(2) assms(6) by blast
  define xs where "xs = take 14 (skb_mem r) @ ip_bytes hd"
  have xs: "length xs = 34" using snd(2,5) assms(3) by (simp add: xs_def)
  have m: "skb_mem r' = xs @ udp_bytes (htons src_port) (htons dst_port) (htons ?l) (htons 0) @ ?rest"
    using snd(2,5) assms(3) by (simp add: ip(5) xs_def)
  note at = udp_header_at [OF m, unfolded xs]
  have sw: "ntohs (htons x) = x" for x by (simp add: htons_def ntohs_ntohs)
  have e: "?l = word_of_nat (?n + 8)" by simp
  have "unat (word_of_nat k :: u16) = k" if "k < 65536" for k using that by (simp add: unat_of_nat take_bit_nat_eq_self)
  from this [of "?n + 8"] have l: "unat ?l = ?n + 8" unfolding e using snd(3) by simp
  have rd: "\<exists>bs. mem_read (skb_mem r') 34 (int (unat ?l)) = Some bs" unfolding l m using xs snd(3) by (simp add: mem_read_def)
  let ?m' = "xs @ udp_bytes src_port dst_port ?l 0 @ ?rest"
  have wr: "mem_write (skb_mem r') 34 (udp_bytes src_port dst_port ?l 0) = Some ?m'"
    unfolding m using mem_write_inside [of "udp_bytes (htons src_port) (htons dst_port) (htons ?l) (htons 0)"
        "udp_bytes src_port dst_port ?l 0" xs ?rest] xs by simp
  let ?r2 = "r'\<lparr>hdr_udp := Some 34, skb_mem := ?m', skb_data := 42, data_len := word_of_int (int (unat ?l) - 8)\<rparr>"
  define sg where "sg = udp_segment h (saddr hd) ?r2"
  have dl: "(word_of_int (int (unat ?l) - 8) :: u16) = word_of_nat ?n" unfolding l by simp
  have g: "unat (seg_len sg) = ?n" "payload sg = ?rest" "(ucast (seg_len sg) :: u32) = word_of_nat ?n"
    using snd(3) xs unfolding udp_segment_def sg_def by (simp_all add: dl unat_of_nat unsigned_of_nat take_bit_nat_eq_self)
  obtain ws sk' where add: "net_sock_add_data blocked sk sg = Some (ERROR_OK, ws, sk')"
    "contents (recv_buffer sk') = contents (recv_buffer sk) @ data" "data_ready sk' = 1" "recvd sk' = recvd sk + word_of_nat ?n"
  proof (rule idle_add [OF assms(13) g(1), of blocked])
    show "?n \<le> length (payload sg)" using g(2) by simp
  next
    fix ws sk'
    assume a: "net_sock_add_data blocked sk sg = Some (ERROR_OK, ws, sk')" "data_ready sk' = 1"
      "contents (recv_buffer sk') = contents (recv_buffer sk) @ take ?n (payload sg)" "recvd sk' = recvd sk + ucast (seg_len sg)"
    show thesis by (rule that [OF a(1)]) (simp_all add: a g)
  qed
  have find: "net_socket_find_udp s dip dst_port = Some k" by (rule find_udp_first) (use assms in auto)
  have r': "hdr_ip r' = Some 14" "skb_data r' = 34" by (simp_all add: ip(5))
  have "net_udp_parse blocked h r' s = Some (0, ws, ?r2, s\<lparr>socket_table := (socket_table s)[k := Some sk']\<rparr>)"
    using at rd wr ip(3,4) r' find assms(9) add(1) unfolding net_udp_parse_def Let_def sg_def by (auto simp: sw)
  then have "udp_receive net' blocked h r s = Some (0, ws, s\<lparr>socket_table := (socket_table s)[k := Some sk']\<rparr>)"
    using ip(1) ret by (simp add: udp_receive_def)
  then show ?thesis using add by (intro exI [of _ ws] exI [of _ "s\<lparr>socket_table := (socket_table s)[k := Some sk']\<rparr>"] exI [of _ sk']) simp
qed

section \<open>Witness\<close>

lemma udp_send_succeeds:
  assumes "net_ipv4_add_header net ihl0 skb_new dip UDP (word_of_nat (length data) + 8) = Some (0, skb0)" and "macs_ok net"
    and "42 + length data \<le> SKB_SIZE"
  shows "\<exists>skb. net_udp_send net ihl0 data dip src_port dst_port = Some (0, Some skb)"
proof -
  obtain fr where s0: "skb_data skb0 = 34" "length (skb_mem skb0) = SKB_SIZE"
    using ipv4_add_header_new [OF assms(1) _ assms(2)] by auto
  have w: "\<exists>y. put_data bs skb0 = Some (skb0\<lparr>skb_mem := y\<rparr>)" if "length bs = 8 + length data" for bs
    using that s0 assms(3) by (auto simp: put_data_def mem_write_def)
  have "\<exists>y. put_data (udp_bytes (htons src_port) (htons dst_port) (htons (ucast (word_of_nat (length data) + 8 :: u32))) (htons 0) @ data) skb0 =
      Some (skb0\<lparr>skb_mem := y\<rparr>)" by (rule w) simp
  then show ?thesis using assms(1) by (auto simp: net_udp_send_def Let_def)
qed

definition udp_sock :: sock where
  "udp_sock = (new_sock 0 2 1 0x11 (replicate 64 0))\<lparr>bound_port := htons 7000, bound_ip := 1\<rparr>"

definition no_tcp :: tcp_header where
  "no_tcp = \<lparr>source = 0, dest = 0, seq = 0, ack_seq = 0, doff = 0, fin = False, syn = False, rst = False,
     psh = False, ack = False, window = 0\<rparr>"

theorem udp_send_receive_witness:
  "\<exists>skb ws s' sk'. net_udp_send demo_net 5 [1, 2, 3] 0x0A00020F 5000 7000 = Some (0, Some skb) \<and>
     udp_receive demo_net (\<lambda>_. True) no_tcp (skb\<lparr>skb_data := 14, skb_iface := Some 0\<rparr>)
       \<lparr>socket_table = [Some udp_sock], socket_map = [1], port_map = [], total_sockets = 1\<rparr> = Some (0, ws, s') \<and>
     socket_table s' = [Some sk'] \<and> contents (recv_buffer sk') = [1, 2, 3] \<and> data_ready sk' = 1"
proof -
  obtain m where "net_arp_find_entry (ntohl (route (gw demo_net) 0x0A00020F)) (arp demo_net) = (1, Some m)" "length m = 6"
    using demo_net_ok(3) by blast
  moreover have "0 < length (ifs demo_net)" by (simp add: demo_net_def)
  ultimately obtain skb0 where "net_ipv4_add_header demo_net 5 skb_new 0x0A00020F UDP (word_of_nat (length [1 :: u8, 2, 3]) + 8) = Some (0, skb0)"
    using ipv4_add_header_succeeds [OF demo_net_ok(1,2)] by blast
  from udp_send_succeeds [OF this demo_net_ok(1)]
  obtain skb where skb: "net_udp_send demo_net 5 [1, 2, 3] 0x0A00020F 5000 7000 = Some (0, Some skb)" by auto
  let ?s = "\<lparr>socket_table = [Some udp_sock], socket_map = [1], port_map = [], total_sockets = 1\<rparr>"
  let ?r = "skb\<lparr>skb_data := 14, skb_iface := Some 0\<rparr>"
  have r: "skb_mem ?r = skb_mem skb" "skb_data ?r = 14" "skb_iface ?r = Some 0" by simp_all
  have ip: "if_ip (ifs demo_net ! 0) = htonl 0x0A00020F" by (simp add: demo_net_def htonl_def ntohl_def)
  have u: "socket_table ?s ! 0 = Some udp_sock" "bound_port udp_sock = htons 7000"
    "ucast (bound_ip udp_sock) = (0x0A00020F :: u32) \<or> ucast (bound_ip udp_sock) = INADDR_ANY"
    "idle udp_sock (length [1 :: u8, 2, 3])" "contents (recv_buffer udp_sock) = []"
    by (simp_all add: udp_sock_def new_sock_def idle_def)
  have n: "(0 :: nat) < 128" "0 < length (socket_table ?s)" "\<forall>j < 0. \<forall>sj. socket_table ?s ! j = Some sj \<longrightarrow> bound_port sj \<noteq> htons 7000" by simp_all
  show ?thesis
    using udp_send_receive [OF skb demo_net_ok(1) r ip n(1,2) u(1,2,3) n(3) u(4), of "\<lambda>_. True" no_tcp] skb u(5) by fastforce
qed

end
