(* ===== verification/Disk.thy ===== *)
theory Disk imports Bytes
begin

text \<open>
  The block device (kernel/diskdev.c): a disk is the list of its 512-byte blocks. The driver behind
  \<open>disk_device.read\<close> and \<open>disk_device.write\<close> moves one block; an access outside the disk is a fault.
\<close>

abbreviation (input) BLOCK :: nat where "BLOCK \<equiv> 512"

type_synonym disk = "u8 list list"

definition disk_ok :: "disk \<Rightarrow> bool" where
  "disk_ok d \<longleftrightarrow> (\<forall>b \<in> set d. length b = BLOCK)"

section \<open>kernel/diskdev.c\<close>

definition read_block :: "disk \<Rightarrow> int \<Rightarrow> u8 list option" where
  "read_block d block = (if 0 \<le> block \<and> block < int (length d) then Some (d ! nat block) else None)"

definition write_block :: "u8 list \<Rightarrow> int \<Rightarrow> disk \<Rightarrow> disk option" where
  "write_block buf block d =
     (if 0 \<le> block \<and> block < int (length d) \<and> BLOCK \<le> length buf then Some (d[nat block := take BLOCK buf]) else None)"

definition write_block_offset :: "u8 list \<Rightarrow> int \<Rightarrow> int \<Rightarrow> disk \<Rightarrow> disk option" where
  "write_block_offset usr_buf offset block d = do {
     buf \<leftarrow> read_block d block;
     buf \<leftarrow> mem_write buf offset usr_buf;
     write_block buf block d }"

definition read_block_offset :: "int \<Rightarrow> int \<Rightarrow> int \<Rightarrow> disk \<Rightarrow> u8 list option" where
  "read_block_offset sz offset block d = do {
     buf \<leftarrow> read_block d block;
     mem_read buf offset sz }"

section \<open>Facts\<close>

lemma disk_block_length: "disk_ok d \<Longrightarrow> b < length d \<Longrightarrow> length (d ! b) = BLOCK"
  by (simp add: disk_ok_def)

lemma disk_ok_update: "disk_ok d \<Longrightarrow> length bs = BLOCK \<Longrightarrow> disk_ok (d[b := bs])"
  using set_update_subset_insert by (fastforce simp: disk_ok_def)

lemma read_block_offset_nat:
  "disk_ok d \<Longrightarrow> b < length d \<Longrightarrow> off + n \<le> BLOCK \<Longrightarrow>
   read_block_offset (int n) (int off) (int b) d = Some (take n (drop off (d ! b)))"
  by (simp add: read_block_offset_def read_block_def mem_read_def disk_block_length)

text \<open>A write inside a block.\<close>

definition patch :: "nat \<Rightarrow> u8 list \<Rightarrow> u8 list \<Rightarrow> u8 list" where
  "patch off bs blk = take off blk @ bs @ drop (off + length bs) blk"

lemma length_patch [simp]: "off + length bs \<le> length blk \<Longrightarrow> length (patch off bs blk) = length blk"
  by (simp add: patch_def)

lemma write_block_offset_nat:
  "disk_ok d \<Longrightarrow> b < length d \<Longrightarrow> off + length bs \<le> BLOCK \<Longrightarrow>
   write_block_offset bs (int off) (int b) d = Some (d[b := patch off bs (d ! b)])"
  by (simp add: write_block_offset_def read_block_def mem_write_def write_block_def disk_block_length patch_def nat_add_distrib)

end
