(* ===== verification/Fat16.thy ===== *)
theory Fat16 imports Disk
begin

text \<open>
  The FAT16 file system, its table and its data (fs/fat16.c, fs/fat16_read.c, fs/fat16_write.c). The
  state is the table in memory (\<open>None\<close> before \<open>fat16_load\<close>), the fields of the boot table the code
  uses, the current directory and the disk. Clusters are the machine integers of the code; the
  locks make each operation one step.
\<close>

record fat16 =
  fat_table :: "u16 list option"
  reserved_blocks :: u16
  fat_blocks :: u16
  root_dir_entries :: u16
  current_dir_block :: u16
  fdisk :: disk

section \<open>fs/fat16.c: the table\<close>

definition get_fat_start_block :: "fat16 \<Rightarrow> u16" where
  "get_fat_start_block st = 0 + reserved_blocks st"

definition get_root_directory_start_block :: "fat16 \<Rightarrow> u16" where
  "get_root_directory_start_block st = get_fat_start_block st + fat_blocks st"

definition get_data_start_block :: "fat16 \<Rightarrow> u16" where
  "get_data_start_block st = get_root_directory_start_block st - 1"

definition fat16_get_fat_entry :: "fat16 \<Rightarrow> u32 \<Rightarrow> u16 option" where
  "fat16_get_fat_entry st cluster =
     (case fat_table st of None \<Rightarrow> Some (-1)
      | Some t \<Rightarrow> (let i = unat (cluster * 2) div 2 in if i < length t then Some (t ! i) else None))"

definition fat16_set_fat_entry :: "u32 \<Rightarrow> u16 \<Rightarrow> fat16 \<Rightarrow> fat16 option" where
  "fat16_set_fat_entry cluster val st =
     (case fat_table st of None \<Rightarrow> Some st
      | Some t \<Rightarrow>
          (let i = unat (cluster * 2) div 2
           in if i < length t then Some (st\<lparr>fat_table := Some (t[i := val])\<rparr>) else None))"

text \<open>The table in memory is bytes for \<open>fat16_sync_fat_table\<close>; the loop runs over \<open>uint16_t i\<close>.\<close>

definition table_bytes :: "u16 list \<Rightarrow> u8 list" where
  "table_bytes t = concat (map le16_bytes t)"

definition fat16_sync_fat_table :: "fat16 \<Rightarrow> fat16 option" where
  "fat16_sync_fat_table st =
     (case fat_table st of None \<Rightarrow> Some st
      | Some t \<Rightarrow> do {
          d \<leftarrow> for_loop 0 (unat (fat_blocks st)) (\<lambda>i d. do {
                 bs \<leftarrow> mem_read (table_bytes t) (int (i * 512)) 512;
                 write_block bs (int (unat (get_fat_start_block st)) + int i) d }) (fdisk st);
          Some (st\<lparr>fdisk := d\<rparr>) })"

definition fat16_allocate_cluster :: "u32 \<Rightarrow> fat16 \<Rightarrow> fat16 option" where
  "fat16_allocate_cluster cluster st = fat16_set_fat_entry cluster 0xFFFF st"

definition fat16_free_cluster :: "u32 \<Rightarrow> fat16 \<Rightarrow> fat16 option" where
  "fat16_free_cluster cluster st = fat16_set_fat_entry cluster 0x0000 st"

text \<open>
  \<open>for (i = 5; i < 65536; i++)\<close>, \<open>k\<close> iterations left. The loop releases \<open>fat16_table_lock\<close>, whose
  \<open>acquire\<close> is commented out, when it has found a cluster; the locks are not part of the state.
\<close>

fun free_cluster_loop :: "fat16 \<Rightarrow> nat \<Rightarrow> nat \<Rightarrow> (u32 \<times> fat16) option" where
  "free_cluster_loop st i 0 = Some (-1, st)"
| "free_cluster_loop st i (Suc k) = do {
     e \<leftarrow> fat16_get_fat_entry st (of_nat i);
     if e = 0x0000 then do { st \<leftarrow> fat16_allocate_cluster (of_nat i) st; Some (of_nat i, st) }
     else free_cluster_loop st (Suc i) k }"

definition fat16_get_free_cluster :: "fat16 \<Rightarrow> (u32 \<times> fat16) option" where
  "fat16_get_free_cluster st = free_cluster_loop st 5 65531"

text \<open>
  The loop of \<open>fat16_free_clusters\<close>, run for at most \<open>fuel\<close> iterations: \<open>Some None\<close> says that it is
  still running. \<open>current_cluster\<close> is an \<open>int\<close>, the entry a \<open>uint16_t\<close>.
\<close>

fun free_clusters :: "nat \<Rightarrow> int \<Rightarrow> u32 \<Rightarrow> fat16 \<Rightarrow> (int \<times> fat16) option option" where
  "free_clusters fuel cnt current st =
     (if current = 0xFFFF then Some (Some (cnt, st))
      else case fuel of 0 \<Rightarrow> Some None
      | Suc fuel \<Rightarrow> do {
          st \<leftarrow> fat16_free_cluster current st;
          e \<leftarrow> fat16_get_fat_entry st current;
          free_clusters fuel (cnt + 1) (ucast e) st })"

declare free_clusters.simps [simp del]

text \<open>The loop of \<open>fat16_used_blocks\<close>.\<close>

definition fat16_used_blocks :: "fat16 \<Rightarrow> int option" where
  "fat16_used_blocks st = for_loop 0 65536 (\<lambda>i used. do {
     e \<leftarrow> fat16_get_fat_entry st (of_nat i);
     Some (if e = 0xFFFF \<or> e = 0 then used else used + 1) }) 0"

section \<open>fs/fat16_read.c\<close>

definition GET_DIRECTORY_BLOCK :: "fat16 \<Rightarrow> u32 \<Rightarrow> u32" where
  "GET_DIRECTORY_BLOCK st cluster =
     (if cluster = 0 then ucast (get_root_directory_start_block st) else ucast (get_data_start_block st) + cluster)"

definition fat16_read_data_from_cluster :: "fat16 \<Rightarrow> u32 \<Rightarrow> int \<Rightarrow> int \<Rightarrow> (int \<times> u8 list) option" where
  "fat16_read_data_from_cluster st cluster data_length offset =
     (if offset + data_length > 512 then Some (-1, [])
      else do {
        bs \<leftarrow> read_block_offset data_length offset (int (unat (ucast (GET_DIRECTORY_BLOCK st cluster) :: u16))) (fdisk st);
        Some (data_length, bs) })"

fun skip_clusters :: "fat16 \<Rightarrow> nat \<Rightarrow> u32 \<Rightarrow> u32 option" where
  "skip_clusters st 0 current = Some current"
| "skip_clusters st (Suc n) current =
     (if current = 0xFFFF then Some current
      else do { e \<leftarrow> fat16_get_fat_entry st current; skip_clusters st n (ucast e) })"

text \<open>The reading loop: what is left to read and the bytes read.\<close>

function read_clusters :: "fat16 \<Rightarrow> nat \<Rightarrow> nat \<Rightarrow> u32 \<Rightarrow> (nat \<times> u8 list) option" where
  "read_clusters st left offset current =
     (if left > 0 \<and> current \<noteq> 0xFFFF then do {
        let n = (if left > 512 - offset then 512 - offset else left);
        (_, bs) \<leftarrow> fat16_read_data_from_cluster st current (int n) (int offset);
        e \<leftarrow> fat16_get_fat_entry st current;
        (left, rest) \<leftarrow> read_clusters st (left - n) 0 (ucast e);
        Some (left, bs @ rest) }
      else Some (left, []))"
  by auto
termination
  by (relation "measure (\<lambda>(st, left, offset, current). 2 * left + (if offset = 0 then 0 else 1))") auto

declare read_clusters.simps [simp del]

definition fat16_read_data :: "fat16 \<Rightarrow> u32 \<Rightarrow> u32 \<Rightarrow> u32 \<Rightarrow> u32 \<Rightarrow> (int \<times> u8 list) option" where
  "fat16_read_data st first_cluster start_offset buffer_length max_length =
     (if start_offset > max_length then Some (-1, [])
      else do {
        let total = sint (if start_offset + buffer_length > max_length then max_length - start_offset else buffer_length);
        current \<leftarrow> skip_clusters st (unat (start_offset div 512)) first_cluster;
        (left, bs) \<leftarrow> read_clusters st (nat total) (unat (start_offset mod 512)) current;
        if left > 0 then Some (-3, bs) else Some (total, bs) })"

section \<open>fs/fat16_write.c\<close>

text \<open>\<open>cluster_offset\<close> is the second component.\<close>

function find_cluster_loop :: "fat16 \<Rightarrow> int \<Rightarrow> int \<Rightarrow> u32 \<Rightarrow> (u32 \<times> int) option" where
  "find_cluster_loop st offset traversed current =
     (if current < 0xFFF8 \<and> current \<noteq> 0xFFFF \<and> traversed + 512 < offset then do {
        e \<leftarrow> fat16_get_fat_entry st current;
        find_cluster_loop st offset (traversed + 512) (ucast e) }
      else Some (current, offset - traversed))"
  by auto
termination
  by (relation "measure (\<lambda>(st, offset, traversed, current). nat (offset - traversed))") auto

declare find_cluster_loop.simps [simp del]

definition fat16_find_cluster_by_offset :: "fat16 \<Rightarrow> u32 \<Rightarrow> int \<Rightarrow> (u32 \<times> int) option" where
  "fat16_find_cluster_by_offset st first_cluster offset = find_cluster_loop st offset 0 first_cluster"

definition fat16_write_data_to_cluster_with_offset :: "u32 \<Rightarrow> int \<Rightarrow> u8 list \<Rightarrow> fat16 \<Rightarrow> fat16 option" where
  "fat16_write_data_to_cluster_with_offset cluster offset data st = do {
     d \<leftarrow> write_block_offset data offset (sint (GET_DIRECTORY_BLOCK st cluster)) (fdisk st);
     Some (st\<lparr>fdisk := d\<rparr>) }"

text \<open>
  The cluster the next bytes go to: the next one of the chain or, at its end, a new one linked behind
  \<open>current\<close>. The comparison with \<open>MAX_UINT16_T\<close> is with the \<open>uint32_t\<close> that holds \<open>-1\<close> when there is none.
  \<open>Inl\<close> is the early return. \<open>fat16_write_data\<close> also calls \<open>fat16_print_cluster_chain\<close> before and after,
  which only prints; on a chain that does not end it would not return.
\<close>

definition fat16_next_cluster :: "u32 \<Rightarrow> u32 \<Rightarrow> fat16 \<Rightarrow> (int \<times> fat16 + u32 \<times> fat16) option" where
  "fat16_next_cluster current next_cluster st =
     (if sint next_cluster < 0 \<or> next_cluster = 0xFFFF \<or> sint next_cluster \<ge> 0xFFF8
      then do {
        (free_cluster, st) \<leftarrow> fat16_get_free_cluster st;
        if free_cluster = 0xFFFF then Some (Inl (-1, st))
        else if current > 0 then do {
          st \<leftarrow> fat16_set_fat_entry current (ucast free_cluster) st;
          Some (Inr (free_cluster, st)) }
        else Some (Inl (-2, st)) }
      else Some (Inr (next_cluster, st)))"

function write_clusters :: "u32 \<Rightarrow> u32 \<Rightarrow> nat \<Rightarrow> u8 list \<Rightarrow> fat16 \<Rightarrow> (int \<times> fat16 + u32 \<times> fat16) option" where
  "write_clusters current next_cluster offset data st =
     (if data = [] then Some (Inr (current, st))
      else do {
        r \<leftarrow> fat16_next_cluster current next_cluster st;
        case r of Inl e \<Rightarrow> Some (Inl e)
        | Inr (current, st) \<Rightarrow>
            if 512 < offset then None
            else do {
              let write_size = min (512 - offset) (length data);
              st \<leftarrow> fat16_write_data_to_cluster_with_offset current (int offset) (take write_size data) st;
              e \<leftarrow> fat16_get_fat_entry st current;
              write_clusters current (ucast e) 0 (drop write_size data) st } })"
  by auto
termination
  by (relation "measure (\<lambda>(current, next_cluster, offset, data, st). 2 * length data + (if offset = 0 then 0 else 1))") (auto simp: min_def)

declare write_clusters.simps [simp del]

definition fat16_write_data :: "u32 \<Rightarrow> int \<Rightarrow> u8 list \<Rightarrow> fat16 \<Rightarrow> (int \<times> fat16) option" where
  "fat16_write_data first_cluster offset data st =
     (if data = [] then Some (-1, st)
      else do {
        (current, cluster_offset) \<leftarrow> fat16_find_cluster_by_offset st first_cluster offset;
        if cluster_offset < 0 then None
        else do {
          r \<leftarrow> write_clusters current current (nat cluster_offset) data st;
          case r of Inl e \<Rightarrow> Some e
          | Inr (current, st) \<Rightarrow> do {
              e \<leftarrow> fat16_get_fat_entry st current;
              st \<leftarrow> (if e \<noteq> 0xFFFF then fat16_set_fat_entry current 0xFFFF st else Some st);
              st \<leftarrow> fat16_sync_fat_table st;
              Some (int (length data), st) } } })"

section \<open>A well-formed file system\<close>

abbreviation table :: "fat16 \<Rightarrow> u16 list" where "table st \<equiv> the (fat_table st)"

text \<open>The block of cluster 0 of the data area, as a number; the block of a cluster.\<close>

definition dstart :: "fat16 \<Rightarrow> nat" where
  "dstart st = unat (reserved_blocks st) + unat (fat_blocks st) - 1"

definition blk :: "fat16 \<Rightarrow> nat \<Rightarrow> u8 list" where
  "blk st c = fdisk st ! (dstart st + c)"

text \<open>
  The table is loaded and has the fsize of its blocks, its clusters are below the end marks and have a
  block on the disk, and no block number of a cluster overflows 16 bits.
\<close>

definition fat_ok :: "fat16 \<Rightarrow> bool" where
  "fat_ok st \<longleftrightarrow> fat_table st \<noteq> None \<and> length (table st) = 256 * unat (fat_blocks st) \<and> length (table st) \<le> 0xFFF7 \<and>
     unat (reserved_blocks st) + unat (fat_blocks st) + length (table st) \<le> 65536 \<and>
     0 < unat (fat_blocks st) \<and> dstart st + length (table st) \<le> length (fdisk st) \<and> disk_ok (fdisk st)"

lemma fat_okD:
  assumes "fat_ok st"
  shows "fat_table st = Some (table st)" "length (table st) \<le> 0xFFF7" "dstart st + length (table st) \<le> length (fdisk st)"
    "disk_ok (fdisk st)" "dstart st + length (table st) < 65536" "unat (get_data_start_block st) = dstart st"
    "0 < unat (fat_blocks st)" "length (table st) = 256 * unat (fat_blocks st)"
proof -
  show "fat_table st = Some (table st)" "length (table st) \<le> 0xFFF7" "dstart st + length (table st) \<le> length (fdisk st)"
    "disk_ok (fdisk st)" "dstart st + length (table st) < 65536" "0 < unat (fat_blocks st)" "length (table st) = 256 * unat (fat_blocks st)"
    using assms by (auto simp: fat_ok_def dstart_def)
  have le: "unat (reserved_blocks st) + unat (fat_blocks st) < 2 ^ 16" "0 < unat (fat_blocks st)"
    using assms by (auto simp: fat_ok_def)
  then have root: "unat (get_root_directory_start_block st) = unat (reserved_blocks st) + unat (fat_blocks st)"
    by (simp add: get_root_directory_start_block_def get_fat_start_block_def unat_word_ariths)
  then have "get_root_directory_start_block st \<noteq> 0" using le by (metis add_is_0 less_nat_zero_code unsigned_0)
  then show "unat (get_data_start_block st) = dstart st"
    using root by (simp add: get_data_start_block_def dstart_def unat_minus_one)
qed

text \<open>The table and the blocks through the machine integers.\<close>

lemma unat_of_small: "c < 65536 \<Longrightarrow> unat (of_nat c :: u32) = c"
  by (simp add: unat_of_nat take_bit_nat_eq_self)

lemma sint_small: "unat (w :: u32) < 2 ^ 31 \<Longrightarrow> sint w = int (unat w)"
proof -
  assume "unat w < 2 ^ 31"
  then have "int (unat w) < int (2 ^ 31)" by (simp only: of_nat_less_iff)
  then have "uint w < 2 ^ 31" by simp
  moreover have "- (2 ^ 31) \<le> uint w" by (rule order_trans [OF _ uint_ge_0]) simp
  ultimately have "signed_take_bit 31 (uint w) = uint w" by (intro signed_take_bit_int_eq_self)
  then have "sint w = uint w" by (simp add: sint_uint)
  then show ?thesis by simp
qed

lemma double_index: "c < 65536 \<Longrightarrow> unat ((of_nat c :: u32) * 2) div 2 = c"
proof -
  assume c: "c < 65536"
  have "unat ((of_nat c :: u32) * 2) = c * 2"
    using c by (simp add: unat_word_ariths unat_of_small)
  then show ?thesis by simp
qed

lemma get_entry_nat: "fat_ok st \<Longrightarrow> c < length (table st) \<Longrightarrow> fat16_get_fat_entry st (of_nat c) = Some (table st ! c)"
  using fat_okD(1,2) [of st] by (auto simp: fat16_get_fat_entry_def double_index Let_def split: option.splits)

lemma set_entry_nat:
  "fat_ok st \<Longrightarrow> c < length (table st) \<Longrightarrow> fat16_set_fat_entry (of_nat c) v st = Some (st\<lparr>fat_table := Some ((table st)[c := v])\<rparr>)"
  using fat_okD(1,2) [of st] by (auto simp: fat16_set_fat_entry_def double_index Let_def split: option.splits)

lemma directory_block_nat:
  assumes "fat_ok st" and "0 < c" and "c < length (table st)"
  shows "unat (GET_DIRECTORY_BLOCK st (of_nat c)) = dstart st + c"
    "unat (ucast (GET_DIRECTORY_BLOCK st (of_nat c)) :: u16) = dstart st + c" "sint (GET_DIRECTORY_BLOCK st (of_nat c)) = int (dstart st + c)"
proof -
  note d = fat_okD [OF assms(1)]
  have c: "c < 65536" using assms(3) d(2) by simp
  then have "(of_nat c :: u32) \<noteq> 0" using assms(2) unat_of_small [of c] by auto
  then have b: "GET_DIRECTORY_BLOCK st (of_nat c) = ucast (get_data_start_block st) + of_nat c" by (simp add: GET_DIRECTORY_BLOCK_def)
  have u: "unat (ucast (get_data_start_block st) :: u32) = dstart st"
    using d(5,6) by (simp add: unsigned_ucast_eq take_bit_nat_eq_self)
  show g: "unat (GET_DIRECTORY_BLOCK st (of_nat c)) = dstart st + c"
    unfolding b using u d(5) assms(3) c by (simp add: unat_word_ariths unat_of_small)
  then show "unat (ucast (GET_DIRECTORY_BLOCK st (of_nat c)) :: u16) = dstart st + c"
    using d(5) assms(3) by (simp add: unsigned_ucast_eq take_bit_nat_eq_self)
  have "unat (GET_DIRECTORY_BLOCK st (of_nat c)) < 2 ^ 31" using g d(5) assms(3) by simp
  then show "sint (GET_DIRECTORY_BLOCK st (of_nat c)) = int (dstart st + c)"
    unfolding g [symmetric] by (rule sint_small)
qed

section \<open>Files\<close>

text \<open>The clusters of a file: a chain of distinct data clusters ending in \<open>0xFFFF\<close>. Its bytes are those of its blocks.\<close>

definition file_at :: "fat16 \<Rightarrow> nat list \<Rightarrow> bool" where
  "file_at st cs \<longleftrightarrow> cs \<noteq> [] \<and> distinct cs \<and> (\<forall>c \<in> set cs. 2 \<le> c \<and> c < length (table st)) \<and>
     (\<forall>i. Suc i < length cs \<longrightarrow> table st ! (cs ! i) = of_nat (cs ! Suc i)) \<and> table st ! last cs = 0xFFFF"

definition file_bytes :: "fat16 \<Rightarrow> nat list \<Rightarrow> u8 list" where
  "file_bytes st cs = concat (map (blk st) cs)"

lemma blk_length: "fat_ok st \<Longrightarrow> c < length (table st) \<Longrightarrow> length (blk st c) = BLOCK"
  using fat_okD(3,4) [of st] by (simp add: blk_def disk_block_length)

lemma file_bytes_length: "fat_ok st \<Longrightarrow> \<forall>c \<in> set cs. c < length (table st) \<Longrightarrow> length (file_bytes st cs) = BLOCK * length cs"
  by (induction cs) (simp_all add: file_bytes_def blk_length)

lemma file_bytes_Cons [simp]: "file_bytes st [] = []" "file_bytes st (c # cs) = blk st c @ file_bytes st cs"
  by (simp_all add: file_bytes_def)

lemma file_entry:
  assumes "fat_ok st" and "file_at st cs" and "i < length cs"
  shows "fat16_get_fat_entry st (of_nat (cs ! i)) = Some (if Suc i < length cs then of_nat (cs ! Suc i) else 0xFFFF)"
proof -
  have "cs ! i < length (table st)" using assms(2,3) by (simp add: file_at_def)
  moreover have "Suc i = length cs \<Longrightarrow> cs ! i = last cs" using assms(3) by (cases cs rule: rev_cases) (auto simp: nth_append)
  ultimately show ?thesis using assms get_entry_nat by (auto simp: file_at_def)
qed

lemma cluster_small: "fat_ok st \<Longrightarrow> file_at st cs \<Longrightarrow> c \<in> set cs \<Longrightarrow> c < 0xFFF8 \<and> 2 \<le> c \<and> c < length (table st)"
  using fat_okD(2) [of st] by (auto simp: file_at_def)

lemma next_cluster_word: "c < 0xFFF8 \<Longrightarrow> ucast (of_nat c :: u16) = (of_nat c :: u32)"
  by (simp add: unsigned_of_nat take_bit_nat_eq_self)

lemma cluster_not_end: "c < 0xFFF8 \<Longrightarrow> (of_nat c :: u32) \<noteq> 0xFFFF"
  using unat_of_small [of c] by auto

section \<open>Reading a file\<close>

lemma read_cluster_nat:
  assumes "fat_ok st" and "0 < c" and "c < length (table st)" and "off + n \<le> 512"
  shows "fat16_read_data_from_cluster st (of_nat c) (int n) (int off) = Some (int n, take n (drop off (blk st c)))"
  using assms fat_okD(3,4) [OF assms(1)] directory_block_nat(2) [OF assms(1-3)]
  by (simp add: fat16_read_data_from_cluster_def read_block_offset_nat blk_def del: of_nat_add)

lemma read_clusters_file:
  assumes "fat_ok st" and "file_at st cs"
  shows "i < length cs \<Longrightarrow> off < 512 \<Longrightarrow> off + left \<le> 512 * (length cs - i) \<Longrightarrow>
    read_clusters st left off (of_nat (cs ! i)) = Some (0, take left (drop off (file_bytes st (drop i cs))))"
proof (induction left arbitrary: i off rule: less_induct)
  case (less left)
  let ?c = "cs ! i"
  show ?case
  proof (cases "left = 0")
    case True
    then show ?thesis by (simp add: read_clusters.simps)
  next
    case False
    define n where "n = min left (512 - off)"
    have c: "?c < 0xFFF8" "2 \<le> ?c" "?c < length (table st)" using cluster_small [OF assms, of ?c] less.prems(1) by auto
    have n: "0 < n" "n \<le> left" "off + n \<le> 512" "(if left > 512 - off then 512 - off else left) = n"
      using False less.prems(2) by (auto simp: n_def)
    have d: "drop i cs = ?c # drop (Suc i) cs" using less.prems(1) by (simp add: Cons_nth_drop_Suc)
    have bl: "length (blk st ?c) = 512" using blk_length [OF assms(1) c(3)] .
    have rest: "read_clusters st (left - n) 0 (ucast (if Suc i < length cs then of_nat (cs ! Suc i) else 0xFFFF :: u16)) =
        Some (0, take (left - n) (file_bytes st (drop (Suc i) cs)))"
    proof (cases "left - n = 0")
      case True
      then show ?thesis by (simp add: read_clusters.simps)
    next
      case more: False
      then have full: "n = 512 - off" by (auto simp: n_def min_def split: if_splits)
      then have len: "left - n \<le> 512 * (length cs - Suc i)" using less.prems(2,3) by simp
      have i: "Suc i < length cs"
      proof (rule ccontr)
        assume "\<not> Suc i < length cs"
        then show False using len more by simp
      qed
      have "read_clusters st (left - n) 0 (of_nat (cs ! Suc i)) = Some (0, take (left - n) (drop 0 (file_bytes st (drop (Suc i) cs))))"
        by (rule less.IH) (use n False i len in auto)
      moreover have "cs ! Suc i < 0xFFF8" using cluster_small [OF assms, of "cs ! Suc i"] i by auto
      ultimately show ?thesis using i next_cluster_word by simp
    qed
    have "read_clusters st left off (of_nat ?c) = Some (0, take n (drop off (blk st ?c)) @ take (left - n) (file_bytes st (drop (Suc i) cs)))"
      using False cluster_not_end [OF c(1)] read_cluster_nat [OF assms(1) _ c(3) n(3)] c(2) file_entry [OF assms less.prems(1)] rest
      by (subst read_clusters.simps) (simp only: n(4) Let_def Option.bind.simps prod.case, simp)
    moreover have "take n (drop off (blk st ?c)) @ take (left - n) (file_bytes st (drop (Suc i) cs)) = take left (drop off (file_bytes st (drop i cs)))"
      unfolding d using bl n less.prems(2) by (auto simp: n_def min_def)
    ultimately show ?thesis by simp
  qed
qed

lemma skip_clusters_file:
  assumes "fat_ok st" and "file_at st cs"
  shows "i + n < length cs \<Longrightarrow> skip_clusters st n (of_nat (cs ! i)) = Some (of_nat (cs ! (i + n)))"
proof (induction n arbitrary: i)
  case (Suc n)
  have "cs ! i < 0xFFF8" "cs ! Suc i < 0xFFF8" using cluster_small [OF assms] Suc.prems by auto
  then show ?case using Suc.IH [of "Suc i"] Suc.prems file_entry [OF assms, of i] cluster_not_end next_cluster_word by simp
qed simp

lemma file_bytes_drop: "fat_ok st \<Longrightarrow> \<forall>c \<in> set cs. c < length (table st) \<Longrightarrow> file_bytes st (drop i cs) = drop (512 * i) (file_bytes st cs)"
proof (induction cs arbitrary: i)
  case (Cons c cs)
  then show ?case by (cases i) (simp_all add: blk_length)
qed simp

text \<open>Reading any range of a file that is not beyond its chain or its fsize returns those bytes.\<close>

lemma read_data_file:
  assumes "fat_ok st" and "file_at st cs" and "0 < n" and "start + n \<le> 512 * length cs" and "start + n \<le> fsize" and "fsize < 2 ^ 31"
  shows "fat16_read_data st (of_nat (hd cs)) (of_nat start) (of_nat n) (of_nat fsize) = Some (int n, take n (drop start (file_bytes st cs)))"
proof -
  have u: "unat (of_nat start :: u32) = start" "unat (of_nat n :: u32) = n" "unat (of_nat fsize :: u32) = fsize"
    "unat (of_nat start + of_nat n :: u32) = start + n"
    using assms(5,6) by (simp_all add: unat_of_nat take_bit_nat_eq_self unat_word_ariths flip: of_nat_add)
  have le: "\<not> (of_nat start :: u32) > of_nat fsize" "\<not> (of_nat start + of_nat n :: u32) > of_nat fsize"
    using u assms(5) by (simp_all add: not_less word_le_nat_alt)
  have tot: "sint (of_nat n :: u32) = int n" using sint_small [of "of_nat n"] u assms(5,6) by simp
  have q: "unat ((of_nat start :: u32) div 512) = start div 512" "unat ((of_nat start :: u32) mod 512) = start mod 512"
    using u(1) by (simp_all add: unat_div unat_mod)
  let ?i = "start div 512"
  have i: "?i < length cs" using assms(3,4) by (simp add: div_less_iff_less_mult)
  have sk: "skip_clusters st ?i (of_nat (hd cs)) = Some (of_nat (cs ! ?i))"
    using skip_clusters_file [OF assms(1,2), of 0 ?i] i assms(2) by (simp add: hd_conv_nth file_at_def)
  have "start mod 512 + n \<le> 512 * (length cs - ?i)"
  proof -
    have "512 * ?i + start mod 512 = start" by simp
    then have "start mod 512 + n \<le> 512 * length cs - 512 * ?i" using assms(4) by linarith
    then show ?thesis by (simp only: diff_mult_distrib2)
  qed
  then have "read_clusters st n (start mod 512) (of_nat (cs ! ?i)) = Some (0, take n (drop (start mod 512) (file_bytes st (drop ?i cs))))"
    by (intro read_clusters_file [OF assms(1,2) i]) simp_all
  moreover have "drop (start mod 512) (file_bytes st (drop ?i cs)) = drop start (file_bytes st cs)"
    using file_bytes_drop [OF assms(1), of cs ?i] assms(2) by (simp add: file_at_def)
  ultimately show ?thesis using le tot q sk assms(3) by (simp add: fat16_read_data_def Let_def)
qed

end
