(* ===== verification/Fat16_Write.thy ===== *)
theory Fat16_Write imports Fat16
begin

text \<open>
  What \<open>fat16_write_data\<close> does to a file: it overwrites or extends the bytes from the offset on, links
  new clusters as needed, cuts the chain behind the last cluster written, and leaves every other file
  as it was. With the reading of \<open>Fat16\<close> this is the round trip through a file.
\<close>

section \<open>Taking a free cluster\<close>

definition free_set :: "fat16 \<Rightarrow> nat set" where
  "free_set st = {c. 5 \<le> c \<and> c < length (table st) \<and> table st ! c = 0}"

lemma finite_free_set [simp]: "finite (free_set st)"
  by (simp add: free_set_def)

lemma free_cluster_loop_finds:
  assumes "fat_ok st" and "c < length (table st)" and "table st ! c = 0" and "i \<le> c" and "c < i + k"
    and "\<forall>j. i \<le> j \<and> j < c \<longrightarrow> table st ! j \<noteq> 0"
  shows "free_cluster_loop st i k = Some (of_nat c, st\<lparr>fat_table := Some ((table st)[c := 0xFFFF])\<rparr>)"
  using assms(4-6)
proof (induction k arbitrary: i)
  case (Suc k)
  have i: "i < length (table st)" using Suc.prems(1) assms(2) by simp
  show ?case
  proof (cases "i = c")
    case True
    then show ?thesis using assms(1-3) by (simp add: get_entry_nat fat16_allocate_cluster_def set_entry_nat)
  next
    case False
    then have "table st ! i \<noteq> 0" using Suc.prems by simp
    then show ?thesis using Suc.IH [of "Suc i"] Suc.prems False i assms(1) by (simp add: get_entry_nat)
  qed
qed simp

lemma get_free_cluster_some:
  assumes "fat_ok st" and "free_set st \<noteq> {}"
  obtains f where "f \<in> free_set st"
    "fat16_get_free_cluster st = Some (of_nat f, st\<lparr>fat_table := Some ((table st)[f := 0xFFFF])\<rparr>)"
proof -
  define f where "f = (LEAST c. c \<in> free_set st)"
  have f: "f \<in> free_set st" unfolding f_def using assms(2) by (metis LeastI ex_in_conv)
  have least: "\<forall>j. 5 \<le> j \<and> j < f \<longrightarrow> table st ! j \<noteq> 0"
  proof (intro allI impI notI)
    fix j assume j: "5 \<le> j \<and> j < f" "table st ! j = 0"
    then have "j \<in> free_set st" using f by (simp add: free_set_def)
    then show False using j(1) not_less_Least [of j "\<lambda>c. c \<in> free_set st"] by (simp add: f_def)
  qed
  have "f < length (table st)" "table st ! f = 0" "5 \<le> f" "length (table st) \<le> 0xFFF7"
    using f fat_okD(2) [OF assms(1)] by (auto simp: free_set_def)
  then have "fat16_get_free_cluster st = Some (of_nat f, st\<lparr>fat_table := Some ((table st)[f := 0xFFFF])\<rparr>)"
    unfolding fat16_get_free_cluster_def by (intro free_cluster_loop_finds [OF assms(1)] least) simp_all
  then show thesis using f that by blast
qed

section \<open>Growing a file\<close>

text \<open>\<open>grows st cs st' cs'\<close>: \<open>cs'\<close> is \<open>cs\<close> with clusters appended that were free; nothing else in the table has changed.\<close>

definition same_shape :: "fat16 \<Rightarrow> fat16 \<Rightarrow> bool" where
  "same_shape st st' \<longleftrightarrow> reserved_blocks st' = reserved_blocks st \<and> fat_blocks st' = fat_blocks st \<and>
     length (table st') = length (table st) \<and> length (fdisk st') = length (fdisk st) \<and>
     current_dir_block st' = current_dir_block st \<and> root_dir_entries st' = root_dir_entries st \<and>
     (0 < unat (reserved_blocks st) \<longrightarrow> fdisk st' ! 0 = fdisk st ! 0)"

definition grows :: "fat16 \<Rightarrow> nat list \<Rightarrow> fat16 \<Rightarrow> nat list \<Rightarrow> bool" where
  "grows st cs st' cs' \<longleftrightarrow> fat_ok st' \<and> file_at st' cs' \<and> same_shape st st' \<and>
     (\<exists>ys. cs' = cs @ ys \<and> set ys \<subseteq> free_set st \<and> free_set st' = free_set st - set ys) \<and>
     (\<forall>c < length (table st). c \<notin> set cs' \<longrightarrow> table st' ! c = table st ! c)"

lemma fat_ok_same: "fat_ok st \<Longrightarrow> same_shape st st' \<Longrightarrow> fat_table st' \<noteq> None \<Longrightarrow> disk_ok (fdisk st') \<Longrightarrow> fat_ok st'"
  unfolding fat_ok_def same_shape_def dstart_def by (elim conjE) (simp only: simp_thms)

lemma grows_refl: "fat_ok st \<Longrightarrow> file_at st cs \<Longrightarrow> grows st cs st cs"
  by (auto simp: grows_def same_shape_def)

lemma grows_trans: "grows st cs st1 cs1 \<Longrightarrow> grows st1 cs1 st2 cs2 \<Longrightarrow> grows st cs st2 cs2"
proof -
  assume a: "grows st cs st1 cs1" "grows st1 cs1 st2 cs2"
  obtain ys zs where y: "cs1 = cs @ ys" "set ys \<subseteq> free_set st" "free_set st1 = free_set st - set ys"
    "cs2 = cs1 @ zs" "set zs \<subseteq> free_set st1" "free_set st2 = free_set st1 - set zs"
    using a by (auto simp: grows_def)
  then have "\<exists>ys. cs2 = cs @ ys \<and> set ys \<subseteq> free_set st \<and> free_set st2 = free_set st - set ys"
    by (intro exI [of _ "ys @ zs"]) auto
  then show ?thesis using a y by (auto simp: grows_def same_shape_def)
qed

lemma dstart_same: "same_shape st st' \<Longrightarrow> dstart st' = dstart st"
  by (simp add: same_shape_def dstart_def)

lemma file_used:
  assumes "fat_ok st" and "file_at st cs" and "c \<in> set cs"
  shows "table st ! c \<noteq> 0"
proof -
  have w: "(of_nat d :: u16) \<noteq> 0" if "2 \<le> d" "d < 0xFFF8" for d
  proof -
    have "unat (of_nat d :: u16) = d" using that by (simp add: unat_of_nat take_bit_nat_eq_self)
    then show ?thesis using that by auto
  qed
  obtain i where i: "i < length cs" "c = cs ! i" using assms(3) by (metis in_set_conv_nth)
  show ?thesis
  proof (cases "Suc i < length cs")
    case True
    then have "table st ! c = of_nat (cs ! Suc i)" using assms(2) i by (simp add: file_at_def)
    then show ?thesis using w cluster_small [OF assms(1,2), of "cs ! Suc i"] True by simp
  next
    case False
    then have "c = last cs" using i by (cases cs rule: rev_cases) (auto simp: nth_append)
    then show ?thesis using assms(2) by (simp add: file_at_def)
  qed
qed

lemma next_cluster_link:
  assumes "fat_ok st" and "file_at st cs" and "free_set st \<noteq> {}"
  obtains f st' where "fat16_next_cluster (of_nat (last cs)) 0xFFFF st = Some (Inr (of_nat f, st'))"
    "grows st cs st' (cs @ [f])" "fdisk st' = fdisk st"
proof -
  obtain f where f: "f \<in> free_set st" "fat16_get_free_cluster st = Some (of_nat f, st\<lparr>fat_table := Some ((table st)[f := 0xFFFF])\<rparr>)"
    using get_free_cluster_some [OF assms(1,3)] by blast
  let ?l = "last cs"
  have cs: "cs \<noteq> []" "distinct cs" "\<forall>c \<in> set cs. 2 \<le> c \<and> c < length (table st)" "table st ! ?l = 0xFFFF"
    "\<forall>i. Suc i < length cs \<longrightarrow> table st ! (cs ! i) = of_nat (cs ! Suc i)"
    using assms(2) by (auto simp: file_at_def)
  have l: "?l \<in> set cs" "?l < length (table st)" "2 \<le> ?l" using cs by auto
  have fl: "f < length (table st)" "5 \<le> f" "f < 0xFFF8" "table st ! f = 0" using f(1) fat_okD(2) [OF assms(1)] by (auto simp: free_set_def)
  have used: "table st ! c \<noteq> 0" if "c \<in> set cs" for c using file_used [OF assms(1,2) that] .
  then have fn: "f \<notin> set cs" using fl(4) by blast
  let ?t = "(table st)[f := 0xFFFF, ?l := of_nat f]"
  let ?st = "st\<lparr>fat_table := Some ?t\<rparr>"
  have st1: "fat_ok (st\<lparr>fat_table := Some ((table st)[f := 0xFFFF])\<rparr>)" using assms(1) fat_okD(4) [OF assms(1)]
    by (elim fat_ok_same) (simp_all add: same_shape_def)
  have c0: "(of_nat ?l :: u32) > 0" using l(3) unat_of_small [of ?l] l(2) fat_okD(2) [OF assms(1)] by (simp add: word_less_nat_alt)
  have fc: "(of_nat f :: u32) \<noteq> 0xFFFF" using cluster_not_end [OF fl(3)] .
  have uc: "(ucast (of_nat f :: u32) :: u16) = of_nat f" using fl(3) by (simp add: unsigned_of_nat take_bit_nat_eq_self)
  have run: "fat16_next_cluster (of_nat ?l) 0xFFFF st = Some (Inr (of_nat f, ?st))"
    using f(2) fc c0 uc set_entry_nat [OF st1, of ?l "of_nat f"] l(2) by (simp add: fat16_next_cluster_def)
  have tn: "?t ! c = (if c = ?l then of_nat f else if c = f then 0xFFFF else table st ! c)" if "c < length (table st)" for c
    using that l(2) fl(1) fn l(1) by (simp add: nth_list_update)
  have lf: "?l \<noteq> f" using fn l(1) by blast
  have "file_at ?st (cs @ [f])"
    unfolding file_at_def
  proof (intro conjI allI impI)
    show "cs @ [f] \<noteq> []" "distinct (cs @ [f])" "\<forall>c \<in> set (cs @ [f]). 2 \<le> c \<and> c < length (table ?st)" using cs fn fl by auto
    show "table ?st ! last (cs @ [f]) = 0xFFFF" using tn [OF fl(1)] lf by simp
    fix i assume i: "Suc i < length (cs @ [f])"
    show "table ?st ! ((cs @ [f]) ! i) = of_nat ((cs @ [f]) ! Suc i)"
    proof (cases "Suc i < length cs")
      case True
      then have "cs ! i \<noteq> ?l" using cs(1,2) by (simp add: last_conv_nth nth_eq_iff_index_eq)
      moreover have "cs ! i \<noteq> f" using fn True by (metis Suc_lessD nth_mem)
      moreover have "cs ! i < length (table st)" using cs(3) True by simp
      ultimately show ?thesis using tn [of "cs ! i"] cs(5) True by (simp add: nth_append)
    next
      case False
      then have "Suc i = length cs" using i by simp
      moreover from this have "cs ! i = ?l" by (cases cs rule: rev_cases) (auto simp: nth_append)
      ultimately show ?thesis using tn [OF l(2)] by (simp add: nth_append)
    qed
  qed
  moreover have "fat_ok ?st" using assms(1) fat_okD(4) [OF assms(1)] by (elim fat_ok_same) (simp_all add: same_shape_def)
  moreover have "free_set ?st = free_set st - {f}"
  proof -
    have "(of_nat f :: u16) \<noteq> 0"
    proof -
      have "unat (of_nat f :: u16) = f" using fl(3) by (simp add: unat_of_nat take_bit_nat_eq_self)
      then show ?thesis using fl(2) by auto
    qed
    then show ?thesis using used l(1) tn lf fl by (auto simp: free_set_def split: if_splits)
  qed
  moreover have "\<forall>c < length (table st). c \<notin> set (cs @ [f]) \<longrightarrow> table ?st ! c = table st ! c" using tn l(1) by auto
  ultimately have "grows st cs ?st (cs @ [f])" using f(1) by (simp add: grows_def same_shape_def)
  then show thesis using run that by simp
qed

text \<open>The word that names the cluster at position \<open>n\<close> of a chain, or its end.\<close>

definition link_word :: "nat list \<Rightarrow> nat \<Rightarrow> u32" where
  "link_word cs n = (if n < length cs then of_nat (cs ! n) else 0xFFFF)"

lemma link_word_entry:
  assumes "fat_ok st" and "file_at st cs" and "n < length cs"
  shows "\<exists>e. fat16_get_fat_entry st (of_nat (cs ! n)) = Some e \<and> ucast e = link_word cs (Suc n) \<and> (e = 0xFFFF \<longleftrightarrow> Suc n = length cs)"
proof -
  have s: "cs ! j < 0xFFF8" if "j < length cs" for j using cluster_small [OF assms(1,2), of "cs ! j"] that by simp
  have "(of_nat c :: u16) \<noteq> 0xFFFF" if "c < 0xFFF8" for c
  proof -
    have "unat (of_nat c :: u16) = c" using that by (simp add: unat_of_nat take_bit_nat_eq_self)
    then show ?thesis using that by auto
  qed
  then show ?thesis using file_entry [OF assms] next_cluster_word s assms(3) by (auto simp: link_word_def)
qed

lemma next_step:
  assumes "fat_ok st" and "file_at st cs" and "0 < n" and "n \<le> length cs" and "n < length cs \<or> free_set st \<noteq> {}"
  obtains st1 cs1 where "fat16_next_cluster (of_nat (cs ! (n - 1))) (link_word cs n) st = Some (Inr (of_nat (cs1 ! n), st1))"
    "grows st cs st1 cs1" "length cs1 = max (length cs) (Suc n)" "fdisk st1 = fdisk st"
proof (cases "n < length cs")
  case True
  have c: "cs ! n < 0xFFF8" using cluster_small [OF assms(1,2), of "cs ! n"] True by simp
  have "sint (of_nat (cs ! n) :: u32) = int (cs ! n)" using sint_small [of "of_nat (cs ! n)"] unat_of_small [of "cs ! n"] c by simp
  then have "fat16_next_cluster (of_nat (cs ! (n - 1))) (link_word cs n) st = Some (Inr (of_nat (cs ! n), st))"
    using True c cluster_not_end [OF c] by (simp add: fat16_next_cluster_def link_word_def)
  then show ?thesis using grows_refl [OF assms(1,2)] True by (intro that [of cs st]) auto
next
  case False
  then have n: "n = length cs" "free_set st \<noteq> {}" using assms(4,5) by auto
  then have "cs ! (n - 1) = last cs" using assms(3) by (simp add: last_conv_nth)
  moreover obtain f st' where f: "fat16_next_cluster (of_nat (last cs)) 0xFFFF st = Some (Inr (of_nat f, st'))"
    "grows st cs st' (cs @ [f])" "fdisk st' = fdisk st" using next_cluster_link [OF assms(1,2) n(2)] by blast
  ultimately show ?thesis using n(1) by (intro that [of "cs @ [f]" st']) (simp_all add: link_word_def nth_append)
qed

section \<open>Writing into a cluster\<close>

definition put_block :: "nat \<Rightarrow> nat \<Rightarrow> u8 list \<Rightarrow> fat16 \<Rightarrow> fat16" where
  "put_block c off bs st = st\<lparr>fdisk := (fdisk st)[dstart st + c := patch off bs (blk st c)]\<rparr>"

lemma write_cluster_nat:
  assumes "fat_ok st" and "0 < c" and "c < length (table st)" and "off + length bs \<le> 512"
  shows "fat16_write_data_to_cluster_with_offset (of_nat c) (int off) bs st = Some (put_block c off bs st)"
  using assms fat_okD(3,4) [OF assms(1)] directory_block_nat(3) [OF assms(1-3)]
  by (simp add: fat16_write_data_to_cluster_with_offset_def write_block_offset_nat blk_def put_block_def del: of_nat_add)

lemma put_block_frame [simp]: "fat_table (put_block c off bs st) = fat_table st" "free_set (put_block c off bs st) = free_set st"
  "file_at (put_block c off bs st) cs = file_at st cs" "fat_ok st \<Longrightarrow> same_shape st (put_block c off bs st)"
  by (simp_all add: put_block_def free_set_def file_at_def same_shape_def dstart_def fat_ok_def)

lemma put_block_ok:
  assumes "fat_ok st" and "c < length (table st)" and "off + length bs \<le> 512"
  shows "fat_ok (put_block c off bs st)"
proof (rule fat_ok_same [OF assms(1)])
  show "disk_ok (fdisk (put_block c off bs st))"
    using fat_okD(4) [OF assms(1)] blk_length [OF assms(1,2)] assms(3) by (simp add: put_block_def disk_ok_update)
qed (use fat_okD(1) [OF assms(1)] assms(1) in auto)

lemma put_block_blk:
  assumes "fat_ok st" and "c < length (table st)"
  shows "blk (put_block c off bs st) d = (if d = c then patch off bs (blk st c) else blk st d)"
  using fat_okD(3) [OF assms(1)] assms(2) by (simp add: put_block_def blk_def dstart_def)

lemma grows_put_block:
  "grows st cs st' cs' \<Longrightarrow> c < length (table st) \<Longrightarrow> off + length bs \<le> 512 \<Longrightarrow> grows st cs (put_block c off bs st') cs'"
  using put_block_ok [of st' c off bs] put_block_frame(4) [of st' c off bs]
  by (auto simp: grows_def same_shape_def)

section \<open>The writing loop\<close>

lemma file_bytes_cong: "\<forall>c \<in> set cs. blk st' c = blk st c \<Longrightarrow> file_bytes st' cs = file_bytes st cs"
  by (induction cs) auto

lemma patch_0: "length bs \<le> length blk' \<Longrightarrow> patch 0 bs blk' = bs @ drop (length bs) blk'"
  by (simp add: patch_def)

definition clusters_for :: "nat \<Rightarrow> nat" where
  "clusters_for n = (n + 511) div 512"

lemma clusters_for_0 [simp]: "clusters_for 0 = 0"
  by (simp add: clusters_for_def)

lemma clusters_for_pos: "0 < n \<Longrightarrow> clusters_for n = Suc (clusters_for (n - 512))"
proof (cases "n \<le> 512")
  case True
  assume "0 < n"
  then have "(n + 511) div 512 = 1" using True by (intro div_nat_eqI) auto
  then show ?thesis using True by (simp add: clusters_for_def)
next
  case False
  then have "n + 511 = (n - 512 + 511) + 512" by simp
  then show ?thesis unfolding clusters_for_def by (simp only: div_add_self2)
qed

lemma write_clusters_file:
  "fat_ok st \<Longrightarrow> file_at st cs \<Longrightarrow> 0 < n \<Longrightarrow> n \<le> length cs \<Longrightarrow>
   length data \<le> 512 * (length cs - n + card (free_set st)) \<Longrightarrow>
   \<exists>st' cs'. write_clusters (of_nat (cs ! (n - 1))) (link_word cs n) 0 data st =
       Some (Inr (of_nat (cs' ! (n + clusters_for (length data) - 1)), st')) \<and>
     grows st cs st' cs' \<and> length cs' = max (length cs) (n + clusters_for (length data)) \<and>
     (\<forall>c < length (table st). c \<notin> set (take (clusters_for (length data)) (drop n cs')) \<longrightarrow> blk st' c = blk st c) \<and>
     file_bytes st' (take (clusters_for (length data)) (drop n cs')) =
       data @ drop (length data) (file_bytes st (take (clusters_for (length data)) (drop n cs')))"
proof (induction "length data" arbitrary: data st cs n rule: less_induct)
  case less
  note ok = less.prems(1,2)
  show ?case
  proof (cases "data = []")
    case True
    then show ?thesis using grows_refl [OF ok] less.prems(4)
      by (intro exI [of _ st] exI [of _ cs]) (auto simp: write_clusters.simps)
  next
    case False
    have "n < length cs \<or> free_set st \<noteq> {}" using False less.prems(4,5) by (auto simp: le_eq_less_or_eq)
    then obtain st1 cs1 where s1: "fat16_next_cluster (of_nat (cs ! (n - 1))) (link_word cs n) st = Some (Inr (of_nat (cs1 ! n), st1))"
      "grows st cs st1 cs1" "length cs1 = max (length cs) (Suc n)" "fdisk st1 = fdisk st"
      using next_step [OF ok less.prems(3,4)] by metis
    have ok1: "fat_ok st1" "file_at st1 cs1" "same_shape st st1" using s1(2) by (auto simp: grows_def)
    define c where "c = cs1 ! n"
    have n1: "n < length cs1" using s1(3) by simp
    have c: "c < 0xFFF8" "2 \<le> c" "c < length (table st1)" using cluster_small [OF ok1(1,2), of c] n1 by (auto simp: c_def)
    have lt: "length (table st1) = length (table st)" using ok1(3) by (simp add: same_shape_def)
    define ch where "ch = take 512 data"
    define st2 where "st2 = put_block c 0 ch st1"
    have chl: "0 + length ch \<le> 512" by (simp add: ch_def)
    have ok2: "fat_ok st2" "file_at st2 cs1" using put_block_ok [OF ok1(1) c(3) chl] ok1(2) by (simp_all add: st2_def)
    have b1: "blk st1 d = blk st d" for d using s1(4) dstart_same [OF ok1(3)] by (simp add: blk_def)
    have b2: "blk st2 d = (if d = c then patch 0 ch (blk st c) else blk st d)" for d
      using put_block_blk [OF ok1(1) c(3)] b1 by (simp add: st2_def)
    obtain e where e: "fat16_get_fat_entry st2 (of_nat c) = Some e" "ucast e = link_word cs1 (Suc n)"
      using link_word_entry [OF ok2 n1] by (auto simp: c_def)
    have wr: "fat16_write_data_to_cluster_with_offset (of_nat c) (int 0) ch st1 = Some st2"
      unfolding st2_def using c chl by (intro write_cluster_nat [OF ok1(1)]) auto
    let ?d = "drop 512 data"
    have step: "write_clusters (of_nat (cs ! (n - 1))) (link_word cs n) 0 data st = write_clusters (of_nat c) (link_word cs1 (Suc n)) 0 ?d st2"
      using False s1(1) wr e by (subst write_clusters.simps, cases "512 \<le> length data") (simp_all add: c_def ch_def min_def)
    have fs: "card (free_set st) \<le> card (free_set st1) + (length cs1 - length cs)"
    proof -
      obtain ys where y: "cs1 = cs @ ys" "free_set st1 = free_set st - set ys" using s1(2) by (auto simp: grows_def)
      have "card (free_set st) \<le> card (free_set st1 \<union> set ys)" unfolding y(2) by (intro card_mono) auto
      also have "\<dots> \<le> card (free_set st1) + card (set ys)" by (rule card_Un_le)
      finally show ?thesis using card_length [of ys] y(1) by simp
    qed
    have fs2: "card (free_set st2) = card (free_set st1)" by (simp add: st2_def)
    have len2: "length ?d \<le> 512 * (length cs1 - Suc n + card (free_set st2))"
    proof -
      have "length cs - n + card (free_set st) \<le> Suc (length cs1 - Suc n + card (free_set st2))"
        using fs fs2 s1(3) less.prems(4) by (simp add: max_def split: if_splits)
      then have "length data \<le> 512 * Suc (length cs1 - Suc n + card (free_set st2))"
        using less.prems(5) by (meson mult_le_mono2 order_trans)
      then show ?thesis by simp
    qed
    have "length ?d < length data" using False by simp
    from less.hyps [OF this ok2 _ _ len2] n1
    obtain st' cs' where r: "write_clusters (of_nat (cs1 ! n)) (link_word cs1 (Suc n)) 0 ?d st2 =
         Some (Inr (of_nat (cs' ! (Suc n + clusters_for (length ?d) - 1)), st'))"
      "grows st2 cs1 st' cs'" "length cs' = max (length cs1) (Suc n + clusters_for (length ?d))"
      "\<forall>c < length (table st2). c \<notin> set (take (clusters_for (length ?d)) (drop (Suc n) cs')) \<longrightarrow> blk st' c = blk st2 c"
      "file_bytes st' (take (clusters_for (length ?d)) (drop (Suc n) cs')) =
         ?d @ drop (length ?d) (file_bytes st2 (take (clusters_for (length ?d)) (drop (Suc n) cs')))"
      by auto
    define k where "k = clusters_for (length ?d)"
    have k: "clusters_for (length data) = Suc k" using False clusters_for_pos [of "length data"] by (simp add: k_def)
    let ?r = "take k (drop (Suc n) cs')"
    obtain zs where zs: "cs' = cs1 @ zs" using r(2) by (auto simp: grows_def)
    have n': "n < length cs'" "cs' ! n = c" using n1 zs by (simp_all add: c_def nth_append)
    have split: "take (Suc k) (drop n cs') = c # ?r" using n' by (simp flip: Cons_nth_drop_Suc)
    have dist: "distinct cs'" using r(2) by (auto simp: grows_def file_at_def)
    have cr: "c \<notin> set ?r"
    proof -
      have "distinct (drop n cs')" using dist by simp
      then have "c \<notin> set (drop (Suc n) cs')" using n' by (metis Cons_nth_drop_Suc distinct.simps(2))
      then show ?thesis by (meson in_set_takeD)
    qed
    have lt2: "length (table st2) = length (table st)" using lt by (simp add: st2_def)
    have lt': "\<forall>d \<in> set cs'. d < length (table st)"
      using r(2) lt2 by (auto simp: grows_def file_at_def same_shape_def)
    have fr: "file_bytes st2 ?r = file_bytes st ?r" by (rule file_bytes_cong) (use b2 cr in auto)
    have bc: "length (blk st c) = 512" using blk_length [OF ok(1), of c] c(3) lt by simp
    have "blk st' c = patch 0 ch (blk st c)" using r(4) cr c(3) lt lt2 b2 by (simp add: k_def)
    also have "\<dots> = ch @ drop (length ch) (blk st c)" using bc by (simp add: patch_0 ch_def)
    finally have "file_bytes st' (c # ?r) = ch @ drop (length ch) (blk st c) @ ?d @ drop (length ?d) (file_bytes st ?r)"
      using r(5) fr by (simp add: k_def)
    also have "\<dots> = data @ drop (length data) (file_bytes st (c # ?r))"
    proof (cases "512 \<le> length data")
      case True
      then show ?thesis using bc by (simp add: ch_def)
    next
      case False
      then show ?thesis using bc by (simp add: ch_def k_def)
    qed
    finally have bytes: "file_bytes st' (take (Suc k) (drop n cs')) = data @ drop (length data) (file_bytes st (take (Suc k) (drop n cs')))"
      unfolding split .
    have "grows st cs st2 cs1" unfolding st2_def using c(3) lt chl by (intro grows_put_block s1(2)) auto
    then have "grows st cs st' cs'" using r(2) by (rule grows_trans)
    moreover have "\<forall>d < length (table st). d \<notin> set (take (Suc k) (drop n cs')) \<longrightarrow> blk st' d = blk st d"
      unfolding split using r(4) b2 lt2 by (auto simp: k_def)
    moreover have "length cs' = max (length cs) (n + Suc k)" using r(3) s1(3) by (auto simp: k_def)
    ultimately show ?thesis unfolding step k c_def using r(1) bytes by (intro exI [of _ st'] exI [of _ cs']) (simp add: k_def c_def)
  qed
qed

section \<open>The table on the disk\<close>

text \<open>The table on the disk is the one in memory.\<close>

definition fat_on_disk :: "fat16 \<Rightarrow> bool" where
  "fat_on_disk st \<longleftrightarrow> (\<forall>i < unat (fat_blocks st). fdisk st ! (unat (reserved_blocks st) + i) = take 512 (drop (512 * i) (table_bytes (table st))))"

lemma length_table_bytes [simp]: "length (table_bytes t) = 2 * length t"
  by (induction t) (simp_all add: table_bytes_def)

lemma sync_table:
  assumes "fat_ok st"
  obtains d where "fat16_sync_fat_table st = Some (st\<lparr>fdisk := d\<rparr>)" "length d = length (fdisk st)" "disk_ok d"
    "\<And>b. dstart st < b \<Longrightarrow> d ! b = fdisk st ! b"
    "fat_on_disk (st\<lparr>fdisk := d\<rparr>)" "\<And>b. b < unat (reserved_blocks st) \<Longrightarrow> d ! b = fdisk st ! b"
proof -
  note ok = fat_okD [OF assms]
  let ?s = "unat (reserved_blocks st)" and ?n = "unat (fat_blocks st)" and ?t = "table_bytes (table st)"
  let ?P = "\<lambda>i d. length d = length (fdisk st) \<and> disk_ok d \<and> (\<forall>b. dstart st < b \<or> b < ?s \<longrightarrow> d ! b = fdisk st ! b) \<and>
    (\<forall>j < i. d ! (?s + j) = take 512 (drop (512 * j) ?t))"
  let ?f = "\<lambda>i d. do { bs \<leftarrow> mem_read ?t (int (i * 512)) 512; write_block bs (int (unat (get_fat_start_block st)) + int i) d }"
  have "\<exists>d. for_loop 0 ?n ?f (fdisk st) = Some d \<and> ?P (0 + ?n) d"
  proof (rule for_loop_inv)
    show "?P 0 (fdisk st)" using ok(4) by simp
  next
    fix i d assume i: "i < 0 + ?n" and P: "?P i d"
    let ?bs = "take 512 (drop (512 * i) ?t)"
    have tl: "length ?t = 512 * ?n" using ok(8) by simp
    then have bl: "length ?bs = 512" using i by simp
    have "512 * Suc i \<le> 512 * ?n" using i by (intro mult_le_mono2) simp
    then have "i * 512 + 512 \<le> length ?t" using tl by simp
    then have "int (i * 512 + 512) \<le> int (length ?t)" by (simp only: of_nat_le_iff)
    then have "0 \<le> int (i * 512) \<and> 0 \<le> (512 :: int) \<and> int (i * 512) + 512 \<le> int (length ?t)" by simp
    then have r: "mem_read ?t (int (i * 512)) 512 = Some ?bs" unfolding mem_read_def by (simp only: if_P nat_int nat_numeral mult.commute)
    have pos: "?s + i \<le> dstart st" "?s + i < length d" using i ok(3,7,8) P by (auto simp: dstart_def)
    define b where "b = ?s + i"
    have b: "int (unat (get_fat_start_block st)) + int i = int b" by (simp add: b_def get_fat_start_block_def)
    have "write_block ?bs (int (unat (get_fat_start_block st)) + int i) d = Some (d[?s + i := ?bs])"
      unfolding b b_def [symmetric] using pos(2) bl by (simp add: write_block_def flip: b_def)
    moreover have "?P (Suc i) (d[?s + i := ?bs])"
      using P pos bl by (auto simp: disk_ok_update nth_list_update less_Suc_eq)
    ultimately show "\<exists>d'. ?f i d = Some d' \<and> ?P (Suc i) d'" using r by auto
  qed
  then obtain d where d: "for_loop 0 ?n ?f (fdisk st) = Some d" "?P ?n d" by auto
  moreover have "fat16_sync_fat_table st = Some (st\<lparr>fdisk := d\<rparr>)"
    using d(1) ok(1) by (cases "fat_table st") (simp_all add: fat16_sync_fat_table_def)
  moreover have "fat_on_disk (st\<lparr>fdisk := d\<rparr>)" using d(2) by (simp add: fat_on_disk_def)
  ultimately show thesis using that by blast
qed

section \<open>Finding the cluster and cutting the chain\<close>

lemma find_cluster_file:
  assumes "fat_ok st" and "file_at st cs" and "m < length cs" and "512 * m \<le> off" and "off \<le> 512 * m + 512" and "m = 0 \<or> 512 * m < off"
  shows "i \<le> m \<Longrightarrow> find_cluster_loop st (int off) (int (512 * i)) (of_nat (cs ! i)) = Some (of_nat (cs ! m), int off - int (512 * m))"
proof (induction "m - i" arbitrary: i)
  case 0
  then show ?case using assms(5) by (subst find_cluster_loop.simps) auto
next
  case (Suc k)
  have i: "i < m" "Suc i < length cs" using Suc.hyps(2) assms(3) by auto
  have c: "cs ! i < 0xFFF8" "cs ! Suc i < 0xFFF8" using cluster_small [OF assms(1,2)] i by auto
  have lt: "(of_nat (cs ! i) :: u32) < 0xFFF8" using unat_of_small [of "cs ! i"] c(1) by (simp add: word_less_nat_alt)
  have "512 * Suc i \<le> 512 * m" using i(1) by (intro mult_le_mono2) simp
  then have tr: "int (512 * i) + 512 < int off" using assms(6) i(1) by linarith
  have "k = m - Suc i" using Suc.hyps(2) by simp
  moreover have "int (512 * i) + 512 = int (512 * Suc i)" by simp
  ultimately show ?case
    using Suc.hyps(1) [of "Suc i"] lt cluster_not_end [OF c(1)] tr file_entry [OF assms(1,2), of i] i next_cluster_word [OF c(2)]
    by (subst find_cluster_loop.simps) (simp add: add.commute)
qed

lemma truncate_file:
  assumes "fat_ok st" and "file_at st cs" and "p < length cs"
  shows "file_at (st\<lparr>fat_table := Some ((table st)[cs ! p := 0xFFFF])\<rparr>) (take (Suc p) cs)"
proof -
  have cs: "distinct cs" "\<forall>c \<in> set cs. 2 \<le> c \<and> c < length (table st)" "\<forall>i. Suc i < length cs \<longrightarrow> table st ! (cs ! i) = of_nat (cs ! Suc i)"
    using assms(2) by (auto simp: file_at_def)
  have l: "last (take (Suc p) cs) = cs ! p" using assms(3) by (simp add: take_Suc_conv_app_nth)
  have ne: "cs ! i \<noteq> cs ! p" if "i < p" for i using that cs(1) assms(3) by (simp add: nth_eq_iff_index_eq)
  have p: "cs ! p < length (table st)" using cs(2) assms(3) by simp
  show ?thesis
    unfolding file_at_def
  proof (intro conjI allI impI ballI)
    show "take (Suc p) cs \<noteq> []" "distinct (take (Suc p) cs)" using assms(3) cs(1) by auto
    show "table (st\<lparr>fat_table := Some ((table st)[cs ! p := 0xFFFF])\<rparr>) ! last (take (Suc p) cs) = 0xFFFF" unfolding l using p by simp
  next
    fix c assume "c \<in> set (take (Suc p) cs)"
    then have "c \<in> set cs" by (rule in_set_takeD)
    then show "2 \<le> c" "c < length (table (st\<lparr>fat_table := Some ((table st)[cs ! p := 0xFFFF])\<rparr>))" using cs(2) by auto
  next
    fix i assume "Suc i < length (take (Suc p) cs)"
    then have i: "i < p" "Suc i < length cs" by auto
    then show "table (st\<lparr>fat_table := Some ((table st)[cs ! p := 0xFFFF])\<rparr>) ! (take (Suc p) cs ! i) = of_nat (take (Suc p) cs ! Suc i)"
      using ne [of i] cs(3) by simp
  qed
qed

section \<open>The whole write\<close>

text \<open>The first block is written from an offset inside it, the others from their start.\<close>

lemma write_from:
  assumes ok: "fat_ok st" "file_at st cs" and m: "m < length cs" and co: "co \<le> 512" and ne: "data \<noteq> []"
    and room: "co + length data \<le> 512 * (length cs - m + card (free_set st))"
  obtains st' cs' where "write_clusters (of_nat (cs ! m)) (of_nat (cs ! m)) co data st =
      Some (Inr (of_nat (cs' ! (m + clusters_for (length data - (512 - co)))), st'))"
    "grows st cs st' cs'" "m + clusters_for (length data - (512 - co)) < length cs'"
    "\<forall>c < length (table st). c \<notin> set (drop m cs') \<longrightarrow> blk st' c = blk st c"
    "take (512 * m + co + length data) (file_bytes st' (take (Suc (m + clusters_for (length data - (512 - co)))) cs')) =
       take (512 * m + co) (file_bytes st cs) @ data"
proof -
  define c where "c = cs ! m"
  have c: "c < 0xFFF8" "2 \<le> c" "c < length (table st)" using cluster_small [OF ok, of c] m by (auto simp: c_def)
  define ch where "ch = take (512 - co) data"
  have chl: "co + length ch \<le> 512" using co by (simp add: ch_def)
  define st1 where "st1 = put_block c co ch st"
  have ok1: "fat_ok st1" "file_at st1 cs" using put_block_ok [OF ok(1) c(3) chl] ok(2) by (simp_all add: st1_def)
  have shape1: "same_shape st st1" "free_set st1 = free_set st" using ok(1) by (simp_all add: st1_def)
  have b1: "blk st1 d = (if d = c then patch co ch (blk st c) else blk st d)" for d
    using put_block_blk [OF ok(1) c(3)] by (simp add: st1_def)
  let ?d = "drop (512 - co) data"
  obtain e where e: "fat16_get_fat_entry st1 (of_nat c) = Some e" "ucast e = link_word cs (Suc m)"
    using link_word_entry [OF ok1 m] by (auto simp: c_def)
  have nc: "fat16_next_cluster (of_nat c) (of_nat c) st = Some (Inr (of_nat c, st))"
  proof -
    have "sint (of_nat c :: u32) = int c" using sint_small [of "of_nat c"] unat_of_small [of c] c(1) by simp
    then show ?thesis using c(1) cluster_not_end [OF c(1)] by (simp add: fat16_next_cluster_def)
  qed
  have wr: "fat16_write_data_to_cluster_with_offset (of_nat c) (int co) ch st = Some st1"
    unfolding st1_def using c chl by (intro write_cluster_nat [OF ok(1)]) auto
  have step: "write_clusters (of_nat c) (of_nat c) co data st = write_clusters (of_nat c) (link_word cs (Suc m)) 0 ?d st1"
  proof -
    have "take (min (512 - co) (length data)) data = ch" "drop (min (512 - co) (length data)) data = ?d" by (simp_all add: ch_def min_def)
    then show ?thesis using ne nc wr e co by (subst write_clusters.simps) (simp add: not_less)
  qed
  have "length ?d \<le> 512 * (length cs - Suc m + card (free_set st1))"
  proof -
    have "length cs - m = Suc (length cs - Suc m)" using m by simp
    then show ?thesis using room shape1(2) co by simp
  qed
  from write_clusters_file [OF ok1 _ _ this] m
  obtain st' cs' where r: "write_clusters (of_nat (cs ! m)) (link_word cs (Suc m)) 0 ?d st1 =
       Some (Inr (of_nat (cs' ! (Suc m + clusters_for (length ?d) - 1)), st'))"
    "grows st1 cs st' cs'" "length cs' = max (length cs) (Suc m + clusters_for (length ?d))"
    "\<forall>c < length (table st1). c \<notin> set (take (clusters_for (length ?d)) (drop (Suc m) cs')) \<longrightarrow> blk st' c = blk st1 c"
    "file_bytes st' (take (clusters_for (length ?d)) (drop (Suc m) cs')) =
       ?d @ drop (length ?d) (file_bytes st1 (take (clusters_for (length ?d)) (drop (Suc m) cs')))"
    by auto
  define k where "k = clusters_for (length data - (512 - co))"
  have k: "clusters_for (length ?d) = k" by (simp add: k_def)
  obtain zs where zs: "cs' = cs @ zs" using r(2) by (auto simp: grows_def)
  have "grows st cs st1 cs" using grows_put_block [OF grows_refl [OF ok] c(3) chl] by (simp add: st1_def)
  then have g: "grows st cs st' cs'" using r(2) by (rule grows_trans)
  have lt: "length (table st1) = length (table st)" using shape1(1) by (simp add: same_shape_def)
  have dist: "distinct cs'" using g by (auto simp: grows_def file_at_def)
  let ?R = "take k (drop (Suc m) cs')"
  have pm: "take (Suc (m + k)) cs' = take m cs @ c # ?R"
  proof -
    have "take (Suc (m + k)) cs' = take m cs' @ take (Suc k) (drop m cs')" by (metis add_Suc_right take_add)
    moreover have "drop m cs' = c # drop (Suc m) cs'" using m zs by (simp add: c_def nth_append flip: Cons_nth_drop_Suc)
    ultimately show ?thesis using m zs by simp
  qed
  have out: "d \<notin> set ?R" if "d \<in> set (take m cs) \<or> d = c" for d
  proof -
    have "distinct (take (Suc (m + k)) cs')" using dist by simp
    then show ?thesis using that unfolding pm by auto
  qed
  have cin: "c \<in> set cs" using m by (simp add: c_def)
  have lin: "\<forall>d \<in> set cs. d < length (table st)" using ok(2) by (simp add: file_at_def)
  have same: "blk st' d = blk st1 d" if "d \<in> set (take m cs) \<or> d = c" for d
    using r(4) out [OF that] lin that cin lt in_set_takeD [of d m cs] by (auto simp: k_def)
  have cm: "c \<notin> set (take m cs)" 
  proof -
    have "distinct cs" using ok(2) by (simp add: file_at_def)
    then have "distinct (take (Suc m) cs)" by simp
    then show ?thesis using m by (auto simp: take_Suc_conv_app_nth c_def)
  qed
  have first: "file_bytes st' (take m cs) = take (512 * m) (file_bytes st cs)"
  proof -
    have "file_bytes st' (take m cs) = file_bytes st (take m cs)" by (rule file_bytes_cong) (use same b1 cm in auto)
    moreover have "file_bytes st cs = file_bytes st (take m cs) @ file_bytes st (drop m cs)"
      by (simp add: file_bytes_def flip: concat_append map_append)
    moreover have "length (file_bytes st (take m cs)) = 512 * m"
      using file_bytes_length [OF ok(1), of "take m cs"] lin m by (auto dest: in_set_takeD)
    ultimately show ?thesis by simp
  qed
  have bc: "length (blk st c) = 512" using blk_length [OF ok(1) c(3)] .
  have to: "take (512 * m + co) (file_bytes st cs) = take (512 * m) (file_bytes st cs) @ take co (blk st c)"
  proof -
    have "drop (512 * m) (file_bytes st cs) = file_bytes st (drop m cs)" using file_bytes_drop [OF ok(1), of cs m] lin by simp
    also have "\<dots> = blk st c @ file_bytes st (drop (Suc m) cs)" using m by (simp add: c_def flip: Cons_nth_drop_Suc)
    finally show ?thesis using bc co by (simp add: take_add)
  qed
  have l1: "length (take (512 * m) (file_bytes st cs)) = 512 * m"
    using file_bytes_length [OF ok(1) lin] m by simp
  have all: "file_bytes st' (take (Suc (m + k)) cs') =
      take (512 * m) (file_bytes st cs) @ take co (blk st c) @ ch @ drop (co + length ch) (blk st c) @ file_bytes st' ?R"
    unfolding pm by (simp add: file_bytes_def) (simp add: first [unfolded file_bytes_def] same b1 patch_def)
  have "take (512 * m + co + length data) (file_bytes st' (take (Suc (m + k)) cs')) = take (512 * m + co) (file_bytes st cs) @ data"
  proof (cases "length data \<le> 512 - co")
    case True
    then have "ch = data" "k = 0" by (simp_all add: ch_def k_def)
    then show ?thesis unfolding all to using l1 bc co by simp
  next
    case False
    then have "length ch = 512 - co" "ch @ ?d = data" by (simp_all add: ch_def)
    moreover have "take (length ?d) (file_bytes st' ?R) = ?d" using r(5) by (simp add: k_def)
    ultimately show ?thesis unfolding all to using l1 bc co False by (simp add: min_def)
  qed
  moreover have "\<forall>d < length (table st). d \<notin> set (drop m cs') \<longrightarrow> blk st' d = blk st d"
  proof (intro allI impI)
    fix d assume d: "d < length (table st)" "d \<notin> set (drop m cs')"
    have dm: "drop m cs' = c # drop (Suc m) cs'" using m zs by (simp add: c_def nth_append flip: Cons_nth_drop_Suc)
    then have "d \<noteq> c" "d \<notin> set ?R" using d(2) by (auto dest: in_set_takeD)
    then show "blk st' d = blk st d" using r(4) d(1) lt b1 by (simp add: k_def)
  qed
  moreover have "m + k < length cs'" using r(3) by (simp add: k_def)
  ultimately show thesis using that [of cs' st'] step r(1) g by (simp add: k_def c_def k [unfolded k_def])
qed

text \<open>The cut behind the last cluster written and the table on the disk leave the bytes alone.\<close>

lemma finish_write:
  assumes ok: "fat_ok st" "file_at st cs" and p: "p < length cs"
  obtains st' where
    "do { e \<leftarrow> fat16_get_fat_entry st (of_nat (cs ! p));
          st \<leftarrow> (if e \<noteq> 0xFFFF then fat16_set_fat_entry (of_nat (cs ! p)) 0xFFFF st else Some st);
          fat16_sync_fat_table st } = Some st'"
    "fat_ok st'" "file_at st' (take (Suc p) cs)" "\<And>c. 0 < c \<Longrightarrow> blk st' c = blk st c"
    "\<And>c. c \<noteq> cs ! p \<Longrightarrow> table st' ! c = table st ! c" "same_shape st st'" "fat_on_disk st'"
proof -
  have c: "cs ! p < length (table st)" using cluster_small [OF ok, of "cs ! p"] p by simp
  define st1 where "st1 = (if Suc p = length cs then st else st\<lparr>fat_table := Some ((table st)[cs ! p := 0xFFFF])\<rparr>)"
  have shape: "same_shape st st1" using c by (simp add: st1_def same_shape_def)
  have ok1: "fat_ok st1"
    by (rule fat_ok_same [OF ok(1) shape]) (use fat_okD(1,4) [OF ok(1)] in \<open>auto simp: st1_def\<close>)
  have f1: "file_at st1 (take (Suc p) cs)" using truncate_file [OF ok p] ok(2) by (simp add: st1_def)
  obtain e where e: "fat16_get_fat_entry st (of_nat (cs ! p)) = Some e" "e = 0xFFFF \<longleftrightarrow> Suc p = length cs"
    using link_word_entry [OF ok p] by blast
  have s1: "(if e \<noteq> 0xFFFF then fat16_set_fat_entry (of_nat (cs ! p)) 0xFFFF st else Some st) = Some st1"
    using e(2) set_entry_nat [OF ok(1) c] by (simp add: st1_def)
  obtain d where d: "fat16_sync_fat_table st1 = Some (st1\<lparr>fdisk := d\<rparr>)" "length d = length (fdisk st1)" "disk_ok d"
    "\<And>b. dstart st1 < b \<Longrightarrow> d ! b = fdisk st1 ! b" "fat_on_disk (st1\<lparr>fdisk := d\<rparr>)"
    "\<And>b. b < unat (reserved_blocks st1) \<Longrightarrow> d ! b = fdisk st1 ! b"
    by (rule sync_table [OF ok1]) (rule that; assumption)
  have shape2: "same_shape st1 (st1\<lparr>fdisk := d\<rparr>)" using d(2) d(6) [of 0] by (simp add: same_shape_def)
  have fd: "fdisk st1 = fdisk st" by (simp add: st1_def)
  show thesis
  proof (rule that [of "st1\<lparr>fdisk := d\<rparr>"])
    show "fat_ok (st1\<lparr>fdisk := d\<rparr>)" by (rule fat_ok_same [OF ok1 shape2]) (use fat_okD(1) [OF ok1] d(3) in auto)
    show "file_at (st1\<lparr>fdisk := d\<rparr>) (take (Suc p) cs)" using f1 by (simp add: file_at_def)
    show "same_shape st (st1\<lparr>fdisk := d\<rparr>)" using shape shape2 by (simp add: same_shape_def)
    show "blk (st1\<lparr>fdisk := d\<rparr>) c = blk st c" if "0 < c" for c
      using d(4) [of "dstart st1 + c"] that dstart_same [OF shape] dstart_same [OF shape2] fd by (simp add: blk_def)
    show "table (st1\<lparr>fdisk := d\<rparr>) ! c = table st ! c" if "c \<noteq> cs ! p" for c using that by (simp add: st1_def)
    show "fat_on_disk (st1\<lparr>fdisk := d\<rparr>)" by (rule d(5))
  qed (simp only: e(1) s1 d(1) Option.bind.simps)
qed

lemma clusters_for_offset:
  "m = 0 \<and> off = co \<or> off = 512 * m + co \<and> 0 < co \<Longrightarrow> co \<le> 512 \<Longrightarrow> 0 < n \<Longrightarrow>
   clusters_for (off + n) = Suc (m + clusters_for (n - (512 - co)))"
proof -
  assume a: "m = 0 \<and> off = co \<or> off = 512 * m + co \<and> 0 < co" "co \<le> 512" "0 < n"
  have "off = 512 * m + co" using a(1) by auto
  then have "clusters_for (off + n) = m + clusters_for (co + n)" by (simp add: clusters_for_def algebra_simps)
  also have "clusters_for (co + n) = Suc (clusters_for (co + n - 512))" using a(3) by (intro clusters_for_pos) simp
  also have "co + n - 512 = n - (512 - co)" using a(2) by simp
  finally show ?thesis by simp
qed

lemma write_data_file:
  assumes ok: "fat_ok st" "file_at st cs" and ne: "data \<noteq> []" and off: "off \<le> 512 * length cs"
    and room: "off + length data \<le> 512 * (length cs + card (free_set st))"
  obtains st' cs' where "fat16_write_data (of_nat (hd cs)) (int off) data st = Some (int (length data), st')"
    "fat_ok st'" "file_at st' cs'" "hd cs' = hd cs" "length cs' = clusters_for (off + length data)"
    "take (off + length data) (file_bytes st' cs') = take off (file_bytes st cs) @ data"
    "\<And>gs. file_at st gs \<Longrightarrow> set gs \<inter> set cs = {} \<Longrightarrow> file_at st' gs \<and> file_bytes st' gs = file_bytes st gs"
    "\<And>c. 0 < c \<Longrightarrow> c < length (table st) \<Longrightarrow> c \<notin> set cs \<Longrightarrow> c \<notin> free_set st \<Longrightarrow> blk st' c = blk st c"
    "same_shape st st'" "set cs' \<subseteq> set cs \<union> free_set st" "fat_on_disk st'"
proof -
  define m where "m = (off - 1) div 512"
  define co where "co = off - 512 * m"
  have cs: "cs \<noteq> []" using ok(2) by (simp add: file_at_def)
  have mo: "off = 512 * m + co \<and> co \<le> 512 \<and> (m = 0 \<or> 0 < co)"
  proof (cases "off = 0")
    case False
    obtain r where r: "off - 1 = 512 * m + r" "r < 512"
      using mult_div_mod_eq [of 512 "off - 1"] by (metis m_def mod_less_divisor zero_less_numeral)
    then have "co = Suc r" using False by (simp add: co_def)
    then show ?thesis using r False by simp
  qed (simp add: m_def co_def)
  then have mo: "off = 512 * m + co" "co \<le> 512" "m = 0 \<or> 0 < co" by blast+
  have m: "m < length cs"
  proof (cases "m = 0")
    case False
    then have "512 * m < 512 * length cs" using mo off by linarith
    then show ?thesis by simp
  qed (use cs in simp)
  have fc: "fat16_find_cluster_by_offset st (of_nat (hd cs)) (int off) = Some (of_nat (cs ! m), int co)"
    using find_cluster_file [OF ok m, of off 0] mo cs by (auto simp: fat16_find_cluster_by_offset_def hd_conv_nth)
  have rm: "co + length data \<le> 512 * (length cs - m + card (free_set st))"
    using room mo(1) m by (simp add: add_mult_distrib2 diff_mult_distrib2)
  obtain st1 cs1 where w: "write_clusters (of_nat (cs ! m)) (of_nat (cs ! m)) co data st =
      Some (Inr (of_nat (cs1 ! (m + clusters_for (length data - (512 - co)))), st1))"
    "grows st cs st1 cs1" "m + clusters_for (length data - (512 - co)) < length cs1"
    "\<forall>c < length (table st). c \<notin> set (drop m cs1) \<longrightarrow> blk st1 c = blk st c"
    "take (512 * m + co + length data) (file_bytes st1 (take (Suc (m + clusters_for (length data - (512 - co)))) cs1)) =
       take (512 * m + co) (file_bytes st cs) @ data" by (rule write_from [OF ok m mo(2) ne rm])
  define p where "p = m + clusters_for (length data - (512 - co))"
  have ok1: "fat_ok st1" "file_at st1 cs1" "same_shape st st1" using w(2) by (auto simp: grows_def)
  obtain st2 where f: "do { e \<leftarrow> fat16_get_fat_entry st1 (of_nat (cs1 ! p));
          st \<leftarrow> (if e \<noteq> 0xFFFF then fat16_set_fat_entry (of_nat (cs1 ! p)) 0xFFFF st1 else Some st1);
          fat16_sync_fat_table st } = Some st2"
    "fat_ok st2" "file_at st2 (take (Suc p) cs1)" "\<And>c. 0 < c \<Longrightarrow> blk st2 c = blk st1 c"
    "\<And>c. c \<noteq> cs1 ! p \<Longrightarrow> table st2 ! c = table st1 ! c" "same_shape st1 st2" "fat_on_disk st2"
    by (rule finish_write [OF ok1(1,2) w(3) [folded p_def]]) (rule that; assumption)
  obtain ys where ys: "cs1 = cs @ ys" "set ys \<subseteq> free_set st" using w(2) by (auto simp: grows_def)
  have run: "fat16_write_data (of_nat (hd cs)) (int off) data st = Some (int (length data), st2)"
    using ne fc w(1) f(1) by (auto simp: fat16_write_data_def p_def split: Option.bind_splits)
  have pos: "\<forall>c \<in> set cs1. 0 < c" using ok1(2) by (auto simp: file_at_def)
  have by1: "file_bytes st2 (take (Suc p) cs1) = file_bytes st1 (take (Suc p) cs1)"
    by (rule file_bytes_cong) (use pos f(4) in \<open>auto dest: in_set_takeD\<close>)
  have len: "length (take (Suc p) cs1) = clusters_for (off + length data)"
    using w(3) clusters_for_offset [of m off co "length data"] mo ne by (auto simp: p_def)
  have other: "file_at st2 gs \<and> file_bytes st2 gs = file_bytes st gs" if g: "file_at st gs" "set gs \<inter> set cs = {}" for gs
  proof -
    have "\<forall>c \<in> set gs. c \<notin> free_set st" using file_used [OF ok(1) g(1)] by (auto simp: free_set_def)
    then have dis: "set gs \<inter> set cs1 = {}" using g(2) ys by auto
    have cp: "cs1 ! p \<in> set cs1" using w(3) by (simp add: p_def)
    have lt: "\<forall>c \<in> set gs. 2 \<le> c \<and> c < length (table st)" using g(1) by (simp add: file_at_def)
    have t: "\<forall>c \<in> set gs. table st2 ! c = table st ! c"
    proof
      fix c assume c: "c \<in> set gs"
      then have "c \<notin> set cs1" using dis by blast
      moreover from this have "table st2 ! c = table st1 ! c" using cp by (intro f(5)) blast
      moreover have "\<forall>c < length (table st). c \<notin> set cs1 \<longrightarrow> table st1 ! c = table st ! c" using w(2) by (simp add: grows_def)
      ultimately show "table st2 ! c = table st ! c" using lt c by simp
    qed
    have "file_at st2 gs" using g(1) t f(6) ok1(3) by (auto simp: file_at_def same_shape_def)
    moreover have "file_bytes st2 gs = file_bytes st gs"
    proof (rule file_bytes_cong, rule)
      fix c assume c: "c \<in> set gs"
      then have "c \<notin> set (drop m cs1)" using dis in_set_dropD [of c m cs1] by blast
      moreover have "blk st2 c = blk st1 c" using lt c by (intro f(4)) force
      ultimately show "blk st2 c = blk st c" using w(4) lt c by simp
    qed
    ultimately show ?thesis by simp
  qed
  have hd': "hd (take (Suc p) cs1) = hd cs" using cs ys by simp
  have tk: "take (off + length data) (file_bytes st2 (take (Suc p) cs1)) = take off (file_bytes st cs) @ data"
    unfolding by1 using w(5) by (simp only: p_def mo(1) [symmetric])
  have blks: "blk st2 c = blk st c" if "0 < c" "c < length (table st)" "c \<notin> set cs" "c \<notin> free_set st" for c
  proof -
    have "c \<notin> set cs1" using that(3,4) ys by auto
    then have "c \<notin> set (drop m cs1)" using in_set_dropD [of c m cs1] by blast
    then show ?thesis using w(4) f(4) that(1,2) by simp
  qed
  have sh: "same_shape st st2" using ok1(3) f(6) by (simp add: same_shape_def)
  have su: "set (take (Suc p) cs1) \<subseteq> set cs \<union> free_set st" using ys set_take_subset [of "Suc p" cs1] by auto
  show thesis by (rule that [OF run f(2,3) hd' len tk other blks sh su f(7)])
qed

text \<open>
  C37. A write into a file and reading it back. Writing at any offset up to the end of the chain, with enough
  free clusters, succeeds; the bytes of the file up to the end of the data are then the old ones up
  to the offset followed by the data; the chain is cut to the clusters these bytes need; every other file
  keeps its chain and its bytes; and a read of any range of the bytes, with any offset, gives exactly them.
\<close>

theorem fat16_write_read:
  assumes "fat_ok st" and "file_at st cs" and "data \<noteq> []" and "off \<le> 512 * length cs"
    and "off + length data \<le> 512 * (length cs + card (free_set st))" and "off + length data < 2 ^ 31"
  shows "\<exists>st' cs'. fat16_write_data (of_nat (hd cs)) (int off) data st = Some (int (length data), st') \<and>
    fat_ok st' \<and> file_at st' cs' \<and> hd cs' = hd cs \<and> length cs' = (off + length data + 511) div 512 \<and>
    take (off + length data) (file_bytes st' cs') = take off (file_bytes st cs) @ data \<and>
    (\<forall>gs. file_at st gs \<and> set gs \<inter> set cs = {} \<longrightarrow> file_at st' gs \<and> file_bytes st' gs = file_bytes st gs) \<and>
    (\<forall>start n. 0 < n \<and> start + n \<le> off + length data \<longrightarrow>
       fat16_read_data st' (of_nat (hd cs)) (of_nat start) (of_nat n) (of_nat (off + length data)) =
         Some (int n, take n (drop start (take off (file_bytes st cs) @ data))))"
proof -
  obtain st' cs' where w: "fat16_write_data (of_nat (hd cs)) (int off) data st = Some (int (length data), st')"
    "fat_ok st'" "file_at st' cs'" "hd cs' = hd cs" "length cs' = clusters_for (off + length data)"
    "take (off + length data) (file_bytes st' cs') = take off (file_bytes st cs) @ data"
    "\<And>gs. file_at st gs \<Longrightarrow> set gs \<inter> set cs = {} \<Longrightarrow> file_at st' gs \<and> file_bytes st' gs = file_bytes st gs"
    by (rule write_data_file [OF assms(1-5)]) (rule that; assumption)
  have fit: "off + length data \<le> 512 * length cs'" unfolding w(5) clusters_for_def by linarith
  have "fat16_read_data st' (of_nat (hd cs)) (of_nat start) (of_nat n) (of_nat (off + length data)) =
      Some (int n, take n (drop start (take off (file_bytes st cs) @ data)))"
    if "0 < n" "start + n \<le> off + length data" for start n
  proof -
    have "fat16_read_data st' (of_nat (hd cs')) (of_nat start) (of_nat n) (of_nat (off + length data)) =
        Some (int n, take n (drop start (file_bytes st' cs')))"
      using that fit assms(6) by (intro read_data_file [OF w(2,3)]) auto
    moreover have "take n (drop start (take (off + length data) (file_bytes st' cs'))) = take n (drop start (file_bytes st' cs'))"
      using that(2) by (simp add: drop_take min_def)
    ultimately show ?thesis using w(4,6) by simp
  qed
  then show ?thesis using w(1-4,6,7) w(5) [unfolded clusters_for_def] by blast
qed

section \<open>Freeing the clusters of a file\<close>

lemma free_clusters_zero:
  assumes "fat_ok st"
  shows "free_clusters fuel cnt 0 st = Some None"
  using assms
proof (induction fuel arbitrary: cnt st)
  case 0
  then show ?case by (simp add: free_clusters.simps [of 0])
next
  case (Suc fuel)
  have l: "0 < length (table st)" using fat_okD(7,8) [OF Suc.prems] by simp
  let ?st = "st\<lparr>fat_table := Some ((table st)[0 := 0])\<rparr>"
  have ok: "fat_ok ?st"
    by (rule fat_ok_same [OF Suc.prems]) (use fat_okD(4) [OF Suc.prems] in \<open>auto simp: same_shape_def\<close>)
  have "fat16_free_cluster 0 st = Some ?st" using set_entry_nat [OF Suc.prems l] by (simp add: fat16_free_cluster_def)
  moreover have "fat16_get_fat_entry ?st 0 = Some 0" using get_entry_nat [OF ok, of 0] l by simp
  ultimately show ?case using Suc.IH [OF ok] by (simp add: free_clusters.simps [of "Suc fuel"])
qed

text \<open>
  C40. \<open>fat16_free_clusters\<close> does not return for a file of a well-formed file system: it reads the entry of
  a cluster after it has set it to zero, goes on with cluster 0 and stays there, whatever
  the length of the chain and however many iterations are allowed. So \<open>fat16_delete_entry\<close>,
  which frees the clusters before it clears the directory entry, never deletes one.
\<close>

theorem fat16_free_clusters_loops:
  assumes "fat_ok st" and "file_at st cs"
  shows "free_clusters fuel 0 (of_nat (hd cs)) st = Some None"
proof (cases fuel)
  case 0
  have "hd cs < 0xFFF8" using cluster_small [OF assms, of "hd cs"] assms(2) by (simp add: file_at_def)
  then show ?thesis using 0 cluster_not_end by (simp add: free_clusters.simps [of 0])
next
  case (Suc n)
  have c: "hd cs < 0xFFF8" "hd cs < length (table st)" using cluster_small [OF assms, of "hd cs"] assms(2) by (auto simp: file_at_def)
  let ?st = "st\<lparr>fat_table := Some ((table st)[hd cs := 0])\<rparr>"
  have ok: "fat_ok ?st"
    by (rule fat_ok_same [OF assms(1)]) (use fat_okD(4) [OF assms(1)] in \<open>auto simp: same_shape_def\<close>)
  have "fat16_free_cluster (of_nat (hd cs)) st = Some ?st" using set_entry_nat [OF assms(1) c(2)] by (simp add: fat16_free_cluster_def)
  moreover have "fat16_get_fat_entry ?st (of_nat (hd cs)) = Some 0" using get_entry_nat [OF ok, of "hd cs"] c(2) by simp
  ultimately show ?thesis using Suc free_clusters_zero [OF ok, of n 1] cluster_not_end [OF c(1)] by (simp add: free_clusters.simps [of "Suc n"])
qed

section \<open>Witnesses\<close>

definition demo_fs :: fat16 where
  "demo_fs = \<lparr>fat_table = Some ((replicate 256 0)[6 := 0xFFFF]), reserved_blocks = 1, fat_blocks = 1, root_dir_entries = 16,
     current_dir_block = 2, fdisk = replicate 300 (replicate 512 0)\<rparr>"

lemma demo_fs_ok: "fat_ok demo_fs" "file_at demo_fs [6]"
  by (auto simp: fat_ok_def demo_fs_def dstart_def disk_ok_def file_at_def)

theorem fat16_write_read_witness:
  "\<exists>st'. fat16_write_data 6 0 [1, 2, 3] demo_fs = Some (3, st') \<and> fat16_read_data st' 6 1 2 3 = Some (2, [2, 3])"
proof -
  let ?d = "[1 :: u8, 2, 3]"
  have p: "?d \<noteq> []" "0 \<le> 512 * length [6 :: nat]" "0 + length ?d \<le> 512 * (length [6 :: nat] + card (free_set demo_fs))"
    "0 + length ?d < 2 ^ 31" by simp_all
  obtain st' where w: "fat16_write_data (of_nat (hd [6])) (int 0) ?d demo_fs = Some (int (length ?d), st')"
    "\<forall>start n. 0 < n \<and> start + n \<le> 0 + length ?d \<longrightarrow>
       fat16_read_data st' (of_nat (hd [6])) (of_nat start) (of_nat n) (of_nat (0 + length ?d)) =
         Some (int n, take n (drop start (take 0 (file_bytes demo_fs [6]) @ ?d)))"
    using fat16_write_read [OF demo_fs_ok p] by (elim exE conjE) (rule that)
  have "fat16_read_data st' (of_nat (hd [6])) (of_nat 1) (of_nat 2) (of_nat (0 + length ?d)) =
      Some (int 2, take 2 (drop 1 (take 0 (file_bytes demo_fs [6]) @ ?d)))"
    using w(2) [rule_format, of 2 1] by simp
  then show ?thesis using w(1) by (intro exI [of _ st']) simp
qed

theorem fat16_free_clusters_loops_witness: "free_clusters 100 0 6 demo_fs = Some None"
  using fat16_free_clusters_loops [OF demo_fs_ok, of 100] by simp

end
