(* ===== verification/Fat16_Dir.thy ===== *)
theory Fat16_Dir imports Fat16_Write
begin

text \<open>
  The directories of the FAT16 file system (fs/fat16.c): entries of 32 bytes, sixteen to a block,
  their lookup by name and path, and the creation of files and directories. A name is the list of
  its bytes; a C string is passed without its terminator.
\<close>

section \<open>include/fs/fat16.h\<close>

record dir_entry =
  filename :: "u8 list"
  extension :: "u8 list"
  attributes :: u8
  reserved :: "u8 list"
  created_time :: u16
  created_date :: u16
  first_cluster :: u16
  file_size :: u32

abbreviation (input) FAT16_FLAG_SUBDIRECTORY :: u8 where "FAT16_FLAG_SUBDIRECTORY \<equiv> 16"
abbreviation (input) FAT16_FLAG_ARCHIVE :: u8 where "FAT16_FLAG_ARCHIVE \<equiv> 32"
abbreviation (input) ENTRIES_PER_BLOCK :: nat where "ENTRIES_PER_BLOCK \<equiv> 16"

definition full_name :: "dir_entry \<Rightarrow> u8 list" where
  "full_name e = filename e @ extension e"

text \<open>The layout of the packed structure.\<close>

definition entry_bytes :: "dir_entry \<Rightarrow> u8 list" where
  "entry_bytes e = filename e @ extension e @ [attributes e] @ reserved e @ le16_bytes (created_time e) @
     le16_bytes (created_date e) @ le16_bytes (first_cluster e) @ le32_bytes (file_size e)"

definition entry_of :: "u8 list \<Rightarrow> dir_entry" where
  "entry_of b = \<lparr>filename = take 8 b, extension = take 3 (drop 8 b), attributes = b ! 11, reserved = take 10 (drop 12 b),
     created_time = le16 (b ! 22) (b ! 23), created_date = le16 (b ! 24) (b ! 25),
     first_cluster = le16 (b ! 26) (b ! 27), file_size = le32 (b ! 28) (b ! 29) (b ! 30) (b ! 31)\<rparr>"

text \<open>\<open>(struct fat16_directory_entry* )(buffer + i * sizeof(...))\<close>.\<close>

definition slot :: "u8 list \<Rightarrow> nat \<Rightarrow> u8 list" where
  "slot buffer i = take 32 (drop (32 * i) buffer)"

definition root_directory :: dir_entry where
  "root_directory = \<lparr>filename = [82, 79, 79, 84, 32, 32, 32, 32], extension = [32, 32, 32], attributes = FAT16_FLAG_SUBDIRECTORY,
     reserved = replicate 10 0, created_time = 0, created_date = 0, first_cluster = 0, file_size = 512\<rparr>"

section \<open>fs/fat16.c: entries\<close>

definition fat16_sync_directory_entry :: "u16 \<Rightarrow> u32 \<Rightarrow> dir_entry \<Rightarrow> fat16 \<Rightarrow> (int \<times> fat16) option" where
  "fat16_sync_directory_entry block index entry st =
     (if index \<ge> ucast (root_dir_entries st) then Some (-1, st)
      else do {
        let offset = (index mod 16) * 32;
        d \<leftarrow> write_block_offset (entry_bytes entry) (int (unat offset)) (int (unat block)) (fdisk st);
        Some (0, st\<lparr>fdisk := d\<rparr>) })"

definition fat16_read_entry :: "fat16 \<Rightarrow> u32 \<Rightarrow> nat \<Rightarrow> (int \<times> dir_entry option) option" where
  "fat16_read_entry st block index =
     (if index \<ge> ENTRIES_PER_BLOCK then Some (-1, None)
      else if block = ucast (get_root_directory_start_block st) \<and> index = 0 then Some (0, Some root_directory)
      else do {
        buffer \<leftarrow> read_block (fdisk st) (sint block);
        Some (0, Some (entry_of (slot buffer index))) })"

definition fat16_rename_entry :: "u16 \<Rightarrow> nat \<Rightarrow> u8 list \<Rightarrow> fat16 \<Rightarrow> (int \<times> fat16) option" where
  "fat16_rename_entry directory index name st = do {
     (_, e) \<leftarrow> fat16_read_entry st (ucast directory) index;
     case e of None \<Rightarrow> None
     | Some e \<Rightarrow> do {
         nm \<leftarrow> mem_read name 0 8;
         ext \<leftarrow> mem_read name 8 3;
         (_, st) \<leftarrow> fat16_sync_directory_entry directory (of_nat index) (e\<lparr>filename := nm, extension := ext\<rparr>) st;
         Some (0, st) } }"

definition no_entry :: dir_entry where
  "no_entry = \<lparr>filename = replicate 8 0, extension = replicate 3 0, attributes = 0, reserved = replicate 10 0,
     created_time = 0, created_date = 0, first_cluster = 0, file_size = 0\<rparr>"

text \<open>With the fuel of \<open>free_clusters\<close>; \<open>Some None\<close> says that it has not returned.\<close>

definition fat16_delete_entry :: "nat \<Rightarrow> u16 \<Rightarrow> nat \<Rightarrow> fat16 \<Rightarrow> (int \<times> fat16) option option" where
  "fat16_delete_entry fuel block index st = do {
     (_, e) \<leftarrow> fat16_read_entry st (ucast block) index;
     case e of None \<Rightarrow> None
     | Some e \<Rightarrow> do {
         r \<leftarrow> free_clusters fuel 0 (ucast (first_cluster e)) st;
         case r of None \<Rightarrow> Some None
         | Some (_, st) \<Rightarrow> do {
             (_, st) \<leftarrow> fat16_sync_directory_entry block (of_nat index) no_entry st;
             Some (Some (0, st)) } } }"

text \<open>The fields are \<open>5:6:5\<close> and \<open>7:4:5\<close> bits, the arguments bytes.\<close>

definition fat16_set_time :: "u16 \<Rightarrow> u8 \<Rightarrow> u8 \<Rightarrow> u8 \<Rightarrow> u16" where
  "fat16_set_time time hours minutes seconds =
     (let time = time AND 0xFC00;
          time = time OR ucast (push_bit 11 (ucast (hours AND 0x1F) :: u32));
          time = time OR ucast (push_bit 5 (ucast (minutes AND 0x3F) :: u32))
      in time OR ucast ((seconds div 2) AND 0x1F))"

definition fat16_set_date :: "u16 \<Rightarrow> u16 \<Rightarrow> u8 \<Rightarrow> u8 \<Rightarrow> u16" where
  "fat16_set_date date year month day =
     (let date = date AND 0xFE00;
          date = date OR ucast (push_bit 9 ((ucast year - 1980 :: u32) AND 0x7F));
          date = date OR ucast (push_bit 5 (ucast (month AND 0x0F) :: u32))
      in date OR ucast (day AND 0x1F))"

text \<open>An entry is empty when its name starts with \<open>0x00\<close> or \<open>0xE5\<close>.\<close>

definition slot_free :: "u8 list \<Rightarrow> nat \<Rightarrow> bool" where
  "slot_free buffer i \<longleftrightarrow> slot buffer i ! 0 = 0x00 \<or> slot buffer i ! 0 = 0xE5"

definition new_entry :: "u8 list \<Rightarrow> u8 list \<Rightarrow> u8 \<Rightarrow> u16 \<Rightarrow> u32 \<Rightarrow> dir_entry" where
  "new_entry nm ext attr cluster sz = \<lparr>filename = nm, extension = ext, attributes = attr, reserved = replicate 10 0,
     created_time = fat16_set_time 0 12 0 0, created_date = fat16_set_date 0 2023 5 31, first_cluster = cluster, file_size = sz\<rparr>"

definition fat16_add_entry :: "u16 \<Rightarrow> u8 list \<Rightarrow> u8 list \<Rightarrow> u8 \<Rightarrow> u16 \<Rightarrow> u32 \<Rightarrow> fat16 \<Rightarrow> (int \<times> fat16) option" where
  "fat16_add_entry block nm ext attr cluster sz st = do {
     buffer \<leftarrow> read_block (fdisk st) (int (unat block));
     case first_index (slot_free buffer) ENTRIES_PER_BLOCK of
       None \<Rightarrow> Some (-1, st)
     | Some i \<Rightarrow> do {
         nm \<leftarrow> mem_read nm 0 8;
         ext \<leftarrow> mem_read ext 0 3;
         buffer \<leftarrow> mem_write buffer (int (32 * i)) (entry_bytes (new_entry nm ext attr cluster sz));
         d \<leftarrow> write_block buffer (int (unat block)) (fdisk st);
         Some (0, st\<lparr>fdisk := d\<rparr>) } }"

section \<open>fs/fat16.c: names and paths\<close>

definition to_upper :: "u8 \<Rightarrow> u8" where
  "to_upper c = (if 97 \<le> c \<and> c \<le> 122 then c - 32 else c)"

definition fat16_to_upper :: "u8 list \<Rightarrow> u8 list" where
  "fat16_to_upper s = map to_upper s"

text \<open>The two comparing loops: what is left of the path part and of the name, \<open>None\<close> on a mismatch.\<close>

fun compare_name :: "u8 list \<Rightarrow> u8 list \<Rightarrow> (u8 list \<times> u8 list) option" where
  "compare_name (p # ps) (f # fs) =
     (if p = 46 then Some (p # ps, f # fs) else if p \<noteq> f then None else compare_name ps fs)"
| "compare_name ps fs = Some (ps, fs)"

fun compare_ext :: "u8 list \<Rightarrow> u8 list \<Rightarrow> (u8 list \<times> u8 list) option" where
  "compare_ext (p # ps) (f # fs) = (if p \<noteq> f then None else compare_ext ps fs)"
| "compare_ext ps fs = Some (ps, fs)"

definition fat16_name_compare :: "u8 list \<Rightarrow> u8 list \<Rightarrow> bool" where
  "fat16_name_compare path_part full =
     (case compare_name (fat16_to_upper path_part) (take 8 full) of
        None \<Rightarrow> False
      | Some (ps, fs) \<Rightarrow>
          if \<exists>f \<in> set fs. f \<noteq> 32 then False
          else
            (let ps = (case ps of p # ps' \<Rightarrow> if p = 46 then ps' else ps | [] \<Rightarrow> [])
             in case compare_ext ps (take 3 (drop 8 full)) of
                  None \<Rightarrow> False
                | Some (_, fs) \<Rightarrow> \<forall>f \<in> set fs. f = 32))"

text \<open>The tokens that \<open>sstrtok(path, "/")\<close> returns one after the other; its buffer holds 128 bytes.\<close>

function slash_tokens :: "u8 list \<Rightarrow> u8 list list" where
  "slash_tokens path =
     (if path = [] then [] else takeWhile (\<lambda>c. c \<noteq> 47) path # slash_tokens (drop 1 (dropWhile (\<lambda>c. c \<noteq> 47) path)))"
  by auto
termination
proof (relation "measure length", simp)
  fix path :: "u8 list" assume "path \<noteq> []"
  moreover have "length (dropWhile (\<lambda>c. c \<noteq> 47) path) \<le> length path" by (rule length_dropWhile_le)
  ultimately show "(drop 1 (dropWhile (\<lambda>c. c \<noteq> 47) path), path) \<in> measure length" by (cases path) auto
qed

declare slash_tokens.simps [simp del]

text \<open>The inner loop: the first entry of the block with the name.\<close>

definition find_in_block :: "fat16 \<Rightarrow> u32 \<Rightarrow> u8 list \<Rightarrow> (nat \<times> dir_entry) option option" where
  "find_in_block st start_block token =
     (if start_block \<noteq> ucast (get_root_directory_start_block st) \<and> \<not> (0 \<le> sint start_block \<and> sint start_block < int (length (fdisk st))) then None
      else Some (case first_index (\<lambda>i. case fat16_read_entry st start_block i of
                     Some (r, Some e) \<Rightarrow> fat16_name_compare token (full_name e) | _ \<Rightarrow> False) ENTRIES_PER_BLOCK of
          None \<Rightarrow> None
        | Some i \<Rightarrow> (case fat16_read_entry st start_block i of Some (r, Some e) \<Rightarrow> Some (i, e) | _ \<Rightarrow> None)))"

text \<open>
  \<open>struct fat16_file_identifier\<close>: two fields of type \<open>int16_t\<close>, words that \<open>sint\<close> reads.
\<close>

record fat16_file_identifier =
  directory :: "16 word"
  fid_index :: "16 word"

text \<open>
  The outer loop. The result is the identifier with what is written to \<open>entry_out\<close>, nothing when the
  identifier is \<open>{-1, -1}\<close>. \<open>start_block\<close> is a \<open>uint16_t\<close>; storing it in the identifier makes it signed.
\<close>

fun walk :: "fat16 \<Rightarrow> u16 \<Rightarrow> u16 \<Rightarrow> (nat \<times> dir_entry) option \<Rightarrow> u8 list list \<Rightarrow> (fat16_file_identifier \<times> dir_entry option) option" where
  "walk st start prev found [] =
     (case found of None \<Rightarrow> Some (\<lparr>directory = start, fid_index = 0\<rparr>, Some no_entry)
      | Some (i, e) \<Rightarrow> Some (\<lparr>directory = (if attributes e AND FAT16_FLAG_SUBDIRECTORY \<noteq> 0 then prev else start),
          fid_index = of_nat i\<rparr>, Some e))"
| "walk st start prev found (t # ts) = do {
     r \<leftarrow> find_in_block st (ucast start) t;
     case r of None \<Rightarrow> Some (\<lparr>directory = -1, fid_index = -1\<rparr>, None)
     | Some (i, e) \<Rightarrow>
         if attributes e AND FAT16_FLAG_SUBDIRECTORY \<noteq> 0
         then walk st (if first_cluster e \<noteq> get_root_directory_start_block st
                       then get_data_start_block st + first_cluster e else get_root_directory_start_block st) start (Some (i, e)) ts
         else walk st start prev (Some (i, e)) ts }"

definition fat16_get_directory_entry :: "fat16 \<Rightarrow> u8 list \<Rightarrow> (fat16_file_identifier \<times> dir_entry option) option" where
  "fat16_get_directory_entry st path =
     (let absolute = path \<noteq> [] \<and> hd path = 47;
          start_block = (if absolute then get_root_directory_start_block st else current_dir_block st);
          path = (if absolute then tl path else path)
      in if absolute \<and> path = []
         then Some (\<lparr>directory = get_root_directory_start_block st, fid_index = 0\<rparr>, Some root_directory)
         else if 127 \<le> length path then None
         else walk st start_block 0 None (slash_tokens path))"

section \<open>fs/fat16.c: creating files and directories\<close>

definition spaces :: "nat \<Rightarrow> u8 list" where
  "spaces n = replicate n 32"

definition fat16_create_directory :: "u8 list \<Rightarrow> fat16 \<Rightarrow> (int \<times> fat16) option" where
  "fat16_create_directory nm st =
     (let start_block = current_dir_block st in
      if length (takeWhile (\<lambda>c. c \<noteq> 0) nm) > 8 then Some (-1, st)
      else do {
        (c, st) \<leftarrow> fat16_get_free_cluster st;
        let directory_block = (ucast c :: u16);
        (_, st) \<leftarrow> fat16_add_entry start_block nm (spaces 3) FAT16_FLAG_SUBDIRECTORY directory_block 0 st;
        (_, st) \<leftarrow> fat16_add_entry (get_data_start_block st + directory_block) (46 # spaces 7) (spaces 3) FAT16_FLAG_SUBDIRECTORY directory_block 0 st;
        (_, st) \<leftarrow> fat16_add_entry (get_data_start_block st + directory_block) (46 # 46 # spaces 6) (spaces 3) FAT16_FLAG_SUBDIRECTORY
          (if start_block = get_root_directory_start_block st then 0 else start_block - get_data_start_block st) 0 st;
        st \<leftarrow> fat16_sync_fat_table st;
        Some (0, st) })"

definition fat16_create_file :: "u8 list \<Rightarrow> u8 list \<Rightarrow> u8 list \<Rightarrow> fat16 \<Rightarrow> (int \<times> fat16) option" where
  "fat16_create_file nm ext data st = do {
     (first, st) \<leftarrow> fat16_get_free_cluster st;
     if sint first < 0 then Some (-1, st)
     else do {
       let c = (ucast first :: u16);
       (_, st) \<leftarrow> (if data \<noteq> [] then fat16_write_data (ucast c) 0 data st else Some (0, st));
       (_, st) \<leftarrow> fat16_add_entry (current_dir_block st) nm ext FAT16_FLAG_ARCHIVE c (of_nat (length data)) st;
       st \<leftarrow> fat16_sync_fat_table st;
       Some (0, st) } }"

text \<open>
  \<open>fat16_create_empty_file\<close>: the name is upper-cased into two arrays of 8 and 3 bytes; a longer part
  leaves its array.
\<close>

definition fat16_create_empty_file :: "u8 list \<Rightarrow> fat16 \<Rightarrow> (int \<times> fat16) option" where
  "fat16_create_empty_file path st =
     (if path \<noteq> [] \<and> hd path = 47 then Some (-1, st)
      else
        (let nm = takeWhile (\<lambda>c. c \<noteq> 46) path; ext = drop (Suc (length nm)) path in
         if 8 < length nm \<or> 3 < length ext then None
         else do {
           (r, st) \<leftarrow> fat16_create_file (map to_upper nm @ spaces (8 - length nm)) (map to_upper ext @ spaces (3 - length ext)) [] st;
           Some (if r \<noteq> 0 then -2 else 0, st) }))"

definition fat16_find_entry :: "u8 list \<Rightarrow> u8 list \<Rightarrow> fat16 \<Rightarrow> (nat \<times> dir_entry) option option" where
  "fat16_find_entry nm ext st =
     (if current_dir_block st \<noteq> get_root_directory_start_block st \<and> length (fdisk st) \<le> unat (current_dir_block st) then None
      else Some (case first_index (\<lambda>i. case fat16_read_entry st (ucast (current_dir_block st)) i of
             Some (r, Some e) \<Rightarrow> take (length nm) (entry_bytes e) = nm \<and> extension e = take 3 ext
           | Some (r, None) \<Rightarrow> take (length nm) (entry_bytes no_entry) = nm \<and> extension no_entry = take 3 ext
           | None \<Rightarrow> False) (unat (root_dir_entries st)) of
          None \<Rightarrow> None
        | Some i \<Rightarrow> (case fat16_read_entry st (ucast (current_dir_block st)) i of
             Some (r, Some e) \<Rightarrow> Some (i, e) | _ \<Rightarrow> Some (i, no_entry))))"

definition fat16_change_directory :: "u8 list \<Rightarrow> fat16 \<Rightarrow> fat16 option" where
  "fat16_change_directory nm st = do {
     r \<leftarrow> fat16_find_entry nm (spaces 3) st;
     case r of None \<Rightarrow> Some st
     | Some (_, e) \<Rightarrow>
         if attributes e AND 0x10 = 0 then Some st
         else Some (st\<lparr>current_dir_block := get_data_start_block st + first_cluster e\<rparr>) }"

definition fat16_read_file :: "u8 list \<Rightarrow> u8 list \<Rightarrow> u32 \<Rightarrow> fat16 \<Rightarrow> (int \<times> u8 list) option" where
  "fat16_read_file nm ext len st = do {
     r \<leftarrow> fat16_find_entry nm ext st;
     case r of None \<Rightarrow> Some (-1, [])
     | Some (_, e) \<Rightarrow> fat16_read_data st (ucast (first_cluster e)) 0 len (file_size e) }"

section \<open>The layout of an entry\<close>

definition entry_wf :: "dir_entry \<Rightarrow> bool" where
  "entry_wf e \<longleftrightarrow> length (filename e) = 8 \<and> length (extension e) = 3 \<and> length (reserved e) = 10"

lemma length_entry_bytes: "entry_wf e \<Longrightarrow> length (entry_bytes e) = 32"
  by (simp add: entry_wf_def entry_bytes_def)

lemma entry_of_bytes: "entry_wf e \<Longrightarrow> entry_of (entry_bytes e) = e"
proof -
  assume wf: "entry_wf e"
  then have l: "length (filename e) = 8" "length (extension e) = 3" "length (reserved e) = 10" by (auto simp: entry_wf_def)
  let ?pre = "filename e @ extension e @ [attributes e] @ reserved e"
  let ?post = "le16_bytes (created_time e) @ le16_bytes (created_date e) @ le16_bytes (first_cluster e) @ le32_bytes (file_size e)"
  have b: "entry_bytes e = ?pre @ ?post" by (simp add: entry_bytes_def)
  have n: "entry_bytes e ! (22 + k) = ?post ! k" for k unfolding b using l by (simp add: nth_append)
  have all: "entry_bytes e ! 22 = ?post ! 0" "entry_bytes e ! 23 = ?post ! 1" "entry_bytes e ! 24 = ?post ! 2" "entry_bytes e ! 25 = ?post ! 3"
    "entry_bytes e ! 26 = ?post ! 4" "entry_bytes e ! 27 = ?post ! 5" "entry_bytes e ! 28 = ?post ! 6" "entry_bytes e ! 29 = ?post ! 7"
    "entry_bytes e ! 30 = ?post ! 8" "entry_bytes e ! 31 = ?post ! 9"
    using n [of 0] n [of 1] n [of 2] n [of 3] n [of 4] n [of 5] n [of 6] n [of 7] n [of 8] n [of 9] by simp_all
  have "take 8 (entry_bytes e) = filename e" "take 3 (drop 8 (entry_bytes e)) = extension e" "entry_bytes e ! 11 = attributes e"
    "take 10 (drop 12 (entry_bytes e)) = reserved e"
    using l by (simp_all add: entry_bytes_def nth_append)
  then show ?thesis unfolding entry_of_def all
    by (simp add: le16_bytes_def le32_bytes_def le16_le16_bytes le32_le32_bytes)
qed

lemma slot_patch:
  assumes "length bs = 32" and "length buf = 512" and "i < 16" and "j < 16"
  shows "slot (patch (32 * i) bs buf) j = (if j = i then bs else slot buf j)"
proof -
  let ?p = "patch (32 * i) bs buf"
  have le: "32 * i + 32 \<le> 512" "32 * j + 32 \<le> 512" using assms(3,4) by auto
  show ?thesis
  proof (cases "j = i")
    case True
    then show ?thesis using assms le by (simp add: slot_def patch_def)
  next
    case False
    have "slot ?p j ! k = slot buf j ! k" if "k < 32" for k
    proof -
      have ne: "\<not> (32 * i \<le> 32 * j + k \<and> 32 * j + k < 32 * i + 32)" using False that by linarith
      have nth: "?p ! n = buf ! n" if "n < 512" "\<not> (32 * i \<le> n \<and> n < 32 * i + 32)" for n
        using that assms(1,2) le by (auto simp: patch_def nth_append)
      show ?thesis using that le assms nth [of "32 * j + k"] ne by (simp add: slot_def)
    qed
    then show ?thesis using False assms le by (intro nth_equalityI) (auto simp: slot_def)
  qed
qed

section \<open>Comparing names\<close>

definition padded :: "nat \<Rightarrow> u8 list \<Rightarrow> u8 list" where
  "padded n s = map to_upper s @ spaces (n - length s)"

lemma compare_name_dot:
  "46 \<notin> set p \<Longrightarrow> length p \<le> length f \<Longrightarrow>
   compare_name (p @ 46 # q) f = (if take (length p) f = p then Some (46 # q, drop (length p) f) else None)"
proof (induction p arbitrary: f)
  case Nil
  then show ?case by (cases f) auto
next
  case (Cons a p)
  then obtain b g where "f = b # g" by (cases f) auto
  then show ?case using Cons by auto
qed

lemma compare_name_end:
  "46 \<notin> set p \<Longrightarrow> length p \<le> length f \<Longrightarrow>
   compare_name p f = (if take (length p) f = p then Some ([], drop (length p) f) else None)"
proof (induction p arbitrary: f)
  case (Cons a p)
  then obtain b g where "f = b # g" by (cases f) auto
  then show ?case using Cons by auto
qed simp

lemma compare_ext_end:
  "length p \<le> length f \<Longrightarrow> compare_ext p f = (if take (length p) f = p then Some ([], drop (length p) f) else None)"
proof (induction p arbitrary: f)
  case (Cons a p)
  then obtain b g where "f = b # g" by (cases f) auto
  then show ?case using Cons by auto
qed simp

lemma padded_iff: "k \<le> length f \<Longrightarrow> length p = k \<Longrightarrow>
  (take k f = p \<and> (\<forall>x \<in> set (drop k f). x = 32)) = (f = p @ spaces (length f - k))"
proof
  assume a: "k \<le> length f" "length p = k" "take k f = p \<and> (\<forall>x \<in> set (drop k f). x = 32)"
  then have "drop k f = replicate (length (drop k f)) 32" by (intro replicate_eqI) auto
  then show "f = p @ spaces (length f - k)" using a by (metis append_take_drop_id length_drop spaces_def)
next
  assume a: "k \<le> length f" "length p = k" "f = p @ spaces (length f - k)"
  then have "take k f = p" "drop k f = spaces (length f - k)" by (metis append_eq_conv_conj)+
  then show "take k f = p \<and> (\<forall>x \<in> set (drop k f). x = 32)" by (simp add: spaces_def)
qed

lemma to_upper_dot: "to_upper c = 46 \<longleftrightarrow> c = 46"
proof
  assume a: "to_upper c = 46"
  show "c = 46"
  proof (cases "97 \<le> c \<and> c \<le> 122")
    case True
    then have "c - 32 = 46" using a by (simp add: to_upper_def)
    then have "c = 78" by (simp add: diff_eq_eq)
    then show ?thesis using True by simp
  qed (use a in \<open>auto simp: to_upper_def split: if_splits\<close>)
qed (simp add: to_upper_def)

lemma name_compare_dot:
  assumes "length nm \<le> 8" and "length ext \<le> 3" and "46 \<notin> set nm" and "length full = 11"
  shows "fat16_name_compare (nm @ 46 # ext) full \<longleftrightarrow> full = padded 8 nm @ padded 3 ext"
proof -
  let ?n = "map to_upper nm" and ?e = "map to_upper ext" and ?f = "take 8 full" and ?g = "take 3 (drop 8 full)"
  have nd: "46 \<notin> set ?n"
  proof
    assume "46 \<in> set ?n"
    then obtain c where "c \<in> set nm" "to_upper c = 46" by (metis imageE list.set_map)
    then show False using assms(3) by (simp add: to_upper_dot)
  qed
  have up: "fat16_to_upper (nm @ 46 # ext) = ?n @ 46 # ?e" by (simp add: fat16_to_upper_def to_upper_dot)
  have c1: "compare_name (?n @ 46 # ?e) ?f = (if take (length nm) ?f = ?n then Some (46 # ?e, drop (length nm) ?f) else None)"
    using compare_name_dot [OF nd, of ?f] assms(1,4) by simp
  have c2: "compare_ext ?e ?g = (if take (length ext) ?g = ?e then Some ([], drop (length ext) ?g) else None)"
    using compare_ext_end [of ?e ?g] assms(2,4) by simp
  have "fat16_name_compare (nm @ 46 # ext) full \<longleftrightarrow>
      (take (length nm) ?f = ?n \<and> (\<forall>x \<in> set (drop (length nm) ?f). x = 32)) \<and> (take (length ext) ?g = ?e \<and> (\<forall>x \<in> set (drop (length ext) ?g). x = 32))"
    unfolding fat16_name_compare_def up c1 by (simp add: c2)
  also have "\<dots> \<longleftrightarrow> ?f = padded 8 nm \<and> ?g = padded 3 ext"
    using padded_iff [of "length nm" ?f ?n] padded_iff [of "length ext" ?g ?e] assms(1,2,4) by (simp add: padded_def)
  also have "\<dots> \<longleftrightarrow> full = padded 8 nm @ padded 3 ext"
  proof -
    have f: "full = ?f @ ?g" using assms(4) by simp
    have l: "length ?f = length (padded 8 nm)" using assms(1,4) by (simp add: padded_def spaces_def)
    have "full = padded 8 nm @ padded 3 ext \<longleftrightarrow> ?f @ ?g = padded 8 nm @ padded 3 ext" using f by simp
    then show ?thesis unfolding append_eq_append_conv [OF disjI1 [OF l]] by simp
  qed
  finally show ?thesis .
qed

section \<open>Adding an entry\<close>

lemma new_entry_wf: "length nm = 8 \<Longrightarrow> length ext = 3 \<Longrightarrow> entry_wf (new_entry nm ext a c z)"
  by (simp add: new_entry_def entry_wf_def)

lemma add_entry_some:
  assumes "fat_ok st" and "k < length (table st)" and "unat block = dstart st + k" and "length nm = 8" and "length ext = 3"
    and "first_index (slot_free (blk st k)) ENTRIES_PER_BLOCK = Some i"
  shows "fat16_add_entry block nm ext a c z st = Some (0, put_block k (32 * i) (entry_bytes (new_entry nm ext a c z)) st)"
proof -
  let ?e = "entry_bytes (new_entry nm ext a c z)"
  define b where "b = dstart st + k"
  have i: "i < 16" using assms(6) by (simp add: find_from_Some_iff)
  have bl: "b < length (fdisk st)" using fat_okD(3) [OF assms(1)] assms(2) by (simp add: b_def)
  have l: "length (blk st k) = 512" using blk_length [OF assms(1,2)] .
  have e: "length ?e = 32" using length_entry_bytes [OF new_entry_wf [OF assms(4,5)]] .
  have m: "mem_write (blk st k) (int (32 * i)) ?e = Some (patch (32 * i) ?e (blk st k))"
    using i l e by (simp add: mem_write_def patch_def nat_mult_distrib)
  have p: "length (patch (32 * i) ?e (blk st k)) = 512" using i l e by simp
  have "mem_read nm 0 8 = Some nm" "mem_read ext 0 3 = Some ext" using assms(4,5) by (simp_all add: mem_read_def)
  moreover have "read_block (fdisk st) (int (unat block)) = Some (blk st k)"
    unfolding assms(3) b_def [symmetric] using bl by (simp add: read_block_def blk_def flip: b_def)
  moreover have "write_block (patch (32 * i) ?e (blk st k)) (int (unat block)) (fdisk st) = Some ((fdisk st)[b := patch (32 * i) ?e (blk st k)])"
    unfolding assms(3) b_def [symmetric] using bl p by (simp add: write_block_def)
  ultimately show ?thesis using assms(6) m by (simp add: fat16_add_entry_def put_block_def b_def)
qed

lemma sync_frame:
  assumes "fat_ok st"
  obtains st' where "fat16_sync_fat_table st = Some st'" "fat_ok st'" "same_shape st st'" "fat_table st' = fat_table st"
    "\<And>c. 0 < c \<Longrightarrow> blk st' c = blk st c"
proof -
  obtain d where d: "fat16_sync_fat_table st = Some (st\<lparr>fdisk := d\<rparr>)" "length d = length (fdisk st)" "disk_ok d"
    "\<And>b. dstart st < b \<Longrightarrow> d ! b = fdisk st ! b"
    "\<And>b. b < unat (reserved_blocks st) \<Longrightarrow> d ! b = fdisk st ! b"
    by (rule sync_table [OF assms]) (rule that; assumption)
  have sh: "same_shape st (st\<lparr>fdisk := d\<rparr>)" using d(2) d(5) [of 0] by (simp add: same_shape_def)
  have ok: "fat_ok (st\<lparr>fdisk := d\<rparr>)" by (rule fat_ok_same [OF assms sh]) (use fat_okD(1) [OF assms] d(3) in auto)
  have "blk (st\<lparr>fdisk := d\<rparr>) c = blk st c" if "0 < c" for c
    using d(4) [of "dstart st + c"] that dstart_same [OF sh] by (simp add: blk_def)
  then show thesis using that [OF d(1) ok sh] by simp
qed

lemma add_entry_full:
  assumes "b < length (fdisk st)" and "unat block = b" and "first_index (slot_free (fdisk st ! b)) ENTRIES_PER_BLOCK = None"
  shows "fat16_add_entry block nm ext a c z st = Some (-1, st)"
  using assms by (simp add: fat16_add_entry_def read_block_def)

lemma read_entry_block:
  assumes "b < length (fdisk st)" and "sint block = int b" and "i < 16" and "block \<noteq> ucast (get_root_directory_start_block st) \<or> i \<noteq> 0"
  shows "fat16_read_entry st block i = Some (0, Some (entry_of (slot (fdisk st ! b) i)))"
  using assms by (auto simp: fat16_read_entry_def read_block_def)

text \<open>A lookup of one name in a block whose first match is the entry \<open>i\<close>.\<close>

lemma find_in_block_first:
  assumes "b < length (fdisk st)" and "sint block = int b" and "i < 16" and "block \<noteq> ucast (get_root_directory_start_block st) \<or> i \<noteq> 0"
    and "fat16_name_compare t (full_name (entry_of (slot (fdisk st ! b) i)))"
    and "\<And>j r e. j < i \<Longrightarrow> fat16_read_entry st block j = Some (r, Some e) \<Longrightarrow> \<not> fat16_name_compare t (full_name e)"
  shows "find_in_block st block t = Some (Some (i, entry_of (slot (fdisk st ! b) i)))"
proof -
  have "first_index (\<lambda>i. case fat16_read_entry st block i of
      Some (r, Some e) \<Rightarrow> fat16_name_compare t (full_name e) | _ \<Rightarrow> False) ENTRIES_PER_BLOCK = Some i"
  proof (rule find_from_least)
    fix j assume "j < i"
    then show "\<not> (case fat16_read_entry st block j of Some (r, Some e) \<Rightarrow> fat16_name_compare t (full_name e) | _ \<Rightarrow> False)"
      using assms(6) by (auto split: option.splits prod.splits)
  qed (use assms(3,5) read_entry_block [OF assms(1-4)] in simp_all)
  then show ?thesis using assms(1,2) read_entry_block [OF assms(1-4)] by (simp add: find_in_block_def)
qed

lemma slash_tokens_Nil: "slash_tokens [] = []"
  by (simp add: slash_tokens.simps)

lemma slash_tokens_single: "p \<noteq> [] \<Longrightarrow> 47 \<notin> set p \<Longrightarrow> slash_tokens p = [p]"
proof -
  assume p: "p \<noteq> []" "47 \<notin> set p"
  then have "takeWhile (\<lambda>c. c \<noteq> 47) p = p" "dropWhile (\<lambda>c. c \<noteq> 47) p = []"
    by (auto simp: takeWhile_eq_all_conv dropWhile_eq_Nil_conv)
  then show ?thesis using p(1) by (subst slash_tokens.simps) (simp only: if_False drop_Nil slash_tokens_Nil)
qed

section \<open>Create, look up, read\<close>

lemma dir_block_words:
  assumes "fat_ok st" and "k < length (table st)" and "current_dir_block st = of_nat (dstart st + k)"
  shows "unat (current_dir_block st) = dstart st + k" "sint (ucast (current_dir_block st) :: u32) = int (dstart st + k)"
    "(ucast (current_dir_block st) :: u32) = ucast (get_root_directory_start_block st) \<longleftrightarrow> k = 1"
proof -
  note d = fat_okD [OF assms(1)]
  show u: "unat (current_dir_block st) = dstart st + k"
    using assms(2,3) d(5) by (simp add: unat_of_nat take_bit_nat_eq_self del: of_nat_add)
  then have v: "unat (ucast (current_dir_block st) :: u32) = dstart st + k"
    using d(5) assms(2) by (simp add: unsigned_ucast_eq take_bit_nat_eq_self)
  then show "sint (ucast (current_dir_block st) :: u32) = int (dstart st + k)"
    using sint_small [of "ucast (current_dir_block st)"] d(5) assms(2) by simp
  have r: "unat (get_root_directory_start_block st) = dstart st + 1"
    using assms(1) by (auto simp: fat_ok_def dstart_def get_root_directory_start_block_def get_fat_start_block_def unat_word_ariths)
  then have "unat (ucast (get_root_directory_start_block st) :: u32) = dstart st + 1"
    using d(5,7,8) by (simp add: unsigned_ucast_eq take_bit_nat_eq_self)
  then show "(ucast (current_dir_block st) :: u32) = ucast (get_root_directory_start_block st) \<longleftrightarrow> k = 1"
    using v by (metis add_left_cancel word_unat_eq_iff)
qed

text \<open>The block as a signed 16-bit integer, as the identifier holds it.\<close>

lemma sint_word16: "sint (w :: u16) = (if unat w < 2 ^ 15 then int (unat w) else int (unat w) - 2 ^ 16)"
proof -
  have u: "uint w = int (unat w)" "unat w < 2 ^ 16" using unsigned_less [of w] by simp_all
  have "int (unat w) < int (2 ^ 16)" using u(2) by (simp only: of_nat_less_iff)
  moreover have "int (2 ^ 16) = 2 ^ 16" by simp
  ultimately have u3: "int (unat w) < 2 ^ 16" by (simp only:)
  have t: "take_bit 16 (uint w) = uint w" unfolding u(1) by (rule take_bit_int_eq_self) (use u3 in simp_all)
  have "sint w = uint w - 2 ^ 16 * of_bool (bit (uint w) 15)"
    by (simp add: sint_uint signed_take_bit_eq_take_bit_minus t)
  moreover have "bit (uint w) 15 \<longleftrightarrow> \<not> unat w < 2 ^ 15"
  proof -
    have "odd (int n div 32768) \<longleftrightarrow> \<not> n < 32768" if "n < 65536" for n :: nat
    proof (cases "n < 32768")
      case True
      then show ?thesis by (simp add: div_pos_pos_trivial)
    next
      case False
      have "int n div 32768 = 1" by (rule int_div_pos_eq [of _ _ _ "int n - 32768"]) (use False that in linarith)+
      then show ?thesis using False by simp
    qed
    moreover have e: "(2 :: int) ^ 15 = 32768" "(2 :: nat) ^ 15 = 32768" "(2 :: nat) ^ 16 = 65536" by simp_all
    ultimately show ?thesis using u(2) unfolding u(1) bit_iff_odd e by blast
  qed
  ultimately show ?thesis unfolding u(1) by auto
qed

lemma dir_block_signed:
  assumes "fat_ok st" and "k < length (table st)" and "current_dir_block st = of_nat (dstart st + k)"
  shows "sint (current_dir_block st) = (if dstart st + k < 2 ^ 15 then int (dstart st + k) else int (dstart st + k) - 2 ^ 16)"
  using sint_word16 [of "current_dir_block st"] unfolding dir_block_words(1) [OF assms] .

text \<open>A new file of one cluster, and what taking the cluster changes.\<close>

lemma new_chain:
  assumes "fat_ok st" and "free_set st \<noteq> {}"
  obtains f st1 where "fat16_get_free_cluster st = Some (of_nat f, st1)" "fat_ok st1" "same_shape st st1" "file_at st1 [f]"
    "f \<in> free_set st" "free_set st1 = free_set st - {f}" "\<And>c. blk st1 c = blk st c"
    "\<And>gs. file_at st gs \<Longrightarrow> f \<notin> set gs \<and> file_at st1 gs"
proof -
  obtain f where f: "f \<in> free_set st" "fat16_get_free_cluster st = Some (of_nat f, st\<lparr>fat_table := Some ((table st)[f := 0xFFFF])\<rparr>)"
    using get_free_cluster_some [OF assms] by blast
  let ?st = "st\<lparr>fat_table := Some ((table st)[f := 0xFFFF])\<rparr>"
  have fl: "f < length (table st)" "5 \<le> f" "table st ! f = 0" using f(1) by (auto simp: free_set_def)
  have sh: "same_shape st ?st" by (simp add: same_shape_def)
  have ok: "fat_ok ?st" by (rule fat_ok_same [OF assms(1) sh]) (use fat_okD(4) [OF assms(1)] in auto)
  have other: "f \<notin> set gs \<and> file_at ?st gs" if g: "file_at st gs" for gs
  proof -
    have n: "f \<notin> set gs" using file_used [OF assms(1) g, of f] fl(3) by blast
    have g': "gs \<noteq> []" "distinct gs" "\<forall>c \<in> set gs. 2 \<le> c \<and> c < length (table st)" "table st ! last gs = 0xFFFF"
      "\<forall>i. Suc i < length gs \<longrightarrow> table st ! (gs ! i) = of_nat (gs ! Suc i)" using g by (auto simp: file_at_def)
    have nf: "f \<noteq> gs ! i" if "i < length gs" for i using n nth_mem [OF that] by auto
    have nth: "(table st)[f := 0xFFFF] ! (gs ! i) = table st ! (gs ! i)" if "Suc i < length gs" for i
      using nf [of i] that by simp
    have "f \<noteq> last gs" using n g'(1) last_in_set by blast
    then have "file_at ?st gs" using g' nth unfolding file_at_def by simp
    then show ?thesis using n by simp
  qed
  show thesis
  proof (rule that [OF f(2) ok sh _ f(1) _ _ other])
    show "file_at ?st [f]" using fl by (simp add: file_at_def)
    show "free_set ?st = free_set st - {f}"
    proof (rule set_eqI)
      fix x
      show "x \<in> free_set ?st \<longleftrightarrow> x \<in> free_set st - {f}" by (cases "x = f") (use fl in \<open>auto simp: free_set_def\<close>)
    qed
    show "blk ?st c = blk st c" for c by (simp add: blk_def dstart_def)
  qed
qed

lemma create_file_run:
  assumes ok: "fat_ok st" and k: "0 < k" "k < length (table st)" "k \<notin> free_set st" and cur: "current_dir_block st = of_nat (dstart st + k)"
    and i: "first_index (slot_free (blk st k)) ENTRIES_PER_BLOCK = Some i" and nm: "length nm = 8" "length ext = 3"
    and ne: "data \<noteq> []" and room: "length data \<le> 512 * card (free_set st)"
  obtains st' cs where "fat16_create_file nm ext data st = Some (0, st')" "fat_ok st'" "same_shape st st'" "file_at st' cs" "k \<notin> set cs"
    "take (length data) (file_bytes st' cs) = data" "length data \<le> 512 * length cs"
    "blk st' k = patch (32 * i) (entry_bytes (new_entry nm ext FAT16_FLAG_ARCHIVE (of_nat (hd cs)) (of_nat (length data)))) (blk st k)"
    "\<And>gs. file_at st gs \<Longrightarrow> k \<notin> set gs \<Longrightarrow> file_at st' gs \<and> file_bytes st' gs = file_bytes st gs"
proof -
  have "free_set st \<noteq> {}" using ne room by auto
  then obtain f st1 where s1: "fat16_get_free_cluster st = Some (of_nat f, st1)" "fat_ok st1" "same_shape st st1" "file_at st1 [f]"
    "f \<in> free_set st" "free_set st1 = free_set st - {f}" "\<And>c. blk st1 c = blk st c"
    "\<And>gs. file_at st gs \<Longrightarrow> f \<notin> set gs \<and> file_at st1 gs" by (rule new_chain [OF ok]) (rule that; assumption)
  have f: "f < 0xFFF8" "2 \<le> f" using cluster_small [OF s1(2,4), of f] by auto
  have card: "card (free_set st) = Suc (card (free_set st1))" unfolding s1(6) by (rule card.remove [OF finite_free_set s1(5)])
  have le0: "0 \<le> 512 * length [f]" by simp
  have r1: "0 + length data \<le> 512 * (length [f] + card (free_set st1))" using room card by simp
  have fw: "(ucast (ucast (of_nat f :: u32) :: u16) :: u32) = of_nat f" "(ucast (of_nat f :: u32) :: u16) = of_nat f"
    using f(1) by (simp_all add: unsigned_of_nat take_bit_nat_eq_self)
  obtain st2 cs where s2: "fat16_write_data (of_nat (hd [f])) (int 0) data st1 = Some (int (length data), st2)"
    "fat_ok st2" "file_at st2 cs" "hd cs = hd [f]" "length cs = clusters_for (0 + length data)"
    "take (0 + length data) (file_bytes st2 cs) = take 0 (file_bytes st1 [f]) @ data"
    "\<And>gs. file_at st1 gs \<Longrightarrow> set gs \<inter> set [f] = {} \<Longrightarrow> file_at st2 gs \<and> file_bytes st2 gs = file_bytes st1 gs"
    "\<And>c. 0 < c \<Longrightarrow> c < length (table st1) \<Longrightarrow> c \<notin> set [f] \<Longrightarrow> c \<notin> free_set st1 \<Longrightarrow> blk st2 c = blk st1 c"
    "same_shape st1 st2" "set cs \<subseteq> set [f] \<union> free_set st1"
    by (rule write_data_file [OF s1(2,4) ne le0 r1]) (rule that; assumption)
  have sh2: "same_shape st st2" using s1(3) s2(9) by (simp add: same_shape_def)
  have kf: "k \<noteq> f" using k(3) s1(5) by blast
  have kcs: "k \<notin> set cs" using s2(10) kf k(3) s1(6) by auto
  have lt: "length (table st1) = length (table st)" "length (table st2) = length (table st)" using s1(3) sh2 by (simp_all add: same_shape_def)
  have bk: "blk st2 k = blk st k" using s2(8) [of k] k kf s1(6,7) lt by simp
  let ?e = "entry_bytes (new_entry nm ext FAT16_FLAG_ARCHIVE (of_nat f) (of_nat (length data)))"
  let ?st3 = "put_block k (32 * i) ?e st2"
  have il: "i < 16" using i by (simp add: find_from_Some_iff)
  have el: "length ?e = 32" using length_entry_bytes [OF new_entry_wf [OF nm]] .
  have fit: "32 * i + length ?e \<le> 512" using il el by simp
  have cd: "unat (current_dir_block st2) = dstart st2 + k"
    using dir_block_words(1) [OF ok k(2) cur] sh2 dstart_same [OF sh2] by (simp add: same_shape_def)
  have k2: "k < length (table st2)" using k(2) lt by simp
  have add: "fat16_add_entry (current_dir_block st2) nm ext FAT16_FLAG_ARCHIVE (of_nat f) (of_nat (length data)) st2 = Some (0, ?st3)"
    using add_entry_some [OF s2(2) k2 cd nm] i bk by simp
  have ok3: "fat_ok ?st3" using put_block_ok [OF s2(2) k2 fit] .
  obtain st' where s4: "fat16_sync_fat_table ?st3 = Some st'" "fat_ok st'" "same_shape ?st3 st'" "fat_table st' = fat_table ?st3"
    "\<And>c. 0 < c \<Longrightarrow> blk st' c = blk ?st3 c" using sync_frame [OF ok3] by metis
  have sh: "same_shape st st'" using sh2 s4(3) put_block_frame(4) [OF s2(2), of k "32 * i" ?e] by (simp add: same_shape_def)
  have b4: "blk st' c = (if c = k then patch (32 * i) ?e (blk st k) else blk st2 c)" if "0 < c" for c
    using s4(5) [OF that] put_block_blk [OF s2(2) k2] bk by simp
  have tab: "table st' = table st2" using s4(4) by simp
  have file4: "file_at st' gs = file_at st2 gs" for gs using tab by (simp add: file_at_def)
  have bytes4: "file_bytes st' gs = file_bytes st2 gs" if "file_at st2 gs" "k \<notin> set gs" for gs
    by (rule file_bytes_cong) (use b4 that in \<open>fastforce simp: file_at_def\<close>)
  have "sint (of_nat f :: u32) = int f" using sint_small [of "of_nat f"] unat_of_small [of f] f(1) by simp
  then have run: "fat16_create_file nm ext data st = Some (0, st')"
    using s1(1) s2(1) add s4(1) ne by (simp add: fat16_create_file_def Let_def fw next_cluster_word [OF f(1)])
  show thesis
  proof (rule that [OF run s4(2) sh _ kcs])
    show "file_at st' cs" using file4 s2(3) by simp
    show "take (length data) (file_bytes st' cs) = data" using bytes4 [OF s2(3) kcs] s2(6) by simp
    show "length data \<le> 512 * length cs" unfolding s2(5) clusters_for_def by simp
    show "blk st' k = patch (32 * i) (entry_bytes (new_entry nm ext FAT16_FLAG_ARCHIVE (of_nat (hd cs)) (of_nat (length data)))) (blk st k)"
      using b4 [OF k(1)] s2(4) by simp
  next
    fix gs assume g: "file_at st gs" "k \<notin> set gs"
    have "file_at st2 gs \<and> file_bytes st2 gs = file_bytes st1 gs" using s1(8) [OF g(1)] by (intro s2(7)) auto
    moreover have "file_bytes st1 gs = file_bytes st gs" by (rule file_bytes_cong) (use s1(7) in simp)
    ultimately show "file_at st' gs \<and> file_bytes st' gs = file_bytes st gs" using file4 bytes4 g(2) by simp
  qed
qed

text \<open>
  C38. Creating a file, looking it up by its path and reading it. In a directory with an empty slot and
  with enough free clusters, \<open>fat16_create_file\<close> succeeds; the path \<open>name.ext\<close>, in any letter case, then leads to the new
  entry when no earlier entry has this name, and a read through the entry gives back exactly
  the data; every other file has the chain and the bytes it had. The identifier names the directory's
  block in an \<open>int16_t\<close>: below block \<open>0x8000\<close> it is the block, from there on it is negative, which the
  callers (\<open>id.directory < 0\<close>) take for a file that does not exist.
\<close>

theorem fat16_create_lookup_read:
  assumes "fat_ok st" and "0 < k" and "k < length (table st)" and "k \<notin> free_set st" and "current_dir_block st = of_nat (dstart st + k)"
    and "first_index (slot_free (blk st k)) ENTRIES_PER_BLOCK = Some i" and "k = 1 \<Longrightarrow> i \<noteq> 0"
    and "length nm \<le> 8" and "length ext \<le> 3" and "46 \<notin> set nm" and "47 \<notin> set (nm @ ext)" and "nm \<noteq> []"
    and "\<And>j r e. j < i \<Longrightarrow> fat16_read_entry st (ucast (current_dir_block st)) j = Some (r, Some e) \<Longrightarrow>
      \<not> fat16_name_compare (nm @ 46 # ext) (full_name e)"
    and "data \<noteq> []" and "length data \<le> 512 * card (free_set st)" and "length data < 2 ^ 31"
  shows "\<exists>st' e. fat16_create_file (padded 8 nm) (padded 3 ext) data st = Some (0, st') \<and>
    fat16_get_directory_entry st' (nm @ 46 # ext) = Some (\<lparr>directory = current_dir_block st, fid_index = of_nat i\<rparr>, Some e) \<and>
    sint (current_dir_block st) = (if dstart st + k < 2 ^ 15 then int (dstart st + k) else int (dstart st + k) - 2 ^ 16) \<and>
    full_name e = padded 8 nm @ padded 3 ext \<and> unat (file_size e) = length data \<and>
    fat16_read_data st' (ucast (first_cluster e)) 0 (file_size e) (file_size e) = Some (int (length data), data) \<and>
    (\<forall>gs. file_at st gs \<and> k \<notin> set gs \<longrightarrow> file_at st' gs \<and> file_bytes st' gs = file_bytes st gs)"
proof -
  have pl: "length (padded 8 nm) = 8" "length (padded 3 ext) = 3" using assms(8,9) by (simp_all add: padded_def spaces_def)
  obtain st' cs where c: "fat16_create_file (padded 8 nm) (padded 3 ext) data st = Some (0, st')" "fat_ok st'" "same_shape st st'" "file_at st' cs"
    "k \<notin> set cs" "take (length data) (file_bytes st' cs) = data" "length data \<le> 512 * length cs"
    "blk st' k = patch (32 * i) (entry_bytes (new_entry (padded 8 nm) (padded 3 ext) FAT16_FLAG_ARCHIVE (of_nat (hd cs)) (of_nat (length data)))) (blk st k)"
    "\<And>gs. file_at st gs \<Longrightarrow> k \<notin> set gs \<Longrightarrow> file_at st' gs \<and> file_bytes st' gs = file_bytes st gs"
    by (rule create_file_run [OF assms(1-6) pl assms(14,15)]) (rule that; assumption)
  let ?e = "new_entry (padded 8 nm) (padded 3 ext) FAT16_FLAG_ARCHIVE (of_nat (hd cs)) (of_nat (length data))"
  let ?b = "dstart st + k" and ?w = "ucast (current_dir_block st) :: u32"
  have wf: "entry_wf ?e" by (rule new_entry_wf [OF pl])
  have il: "i < 16" using assms(6) by (simp add: find_from_Some_iff)
  have ds: "dstart st' = dstart st" "current_dir_block st' = current_dir_block st" "get_root_directory_start_block st' = get_root_directory_start_block st"
    using c(3) dstart_same [OF c(3)] by (simp_all add: same_shape_def get_root_directory_start_block_def get_fat_start_block_def)
  have bl: "?b < length (fdisk st)" "?b < length (fdisk st')" using fat_okD(3) [OF assms(1)] assms(3) c(3) by (auto simp: same_shape_def)
  note w = dir_block_words [OF assms(1,3,5)]
  have wr: "?w \<noteq> ucast (get_root_directory_start_block st) \<or> i \<noteq> 0" using w(3) assms(7) by auto
  have blkk: "fdisk st' ! ?b = blk st' k" "fdisk st ! ?b = blk st k" using ds by (simp_all add: blk_def)
  have sl: "slot (fdisk st' ! ?b) j = (if j = i then entry_bytes ?e else slot (fdisk st ! ?b) j)" if "j < 16" for j
    unfolding blkk c(8) using slot_patch [OF length_entry_bytes [OF wf] blk_length [OF assms(1,3)] il that] .
  have ei: "entry_of (slot (fdisk st' ! ?b) i) = ?e" using sl [OF il] entry_of_bytes [OF wf] by simp
  have fn: "full_name ?e = padded 8 nm @ padded 3 ext" by (simp add: full_name_def new_entry_def)
  have cmp: "fat16_name_compare (nm @ 46 # ext) (full_name ?e)"
    unfolding fn by (subst name_compare_dot [OF assms(8-10)]) (use pl in simp_all)
  have "find_in_block st' ?w (nm @ 46 # ext) = Some (Some (i, entry_of (slot (fdisk st' ! ?b) i)))"
  proof (rule find_in_block_first [OF bl(2) w(2) il])
    show "?w \<noteq> ucast (get_root_directory_start_block st') \<or> i \<noteq> 0" using wr ds by simp
    show "fat16_name_compare (nm @ 46 # ext) (full_name (entry_of (slot (fdisk st' ! ?b) i)))" unfolding ei by (rule cmp)
    fix j r e assume j: "j < i" "fat16_read_entry st' ?w j = Some (r, Some e)"
    have "fat16_read_entry st' ?w j = fat16_read_entry st ?w j"
      using read_entry_block [OF bl(2) w(2), of j] read_entry_block [OF bl(1) w(2), of j] sl [of j] j(1) il ds
      by (cases "?w = ucast (get_root_directory_start_block st) \<and> j = 0") (auto simp: fat16_read_entry_def)
    then have "fat16_read_entry st ?w j = Some (r, Some e)" using j(2) by (simp only:)
    then show "\<not> fat16_name_compare (nm @ 46 # ext) (full_name e)" by (rule assms(13) [OF j(1)])
  qed
  then have fb: "find_in_block st' ?w (nm @ 46 # ext) = Some (Some (i, ?e))" unfolding ei .
  have path: "slash_tokens (nm @ 46 # ext) = [nm @ 46 # ext]" using assms(11) by (intro slash_tokens_single) auto
  have "hd (nm @ 46 # ext) \<noteq> 47" using assms(11,12) by (cases nm) auto
  moreover have "\<not> 127 \<le> length (nm @ 46 # ext)" using assms(8,9) by simp
  ultimately have look: "fat16_get_directory_entry st' (nm @ 46 # ext) =
      Some (\<lparr>directory = current_dir_block st, fid_index = of_nat i\<rparr>, Some ?e)"
    unfolding fat16_get_directory_entry_def Let_def using fb ds(2) path by (simp add: new_entry_def)
  have h: "hd cs < 0xFFF8" using cluster_small [OF c(2,4), of "hd cs"] c(4) by (simp add: file_at_def)
  have fc: "(ucast (first_cluster ?e) :: u32) = of_nat (hd cs)" using next_cluster_word [OF h] by (simp add: new_entry_def)
  have fs: "unat (file_size ?e) = length data" using assms(16) by (simp add: new_entry_def unat_of_nat take_bit_nat_eq_self)
  have "fat16_read_data st' (of_nat (hd cs)) (of_nat 0) (of_nat (length data)) (of_nat (length data)) =
      Some (int (length data), take (length data) (drop 0 (file_bytes st' cs)))"
    using assms(14,16) c(7) by (intro read_data_file [OF c(2,4)]) auto
  then have "fat16_read_data st' (ucast (first_cluster ?e)) 0 (file_size ?e) (file_size ?e) = Some (int (length data), data)"
    unfolding fc using c(6) by (simp add: new_entry_def)
  then show ?thesis using c(1,9) look fn fs dir_block_signed [OF assms(1,3,5)] by blast
qed

section \<open>Witness\<close>

text \<open>The directory is cluster 6; the file is called \<open>a.b\<close>.\<close>

definition demo_dir :: fat16 where
  "demo_dir = demo_fs\<lparr>current_dir_block := 7\<rparr>"

theorem fat16_create_lookup_read_witness:
  "\<exists>st' e. fat16_create_file (padded 8 [97]) (padded 3 [98]) [1, 2, 3] demo_dir = Some (0, st') \<and>
     fat16_get_directory_entry st' [97, 46, 98] = Some (\<lparr>directory = 7, fid_index = 0\<rparr>, Some e) \<and> sint (7 :: u16) = 7 \<and>
     fat16_read_data st' (ucast (first_cluster e)) 0 (file_size e) (file_size e) = Some (3, [1, 2, 3])"
proof -
  have ok: "fat_ok demo_dir"
    by (auto simp: fat_ok_def demo_dir_def demo_fs_def dstart_def disk_ok_def)
  have k: "6 < length (table demo_dir)" "6 \<notin> free_set demo_dir" by (simp_all add: demo_dir_def demo_fs_def free_set_def)
  have ds: "dstart demo_dir = 1" by (simp add: demo_dir_def demo_fs_def dstart_def)
  then have cur: "current_dir_block demo_dir = of_nat (dstart demo_dir + 6)" by (simp add: demo_dir_def)
  have "blk demo_dir 6 = replicate 512 0" unfolding blk_def ds by (simp add: demo_dir_def demo_fs_def)
  then have i: "first_index (slot_free (blk demo_dir 6)) ENTRIES_PER_BLOCK = Some 0"
    by (intro find_from_least) (simp_all add: slot_free_def slot_def)
  have "7 \<in> free_set demo_dir" by (simp add: demo_dir_def demo_fs_def free_set_def)
  then have "0 < card (free_set demo_dir)" by (auto simp: card_gt_0_iff)
  then have room: "length [1 :: u8, 2, 3] \<le> 512 * card (free_set demo_dir)" by simp
  have n: "length [97 :: u8] \<le> 8" "length [98 :: u8] \<le> 3" "46 \<notin> set [97 :: u8]" "47 \<notin> set ([97 :: u8] @ [98])" "[97 :: u8] \<noteq> []"
    "[1 :: u8, 2, 3] \<noteq> []" "length [1 :: u8, 2, 3] < 2 ^ 31" "(0 :: nat) < 6" by simp_all
  have c7: "current_dir_block demo_dir = 7" by (simp add: demo_dir_def)
  obtain st' e where "fat16_create_file (padded 8 [97]) (padded 3 [98]) [1, 2, 3] demo_dir = Some (0, st')"
    "fat16_get_directory_entry st' ([97] @ 46 # [98]) = Some (\<lparr>directory = current_dir_block demo_dir, fid_index = of_nat 0\<rparr>, Some e)"
    "fat16_read_data st' (ucast (first_cluster e)) 0 (file_size e) (file_size e) = Some (int (length [1 :: u8, 2, 3]), [1, 2, 3])"
    using fat16_create_lookup_read [OF ok n(8) k cur i _ n(1-5) _ n(6) room n(7)] by auto
  then show ?thesis unfolding c7 by auto
qed

end
