(* ===== verification/Fat16_Mount.thy ===== *)
theory Fat16_Mount imports Fat16_Dir
begin

text \<open>
  Mounting and formatting (fs/fat16.c): \<open>fat16_load\<close> reads the boot table and the table from the disk,
  \<open>fat16_format\<close> writes an empty file system and loads it. The fields of the boot table the code
  uses lie at fixed offsets of block 0.
\<close>

section \<open>Loading\<close>

fun words_of :: "u8 list \<Rightarrow> u16 list" where
  "words_of (a # b # t) = le16 a b # words_of t"
| "words_of _ = []"

definition boot_fields :: "u8 list \<Rightarrow> fat16 \<Rightarrow> fat16" where
  "boot_fields b st = st\<lparr>reserved_blocks := le16 (b ! 14) (b ! 15), fat_blocks := le16 (b ! 22) (b ! 23),
     root_dir_entries := le16 (b ! 17) (b ! 18)\<rparr>"

text \<open>\<open>"RetrOS32"\<close>.\<close>

definition MANUFACTURER :: "u8 list" where
  "MANUFACTURER = [82, 101, 116, 114, 79, 83, 51, 50]"

text \<open>\<open>attached\<close> is \<open>disk_attached()\<close>, \<open>alloc_ok\<close> the success of \<open>kalloc\<close>.\<close>

definition fat16_load :: "bool \<Rightarrow> bool \<Rightarrow> fat16 \<Rightarrow> (int \<times> fat16) option" where
  "fat16_load attached alloc_ok st =
     (if \<not> attached then Some (-1, st)
      else if fat_table st \<noteq> None then Some (0, st)
      else do {
        b \<leftarrow> read_block (fdisk st) 0;
        let st = boot_fields b st;
        if take 8 (drop 3 b) \<noteq> MANUFACTURER then Some (-2, st)
        else if \<not> alloc_ok then Some (-3, st)
        else do {
          bs \<leftarrow> for_loop 0 (unat (fat_blocks st)) (\<lambda>i bs. do {
                  blk \<leftarrow> read_block (fdisk st) (int (unat (get_fat_start_block st)) + int i);
                  Some (bs @ blk) }) [];
          Some (0, st\<lparr>fat_table := Some (words_of bs), current_dir_block := get_root_directory_start_block st\<rparr>) } })"

section \<open>The partition table\<close>

text \<open>Entry \<open>i\<close> of the partition table in block 0: status, type, start and size; the other bytes stay.\<close>

definition fat16_mbr_clear :: "disk \<Rightarrow> disk option" where
  "fat16_mbr_clear d = do {
     mbr \<leftarrow> read_block d 0;
     mbr \<leftarrow> mem_write mbr 446 (replicate 64 0);
     write_block mbr 0 d }"

definition fat16_mbr_add_entry :: "u8 \<Rightarrow> u8 \<Rightarrow> u32 \<Rightarrow> u32 \<Rightarrow> disk \<Rightarrow> (int \<times> disk) option" where
  "fat16_mbr_add_entry bootable ty start sz d = do {
     mbr \<leftarrow> read_block d 0;
     case first_index (\<lambda>i. mbr ! (446 + 16 * i + 4) = 0) 4 of
       None \<Rightarrow> Some (-1, d)
     | Some i \<Rightarrow> do {
         mbr \<leftarrow> mem_write mbr (int (446 + 16 * i)) [bootable];
         mbr \<leftarrow> mem_write mbr (int (446 + 16 * i + 4)) [ty];
         mbr \<leftarrow> mem_write mbr (int (446 + 16 * i + 8)) (le32_bytes start @ le32_bytes sz);
         d \<leftarrow> write_block mbr 0 d;
         Some (0, d) } }"

section \<open>Formatting\<close>

text \<open>The boot table written over the boot block; the fields the code sets, in the layout of \<open>struct fat_boot_table\<close>.\<close>

definition boot_block :: "u8 list \<Rightarrow> u16 \<Rightarrow> u16 \<Rightarrow> u16 \<Rightarrow> u8 list option" where
  "boot_block b res tot fatb = do {
     b \<leftarrow> mem_write b 3 (MANUFACTURER @ le16_bytes 512 @ [1] @ le16_bytes res @ [1] @ le16_bytes 16 @ le16_bytes tot @ [0xF8] @ le16_bytes fatb);
     b \<leftarrow> mem_write b 38 ([0x29] @ le32_bytes 0x12345678 @ [82, 101, 116, 114, 79, 83, 51, 50, 45, 86, 0] @ [70, 65, 84, 49, 54, 32, 32, 32]);
     mem_write b 510 (le16_bytes 0xAA55) }"

definition fat16_format :: "bool \<Rightarrow> bool \<Rightarrow> u32 \<Rightarrow> int \<Rightarrow> fat16 \<Rightarrow> (int \<times> fat16) option" where
  "fat16_format attached alloc_ok dsize res st =
     (if \<not> attached then Some (-1, st)
      else do {
        let tot = sint dsize div 512 - 1;
        b \<leftarrow> read_block (fdisk st) 0;
        b \<leftarrow> boot_block b (word_of_int res) (word_of_int tot) (ucast ((word_of_int tot :: u32) * 2 div 512));
        let st = boot_fields b st;
        d \<leftarrow> write_block b 0 (fdisk st);
        d \<leftarrow> for_loop 0 (unat (fat_blocks st)) (\<lambda>i. write_block (replicate 512 0) (int (unat (get_fat_start_block st)) + int i)) d;
        d \<leftarrow> for_loop 0 (unat (root_dir_entries st) * 32 div 512)
               (\<lambda>i. write_block (replicate 512 0) (int (unat (get_root_directory_start_block st)) + int i)) d;
        d \<leftarrow> fat16_mbr_clear d;
        (_, d) \<leftarrow> fat16_mbr_add_entry 0x80 0x0E 0 (word_of_int tot) d;
        (_, st) \<leftarrow> fat16_load attached alloc_ok (st\<lparr>fdisk := d\<rparr>);
        st \<leftarrow> fat16_set_fat_entry 0 (0xFF00 OR 0xF8) st;
        st \<leftarrow> fat16_allocate_cluster 1 st;
        (_, st) \<leftarrow> fat16_add_entry (get_root_directory_start_block st) [82, 101, 116, 114, 79, 83, 45, 51] (spaces 3) 8 0 0 st;
        st \<leftarrow> fat16_sync_fat_table st;
        Some (0, st) })"

section \<open>What is written can be loaded\<close>

lemma words_of_bytes [simp]: "words_of (table_bytes t) = t"
  by (induction t) (simp_all add: table_bytes_def le16_bytes_def le16_le16_bytes)

lemma length_words_of: "length (words_of bs) = length bs div 2"
  by (induction bs rule: words_of.induct) auto

text \<open>The boot table on the disk agrees with the one in memory.\<close>

definition boot_ok :: "fat16 \<Rightarrow> bool" where
  "boot_ok st \<longleftrightarrow> (let b = fdisk st ! 0 in take 8 (drop 3 b) = MANUFACTURER \<and> le16 (b ! 14) (b ! 15) = reserved_blocks st \<and>
     le16 (b ! 22) (b ! 23) = fat_blocks st \<and> le16 (b ! 17) (b ! 18) = root_dir_entries st)"

lemma load_loop:
  assumes "fat_ok st" and "fat_on_disk st" and "k \<le> unat (fat_blocks st)"
  shows "for_loop 0 k (\<lambda>i bs. do { blk \<leftarrow> read_block (fdisk st) (int (unat (get_fat_start_block st)) + int i); Some (bs @ blk) }) [] =
    Some (take (512 * k) (table_bytes (table st)))"
proof -
  let ?f = "\<lambda>i bs. do { blk \<leftarrow> read_block (fdisk st) (int (unat (get_fat_start_block st)) + int i); Some (bs @ blk) }"
  let ?t = "table_bytes (table st)"
  have "\<exists>bs. for_loop 0 k ?f [] = Some bs \<and> bs = take (512 * (0 + k)) ?t"
  proof (rule for_loop_inv)
    show "[] = take (512 * 0) ?t" by simp
  next
    fix i bs assume i: "i < 0 + k" and bs: "bs = take (512 * i) ?t"
    define b where "b = unat (reserved_blocks st) + i"
    have "b < length (fdisk st)" using i assms(3) fat_okD(3,7,8) [OF assms(1)] by (auto simp: b_def dstart_def)
    moreover have "int (unat (get_fat_start_block st)) + int i = int b" by (simp add: b_def get_fat_start_block_def)
    moreover have "fdisk st ! b = take 512 (drop (512 * i) ?t)" using assms(2,3) i by (simp add: fat_on_disk_def b_def)
    ultimately have "?f i bs = Some (bs @ take 512 (drop (512 * i) ?t))" by (simp add: read_block_def)
    moreover have "bs @ take 512 (drop (512 * i) ?t) = take (512 * Suc i) ?t" unfolding bs by (simp flip: take_add add.commute)
    ultimately show "\<exists>bs'. ?f i bs = Some bs' \<and> bs' = take (512 * Suc i) ?t" by auto
  qed
  then show ?thesis by simp
qed

lemma loads:
  assumes "fat_ok st" and "fat_on_disk st" and "boot_ok st"
  shows "fat16_load True True (st\<lparr>fat_table := None, reserved_blocks := r, fat_blocks := f, root_dir_entries := n, current_dir_block := c\<rparr>) =
    Some (0, st\<lparr>current_dir_block := get_root_directory_start_block st\<rparr>)"
proof -
  let ?s = "st\<lparr>fat_table := None, reserved_blocks := r, fat_blocks := f, root_dir_entries := n, current_dir_block := c\<rparr>"
  have rd: "read_block (fdisk st) 0 = Some (fdisk st ! 0)"
    using fat_okD(3,7,8) [OF assms(1)] by (auto simp: read_block_def)
  have bf: "boot_fields (fdisk st ! 0) ?s = st\<lparr>fat_table := None, current_dir_block := c\<rparr>"
    using assms(3) by (simp add: boot_fields_def boot_ok_def Let_def)
  have tb: "take (512 * unat (fat_blocks st)) (table_bytes (table st)) = table_bytes (table st)"
    using fat_okD(8) [OF assms(1)] by simp
  have lp: "for_loop 0 (unat (fat_blocks st)) (\<lambda>i bs. do {
       blk \<leftarrow> read_block (fdisk st) (int (unat (get_fat_start_block st)) + int i); Some (bs @ blk) }) [] = Some (table_bytes (table st))"
    using load_loop [OF assms(1,2) order.refl] unfolding tb .
  have gs: "get_fat_start_block (st\<lparr>fat_table := None, current_dir_block := c\<rparr>) = get_fat_start_block st"
    "get_root_directory_start_block (st\<lparr>fat_table := None, current_dir_block := c\<rparr>) = get_root_directory_start_block st"
    by (simp_all add: get_fat_start_block_def get_root_directory_start_block_def)
  have m: "take 8 (drop 3 (fdisk st ! 0)) = MANUFACTURER" using assms(3) by (simp add: boot_ok_def Let_def)
  have ft: "fat_table st = Some (table st)" by (rule fat_okD(1) [OF assms(1)])
  have upd: "st\<lparr>fat_table := fat_table st\<rparr> = st" by simp
  show ?thesis
    using rd lp m gs upd by (simp add: fat16_load_def bf Let_def flip: ft)
qed

text \<open>
  C39. Persistence. After a write to a file, a mount that knows only the disk finds the same table, the same
  files with the same bytes, and the root directory as the current one: nothing of the
  file system lives in memory alone once \<open>fat16_write_data\<close> has returned.
\<close>

theorem fat16_write_survives_mount:
  assumes "fat_ok st" and "file_at st cs" and "data \<noteq> []" and "off \<le> 512 * length cs"
    and "off + length data \<le> 512 * (length cs + card (free_set st))" and "boot_ok st" and "0 < unat (reserved_blocks st)"
  shows "\<exists>st' st'' cs'. fat16_write_data (of_nat (hd cs)) (int off) data st = Some (int (length data), st') \<and>
    fat16_load True True (st'\<lparr>fat_table := None, reserved_blocks := 0, fat_blocks := 0, root_dir_entries := 0, current_dir_block := 0\<rparr>) =
      Some (0, st'') \<and>
    fat_ok st'' \<and> fat_table st'' = fat_table st' \<and> current_dir_block st'' = get_root_directory_start_block st \<and>
    file_at st'' cs' \<and> hd cs' = hd cs \<and> take (off + length data) (file_bytes st'' cs') = take off (file_bytes st cs) @ data \<and>
    (\<forall>gs. file_at st gs \<and> set gs \<inter> set cs = {} \<longrightarrow> file_at st'' gs \<and> file_bytes st'' gs = file_bytes st gs)"
proof -
  obtain st' cs' where w: "fat16_write_data (of_nat (hd cs)) (int off) data st = Some (int (length data), st')"
    "fat_ok st'" "file_at st' cs'" "hd cs' = hd cs" "take (off + length data) (file_bytes st' cs') = take off (file_bytes st cs) @ data"
    "\<And>gs. file_at st gs \<Longrightarrow> set gs \<inter> set cs = {} \<Longrightarrow> file_at st' gs \<and> file_bytes st' gs = file_bytes st gs"
    "same_shape st st'" "fat_on_disk st'"
    by (rule write_data_file [OF assms(1-5)]) (rule that; assumption)
  let ?s = "st'\<lparr>current_dir_block := get_root_directory_start_block st'\<rparr>"
  have b: "boot_ok st'" using assms(6,7) w(7) by (simp add: boot_ok_def same_shape_def)
  have root: "get_root_directory_start_block st' = get_root_directory_start_block st"
    using w(7) by (simp add: get_root_directory_start_block_def get_fat_start_block_def same_shape_def)
  have fr: "file_at ?s = file_at st'" "file_bytes ?s = file_bytes st'" "fat_ok ?s = fat_ok st'"
    by (auto simp: file_at_def file_bytes_def blk_def [abs_def] dstart_def fat_ok_def fun_eq_iff)
  show ?thesis
    by (intro exI [of _ st'] exI [of _ ?s] exI [of _ cs'] conjI w(1) loads [OF w(2,8) b] allI impI)
      (use w fr root in auto)
qed

section \<open>Witness\<close>

definition demo_disk :: fat16 where
  "demo_disk = demo_fs\<lparr>fdisk := (fdisk demo_fs)[0 := [0, 0, 0] @ MANUFACTURER @ [0, 2, 1, 1, 0, 1, 16, 0, 0, 0, 0, 1, 0] @ replicate 488 0]\<rparr>"

lemma demo_disk_ok: "fat_ok demo_disk" "file_at demo_disk [6]" "boot_ok demo_disk" "0 < unat (reserved_blocks demo_disk)"
  using demo_fs_ok
  by (auto simp: fat_ok_def demo_disk_def demo_fs_def dstart_def file_at_def boot_ok_def MANUFACTURER_def le16_def Let_def disk_ok_update)

theorem fat16_write_survives_mount_witness:
  "\<exists>st' st'' cs'. fat16_write_data 6 0 [1, 2, 3] demo_disk = Some (3, st') \<and>
     fat16_load True True (st'\<lparr>fat_table := None, reserved_blocks := 0, fat_blocks := 0, root_dir_entries := 0, current_dir_block := 0\<rparr>) = Some (0, st'') \<and>
     file_at st'' cs' \<and> take 3 (file_bytes st'' cs') = [1, 2, 3]"
proof -
  let ?d = "[1 :: u8, 2, 3]"
  have p: "?d \<noteq> []" "0 \<le> 512 * length [6 :: nat]" "0 + length ?d \<le> 512 * (length [6 :: nat] + card (free_set demo_disk))" by simp_all
  show ?thesis
    using fat16_write_survives_mount [OF demo_disk_ok(1,2) p demo_disk_ok(3,4)]
    by (elim exE conjE, intro exI conjI) (assumption | simp add: numeral_3_eq_3)+
qed

end
