(* ===== verification/Vm.thy ===== *)
theory Vm imports Bytes "HOL-Library.Signed_Division"
begin

text \<open>
  The virtual machine of the C interpreter (developer/vm.c, developer/vm.h): a stack machine over the
  flat memory of the kernel. Registers are 32-bit words, the memory maps an address to its byte, \<open>None\<close>
  where nothing is mapped; an access there is a fault. The calls into the kernel (files, output,
  \<open>kalloc\<close>) are a parameter \<open>sys\<close>; \<open>memset\<close> and \<open>memcmp\<close> are computed here.
\<close>

section \<open>developer/vm.h\<close>

datatype opcode = LEA | IMM | JMP | CALL | JZ | JNZ | ENT | ADJ | LEV | LI | LC | SI | SC | PUSH
  | BOR | BXOR | BAND | EQ | NE | LT | GT | LE | GE | SHL | SHR | ADD | SUB | MUL | DIV | MOD
  | OPEN | READ | CLOS | PRTF | MALC | MSET | MCMP | EXIT | FREE

definition opcodes :: "opcode list" where
  "opcodes = [LEA, IMM, JMP, CALL, JZ, JNZ, ENT, ADJ, LEV, LI, LC, SI, SC, PUSH,
     BOR, BXOR, BAND, EQ, NE, LT, GT, LE, GE, SHL, SHR, ADD, SUB, MUL, DIV, MOD,
     OPEN, READ, CLOS, PRTF, MALC, MSET, MCMP, EXIT, FREE]"

definition opcode_of :: "u32 \<Rightarrow> opcode option" where
  "opcode_of w = (if unat w < length opcodes then Some (opcodes ! unat w) else None)"

primrec number :: "opcode \<Rightarrow> nat" where
  "number LEA = 0" | "number IMM = 1" | "number JMP = 2" | "number CALL = 3" | "number JZ = 4" | "number JNZ = 5"
| "number ENT = 6" | "number ADJ = 7" | "number LEV = 8" | "number LI = 9" | "number LC = 10" | "number SI = 11"
| "number SC = 12" | "number PUSH = 13" | "number BOR = 14" | "number BXOR = 15" | "number BAND = 16" | "number EQ = 17"
| "number NE = 18" | "number LT = 19" | "number GT = 20" | "number LE = 21" | "number GE = 22" | "number SHL = 23"
| "number SHR = 24" | "number ADD = 25" | "number SUB = 26" | "number MUL = 27" | "number DIV = 28" | "number MOD = 29"
| "number OPEN = 30" | "number READ = 31" | "number CLOS = 32" | "number PRTF = 33" | "number MALC = 34" | "number MSET = 35"
| "number MCMP = 36" | "number EXIT = 37" | "number FREE = 38"

definition op_word :: "opcode \<Rightarrow> u32" where
  "op_word op = of_nat (number op)"

lemma opcode_of_op_word [simp]: "opcode_of (op_word op) = Some op"
  by (cases op) (simp_all add: opcode_of_def op_word_def opcodes_def unat_of_nat take_bit_nat_eq_self)

lemma op_word_inj [simp]: "op_word a = op_word b \<longleftrightarrow> a = b"
  using opcode_of_op_word by (metis option.inject)

section \<open>The memory\<close>

type_synonym memory = "u32 \<Rightarrow> u8 option"

definition load32 :: "memory \<Rightarrow> u32 \<Rightarrow> u32 option" where
  "load32 m a = do { b0 \<leftarrow> m a; b1 \<leftarrow> m (a + 1); b2 \<leftarrow> m (a + 2); b3 \<leftarrow> m (a + 3); Some (le32 b0 b1 b2 b3) }"

definition store8 :: "u32 \<Rightarrow> u8 \<Rightarrow> memory \<Rightarrow> memory option" where
  "store8 a b m = (if m a = None then None else Some (m(a \<mapsto> b)))"

definition store32 :: "u32 \<Rightarrow> u32 \<Rightarrow> memory \<Rightarrow> memory option" where
  "store32 a w m = do {
     m \<leftarrow> store8 a (ucast w) m;
     m \<leftarrow> store8 (a + 1) (ucast (drop_bit 8 w)) m;
     m \<leftarrow> store8 (a + 2) (ucast (drop_bit 16 w)) m;
     store8 (a + 3) (ucast (drop_bit 24 w)) m }"

section \<open>The machine\<close>

record vm =
  vm_text :: u32
  vm_stack :: u32
  vm_data :: u32
  pc :: u32
  bp :: u32
  sp :: u32
  ax :: u32
  mem :: memory

datatype run = Running vm | Returned u32 vm

text \<open>The operand at \<open>pc\<close>, a pop and a push.\<close>

definition operand :: "vm \<Rightarrow> (u32 \<times> vm) option" where
  "operand v = do { w \<leftarrow> load32 (mem v) (pc v); Some (w, v\<lparr>pc := pc v + 4\<rparr>) }"

definition pop :: "vm \<Rightarrow> (u32 \<times> vm) option" where
  "pop v = do { w \<leftarrow> load32 (mem v) (sp v); Some (w, v\<lparr>sp := sp v + 4\<rparr>) }"

definition push :: "u32 \<Rightarrow> vm \<Rightarrow> vm option" where
  "push w v = do { m \<leftarrow> store32 (sp v - 4) w (mem v); Some (v\<lparr>sp := sp v - 4, mem := m\<rparr>) }"

definition truth :: "bool \<Rightarrow> u32" where
  "truth b = (if b then 1 else 0)"

text \<open>
  The two-operand instructions, as the i386 computes them: shifts use the low five bits of
  the count, a division by zero or of the least number by -1 is a fault.
\<close>

definition alu :: "opcode \<Rightarrow> u32 \<Rightarrow> u32 \<Rightarrow> u32 option" where
  "alu op a b = (case op of
     BOR \<Rightarrow> Some (a OR b) | BXOR \<Rightarrow> Some (a XOR b) | BAND \<Rightarrow> Some (a AND b)
   | EQ \<Rightarrow> Some (truth (a = b)) | NE \<Rightarrow> Some (truth (a \<noteq> b))
   | LT \<Rightarrow> Some (truth (sint a < sint b)) | LE \<Rightarrow> Some (truth (sint a \<le> sint b))
   | GT \<Rightarrow> Some (truth (sint a > sint b)) | GE \<Rightarrow> Some (truth (sint a \<ge> sint b))
   | SHL \<Rightarrow> Some (push_bit (unat (b AND 31)) a) | SHR \<Rightarrow> Some (signed_drop_bit (unat (b AND 31)) a)
   | ADD \<Rightarrow> Some (a + b) | SUB \<Rightarrow> Some (a - b) | MUL \<Rightarrow> Some (a * b)
   | DIV \<Rightarrow> (if b = 0 \<or> sint a = - (2 ^ 31) \<and> b = - 1 then None else Some (word_of_int (sint a sdiv sint b)))
   | MOD \<Rightarrow> (if b = 0 \<or> sint a = - (2 ^ 31) \<and> b = - 1 then None else Some (word_of_int (sint a smod sint b)))
   | _ \<Rightarrow> None)"

definition is_alu :: "opcode \<Rightarrow> bool" where
  "is_alu op \<longleftrightarrow> 14 \<le> number op \<and> number op \<le> 29"

text \<open>\<open>memset\<close> and \<open>memcmp\<close> on the flat memory, where \<open>memcmp\<close> returns -1 for any difference.\<close>

fun set_bytes :: "u32 \<Rightarrow> u8 \<Rightarrow> nat \<Rightarrow> memory \<Rightarrow> memory option" where
  "set_bytes a b 0 m = Some m"
| "set_bytes a b (Suc n) m = do { m \<leftarrow> store8 a b m; set_bytes (a + 1) b n m }"

fun cmp_bytes :: "u32 \<Rightarrow> u32 \<Rightarrow> nat \<Rightarrow> memory \<Rightarrow> u32 option" where
  "cmp_bytes a b 0 m = Some 0"
| "cmp_bytes a b (Suc n) m = do {
     x \<leftarrow> m a; y \<leftarrow> m b;
     if x \<noteq> y then Some (-1) else cmp_bytes (a + 1) (b + 1) n m }"

section \<open>developer/vm.c: eval\<close>

definition vm_step :: "(opcode \<Rightarrow> vm \<Rightarrow> vm option) \<Rightarrow> vm \<Rightarrow> run option" where
  "vm_step sys v = do {
     (w, v) \<leftarrow> operand v;
     case opcode_of w of
       None \<Rightarrow> Some (Returned (-1) v)
     | Some op \<Rightarrow> (case op of
         IMM \<Rightarrow> do { (i, v) \<leftarrow> operand v; Some (Running (v\<lparr>ax := i\<rparr>)) }
       | LC \<Rightarrow> do { b \<leftarrow> mem v (ax v); Some (Running (v\<lparr>ax := scast b\<rparr>)) }
       | LI \<Rightarrow> do { i \<leftarrow> load32 (mem v) (ax v); Some (Running (v\<lparr>ax := i\<rparr>)) }
       | SC \<Rightarrow> do {
           (a, v) \<leftarrow> pop v;
           m \<leftarrow> store8 a (ucast (ax v)) (mem v);
           Some (Running (v\<lparr>mem := m, ax := scast (ucast (ax v) :: u8)\<rparr>)) }
       | SI \<Rightarrow> do { (a, v) \<leftarrow> pop v; m \<leftarrow> store32 a (ax v) (mem v); Some (Running (v\<lparr>mem := m\<rparr>)) }
       | PUSH \<Rightarrow> do { v \<leftarrow> push (ax v) v; Some (Running v) }
       | JMP \<Rightarrow> do { (a, v) \<leftarrow> operand v; Some (Running (v\<lparr>pc := a\<rparr>)) }
       | JZ \<Rightarrow> do { (a, v) \<leftarrow> operand v; Some (Running (if ax v \<noteq> 0 then v else v\<lparr>pc := a\<rparr>)) }
       | JNZ \<Rightarrow> do { (a, v) \<leftarrow> operand v; Some (Running (if ax v \<noteq> 0 then v\<lparr>pc := a\<rparr> else v)) }
       | CALL \<Rightarrow> do { (a, v) \<leftarrow> operand v; v \<leftarrow> push (pc v) v; Some (Running (v\<lparr>pc := a\<rparr>)) }
       | ENT \<Rightarrow> do {
           v \<leftarrow> push (bp v) v;
           (n, v) \<leftarrow> operand (v\<lparr>bp := sp v\<rparr>);
           Some (Running (v\<lparr>sp := sp v - 4 * n\<rparr>)) }
       | ADJ \<Rightarrow> do { (n, v) \<leftarrow> operand v; Some (Running (v\<lparr>sp := sp v + 4 * n\<rparr>)) }
       | LEV \<Rightarrow> do {
           (b, v) \<leftarrow> pop (v\<lparr>sp := bp v\<rparr>);
           (p, v) \<leftarrow> pop (v\<lparr>bp := b\<rparr>);
           Some (Running (v\<lparr>pc := p\<rparr>)) }
       | LEA \<Rightarrow> do { (n, v) \<leftarrow> operand v; Some (Running (v\<lparr>ax := bp v + 4 * n\<rparr>)) }
       | EXIT \<Rightarrow> do { r \<leftarrow> load32 (mem v) (sp v); Some (Returned r v) }
       | MSET \<Rightarrow> do {
           a \<leftarrow> load32 (mem v) (sp v + 8); b \<leftarrow> load32 (mem v) (sp v + 4); n \<leftarrow> load32 (mem v) (sp v);
           m \<leftarrow> set_bytes a (ucast b) (unat n) (mem v);
           Some (Running (v\<lparr>mem := m, ax := a\<rparr>)) }
       | MCMP \<Rightarrow> do {
           a \<leftarrow> load32 (mem v) (sp v + 8); b \<leftarrow> load32 (mem v) (sp v + 4); n \<leftarrow> load32 (mem v) (sp v);
           r \<leftarrow> cmp_bytes a b (unat n) (mem v);
           Some (Running (v\<lparr>ax := r\<rparr>)) }
       | _ \<Rightarrow>
           if is_alu op then do { (a, v) \<leftarrow> pop v; r \<leftarrow> alu op a (ax v); Some (Running (v\<lparr>ax := r\<rparr>)) }
           else do { v \<leftarrow> sys op v; Some (Running v) }) }"

text \<open>At most \<open>fuel\<close> instructions.\<close>

fun eval :: "(opcode \<Rightarrow> vm \<Rightarrow> vm option) \<Rightarrow> nat \<Rightarrow> vm \<Rightarrow> run option" where
  "eval sys 0 v = Some (Running v)"
| "eval sys (Suc fuel) v = do {
     r \<leftarrow> vm_step sys v;
     case r of Returned c v \<Rightarrow> Some (Returned c v) | Running v \<Rightarrow> eval sys fuel v }"

abbreviation (input) VM_STACK_SIZE :: u32 where "VM_STACK_SIZE \<equiv> 1024"

text \<open>\<open>stack\<close> is what \<open>kalloc\<close> returned.\<close>

definition vm_setup :: "u32 \<Rightarrow> u32 \<Rightarrow> u32 \<Rightarrow> vm \<Rightarrow> vm" where
  "vm_setup txt dat stk v = v\<lparr>vm_text := txt, vm_data := dat, vm_stack := stk,
     bp := stk + (VM_STACK_SIZE - 2), sp := stk + (VM_STACK_SIZE - 2), ax := 0\<rparr>"

definition vm_setup_stack :: "u32 \<Rightarrow> u32 \<Rightarrow> vm \<Rightarrow> vm option" where
  "vm_setup_stack argc argv v = do {
     v \<leftarrow> push (op_word EXIT) (v\<lparr>sp := vm_stack v + (VM_STACK_SIZE - 2)\<rparr>);
     v \<leftarrow> push (op_word PUSH) v;
     let tmp = sp v;
     v \<leftarrow> push argc v;
     v \<leftarrow> push argv v;
     push tmp v }"

end
