(* ===== verification/Lex.thy ===== *)
theory Lex imports Vm
begin

text \<open>
  The lexer and the state of the one-pass compiler of the C interpreter (developer/lex.c). The source is
  the bytes up to the terminator; the text and the data are the words and bytes written so far in
  their buffers, so that \<open>last (ltext st)\<close> is \<open>*text\<close> and the word at index \<open>i\<close> lies at
  \<open>text_base + 4 * i\<close> (word 0 is never written: the code increments the pointer first).
\<close>

section \<open>developer/lex.h: tokens\<close>

abbreviation (input) T_Num :: int where "T_Num \<equiv> 128"
abbreviation (input) T_Fun :: int where "T_Fun \<equiv> 129"
abbreviation (input) T_Sys :: int where "T_Sys \<equiv> 130"
abbreviation (input) T_Glo :: int where "T_Glo \<equiv> 131"
abbreviation (input) T_Loc :: int where "T_Loc \<equiv> 132"
abbreviation (input) T_Id :: int where "T_Id \<equiv> 133"
abbreviation (input) T_Char :: int where "T_Char \<equiv> 134"
abbreviation (input) T_Else :: int where "T_Else \<equiv> 135"
abbreviation (input) T_Enum :: int where "T_Enum \<equiv> 136"
abbreviation (input) T_If :: int where "T_If \<equiv> 137"
abbreviation (input) T_Int :: int where "T_Int \<equiv> 138"
abbreviation (input) T_Return :: int where "T_Return \<equiv> 139"
abbreviation (input) T_Sizeof :: int where "T_Sizeof \<equiv> 140"
abbreviation (input) T_While :: int where "T_While \<equiv> 141"
abbreviation (input) T_Assign :: int where "T_Assign \<equiv> 142"
abbreviation (input) T_Cond :: int where "T_Cond \<equiv> 143"
abbreviation (input) T_Lor :: int where "T_Lor \<equiv> 144"
abbreviation (input) T_Lan :: int where "T_Lan \<equiv> 145"
abbreviation (input) T_Or :: int where "T_Or \<equiv> 146"
abbreviation (input) T_Xor :: int where "T_Xor \<equiv> 147"
abbreviation (input) T_And :: int where "T_And \<equiv> 148"
abbreviation (input) T_Eq :: int where "T_Eq \<equiv> 149"
abbreviation (input) T_Ne :: int where "T_Ne \<equiv> 150"
abbreviation (input) T_Lt :: int where "T_Lt \<equiv> 151"
abbreviation (input) T_Gt :: int where "T_Gt \<equiv> 152"
abbreviation (input) T_Le :: int where "T_Le \<equiv> 153"
abbreviation (input) T_Ge :: int where "T_Ge \<equiv> 154"
abbreviation (input) T_Shl :: int where "T_Shl \<equiv> 155"
abbreviation (input) T_Shr :: int where "T_Shr \<equiv> 156"
abbreviation (input) T_Add :: int where "T_Add \<equiv> 157"
abbreviation (input) T_Sub :: int where "T_Sub \<equiv> 158"
abbreviation (input) T_Mul :: int where "T_Mul \<equiv> 159"
abbreviation (input) T_Div :: int where "T_Div \<equiv> 160"
abbreviation (input) T_Mod :: int where "T_Mod \<equiv> 161"
abbreviation (input) T_Inc :: int where "T_Inc \<equiv> 162"
abbreviation (input) T_Dec :: int where "T_Dec \<equiv> 163"
abbreviation (input) T_Brak :: int where "T_Brak \<equiv> 164"

abbreviation (input) TY_CHAR :: int where "TY_CHAR \<equiv> 0"
abbreviation (input) TY_INT :: int where "TY_INT \<equiv> 1"
abbreviation (input) TY_PTR :: int where "TY_PTR \<equiv> 2"

section \<open>The state\<close>

text \<open>\<open>id_name\<close> is a pointer into the source: the bytes from there on.\<close>

record symbol =
  id_token :: int
  id_hash :: u32
  id_name :: "u8 list"
  id_class :: int
  id_type :: int
  id_value :: u32
  Bclass :: int
  Btype :: int
  Bvalue :: u32

record lexer =
  src :: "u8 list"
  token :: int
  token_val :: u32
  symbols :: "symbol list"
  current_id :: nat
  main_id :: nat
  basetype :: int
  expr_type :: int
  index_of_bp :: int
  ltext :: "u32 list"
  text_base :: u32
  data :: "u8 list"
  data_base :: u32

text \<open>
  How an operation ends: normally, in \<open>kernel_exit\<close> after the error message of that number, with an
  access outside an array, or not within the fuel of a loop.
\<close>

datatype 'a outcome = Done 'a | Exit nat | Stuck | Spin

primrec and_then :: "'a outcome \<Rightarrow> ('a \<Rightarrow> 'b outcome) \<Rightarrow> 'b outcome" where
  "and_then (Done x) f = f x"
| "and_then (Exit e) f = Exit e"
| "and_then Stuck f = Stuck"
| "and_then Spin f = Spin"

type_synonym step = "lexer \<Rightarrow> lexer outcome"

primrec seq :: "step list \<Rightarrow> step" where
  "seq [] st = Done st"
| "seq (f # fs) st = and_then (f st) (seq fs)"

definition unless_exit :: "nat \<Rightarrow> (lexer \<Rightarrow> bool) \<Rightarrow> step \<Rightarrow> step" where
  "unless_exit e P f st = (if P st then f st else Exit e)"

definition on :: "int \<Rightarrow> step \<Rightarrow> step \<Rightarrow> step" where
  "on tk f g st = (if token st = tk then f st else g st)"

text \<open>\<open>while (cond) body\<close>, at most \<open>fuel\<close> times.\<close>

primrec while_step :: "nat \<Rightarrow> (lexer \<Rightarrow> bool) \<Rightarrow> step \<Rightarrow> step" where
  "while_step 0 c f st = Spin"
| "while_step (Suc n) c f st = (if c st then and_then (f st) (while_step n c f) else Done st)"

abbreviation (input) LEX_MAX_SYMBOLS :: nat where "LEX_MAX_SYMBOLS \<equiv> 128"
abbreviation (input) TEXT_WORDS :: nat where "TEXT_WORDS \<equiv> 24576"
abbreviation (input) VM_DATA_SIZE :: nat where "VM_DATA_SIZE \<equiv> 32768"

text \<open>\<open>*++text = w\<close>, \<open>*data++ = b\<close> and the address of the next word of the text plus \<open>k\<close>.\<close>

definition emit :: "(lexer \<Rightarrow> u32) \<Rightarrow> step" where
  "emit f st = (if length (ltext st) < TEXT_WORDS then Done (st\<lparr>ltext := ltext st @ [f st]\<rparr>) else Stuck)"

abbreviation emit_op :: "opcode \<Rightarrow> step" where "emit_op op \<equiv> emit (\<lambda>_. op_word op)"

definition put_data :: "u8 list \<Rightarrow> step" where
  "put_data bs st = (if length (data st) + length bs \<le> VM_DATA_SIZE then Done (st\<lparr>data := data st @ bs\<rparr>) else Stuck)"

definition data_ptr :: "lexer \<Rightarrow> u32" where
  "data_ptr st = data_base st + of_nat (length (data st))"

definition text_ptr :: "lexer \<Rightarrow> u32" where
  "text_ptr st = text_base st + 4 * of_nat (length (ltext st) - 1)"

section \<open>developer/lex.c: next\<close>

definition ident_start :: "u8 \<Rightarrow> bool" where
  "ident_start c \<longleftrightarrow> 97 \<le> c \<and> c \<le> 122 \<or> 65 \<le> c \<and> c \<le> 90 \<or> c = 95"

definition digit :: "u8 \<Rightarrow> bool" where
  "digit c \<longleftrightarrow> 48 \<le> c \<and> c \<le> 57"

definition ident_char :: "u8 \<Rightarrow> bool" where
  "ident_char c \<longleftrightarrow> 97 \<le> c \<and> c \<le> 122 \<or> 65 \<le> c \<and> c \<le> 90 \<or> 48 \<le> c \<and> c \<le> 57 \<or> c = 95"

definition hash_ident :: "u8 list \<Rightarrow> u32" where
  "hash_ident cs = foldl (\<lambda>h c. h * 147 + ucast c) (ucast (hd cs)) (tl cs)"

definition no_symbol :: symbol where
  "no_symbol = \<lparr>id_token = 0, id_hash = 0, id_name = [], id_class = 0, id_type = 0, id_value = 0, Bclass = 0, Btype = 0, Bvalue = 0\<rparr>"

text \<open>\<open>name\<close> points to the identifier in the source, \<open>cs\<close> is the identifier.\<close>

definition same_ident :: "u8 list \<Rightarrow> symbol \<Rightarrow> bool" where
  "same_ident cs i \<longleftrightarrow> id_hash i = hash_ident cs \<and> take (length cs) (id_name i) = cs"

definition next_ident :: "u8 list \<Rightarrow> u8 list \<Rightarrow> step" where
  "next_ident name cs st =
     (case first_index (\<lambda>i. id_token (symbols st ! i) = 0 \<or> same_ident cs (symbols st ! i)) LEX_MAX_SYMBOLS of
        None \<Rightarrow> Stuck
      | Some i \<Rightarrow>
          if id_token (symbols st ! i) \<noteq> 0
          then Done (st\<lparr>current_id := i, token := id_token (symbols st ! i)\<rparr>)
          else Done (st\<lparr>current_id := i, token := T_Id,
                 symbols := (symbols st)[i := (symbols st ! i)\<lparr>id_name := name, id_hash := hash_ident cs, id_token := T_Id\<rparr>]\<rparr>))"

definition hex_digit :: "u8 \<Rightarrow> bool" where
  "hex_digit c \<longleftrightarrow> 48 \<le> c \<and> c \<le> 57 \<or> 97 \<le> c \<and> c \<le> 102 \<or> 65 \<le> c \<and> c \<le> 70"

definition hex_value :: "u8 \<Rightarrow> u32" where
  "hex_value c = ucast (c AND 15) + (if 65 \<le> c then 9 else 0)"

definition number_value :: "u32 \<Rightarrow> (u8 \<Rightarrow> u32) \<Rightarrow> u32 \<Rightarrow> u8 list \<Rightarrow> u32" where
  "number_value base dv v cs = foldl (\<lambda>v c. v * base + dv c) v cs"

abbreviation dec_value :: "u8 \<Rightarrow> u32" where "dec_value c \<equiv> ucast c - 48"

text \<open>The number with first digit \<open>c\<close>: its value and the source behind it.\<close>

definition next_number :: "u8 \<Rightarrow> u8 list \<Rightarrow> u32 \<times> u8 list" where
  "next_number c cs =
     (if c \<noteq> 48 then (number_value 10 dec_value (dec_value c) (takeWhile digit cs), dropWhile digit cs)
      else case cs of
        x # cs' \<Rightarrow>
          if x = 120 \<or> x = 88 then (number_value 16 hex_value 0 (takeWhile hex_digit cs'), dropWhile hex_digit cs')
          else (number_value 8 dec_value 0 (takeWhile (\<lambda>d. 48 \<le> d \<and> d \<le> 55) cs), dropWhile (\<lambda>d. 48 \<le> d \<and> d \<le> 55) cs)
      | [] \<Rightarrow> (0, cs))"

text \<open>
  The string loop: the bytes of the literal (for a string they go to the data), the last value and the
  source behind it; a literal that is not closed reads beyond the terminator.
\<close>

fun next_quoted :: "u8 \<Rightarrow> u32 \<Rightarrow> u8 list \<Rightarrow> u8 list \<Rightarrow> (u8 list \<times> u32 \<times> u8 list) option" where
  "next_quoted q v bs [] = None"
| "next_quoted q v bs (c # cs) =
     (if c = q then Some (bs, v, cs)
      else if c = 92 then (case cs of [] \<Rightarrow> None
        | e # cs \<Rightarrow> (let e = (if e = 110 then 10 else e) in next_quoted q (scast e) (bs @ [e]) cs))
      else next_quoted q (scast c) (bs @ [c]) cs)"

definition peek :: "u8 list \<Rightarrow> u8" where
  "peek cs = (case cs of [] \<Rightarrow> 0 | c # _ \<Rightarrow> c)"

text \<open>An operator with \<open>c\<close> behind it, else the one without.\<close>

definition one_or_two :: "(u8 \<times> int) list \<Rightarrow> int \<Rightarrow> step" where
  "one_or_two alts single st =
     (case map_of alts (peek (src st)) of
        Some tk \<Rightarrow> Done (st\<lparr>token := tk, src := tl (src st)\<rparr>)
      | None \<Rightarrow> Done (st\<lparr>token := single\<rparr>))"

text \<open>The characters that are tokens themselves.\<close>

definition self_token :: "u8 \<Rightarrow> bool" where
  "self_token c \<longleftrightarrow> c \<in> {126, 59, 123, 125, 40, 41, 93, 44, 58}"

text \<open>One turn of the loop on the character \<open>c\<close>, already consumed; \<open>None\<close> to go on.\<close>

definition next_char :: "u8 \<Rightarrow> u8 list \<Rightarrow> lexer \<Rightarrow> lexer outcome option" where
  "next_char c cs st =
     (if ident_start c then
        Some (next_ident (c # cs) (c # takeWhile ident_char cs) (st\<lparr>src := dropWhile ident_char cs\<rparr>))
      else if digit c then
        (case next_number c cs of (v, cs) \<Rightarrow> Some (Done (st\<lparr>token := T_Num, token_val := v, src := cs\<rparr>)))
      else if c = 34 \<or> c = 39 then
        Some (case next_quoted c (token_val st) [] cs of
            None \<Rightarrow> Stuck
          | Some (bs, v, cs) \<Rightarrow>
              if c = 34 then put_data bs (st\<lparr>token_val := data_ptr st, src := cs\<rparr>)
              else Done (st\<lparr>token := T_Num, token_val := v, src := cs\<rparr>))
      else if c = 47 \<and> peek cs \<noteq> 47 then Some (Done (st\<lparr>token := T_Div\<rparr>))
      else if c = 61 then Some (one_or_two [(61, T_Eq)] T_Assign st)
      else if c = 43 then Some (one_or_two [(43, T_Inc)] T_Add st)
      else if c = 45 then Some (one_or_two [(45, T_Dec)] T_Sub st)
      else if c = 33 then Some (one_or_two [(61, T_Ne)] 33 st)
      else if c = 60 then Some (one_or_two [(61, T_Le), (60, T_Shl)] T_Lt st)
      else if c = 62 then Some (one_or_two [(61, T_Ge), (62, T_Shr)] T_Gt st)
      else if c = 124 then Some (one_or_two [(124, T_Lor)] T_Or st)
      else if c = 38 then Some (one_or_two [(38, T_Lan)] T_And st)
      else if c = 94 then Some (Done (st\<lparr>token := T_Xor\<rparr>))
      else if c = 37 then Some (Done (st\<lparr>token := T_Mod\<rparr>))
      else if c = 42 then Some (Done (st\<lparr>token := T_Mul\<rparr>))
      else if c = 91 then Some (Done (st\<lparr>token := T_Brak\<rparr>))
      else if c = 63 then Some (Done (st\<lparr>token := T_Cond\<rparr>))
      else if self_token c then Some (Done st)
      else None)"

text \<open>The source the loop goes on with: macros and comments are skipped up to the end of the line.\<close>

definition skip_char :: "u8 \<Rightarrow> u8 list \<Rightarrow> u8 list" where
  "skip_char c cs = (if c = 35 \<or> c = 47 then dropWhile (\<lambda>x. x \<noteq> 10) cs else cs)"

lemma length_skip_char [simp]: "length (skip_char c cs) \<le> length cs"
  by (simp add: skip_char_def length_dropWhile_le)

function next_tok :: "u8 list \<Rightarrow> lexer \<Rightarrow> lexer outcome" where
  "next_tok [] st = Done (st\<lparr>token := 0, src := []\<rparr>)"
| "next_tok (c # cs) st =
     (let st = st\<lparr>token := sint c, src := cs\<rparr>
      in case next_char c cs st of Some r \<Rightarrow> r | None \<Rightarrow> next_tok (skip_char c cs) st)"
  by pat_completeness auto
termination by (relation "measure (length \<circ> fst)") (auto simp: less_Suc_eq_le)

definition lex_next :: step where
  "lex_next st = next_tok (src st) st"

definition lex_match :: "int \<Rightarrow> step" where
  "lex_match tk st = (if token st = tk then lex_next st else Exit 1)"

end
