(* ===== verification/Cc.thy ===== *)
theory Cc imports Lex
begin

text \<open>
  The one-pass compiler of the C interpreter (developer/lex.c): expressions, statements, declarations and
  whole programs are parsed and their code is emitted on the way. The recursive functions carry fuel; the
  outcome \<open>Spin\<close> says that it ran out.
\<close>

section \<open>Small steps\<close>

definition exit_with :: "nat \<Rightarrow> step" where
  "exit_with e st = Exit e"

definition set_type :: "(lexer \<Rightarrow> int) \<Rightarrow> step" where
  "set_type f st = Done (st\<lparr>expr_type := f st\<rparr>)"

abbreviation load_op :: "lexer \<Rightarrow> u32" where
  "load_op st \<equiv> op_word (if expr_type st = TY_CHAR then LC else LI)"

abbreviation store_op :: "lexer \<Rightarrow> u32" where
  "store_op st \<equiv> op_word (if expr_type st = TY_CHAR then SC else SI)"

abbreviation step_size :: "lexer \<Rightarrow> u32" where
  "step_size st \<equiv> (if expr_type st > TY_PTR then 4 else 1)"

definition last_is_load :: "lexer \<Rightarrow> bool" where
  "last_is_load st \<longleftrightarrow> last (ltext st) = op_word LC \<or> last (ltext st) = op_word LI"

definition drop_last :: step where
  "drop_last st = Done (st\<lparr>ltext := butlast (ltext st)\<rparr>)"

text \<open>\<open>*text = PUSH\<close>, and \<open>*text = PUSH; *++text = LC\<close> (or \<open>LI\<close>) to duplicate an address.\<close>

definition last_to_push :: step where
  "last_to_push st = Done (st\<lparr>ltext := butlast (ltext st) @ [op_word PUSH]\<rparr>)"

definition dup_address :: "nat \<Rightarrow> step" where
  "dup_address e st = unless_exit e last_is_load (\<lambda>st. seq [last_to_push, emit (\<lambda>_. last (ltext st))] st) st"

text \<open>
  \<open>*++text = op; addr = ++text;\<close> \<open>body\<close>, and \<open>*addr = (int)(text + 1)\<close> or \<open>(int)(text + 3)\<close> at the end.
\<close>

definition patch_text :: "nat \<Rightarrow> nat \<Rightarrow> step" where
  "patch_text i k st = Done (st\<lparr>ltext := (ltext st)[i := text_ptr st + 4 * of_nat k]\<rparr>)"

definition hole :: "opcode \<Rightarrow> (nat \<Rightarrow> step) \<Rightarrow> step" where
  "hole op body st = and_then (seq [emit_op op, emit (\<lambda>_. 0)] st) (\<lambda>st. body (length (ltext st) - 1) st)"

text \<open>The optional comma, and the stars of a type, which are counted in \<open>expr_type\<close> or in a local \<open>type\<close>.\<close>

definition optional :: "int \<Rightarrow> step" where
  "optional tk = on tk (lex_match tk) Done"

definition stars :: "nat \<Rightarrow> step" where
  "stars fuel = while_step fuel (\<lambda>st. token st = T_Mul) (seq [lex_match T_Mul, set_type (\<lambda>st. expr_type st + TY_PTR)])"

primrec pointer_type :: "nat \<Rightarrow> int \<Rightarrow> lexer \<Rightarrow> (int \<times> lexer) outcome" where
  "pointer_type 0 ty st = Spin"
| "pointer_type (Suc fuel) ty st =
     (if token st = T_Mul then and_then (lex_match T_Mul st) (pointer_type fuel (ty + TY_PTR)) else Done (ty, st))"

section \<open>expression: units and unary operators\<close>

definition unit_num :: step where
  "unit_num = seq [lex_match T_Num, emit_op IMM, emit token_val, set_type (\<lambda>_. TY_INT)]"

definition align_data :: step where
  "align_data st = put_data (replicate (unat (((data_ptr st + 4) AND - 4) - data_ptr st)) 0) st"

definition unit_string :: "nat \<Rightarrow> step" where
  "unit_string fuel = seq [emit_op IMM, emit token_val, lex_match 34,
     while_step fuel (\<lambda>st. token st = 34) (lex_match 34), align_data, set_type (\<lambda>_. TY_PTR)]"

definition unit_sizeof :: "nat \<Rightarrow> step" where
  "unit_sizeof fuel = seq [lex_match T_Sizeof, lex_match 40, set_type (\<lambda>_. TY_INT),
     on T_Int (lex_match T_Int) (on T_Char (seq [lex_match T_Char, set_type (\<lambda>_. TY_CHAR)]) Done),
     stars fuel, lex_match 41, emit_op IMM, emit (\<lambda>st. if expr_type st = TY_CHAR then 1 else 4), set_type (\<lambda>_. TY_INT)]"

text \<open>The argument loop: the number of arguments pushed.\<close>

primrec args :: "(int \<Rightarrow> step) \<Rightarrow> nat \<Rightarrow> nat \<Rightarrow> lexer \<Rightarrow> (nat \<times> lexer) outcome" where
  "args expr 0 tmp st = Spin"
| "args expr (Suc fuel) tmp st =
     (if token st = 41 then Done (tmp, st)
      else and_then (seq [expr T_Assign, emit_op PUSH, optional 44] st) (args expr fuel (Suc tmp)))"

definition unit_call :: "(int \<Rightarrow> step) \<Rightarrow> nat \<Rightarrow> nat \<Rightarrow> step" where
  "unit_call expr fuel i st =
     and_then (lex_match 40 st) (\<lambda>st.
     and_then (args expr fuel 0 st) (\<lambda>(tmp, st).
     and_then (lex_match 41 st) (\<lambda>st.
       let cls = id_class (symbols st ! i); val = id_value (symbols st ! i) in
       seq [if cls = T_Sys then emit (\<lambda>_. val) else if cls = T_Fun then seq [emit_op CALL, emit (\<lambda>_. val)] else exit_with 3,
            if tmp > 0 then seq [emit_op ADJ, emit (\<lambda>_. of_nat tmp)] else Done,
            set_type (\<lambda>st. id_type (symbols st ! i))] st)))"

definition unit_var :: "nat \<Rightarrow> step" where
  "unit_var i st =
     (let cls = id_class (symbols st ! i); val = id_value (symbols st ! i) in
      if cls = T_Num then seq [emit_op IMM, emit (\<lambda>_. val), set_type (\<lambda>_. TY_INT)] st
      else seq [if cls = T_Loc then seq [emit_op LEA, emit (\<lambda>st. word_of_int (index_of_bp st) - val)]
                else if cls = T_Glo then seq [emit_op IMM, emit (\<lambda>_. val)] else exit_with 4,
                set_type (\<lambda>st. id_type (symbols st ! i)), emit load_op] st)"

definition unit_id :: "(int \<Rightarrow> step) \<Rightarrow> nat \<Rightarrow> step" where
  "unit_id expr fuel st = and_then (lex_match T_Id st) (\<lambda>st.
     if token st = 40 then unit_call expr fuel (current_id st) st else unit_var (current_id st) st)"

definition cast :: "(int \<Rightarrow> step) \<Rightarrow> nat \<Rightarrow> int \<Rightarrow> step" where
  "cast expr fuel ty st = and_then (lex_match (token st) st) (\<lambda>st.
     and_then (pointer_type fuel ty st) (\<lambda>(tmp, st). seq [lex_match 41, expr T_Inc, set_type (\<lambda>_. tmp)] st))"

definition unit_paren :: "(int \<Rightarrow> step) \<Rightarrow> nat \<Rightarrow> step" where
  "unit_paren expr fuel = seq [lex_match 40,
     on T_Char (cast expr fuel TY_CHAR) (on T_Int (cast expr fuel TY_INT) (seq [expr T_Assign, lex_match 41]))]"

definition unit_deref :: "(int \<Rightarrow> step) \<Rightarrow> step" where
  "unit_deref expr = seq [lex_match T_Mul, expr T_Inc,
     unless_exit 5 (\<lambda>st. expr_type st \<ge> TY_PTR) (set_type (\<lambda>st. expr_type st - TY_PTR)), emit load_op]"

definition unit_address :: "(int \<Rightarrow> step) \<Rightarrow> step" where
  "unit_address expr = seq [lex_match T_And, expr T_Inc, unless_exit 6 last_is_load drop_last, set_type (\<lambda>st. expr_type st + TY_PTR)]"

definition unit_not :: "(int \<Rightarrow> step) \<Rightarrow> step" where
  "unit_not expr = seq [lex_match 33, expr T_Inc, emit_op PUSH, emit_op IMM, emit (\<lambda>_. 0), emit_op EQ, set_type (\<lambda>_. TY_INT)]"

definition unit_bitnot :: "(int \<Rightarrow> step) \<Rightarrow> step" where
  "unit_bitnot expr = seq [lex_match 126, expr T_Inc, emit_op PUSH, emit_op IMM, emit (\<lambda>_. - 1), emit_op BXOR, set_type (\<lambda>_. TY_INT)]"

definition unit_plus :: "(int \<Rightarrow> step) \<Rightarrow> step" where
  "unit_plus expr = seq [lex_match T_Add, expr T_Inc, set_type (\<lambda>_. TY_INT)]"

definition unit_minus :: "(int \<Rightarrow> step) \<Rightarrow> step" where
  "unit_minus expr = seq [lex_match T_Sub,
     on T_Num (seq [emit_op IMM, emit (\<lambda>st. - token_val st), lex_match T_Num])
       (seq [emit_op IMM, emit (\<lambda>_. - 1), emit_op PUSH, expr T_Inc, emit_op MUL]),
     set_type (\<lambda>_. TY_INT)]"

definition unit_incdec :: "(int \<Rightarrow> step) \<Rightarrow> step" where
  "unit_incdec expr st =
     (let op = (if token st = T_Inc then ADD else SUB) in
      seq [lex_match (token st), expr T_Inc, dup_address 7, emit_op PUSH, emit_op IMM, emit step_size, emit_op op, emit store_op] st)"

definition unary :: "(int \<Rightarrow> step) \<Rightarrow> nat \<Rightarrow> step" where
  "unary expr fuel st =
     (let tk = token st in
      if tk = 0 then Exit 2
      else if tk = T_Num then unit_num st
      else if tk = 34 then unit_string fuel st
      else if tk = T_Sizeof then unit_sizeof fuel st
      else if tk = T_Id then unit_id expr fuel st
      else if tk = 40 then unit_paren expr fuel st
      else if tk = T_Mul then unit_deref expr st
      else if tk = T_And then unit_address expr st
      else if tk = 33 then unit_not expr st
      else if tk = 126 then unit_bitnot expr st
      else if tk = T_Add then unit_plus expr st
      else if tk = T_Sub then unit_minus expr st
      else if tk = T_Inc \<or> tk = T_Dec then unit_incdec expr st
      else Exit 8)"

section \<open>expression: binary and postfix operators\<close>

definition op_assign :: "(int \<Rightarrow> step) \<Rightarrow> int \<Rightarrow> step" where
  "op_assign expr tmp = seq [lex_match T_Assign, unless_exit 9 last_is_load last_to_push, expr T_Assign, set_type (\<lambda>_. tmp), emit store_op]"

definition op_cond :: "(int \<Rightarrow> step) \<Rightarrow> step" where
  "op_cond expr = seq [lex_match T_Cond, hole JZ (\<lambda>addr. seq [expr T_Assign, on 58 (lex_match 58) (exit_with 10), patch_text addr 3]),
     hole JMP (\<lambda>addr. seq [expr T_Cond, patch_text addr 1])]"

definition op_logic :: "(int \<Rightarrow> step) \<Rightarrow> int \<Rightarrow> opcode \<Rightarrow> int \<Rightarrow> step" where
  "op_logic expr tk op level = seq [lex_match tk, hole op (\<lambda>addr. seq [expr level, patch_text addr 1]), set_type (\<lambda>_. TY_INT)]"

definition op_binary :: "(int \<Rightarrow> step) \<Rightarrow> int \<Rightarrow> opcode \<Rightarrow> int \<Rightarrow> int \<Rightarrow> step" where
  "op_binary expr tk op level ty = seq [lex_match tk, emit_op PUSH, expr level, emit_op op, set_type (\<lambda>_. ty)]"

definition scale :: "opcode \<Rightarrow> step" where
  "scale op = seq [emit_op PUSH, emit_op IMM, emit (\<lambda>_. 4), emit_op op]"

definition op_add :: "(int \<Rightarrow> step) \<Rightarrow> int \<Rightarrow> step" where
  "op_add expr tmp = seq [lex_match T_Add, emit_op PUSH, expr T_Mul, set_type (\<lambda>_. tmp),
     if tmp > TY_PTR then scale MUL else Done, emit_op ADD]"

definition op_sub :: "(int \<Rightarrow> step) \<Rightarrow> int \<Rightarrow> step" where
  "op_sub expr tmp = seq [lex_match T_Sub, emit_op PUSH, expr T_Mul,
     \<lambda>st. if tmp > TY_PTR \<and> tmp = expr_type st then seq [emit_op SUB, scale DIV, set_type (\<lambda>_. TY_INT)] st
          else if tmp > TY_PTR then seq [scale MUL, emit_op SUB, set_type (\<lambda>_. tmp)] st
          else seq [emit_op SUB, set_type (\<lambda>_. tmp)] st]"

definition op_postfix :: step where
  "op_postfix st =
     (let inc = (token st = T_Inc) in
      seq [dup_address 11, emit_op PUSH, emit_op IMM, emit step_size, emit_op (if inc then ADD else SUB), emit store_op,
           emit_op PUSH, emit_op IMM, emit step_size, emit_op (if inc then SUB else ADD), lex_match (token st)] st)"

definition op_index :: "(int \<Rightarrow> step) \<Rightarrow> int \<Rightarrow> step" where
  "op_index expr tmp = seq [lex_match T_Brak, emit_op PUSH, expr T_Assign, lex_match 93,
     if tmp > TY_PTR then scale MUL else if tmp < TY_PTR then exit_with 12 else Done,
     set_type (\<lambda>_. tmp - TY_PTR), emit_op ADD, emit load_op]"

definition binary :: "(int \<Rightarrow> step) \<Rightarrow> step" where
  "binary expr st =
     (let tk = token st; tmp = expr_type st in
      if tk = T_Assign then op_assign expr tmp st
      else if tk = T_Cond then op_cond expr st
      else if tk = T_Lor then op_logic expr T_Lor JNZ T_Lan st
      else if tk = T_Lan then op_logic expr T_Lan JZ T_Or st
      else if tk = T_Or then op_binary expr T_Or BOR T_Xor TY_INT st
      else if tk = T_Xor then op_binary expr T_Xor BXOR T_And TY_INT st
      else if tk = T_And then op_binary expr T_And BAND T_Eq TY_INT st
      else if tk = T_Eq then op_binary expr T_Eq EQ T_Ne TY_INT st
      else if tk = T_Ne then op_binary expr T_Ne NE T_Lt TY_INT st
      else if tk = T_Lt then op_binary expr T_Lt LT T_Shl TY_INT st
      else if tk = T_Gt then op_binary expr T_Gt GT T_Shl TY_INT st
      else if tk = T_Le then op_binary expr T_Le LE T_Shl TY_INT st
      else if tk = T_Ge then op_binary expr T_Ge GE T_Shl TY_INT st
      else if tk = T_Shl then op_binary expr T_Shl SHL T_Add TY_INT st
      else if tk = T_Shr then op_binary expr T_Shr SHR T_Add TY_INT st
      else if tk = T_Add then op_add expr tmp st
      else if tk = T_Sub then op_sub expr tmp st
      else if tk = T_Mul then op_binary expr T_Mul MUL T_Inc tmp st
      else if tk = T_Div then op_binary expr T_Div DIV T_Inc tmp st
      else if tk = T_Mod then op_binary expr T_Mod MOD T_Inc tmp st
      else if tk = T_Inc \<or> tk = T_Dec then op_postfix st
      else if tk = T_Brak then op_index expr tmp st
      else Exit 13)"

primrec expression :: "nat \<Rightarrow> int \<Rightarrow> step" where
  "expression 0 level st = Spin"
| "expression (Suc fuel) level st =
     seq [unary (expression fuel) fuel, while_step fuel (\<lambda>st. token st \<ge> level) (binary (expression fuel))] st"

section \<open>statement\<close>

definition stmt_if :: "(int \<Rightarrow> step) \<Rightarrow> step \<Rightarrow> step" where
  "stmt_if expr stm = seq [lex_match T_If, lex_match 40, expr T_Assign, lex_match 41,
     hole JZ (\<lambda>b. seq [stm,
       on T_Else (seq [lex_match T_Else, patch_text b 3, hole JMP (\<lambda>b. seq [stm, patch_text b 1])]) (patch_text b 1)])]"

definition stmt_while :: "(int \<Rightarrow> step) \<Rightarrow> step \<Rightarrow> step" where
  "stmt_while expr stm = seq [lex_match T_While, \<lambda>st.
     let a = text_ptr st + 4 in
     seq [lex_match 40, expr T_Assign, lex_match 41,
       hole JZ (\<lambda>b. seq [stm, emit_op JMP, emit (\<lambda>_. a), patch_text b 1])] st]"

definition stmt_return :: "(int \<Rightarrow> step) \<Rightarrow> step" where
  "stmt_return expr = seq [lex_match T_Return, \<lambda>st. if token st \<noteq> 59 then expr T_Assign st else Done st, lex_match 59, emit_op LEV]"

primrec statement :: "nat \<Rightarrow> step" where
  "statement 0 st = Spin"
| "statement (Suc fuel) st =
     (let expr = expression fuel; stm = statement fuel; tk = token st in
      if tk = T_If then stmt_if expr stm st
      else if tk = T_While then stmt_while expr stm st
      else if tk = 123 then seq [lex_match 123, while_step fuel (\<lambda>st. token st \<noteq> 125) stm, lex_match 125] st
      else if tk = T_Return then stmt_return expr st
      else if tk = 59 then lex_match 59 st
      else seq [expr T_Assign, lex_match 59] st)"

section \<open>Declarations\<close>

definition set_sym :: "(symbol \<Rightarrow> symbol) \<Rightarrow> step" where
  "set_sym f st = Done (st\<lparr>symbols := (symbols st)[current_id st := f (symbols st ! current_id st)]\<rparr>)"

text \<open>The global meaning of a name is kept while a local one hides it.\<close>

definition hide :: "int \<Rightarrow> u32 \<Rightarrow> symbol \<Rightarrow> symbol" where
  "hide ty val i = i\<lparr>Bclass := id_class i, id_class := T_Loc, Btype := id_type i, id_type := ty, Bvalue := id_value i, id_value := val\<rparr>"

definition unhide :: "symbol \<Rightarrow> symbol" where
  "unhide i = (if id_class i = T_Loc then i\<lparr>id_class := Bclass i, id_type := Btype i, id_value := Bvalue i\<rparr> else i)"

primrec params :: "nat \<Rightarrow> nat \<Rightarrow> step" where
  "params 0 k st = Spin"
| "params (Suc fuel) k st =
     (if token st = 41 then Done (st\<lparr>index_of_bp := int k + 1\<rparr>)
      else
        let ty = (if token st = T_Char then TY_CHAR else TY_INT) in
        and_then (on T_Int (lex_match T_Int) (on T_Char (lex_match T_Char) Done) st) (\<lambda>st.
        and_then (pointer_type fuel ty st) (\<lambda>(ty, st).
          if token st \<noteq> T_Id then Exit 14
          else if id_class (symbols st ! current_id st) = T_Loc then Exit 15
          else and_then (seq [lex_match T_Id, set_sym (hide ty (of_nat k)), optional 44] st) (params fuel (Suc k)))))"

definition function_parameter :: "nat \<Rightarrow> step" where
  "function_parameter fuel = params fuel 0"

text \<open>The local declarations: the names of one \<open>int\<close> or \<open>char\<close>, then all of them. The position of the last local is counted on.\<close>

primrec locals_of :: "nat \<Rightarrow> int \<Rightarrow> lexer \<Rightarrow> (int \<times> lexer) outcome" where
  "locals_of 0 pos st = Spin"
| "locals_of (Suc fuel) pos st =
     (if token st = 59 then Done (pos, st)
      else and_then (pointer_type fuel (basetype st) st) (\<lambda>(ty, st).
        if token st \<noteq> T_Id then Exit 16
        else if id_class (symbols st ! current_id st) = T_Loc then Exit 17
        else and_then (seq [lex_match T_Id, set_sym (hide ty (word_of_int (pos + 1))), optional 44] st) (locals_of fuel (pos + 1))))"

primrec local_decls :: "nat \<Rightarrow> int \<Rightarrow> lexer \<Rightarrow> (int \<times> lexer) outcome" where
  "local_decls 0 pos st = Spin"
| "local_decls (Suc fuel) pos st =
     (if token st = T_Int \<or> token st = T_Char
      then and_then (lex_match (token st) (st\<lparr>basetype := (if token st = T_Int then TY_INT else TY_CHAR)\<rparr>)) (\<lambda>st.
           and_then (locals_of fuel pos st) (\<lambda>(pos, st).
           and_then (lex_match 59 st) (local_decls fuel pos)))
      else Done (pos, st))"

definition function_code :: "nat \<Rightarrow> int \<Rightarrow> step" where
  "function_code fuel pos = seq [emit_op ENT, emit (\<lambda>st. word_of_int (pos - index_of_bp st)),
     while_step fuel (\<lambda>st. token st \<noteq> 125) (statement fuel), emit_op LEV]"

definition function_body :: "nat \<Rightarrow> step" where
  "function_body fuel st = and_then (local_decls fuel (index_of_bp st) st) (\<lambda>(pos, st). function_code fuel pos st)"

text \<open>The loop that unwinds the locals runs up to the first unused symbol and leaves \<open>current_id\<close> there.\<close>

definition unwind_locals :: step where
  "unwind_locals st =
     (case first_index (\<lambda>i. id_token (symbols st ! i) = 0) LEX_MAX_SYMBOLS of
        None \<Rightarrow> Stuck
      | Some k \<Rightarrow> Done (st\<lparr>symbols := map unhide (take k (symbols st)) @ drop k (symbols st), current_id := k\<rparr>))"

definition function_declaration :: "nat \<Rightarrow> step" where
  "function_declaration fuel = seq [lex_match 40, function_parameter fuel, lex_match 41, lex_match 123, function_body fuel, unwind_locals]"

primrec enum_declaration :: "nat \<Rightarrow> u32 \<Rightarrow> step" where
  "enum_declaration 0 i st = Spin"
| "enum_declaration (Suc fuel) i st =
     (if token st = 125 then Done st
      else if token st \<noteq> T_Id then Exit 18
      else and_then (lex_next st) (\<lambda>st.
        and_then (if token st = T_Assign
                  then and_then (lex_next st) (\<lambda>st.
                    if token st \<noteq> T_Num then Exit 19
                    else and_then (lex_next st) (\<lambda>st'. Done (token_val st, st')))
                  else Done (i, st)) (\<lambda>(i, st).
        and_then (seq [set_sym (\<lambda>s. s\<lparr>id_class := T_Num, id_type := TY_INT, id_value := i\<rparr>),
                       on 44 lex_next Done] st) (enum_declaration fuel (i + 1)))))"

definition global_enum :: "nat \<Rightarrow> step" where
  "global_enum fuel = seq [lex_match T_Enum, \<lambda>st. if token st \<noteq> 123 then lex_match T_Id st else Done st,
     on 123 (seq [lex_match 123, enum_declaration fuel 0, lex_match 125]) Done, lex_match 59]"

definition global_function :: "nat \<Rightarrow> step" where
  "global_function fuel st =
     seq [set_sym (\<lambda>s. s\<lparr>id_class := T_Fun, id_value := text_ptr st + 4\<rparr>), function_declaration fuel] st"

definition global_variable :: step where
  "global_variable st = seq [set_sym (\<lambda>s. s\<lparr>id_class := T_Glo, id_value := data_ptr st\<rparr>), put_data (replicate 4 0)] st"

text \<open>The comma-separated names of one declaration.\<close>

primrec globals_of :: "nat \<Rightarrow> step" where
  "globals_of 0 st = Spin"
| "globals_of (Suc fuel) st =
     (if token st = 59 \<or> token st = 125 then lex_next st
      else and_then (pointer_type fuel (basetype st) st) (\<lambda>(ty, st).
        if token st \<noteq> T_Id then Exit 20
        else if id_class (symbols st ! current_id st) \<noteq> 0 then Exit 21
        else and_then (seq [lex_match T_Id, set_sym (\<lambda>s. s\<lparr>id_type := ty\<rparr>),
               on 40 (global_function fuel) global_variable, optional 44] st) (globals_of fuel)))"

definition global_declaration :: "nat \<Rightarrow> step" where
  "global_declaration fuel st =
     on T_Enum (global_enum fuel)
       (seq [on T_Int (lex_match T_Int) (on T_Char (seq [lex_match T_Char, \<lambda>st. Done (st\<lparr>basetype := TY_CHAR\<rparr>)]) Done),
             globals_of fuel]) (st\<lparr>basetype := TY_INT\<rparr>)"

section \<open>lex_init and program\<close>

definition chars :: "string \<Rightarrow> u8 list" where
  "chars s = map (\<lambda>c. of_nat (of_char c)) s"

definition library_names :: "u8 list" where
  "library_names = chars (''char else enum if int return sizeof while '' @ ''open read close printf malloc memset memcmp exit free void main'')"

definition lex_init :: step where
  "lex_init st =
     seq (map (\<lambda>tk. seq [lex_next, set_sym (\<lambda>s. s\<lparr>id_token := tk\<rparr>)]) [T_Char .. T_While] @
          map (\<lambda>op. seq [lex_next, set_sym (\<lambda>s. s\<lparr>id_class := T_Sys, id_type := TY_INT, id_value := op_word op\<rparr>)])
            [OPEN, READ, CLOS, PRTF, MALC, MSET, MCMP, EXIT, FREE] @
          [lex_next, set_sym (\<lambda>s. s\<lparr>id_token := T_Char\<rparr>), lex_next, \<lambda>st. Done (st\<lparr>main_id := current_id st\<rparr>)])
       (st\<lparr>symbols := replicate LEX_MAX_SYMBOLS no_symbol, src := library_names\<rparr>)"

record lexed_file =
  textsize :: u32
  datasize :: u32
  entry :: u32

definition initial :: "u32 \<Rightarrow> u32 \<Rightarrow> u8 list \<Rightarrow> lexer" where
  "initial tb db s = \<lparr>src = s, token = 0, token_val = 0, symbols = replicate LEX_MAX_SYMBOLS no_symbol, current_id = 0, main_id = 0,
     basetype = 0, expr_type = 0, index_of_bp = 0, ltext = [0], text_base = tb, data = [], data_base = db\<rparr>"

text \<open>The buffers of the text and the data are cleared, as \<open>vm_init\<close> leaves them.\<close>

definition program :: "nat \<Rightarrow> u32 \<Rightarrow> u32 \<Rightarrow> u8 list \<Rightarrow> (lexed_file \<times> lexer) outcome" where
  "program fuel tb db s =
     and_then (seq [lex_init, \<lambda>st. Done (st\<lparr>src := s\<rparr>), lex_next, while_step fuel (\<lambda>st. token st > 0) (global_declaration fuel)]
       (initial tb db s))
     (\<lambda>st. Done (\<lparr>textsize = text_ptr st - tb, datasize = data_ptr st - db,
                    entry = id_value (symbols st ! main_id st) - tb\<rparr>, st))"

end
