(* ===== verification/Vm_Run.thy ===== *)
theory Vm_Run imports Vm
begin

text \<open>
  Running code on the virtual machine: words in the memory, code at a place of the text, the
  instructions as steps of one relation, and the stack below \<open>sp\<close> as scratch space.
\<close>

section \<open>Words in the memory\<close>

definition apart :: "u32 \<Rightarrow> u32 \<Rightarrow> bool" where
  "apart a b \<longleftrightarrow> 4 \<le> a - b \<and> 4 \<le> b - a"

definition same_map :: "memory \<Rightarrow> memory \<Rightarrow> bool" where
  "same_map m m' \<longleftrightarrow> (\<forall>a. m' a = None \<longleftrightarrow> m a = None)"

lemma same_map_refl [simp]: "same_map m m"
  by (simp add: same_map_def)

lemma same_map_trans: "same_map m m1 \<Longrightarrow> same_map m1 m2 \<Longrightarrow> same_map m m2"
  by (simp add: same_map_def)

lemma apart_sym: "apart a b \<Longrightarrow> apart b a"
  by (simp add: apart_def)

lemma load_mapped: "load32 m a \<noteq> None \<longleftrightarrow> m a \<noteq> None \<and> m (a + 1) \<noteq> None \<and> m (a + 2) \<noteq> None \<and> m (a + 3) \<noteq> None"
  by (cases "m a"; cases "m (a + 1)"; cases "m (a + 2)"; cases "m (a + 3)") (simp_all add: load32_def)

lemma same_map_load: "same_map m m' \<Longrightarrow> load32 m a \<noteq> None \<Longrightarrow> load32 m' a \<noteq> None"
  unfolding load_mapped same_map_def by simp

lemma store32_fun:
  assumes "load32 m a \<noteq> None"
  shows "store32 a w m = Some (m(a \<mapsto> ucast w, a + 1 \<mapsto> ucast (drop_bit 8 w), a + 2 \<mapsto> ucast (drop_bit 16 w), a + 3 \<mapsto> ucast (drop_bit 24 w)))"
  using assms unfolding load_mapped by (simp add: store32_def store8_def)

lemma apart_offsets:
  assumes "apart a b" and "i < 4" and "j < 4"
  shows "a + i \<noteq> b + j"
proof
  assume e: "a + i = b + j"
  have d: "a - b = j - i" using e by (simp add: algebra_simps)
  have d': "b - a = i - j" using e by (simp add: algebra_simps)
  show False
  proof (cases "i \<le> j")
    case True
    then have "j - i \<le> j" by (simp add: word_sub_le)
    then show False using assms(1,3) d unfolding apart_def by (metis leD order_trans)
  next
    case False
    then have "i - j \<le> i" by (simp add: word_sub_le)
    then show False using assms(1,2) d' unfolding apart_def by (metis leD order_trans)
  qed
qed

lemma store32_mapped:
  assumes "load32 m a \<noteq> None"
  obtains m' where "store32 a w m = Some m'" "load32 m' a = Some w" "same_map m m'"
    "\<And>b. apart b a \<Longrightarrow> load32 m' b = load32 m b"
proof
  let ?m = "m(a \<mapsto> ucast w, a + 1 \<mapsto> ucast (drop_bit 8 w), a + 2 \<mapsto> ucast (drop_bit 16 w), a + 3 \<mapsto> ucast (drop_bit 24 w))"
  show "store32 a w m = Some ?m" by (rule store32_fun [OF assms])
  show "load32 ?m a = Some w" by (simp add: load32_def le32_le32_bytes)
  show "same_map m ?m" using assms unfolding load_mapped by (auto simp: same_map_def)
  show "load32 ?m b = load32 m b" if "apart b a" for b
  proof -
    have "b + i \<noteq> a + j" if "i < 4" "j < 4" for i j using apart_offsets [OF \<open>apart b a\<close> that] .
    from this [of 0 0] this [of 0 1] this [of 0 2] this [of 0 3] this [of 1 0] this [of 1 1] this [of 1 2] this [of 1 3]
      this [of 2 0] this [of 2 1] this [of 2 2] this [of 2 3] this [of 3 0] this [of 3 1] this [of 3 2] this [of 3 3]
    show ?thesis by (simp add: load32_def)
  qed
qed

section \<open>Reaching a state\<close>

definition reaches :: "(opcode \<Rightarrow> vm \<Rightarrow> vm option) \<Rightarrow> vm \<Rightarrow> vm \<Rightarrow> bool" where
  "reaches sys v v' \<longleftrightarrow> (\<exists>n. eval sys n v = Some (Running v'))"

lemma eval_add: "eval sys n v = Some (Running v') \<Longrightarrow> eval sys (n + k) v = eval sys k v'"
proof (induction n arbitrary: v)
  case (Suc n)
  then show ?case by (auto split: Option.bind_splits run.splits)
qed simp

lemma reaches_refl [simp, intro]: "reaches sys v v"
  unfolding reaches_def by (rule exI [of _ 0]) simp

lemma reaches_trans [trans]: "reaches sys v v1 \<Longrightarrow> reaches sys v1 v2 \<Longrightarrow> reaches sys v v2"
  unfolding reaches_def using eval_add by metis

lemma reaches_step: "vm_step sys v = Some (Running v') \<Longrightarrow> reaches sys v v'"
  unfolding reaches_def by (rule exI [of _ 1]) simp

lemma reaches_returns:
  assumes "reaches sys v v'" and "vm_step sys v' = Some (Returned r v'')"
  shows "\<exists>n. \<forall>k \<ge> n. eval sys k v = Some (Returned r v'')"
proof -
  obtain n where n: "eval sys n v = Some (Running v')" using assms(1) by (auto simp: reaches_def)
  have "eval sys k v = Some (Returned r v'')" if "Suc n \<le> k" for k
  proof -
    define j where "j = k - Suc n"
    have "k = n + Suc j" using that by (simp add: j_def)
    then show ?thesis using eval_add [OF n, of "Suc j"] assms(2) by simp
  qed
  then show ?thesis by blast
qed

section \<open>Code in the text\<close>

text \<open>The address of word \<open>p\<close> of a text at \<open>tb\<close>; the words \<open>ws\<close> lie there from word \<open>p\<close> on.\<close>

definition word_addr :: "u32 \<Rightarrow> nat \<Rightarrow> u32" where
  "word_addr tb p = tb + 4 * of_nat p"

definition code_at :: "memory \<Rightarrow> u32 \<Rightarrow> nat \<Rightarrow> u32 list \<Rightarrow> bool" where
  "code_at m tb p ws \<longleftrightarrow> (\<forall>i < length ws. load32 m (word_addr tb (p + i)) = Some (ws ! i))"

lemma word_addr_Suc: "word_addr tb p + 4 = word_addr tb (Suc p)"
  by (simp add: word_addr_def algebra_simps)

lemma code_at_Nil [simp]: "code_at m tb p []"
  by (simp add: code_at_def)

lemma code_at_Cons [simp]: "code_at m tb p (w # ws) \<longleftrightarrow> load32 m (word_addr tb p) = Some w \<and> code_at m tb (Suc p) ws"
  by (simp add: code_at_def All_less_Suc2)

lemma code_at_append [simp]: "code_at m tb p (xs @ ys) \<longleftrightarrow> code_at m tb p xs \<and> code_at m tb (p + length xs) ys"
  by (induction xs arbitrary: p) auto

section \<open>The instructions\<close>

lemma operand_at: "pc v = word_addr tb p \<Longrightarrow> load32 (mem v) (word_addr tb p) = Some w \<Longrightarrow> operand v = Some (w, v\<lparr>pc := word_addr tb (Suc p)\<rparr>)"
  by (simp add: operand_def word_addr_Suc)

lemma push_at:
  assumes "load32 (mem v) (sp v - 4) \<noteq> None"
  obtains m where "\<And>q. push w (v\<lparr>pc := q\<rparr>) = Some (v\<lparr>pc := q, sp := sp v - 4, mem := m\<rparr>)" "load32 m (sp v - 4) = Some w" "same_map (mem v) m"
    "\<And>b. apart b (sp v - 4) \<Longrightarrow> load32 m b = load32 (mem v) b"
proof -
  obtain m where m: "store32 (sp v - 4) w (mem v) = Some m" "load32 m (sp v - 4) = Some w" "same_map (mem v) m"
    "\<And>b. apart b (sp v - 4) \<Longrightarrow> load32 m b = load32 (mem v) b"
    using store32_mapped [OF assms] by metis
  show thesis by (rule that [OF _ m(2-4)]) (simp add: push_def m(1))
qed

end
