(* ===== verification/Cc_Exec.thy ===== *)
theory Cc_Exec imports Vm_Run
begin

text \<open>
  The source language of the correctness proof of the C interpreter, \<open>int\<close> expressions over
  \<open>int\<close> variables, its meaning, the code developer/lex.c emits for it, and the proof that the machine
  of developer/vm.c computes the meaning when it runs that code.
\<close>

section \<open>Expressions and their meaning\<close>

datatype exp = ENum u32 | EVar nat | EParen exp | ENeg exp | EPlus exp | ENot exp | EBitNot exp
  | EPre bool nat | EPost bool nat | EBin opcode exp exp | EAnd exp exp | EOr exp exp | ECond exp exp exp
  | EAssign nat exp

type_synonym env = "nat \<Rightarrow> u32"

text \<open>
  The value and the variables afterwards; \<open>None\<close> is a division fault. As in the code, \<open>&&\<close> and \<open>||\<close>
  stop early but yield the value of the last operand computed, not 0 or 1.
\<close>

fun sem :: "exp \<Rightarrow> env \<Rightarrow> (u32 \<times> env) option" where
  "sem (ENum n) \<rho> = Some (n, \<rho>)"
| "sem (EVar x) \<rho> = Some (\<rho> x, \<rho>)"
| "sem (EParen e) \<rho> = sem e \<rho>"
| "sem (ENeg e) \<rho> = do { (w, \<rho>) \<leftarrow> sem e \<rho>; Some (- w, \<rho>) }"
| "sem (EPlus e) \<rho> = sem e \<rho>"
| "sem (ENot e) \<rho> = do { (w, \<rho>) \<leftarrow> sem e \<rho>; Some (truth (w = 0), \<rho>) }"
| "sem (EBitNot e) \<rho> = do { (w, \<rho>) \<leftarrow> sem e \<rho>; Some (NOT w, \<rho>) }"
| "sem (EPre inc x) \<rho> = (let w = (if inc then \<rho> x + 1 else \<rho> x - 1) in Some (w, \<rho>(x := w)))"
| "sem (EPost inc x) \<rho> = Some (\<rho> x, \<rho>(x := (if inc then \<rho> x + 1 else \<rho> x - 1)))"
| "sem (EBin op a b) \<rho> = do { (x, \<rho>) \<leftarrow> sem a \<rho>; (y, \<rho>) \<leftarrow> sem b \<rho>; w \<leftarrow> alu op x y; Some (w, \<rho>) }"
| "sem (EAnd a b) \<rho> = do { (x, \<rho>) \<leftarrow> sem a \<rho>; if x = 0 then Some (x, \<rho>) else sem b \<rho> }"
| "sem (EOr a b) \<rho> = do { (x, \<rho>) \<leftarrow> sem a \<rho>; if x \<noteq> 0 then Some (x, \<rho>) else sem b \<rho> }"
| "sem (ECond c a b) \<rho> = do { (x, \<rho>) \<leftarrow> sem c \<rho>; if x \<noteq> 0 then sem a \<rho> else sem b \<rho> }"
| "sem (EAssign x e) \<rho> = do { (w, \<rho>) \<leftarrow> sem e \<rho>; Some (w, \<rho>(x := w)) }"

fun vars :: "exp \<Rightarrow> nat set" where
  "vars (ENum n) = {}" | "vars (EVar x) = {x}" | "vars (EParen e) = vars e" | "vars (ENeg e) = vars e"
| "vars (EPlus e) = vars e" | "vars (ENot e) = vars e" | "vars (EBitNot e) = vars e" | "vars (EPre i x) = {x}"
| "vars (EPost i x) = {x}" | "vars (EBin op a b) = vars a \<union> vars b" | "vars (EAnd a b) = vars a \<union> vars b"
| "vars (EOr a b) = vars a \<union> vars b" | "vars (ECond c a b) = vars c \<union> vars a \<union> vars b" | "vars (EAssign x e) = insert x (vars e)"

text \<open>The words of stack an expression needs.\<close>

fun depth :: "exp \<Rightarrow> nat" where
  "depth (ENum n) = 0" | "depth (EVar x) = 0" | "depth (EParen e) = depth e"
| "depth (ENeg e) = (case e of ENum n \<Rightarrow> 0 | _ \<Rightarrow> Suc (depth e))"
| "depth (EPlus e) = depth e" | "depth (ENot e) = Suc (depth e)" | "depth (EBitNot e) = Suc (depth e)" | "depth (EPre i x) = 2"
| "depth (EPost i x) = 2" | "depth (EBin op a b) = max (depth a) (Suc (depth b))" | "depth (EAnd a b) = max (depth a) (depth b)"
| "depth (EOr a b) = max (depth a) (depth b)" | "depth (ECond c a b) = max (depth c) (max (depth a) (depth b))"
| "depth (EAssign x e) = Suc (depth e)"

section \<open>The code\<close>

text \<open>A variable is a local, at a distance in words from \<open>bp\<close>, or a global at an address.\<close>

datatype place = Local u32 | Global u32

primrec place_code :: "place \<Rightarrow> u32 list" where
  "place_code (Local d) = [op_word LEA, d]"
| "place_code (Global a) = [op_word IMM, a]"

primrec place_addr :: "u32 \<Rightarrow> place \<Rightarrow> u32" where
  "place_addr b (Local d) = b + 4 * d"
| "place_addr b (Global a) = a"

lemma length_place_code [simp]: "length (place_code pl) = 2"
  by (cases pl) simp_all

fun csize :: "exp \<Rightarrow> nat" where
  "csize (ENum n) = 2" | "csize (EVar x) = 3" | "csize (EParen e) = csize e"
| "csize (ENeg e) = (case e of ENum n \<Rightarrow> 2 | _ \<Rightarrow> csize e + 4)"
| "csize (EPlus e) = csize e" | "csize (ENot e) = csize e + 4" | "csize (EBitNot e) = csize e + 4" | "csize (EPre i x) = 9"
| "csize (EPost i x) = 13" | "csize (EBin op a b) = csize a + csize b + 2" | "csize (EAnd a b) = csize a + csize b + 2"
| "csize (EOr a b) = csize a + csize b + 2" | "csize (ECond c a b) = csize c + csize a + csize b + 4" | "csize (EAssign x e) = csize e + 4"

text \<open>The code of an expression at word \<open>p\<close> of the text at \<open>tb\<close>.\<close>

fun code_of :: "u32 \<Rightarrow> (nat \<Rightarrow> place) \<Rightarrow> nat \<Rightarrow> exp \<Rightarrow> u32 list" where
  "code_of tb pl p (ENum n) = [op_word IMM, n]"
| "code_of tb pl p (EVar x) = place_code (pl x) @ [op_word LI]"
| "code_of tb pl p (EParen e) = code_of tb pl p e"
| "code_of tb pl p (ENeg e) = (case e of ENum n \<Rightarrow> [op_word IMM, - n]
     | _ \<Rightarrow> [op_word IMM, - 1, op_word PUSH] @ code_of tb pl (p + 3) e @ [op_word MUL])"
| "code_of tb pl p (EPlus e) = code_of tb pl p e"
| "code_of tb pl p (ENot e) = code_of tb pl p e @ [op_word PUSH, op_word IMM, 0, op_word EQ]"
| "code_of tb pl p (EBitNot e) = code_of tb pl p e @ [op_word PUSH, op_word IMM, - 1, op_word BXOR]"
| "code_of tb pl p (EPre inc x) = place_code (pl x) @ [op_word PUSH, op_word LI, op_word PUSH, op_word IMM, 1,
     op_word (if inc then ADD else SUB), op_word SI]"
| "code_of tb pl p (EPost inc x) = place_code (pl x) @ [op_word PUSH, op_word LI, op_word PUSH, op_word IMM, 1,
     op_word (if inc then ADD else SUB), op_word SI, op_word PUSH, op_word IMM, 1, op_word (if inc then SUB else ADD)]"
| "code_of tb pl p (EBin op a b) = code_of tb pl p a @ [op_word PUSH] @ code_of tb pl (p + csize a + 1) b @ [op_word op]"
| "code_of tb pl p (EAnd a b) = code_of tb pl p a @ [op_word JZ, word_addr tb (p + csize a + csize b + 2)] @ code_of tb pl (p + csize a + 2) b"
| "code_of tb pl p (EOr a b) = code_of tb pl p a @ [op_word JNZ, word_addr tb (p + csize a + csize b + 2)] @ code_of tb pl (p + csize a + 2) b"
| "code_of tb pl p (ECond c a b) = code_of tb pl p c @ [op_word JZ, word_addr tb (p + csize c + csize a + 4)] @ code_of tb pl (p + csize c + 2) a @
     [op_word JMP, word_addr tb (p + csize c + csize a + csize b + 4)] @ code_of tb pl (p + csize c + csize a + 4) b"
| "code_of tb pl p (EAssign x e) = place_code (pl x) @ [op_word PUSH] @ code_of tb pl (p + 3) e @ [op_word SI]"

lemma length_code_of [simp]: "length (code_of tb pl p e) = csize e"
  by (induction tb pl p e rule: code_of.induct) (simp_all split: exp.split)

section \<open>The memory of a run\<close>

text \<open>
  What a run of the code of a function relies on: the text \<open>lay_text\<close> lies at \<open>lay_base\<close>, the variables at
  their places and \<open>d\<close> words below the stack pointer \<open>s\<close> are free, all of them mapped and apart from each other.
\<close>

record layout =
  lay_base :: u32
  lay_text :: "u32 list"
  lay_vars :: "nat set"
  lay_place :: "nat \<Rightarrow> place"

definition loc :: "layout \<Rightarrow> u32 \<Rightarrow> nat \<Rightarrow> u32" where
  "loc L b x = place_addr b (lay_place L x)"

definition scratch :: "nat \<Rightarrow> u32 \<Rightarrow> u32 set" where
  "scratch d s = (\<lambda>k. s - 4 * of_nat k) ` {1..d}"

definition text_words :: "layout \<Rightarrow> u32 set" where
  "text_words L = word_addr (lay_base L) ` {..<length (lay_text L)}"

definition sane :: "layout \<Rightarrow> nat \<Rightarrow> u32 \<Rightarrow> u32 \<Rightarrow> memory \<Rightarrow> bool" where
  "sane L d b s m \<longleftrightarrow> d < 2 ^ 29 \<and>
     (\<forall>t \<in> scratch d s. load32 m t \<noteq> None \<and> (\<forall>a \<in> text_words L. apart a t) \<and> (\<forall>x \<in> lay_vars L. apart (loc L b x) t)) \<and>
     (\<forall>x \<in> lay_vars L. load32 m (loc L b x) \<noteq> None \<and> (\<forall>a \<in> text_words L. apart a (loc L b x)) \<and>
        (\<forall>y \<in> lay_vars L. y \<noteq> x \<longrightarrow> apart (loc L b y) (loc L b x)))"

definition env_in :: "layout \<Rightarrow> u32 \<Rightarrow> env \<Rightarrow> memory \<Rightarrow> bool" where
  "env_in L b \<rho> m \<longleftrightarrow> (\<forall>x \<in> lay_vars L. load32 m (loc L b x) = Some (\<rho> x))"

definition good :: "layout \<Rightarrow> nat \<Rightarrow> env \<Rightarrow> vm \<Rightarrow> bool" where
  "good L d \<rho> v \<longleftrightarrow> sane L d (bp v) (sp v) (mem v) \<and> code_at (mem v) (lay_base L) 0 (lay_text L) \<and> env_in L (bp v) \<rho> (mem v)"

text \<open>A change of the memory that touches only the scratch words and the variables.\<close>

definition framed :: "layout \<Rightarrow> nat \<Rightarrow> u32 \<Rightarrow> u32 \<Rightarrow> memory \<Rightarrow> memory \<Rightarrow> bool" where
  "framed L d b s m m' \<longleftrightarrow> same_map m m' \<and>
     (\<forall>a. (\<forall>t \<in> scratch d s. apart a t) \<and> (\<forall>x \<in> lay_vars L. apart a (loc L b x)) \<longrightarrow> load32 m' a = load32 m a)"

text \<open>Instructions of the text.\<close>

definition code_in :: "layout \<Rightarrow> nat \<Rightarrow> u32 list \<Rightarrow> bool" where
  "code_in L p ws \<longleftrightarrow> (\<forall>i < length ws. p + i < length (lay_text L) \<and> lay_text L ! (p + i) = ws ! i)"

lemma code_in_Nil [simp]: "code_in L p []"
  by (simp add: code_in_def)

lemma code_in_Cons [simp]: "code_in L p (w # ws) \<longleftrightarrow> p < length (lay_text L) \<and> lay_text L ! p = w \<and> code_in L (Suc p) ws"
  by (auto simp add: code_in_def All_less_Suc2)

lemma code_in_append [simp]: "code_in L p (xs @ ys) \<longleftrightarrow> code_in L p xs \<and> code_in L (p + length xs) ys"
  by (induction xs arbitrary: p) auto

lemma scratch_Suc: "scratch (Suc d) s = insert (s - 4) (scratch d (s - 4))"
proof -
  have "{1..Suc d} = insert 1 (Suc ` {1..d})" by (auto simp: image_iff)
  then have "scratch (Suc d) s = insert (s - 4 * of_nat 1) ((\<lambda>k. s - 4 * of_nat (Suc k)) ` {1..d})"
    unfolding scratch_def by (simp only: image_insert image_image)
  then show ?thesis by (simp add: scratch_def algebra_simps)
qed

lemma scratch_mono: "d \<le> d' \<Longrightarrow> scratch d s \<subseteq> scratch d' s"
  by (auto simp: scratch_def)

lemma sane_mono: "sane L d' b s m \<Longrightarrow> d \<le> d' \<Longrightarrow> sane L d b s m"
  unfolding sane_def using scratch_mono [of d d' s] by (meson le_less_trans subsetD)

lemma sane_push: "sane L (Suc d) b s m \<Longrightarrow> sane L d b (s - 4) m"
  unfolding sane_def scratch_Suc by simp

lemma framed_mono: "framed L d b s m m' \<Longrightarrow> d \<le> d' \<Longrightarrow> framed L d' b s m m'"
  unfolding framed_def using scratch_mono [of d d' s] by (meson subsetD)

lemma framed_push: "framed L d b (s - 4) m m' \<Longrightarrow> framed L (Suc d) b s m m'"
  unfolding framed_def scratch_Suc by simp

lemma framed_refl [simp]: "framed L d b s m m"
  by (simp add: framed_def)

lemma framed_trans: "framed L d b s m m1 \<Longrightarrow> framed L d b s m1 m2 \<Longrightarrow> framed L d b s m m2"
  by (simp add: framed_def same_map_def)

lemma sane_framed: "sane L d b s m \<Longrightarrow> framed L d' b s' m m' \<Longrightarrow> sane L d b s m'"
proof -
  assume o: "sane L d b s m" and f: "framed L d' b s' m m'"
  have "same_map m m'" using f by (simp add: framed_def)
  then have "load32 m a \<noteq> None \<Longrightarrow> load32 m' a \<noteq> None" for a by (rule same_map_load)
  then show ?thesis using o unfolding sane_def by blast
qed

lemma code_framed:
  "code_at m (lay_base L) 0 (lay_text L) \<Longrightarrow> sane L d b s m \<Longrightarrow> framed L d b s m m' \<Longrightarrow> code_at m' (lay_base L) 0 (lay_text L)"
proof -
  assume c: "code_at m (lay_base L) 0 (lay_text L)" and o: "sane L d b s m" and f: "framed L d b s m m'"
  show ?thesis unfolding code_at_def
  proof (intro allI impI)
    fix i assume i: "i < length (lay_text L)"
    then have "word_addr (lay_base L) (0 + i) \<in> text_words L" by (simp add: text_words_def)
    then have "load32 m' (word_addr (lay_base L) (0 + i)) = load32 m (word_addr (lay_base L) (0 + i))"
      using o f unfolding sane_def framed_def by blast
    then show "load32 m' (word_addr (lay_base L) (0 + i)) = Some (lay_text L ! i)" using c i by (simp add: code_at_def)
  qed
qed

lemma good_regs [simp]: "good L d \<rho> (v\<lparr>pc := q, ax := w\<rparr>) = good L d \<rho> v" "good L d \<rho> (v\<lparr>pc := q\<rparr>) = good L d \<rho> v"
  by (simp_all add: good_def)

lemma good_mono: "good L d' \<rho> v \<Longrightarrow> d \<le> d' \<Longrightarrow> good L d \<rho> v"
  unfolding good_def using sane_mono by blast

text \<open>Everything but the variables survives a framed change.\<close>

lemma good_framed:
  "good L d \<rho> v \<Longrightarrow> framed L d (bp v) (sp v) (mem v) m \<Longrightarrow> env_in L (bp v) \<rho>' m \<Longrightarrow> good L d \<rho>' (v\<lparr>pc := q, ax := w, mem := m\<rparr>)"
  unfolding good_def using sane_framed code_framed by (simp, blast)

lemma good_code: "good L d \<rho> v \<Longrightarrow> code_in L p (w # ws) \<Longrightarrow> load32 (mem v) (word_addr (lay_base L) p) = Some w"
  unfolding good_def code_at_def by simp

lemma good_code2: "good L d \<rho> v \<Longrightarrow> code_in L p (w # u # ws) \<Longrightarrow> load32 (mem v) (word_addr (lay_base L) (Suc p)) = Some u"
  using good_code [of L d \<rho> v "Suc p" u ws] by simp

lemma good_var: "good L d \<rho> v \<Longrightarrow> x \<in> lay_vars L \<Longrightarrow> load32 (mem v) (loc L (bp v) x) = Some (\<rho> x)"
  by (simp add: good_def env_in_def)

section \<open>The instructions\<close>

abbreviation at :: "layout \<Rightarrow> nat \<Rightarrow> u32" where "at L p \<equiv> word_addr (lay_base L) p"

lemma run_imm:
  assumes "good L d \<rho> v" and "pc v = at L p" and "code_in L p [op_word IMM, i]"
  shows "reaches sys v (v\<lparr>pc := at L (p + 2), ax := i\<rparr>)"
  by (rule reaches_step)
    (use good_code [OF assms(1,3)] good_code2 [OF assms(1,3)] assms(2) in \<open>simp add: vm_step_def operand_def word_addr_Suc\<close>)

lemma run_place:
  assumes "good L d \<rho> v" and "pc v = at L p" and "code_in L p (place_code (lay_place L x))"
  shows "reaches sys v (v\<lparr>pc := at L (p + 2), ax := loc L (bp v) x\<rparr>)"
proof (cases "lay_place L x")
  case (Local k)
  then have c: "code_in L p [op_word LEA, k]" using assms(3) by simp
  show ?thesis
    by (rule reaches_step)
      (use good_code [OF assms(1) c] good_code2 [OF assms(1) c] assms(2) Local in
        \<open>simp add: vm_step_def operand_def word_addr_Suc loc_def\<close>)
next
  case (Global a)
  then show ?thesis using run_imm [OF assms(1,2), of a] assms(3) by (simp add: loc_def)
qed

lemma run_li:
  assumes "good L d \<rho> v" and "pc v = at L p" and "code_in L p [op_word LI]" and "load32 (mem v) (ax v) = Some w"
  shows "reaches sys v (v\<lparr>pc := at L (Suc p), ax := w\<rparr>)"
  by (rule reaches_step)
    (use good_code [OF assms(1,3)] assms(2,4) in \<open>simp add: vm_step_def operand_def word_addr_Suc\<close>)

text \<open>\<open>PUSH\<close>: the pushed word is out of reach of what runs on the smaller stack.\<close>

lemma run_push:
  assumes "good L (Suc d) \<rho> v" and "pc v = at L p" and "code_in L p [op_word PUSH]"
  obtains m where "reaches sys v (v\<lparr>pc := at L (Suc p), sp := sp v - 4, mem := m\<rparr>)"
    "good L d \<rho> (v\<lparr>pc := at L (Suc p), sp := sp v - 4, mem := m\<rparr>)"
    "load32 m (sp v - 4) = Some (ax v)" "framed L (Suc d) (bp v) (sp v) (mem v) m"
proof -
  have s: "sane L (Suc d) (bp v) (sp v) (mem v)" using assms(1) by (simp add: good_def)
  then have t: "load32 (mem v) (sp v - 4) \<noteq> None" "\<forall>x \<in> lay_vars L. apart (loc L (bp v) x) (sp v - 4)"
    by (simp_all add: sane_def scratch_Suc)
  obtain m where m: "\<And>q. push (ax v) (v\<lparr>pc := q\<rparr>) = Some (v\<lparr>pc := q, sp := sp v - 4, mem := m\<rparr>)" "load32 m (sp v - 4) = Some (ax v)"
    "same_map (mem v) m" "\<And>b. apart b (sp v - 4) \<Longrightarrow> load32 m b = load32 (mem v) b" by (rule push_at [OF t(1), of "ax v"]) (rule that; assumption)
  have f: "framed L (Suc d) (bp v) (sp v) (mem v) m" using m(3,4) by (simp add: framed_def scratch_Suc)
  have r: "reaches sys v (v\<lparr>pc := at L (Suc p), sp := sp v - 4, mem := m\<rparr>)"
    by (intro reaches_step) (use good_code [OF assms(1,3)] assms(2) m(1) in \<open>simp add: vm_step_def operand_def word_addr_Suc\<close>)
  have g: "good L d \<rho> (v\<lparr>pc := at L (Suc p), sp := sp v - 4, mem := m\<rparr>)"
    using sane_push [OF sane_framed [OF s f]] code_framed [OF _ s f] assms(1) t(2) m(4)
    by (auto simp: good_def env_in_def)
  show thesis by (rule that [OF r g m(2) f])
qed

lemma run_alu:
  assumes "good L d \<rho> v" and "pc v = at L p" and "code_in L p [op_word op]" and "is_alu op"
    and "load32 (mem v) (sp v) = Some a" and "alu op a (ax v) = Some w"
  shows "reaches sys v (v\<lparr>pc := at L (Suc p), sp := sp v + 4, ax := w\<rparr>)"
  by (rule reaches_step)
    (use good_code [OF assms(1,3)] assms(2,4-6) in
      \<open>cases op; simp add: vm_step_def operand_def pop_def is_alu_def word_addr_Suc\<close>)

lemma run_si:
  assumes "good L d \<rho> v" and "pc v = at L p" and "code_in L p [op_word SI]"
    and "x \<in> lay_vars L" and "load32 (mem v) (sp v) = Some (loc L (bp v) x)"
  obtains m where "reaches sys v (v\<lparr>pc := at L (Suc p), sp := sp v + 4, mem := m\<rparr>)"
    "framed L d (bp v) (sp v) (mem v) m" "env_in L (bp v) (\<rho>(x := ax v)) m"
proof -
  let ?a = "loc L (bp v) x"
  have s: "sane L d (bp v) (sp v) (mem v)" and e: "env_in L (bp v) \<rho> (mem v)" using assms(1) by (simp_all add: good_def)
  then have mp: "load32 (mem v) ?a \<noteq> None" using assms(4) by (auto simp: sane_def)
  obtain m where m: "store32 ?a (ax v) (mem v) = Some m" "load32 m ?a = Some (ax v)" "same_map (mem v) m"
    "\<And>b. apart b ?a \<Longrightarrow> load32 m b = load32 (mem v) b" by (rule store32_mapped [OF mp, of "ax v"]) (rule that; assumption)
  show thesis
  proof (rule that)
    show "reaches sys v (v\<lparr>pc := at L (Suc p), sp := sp v + 4, mem := m\<rparr>)"
      by (rule reaches_step)
        (use good_code [OF assms(1,3)] assms(2,5) m(1) in \<open>simp add: vm_step_def operand_def pop_def word_addr_Suc\<close>)
    show "framed L d (bp v) (sp v) (mem v) m" using m(3,4) assms(4) by (auto simp: framed_def)
    show "env_in L (bp v) (\<rho>(x := ax v)) m"
      using e m(2,4) s assms(4) by (auto simp: env_in_def sane_def)
  qed
qed

lemma run_jmp:
  assumes "good L d \<rho> v" and "pc v = at L p" and "code_in L p [op_word JMP, a]"
  shows "reaches sys v (v\<lparr>pc := a\<rparr>)"
  by (rule reaches_step)
    (use good_code [OF assms(1,3)] good_code2 [OF assms(1,3)] assms(2) in \<open>simp add: vm_step_def operand_def word_addr_Suc\<close>)

lemma run_branch:
  assumes "good L d \<rho> v" and "pc v = at L p" and "code_in L p [op_word op, a]" and "op = JZ \<or> op = JNZ"
  shows "reaches sys v (v\<lparr>pc := (if (ax v = 0) = (op = JZ) then a else at L (p + 2))\<rparr>)"
  by (rule reaches_step)
    (use good_code [OF assms(1,3)] good_code2 [OF assms(1,3)] assms(2,4) in \<open>auto simp add: vm_step_def operand_def word_addr_Suc\<close>)

section \<open>Composition\<close>

text \<open>
  From \<open>v\<close> the machine comes to word \<open>q\<close> with \<open>w\<close> in \<open>ax\<close> and the variables \<open>\<rho>'\<close>, the stack as it was and nothing
  else in the memory changed.
\<close>

definition lands :: "(opcode \<Rightarrow> vm \<Rightarrow> vm option) \<Rightarrow> layout \<Rightarrow> nat \<Rightarrow> vm \<Rightarrow> nat \<Rightarrow> u32 \<Rightarrow> env \<Rightarrow> bool" where
  "lands sys L d v q w \<rho>' \<longleftrightarrow> (\<exists>m. reaches sys v (v\<lparr>pc := at L q, ax := w, mem := m\<rparr>) \<and>
     framed L d (bp v) (sp v) (mem v) m \<and> env_in L (bp v) \<rho>' m)"

lemma lands_then:
  assumes "good L d \<rho> v" and "lands sys L d v q w \<rho>1"
    and "\<And>m. good L d \<rho>1 (v\<lparr>pc := at L q, ax := w, mem := m\<rparr>) \<Longrightarrow> lands sys L d (v\<lparr>pc := at L q, ax := w, mem := m\<rparr>) q' w' \<rho>2"
  shows "lands sys L d v q' w' \<rho>2"
proof -
  obtain m where m: "reaches sys v (v\<lparr>pc := at L q, ax := w, mem := m\<rparr>)" "framed L d (bp v) (sp v) (mem v) m" "env_in L (bp v) \<rho>1 m"
    using assms(2) by (auto simp: lands_def)
  obtain m' where m': "reaches sys (v\<lparr>pc := at L q, ax := w, mem := m\<rparr>) (v\<lparr>pc := at L q', ax := w', mem := m'\<rparr>)"
    "framed L d (bp v) (sp v) m m'" "env_in L (bp v) \<rho>2 m'"
    using assms(3) [OF good_framed [OF assms(1) m(2,3)]] by (auto simp: lands_def)
  show ?thesis
    unfolding lands_def using reaches_trans [OF m(1) m'(1)] framed_trans [OF m(2) m'(2)] m'(3) by blast
qed

lemma lands_mono: "lands sys L d v q w \<rho>' \<Longrightarrow> d \<le> d' \<Longrightarrow> lands sys L d' v q w \<rho>'"
  unfolding lands_def using framed_mono by blast

lemma lands_regs:
  "good L d \<rho> v \<Longrightarrow> reaches sys v (v\<lparr>pc := at L q, ax := w\<rparr>) \<Longrightarrow> lands sys L d v q w \<rho>"
  unfolding lands_def by (rule exI [of _ "mem v"]) (simp add: good_def)

lemma lands_imm:
  "good L d \<rho> v \<Longrightarrow> pc v = at L p \<Longrightarrow> code_in L p [op_word IMM, i] \<Longrightarrow> lands sys L d v (p + 2) i \<rho>"
  by (rule lands_regs, assumption, rule run_imm)

lemma lands_jmp:
  "good L d \<rho> v \<Longrightarrow> pc v = at L p \<Longrightarrow> code_in L p [op_word JMP, at L q] \<Longrightarrow> lands sys L d v q (ax v) \<rho>"
  by (rule lands_regs, assumption) (use run_jmp [of L d \<rho> v p "at L q"] in simp)

lemma lands_branch:
  assumes "good L d \<rho> v" and "pc v = at L p" and "code_in L p [op_word op, at L q]" and "op = JZ \<or> op = JNZ"
  shows "lands sys L d v (if (ax v = 0) = (op = JZ) then q else p + 2) (ax v) \<rho>"
  by (rule lands_regs [OF assms(1)]) (use run_branch [OF assms, of sys] in \<open>simp split: if_splits\<close>)

lemma apart_scratch:
  assumes "d < 2 ^ 29" and "t \<in> scratch d s"
  shows "apart s t"
proof -
  obtain k where k: "t = s - 4 * of_nat k" "1 \<le> k" "k \<le> d" using assms(2) by (auto simp: scratch_def)
  have kb: "4 * k < 2 ^ 31" using k(3) assms(1) by simp
  have u: "unat (4 * of_nat k :: u32) = 4 * k"
    using kb by (simp add: unat_word_ariths unat_of_nat take_bit_nat_eq_self)
  have "- (4 * of_nat k :: u32) = of_nat (2 ^ 32 - 4 * k)" using kb by (simp add: of_nat_diff)
  moreover have "unat (of_nat (2 ^ 32 - 4 * k) :: u32) = 2 ^ 32 - 4 * k"
    using k(2) by (simp add: unat_of_nat take_bit_nat_eq_self)
  ultimately have "unat (- (4 * of_nat k :: u32)) = 2 ^ 32 - 4 * k" by simp
  then have "4 \<le> - (4 * of_nat k :: u32)" using kb by (simp add: word_le_nat_alt)
  moreover have "4 \<le> (4 * of_nat k :: u32)" using u k(2) by (simp add: word_le_nat_alt)
  ultimately show ?thesis by (simp add: apart_def k(1))
qed

text \<open>A word pushed is still there after the code that runs on the stack below it.\<close>

lemma pushed_kept:
  assumes "sane L (Suc d) b s m0" and "framed L d b (s - 4) m m'" and "load32 m (s - 4) = Some a"
  shows "load32 m' (s - 4) = Some a"
proof -
  have "d < 2 ^ 29" using assms(1) by (simp add: sane_def)
  then have "\<forall>t \<in> scratch d (s - 4). apart (s - 4) t" using apart_scratch by blast
  moreover have "\<forall>x \<in> lay_vars L. apart (s - 4) (loc L b x)" using assms(1) apart_sym by (simp add: sane_def scratch_Suc)
  ultimately show ?thesis using assms(2,3) by (simp add: framed_def)
qed

lemma sp_pc: "v\<lparr>sp := s, pc := p\<rparr> = v\<lparr>pc := p, sp := s\<rparr>" "v\<lparr>mem := m, pc := p, ax := w\<rparr> = v\<lparr>pc := p, ax := w, mem := m\<rparr>"
  "v\<lparr>ax := w, pc := p\<rparr> = v\<lparr>pc := p, ax := w\<rparr>"
  by (rule vm.equality; simp)+

lemma pushed_run:
  assumes g: "good L (Suc d) \<rho> v" and "pc v = at L p" and "code_in L p [op_word PUSH]"
    and inner: "\<And>v'. good L d \<rho> v' \<Longrightarrow> pc v' = at L (Suc p) \<Longrightarrow> bp v' = bp v \<Longrightarrow> ax v' = ax v \<Longrightarrow> lands sys L d v' q w \<rho>'"
  obtains m where "reaches sys v (v\<lparr>pc := at L q, sp := sp v - 4, ax := w, mem := m\<rparr>)"
    "good L d \<rho>' (v\<lparr>pc := at L q, sp := sp v - 4, ax := w, mem := m\<rparr>)"
    "load32 m (sp v - 4) = Some (ax v)" "framed L (Suc d) (bp v) (sp v) (mem v) m" "env_in L (bp v) \<rho>' m"
proof -
  obtain m where m: "reaches sys v (v\<lparr>pc := at L (Suc p), sp := sp v - 4, mem := m\<rparr>)"
    "good L d \<rho> (v\<lparr>pc := at L (Suc p), sp := sp v - 4, mem := m\<rparr>)"
    "load32 m (sp v - 4) = Some (ax v)" "framed L (Suc d) (bp v) (sp v) (mem v) m"
    by (rule run_push [OF assms(1-3)]) (rule that; assumption)
  let ?v = "v\<lparr>pc := at L (Suc p), sp := sp v - 4, mem := m\<rparr>"
  have "lands sys L d ?v q w \<rho>'" by (rule inner [OF m(2)]) simp_all
  then obtain m' where r: "reaches sys ?v (v\<lparr>pc := at L q, sp := sp v - 4, ax := w, mem := m'\<rparr>)"
    and f: "framed L d (bp v) (sp v - 4) m m'" and e: "env_in L (bp v) \<rho>' m'"
    by (auto simp: lands_def sp_pc)
  have gd: "good L d \<rho>' (v\<lparr>pc := at L q, sp := sp v - 4, ax := w, mem := m'\<rparr>)"
    using good_framed [OF m(2), where m = m' and \<rho>' = \<rho>' and q = "at L q" and w = w] f e by (simp add: sp_pc)
  have k: "load32 m' (sp v - 4) = Some (ax v)"
    by (rule pushed_kept [OF _ f m(3), of "mem v"]) (use g in \<open>simp add: good_def\<close>)
  show thesis by (rule that [OF reaches_trans [OF m(1) r] gd k framed_trans [OF m(4) framed_push [OF f]] e])
qed

lemma lands_binary:
  assumes "good L (Suc d) \<rho> v" and "pc v = at L p" and "code_in L p [op_word PUSH]"
    and "\<And>v'. good L d \<rho> v' \<Longrightarrow> pc v' = at L (Suc p) \<Longrightarrow> bp v' = bp v \<Longrightarrow> ax v' = ax v \<Longrightarrow> lands sys L d v' q w \<rho>'"
    and "code_in L q [op_word op]" and "is_alu op" and "alu op (ax v) w = Some r"
  shows "lands sys L (Suc d) v (Suc q) r \<rho>'"
proof -
  obtain m where m: "reaches sys v (v\<lparr>pc := at L q, sp := sp v - 4, ax := w, mem := m\<rparr>)"
    "good L d \<rho>' (v\<lparr>pc := at L q, sp := sp v - 4, ax := w, mem := m\<rparr>)"
    "load32 m (sp v - 4) = Some (ax v)" "framed L (Suc d) (bp v) (sp v) (mem v) m" "env_in L (bp v) \<rho>' m"
    by (rule pushed_run [OF assms(1-3), where q = q and w = w and \<rho>' = \<rho>' and sys = sys], rule assms(4); (assumption | rule that; assumption))
  have "reaches sys (v\<lparr>pc := at L q, sp := sp v - 4, ax := w, mem := m\<rparr>) (v\<lparr>pc := at L (Suc q), ax := r, mem := m\<rparr>)"
    using run_alu [OF m(2) _ assms(5,6), of "ax v" r sys] m(3) assms(7) by (simp add: sp_pc)
  then show ?thesis unfolding lands_def using reaches_trans [OF m(1)] m(4,5) by blast
qed

lemma lands_assign:
  assumes "good L (Suc d) \<rho> v" and "pc v = at L p" and "code_in L p (place_code (lay_place L x) @ [op_word PUSH])"
    and "\<And>v'. good L d \<rho> v' \<Longrightarrow> pc v' = at L (p + 3) \<Longrightarrow> bp v' = bp v \<Longrightarrow> ax v' = loc L (bp v) x \<Longrightarrow> lands sys L d v' q w \<rho>'"
    and "code_in L q [op_word SI]" and "x \<in> lay_vars L"
  shows "lands sys L (Suc d) v (Suc q) w (\<rho>'(x := w))"
proof -
  let ?v = "v\<lparr>pc := at L (p + 2), ax := loc L (bp v) x\<rparr>"
  have r0: "reaches sys v ?v" using run_place [OF assms(1,2)] assms(3) by simp
  have g: "good L (Suc d) \<rho> ?v" using assms(1) by simp
  obtain m where m: "reaches sys ?v (?v\<lparr>pc := at L q, sp := sp ?v - 4, ax := w, mem := m\<rparr>)"
    "good L d \<rho>' (?v\<lparr>pc := at L q, sp := sp ?v - 4, ax := w, mem := m\<rparr>)"
    "load32 m (sp ?v - 4) = Some (ax ?v)" "framed L (Suc d) (bp ?v) (sp ?v) (mem ?v) m" "env_in L (bp ?v) \<rho>' m"
  proof (rule pushed_run [OF g])
    show "pc ?v = at L (p + 2)" "code_in L (p + 2) [op_word PUSH]" using assms(3) by simp_all
    show "lands sys L d v' q w \<rho>'" if "good L d \<rho> v'" "pc v' = at L (Suc (p + 2))" "bp v' = bp ?v" "ax v' = ax ?v" for v'
      using assms(4) [OF that(1)] that(2-4) by (simp add: eval_nat_numeral)
  qed (rule that; assumption)
  let ?w = "v\<lparr>pc := at L q, sp := sp v - 4, ax := w, mem := m\<rparr>"
  obtain m' where m': "reaches sys ?w (?w\<lparr>pc := at L (Suc q), sp := sp ?w + 4, mem := m'\<rparr>)"
    "framed L d (bp ?w) (sp ?w) (mem ?w) m'" "env_in L (bp ?w) (\<rho>'(x := ax ?w)) m'"
    by (rule run_si [OF _ _ assms(5,6), of d \<rho>' ?w sys]) (use m in \<open>simp_all\<close>)
  have f: "framed L (Suc d) (bp v) (sp v) (mem v) m'" using framed_trans [OF _ framed_push] m(4) m'(2) by simp
  have "reaches sys v (v\<lparr>pc := at L (Suc q), ax := w, mem := m'\<rparr>)"
    using reaches_trans [OF reaches_trans [OF r0 m(1)]] m'(1) by (simp add: sp_pc)
  then show ?thesis unfolding lands_def using f m'(3) by auto
qed

section \<open>Running the code of an expression\<close>

fun alu_ops :: "exp \<Rightarrow> bool" where
  "alu_ops (EBin op a b) \<longleftrightarrow> is_alu op \<and> alu_ops a \<and> alu_ops b"
| "alu_ops (EParen e) = alu_ops e" | "alu_ops (ENeg e) = alu_ops e" | "alu_ops (EPlus e) = alu_ops e" | "alu_ops (ENot e) = alu_ops e"
| "alu_ops (EBitNot e) = alu_ops e" | "alu_ops (EAssign x e) = alu_ops e" | "alu_ops (EAnd a b) \<longleftrightarrow> alu_ops a \<and> alu_ops b"
| "alu_ops (EOr a b) \<longleftrightarrow> alu_ops a \<and> alu_ops b" | "alu_ops (ECond c a b) \<longleftrightarrow> alu_ops c \<and> alu_ops a \<and> alu_ops b"
| "alu_ops _ \<longleftrightarrow> True"

abbreviation code_of_in :: "layout \<Rightarrow> nat \<Rightarrow> exp \<Rightarrow> bool" where
  "code_of_in L p e \<equiv> code_in L p (code_of (lay_base L) (lay_place L) p e)"

lemma lands_li:
  assumes "good L d \<rho> v" and "pc v = at L p" and "code_in L p [op_word LI]" and "x \<in> lay_vars L" and "ax v = loc L (bp v) x"
  shows "lands sys L d v (Suc p) (\<rho> x) \<rho>"
  by (rule lands_regs [OF assms(1) run_li [OF assms(1-3)]]) (use good_var [OF assms(1,4)] assms(5) in simp)

lemma lands_place:
  assumes "good L d \<rho> v" and "pc v = at L p" and "code_in L p (place_code (lay_place L x))"
  shows "lands sys L d v (p + 2) (loc L (bp v) x) \<rho>"
  by (rule lands_regs [OF assms(1) run_place [OF assms]])

lemma alu_simps [simp]: "alu BOR a b = Some (a OR b)" "alu BXOR a b = Some (a XOR b)" "alu EQ a b = Some (truth (a = b))"
  "alu ADD a b = Some (a + b)" "alu SUB a b = Some (a - b)" "alu MUL a b = Some (a * b)" "is_alu EQ" "is_alu BXOR" "is_alu ADD" "is_alu SUB" "is_alu MUL"
  by (simp_all add: alu_def is_alu_def)

text \<open>\<open>PUSH; IMM i; op\<close>.\<close>

lemma lands_binary_imm:
  assumes "good L (Suc d) \<rho> v" and "pc v = at L p" and "code_in L p [op_word PUSH, op_word IMM, i, op_word op]"
    and "is_alu op" and "alu op (ax v) i = Some r"
  shows "lands sys L (Suc d) v (p + 4) r \<rho>"
proof -
  have c: "code_in L p [op_word PUSH]" "code_in L (Suc p) [op_word IMM, i]" "code_in L (Suc p + 2) [op_word op]"
    using assms(3) by simp_all
  have "lands sys L (Suc d) v (Suc (Suc p + 2)) r \<rho>"
    by (rule lands_binary [OF assms(1,2) c(1) _ c(3) assms(4,5)]) (rule lands_imm [OF _ _ c(2)])
  then show ?thesis by (simp add: eval_nat_numeral)
qed

lemma lands_pre:
  assumes "good L 2 \<rho> v" and "pc v = at L p" and "code_of_in L p (EPre inc x)" and "x \<in> lay_vars L"
  shows "lands sys L 2 v (p + 9) (if inc then \<rho> x + 1 else \<rho> x - 1) (\<rho>(x := (if inc then \<rho> x + 1 else \<rho> x - 1)))"
proof -
  have c: "code_in L p (place_code (lay_place L x) @ [op_word PUSH])" "code_in L (p + 3) [op_word LI]"
    "code_in L (p + 4) [op_word PUSH, op_word IMM, 1, op_word (if inc then ADD else SUB)]" "code_in L (p + 8) [op_word SI]"
    using assms(3) by (simp_all add: eval_nat_numeral)
  have "lands sys L (Suc 1) v (Suc (p + 8)) (if inc then \<rho> x + 1 else \<rho> x - 1) (\<rho>(x := (if inc then \<rho> x + 1 else \<rho> x - 1)))"
  proof (rule lands_assign [OF _ assms(2) c(1) _ c(4) assms(4)])
    show "good L (Suc 1) \<rho> v" using assms(1) by (simp add: eval_nat_numeral)
    fix v' assume v': "good L 1 \<rho> v'" "pc v' = at L (p + 3)" "bp v' = bp v" "ax v' = loc L (bp v) x"
    have l: "lands sys L 1 v' (Suc (p + 3)) (\<rho> x) \<rho>" by (rule lands_li [OF v'(1,2) c(2) assms(4)]) (simp add: v'(3,4))
    show "lands sys L 1 v' (p + 8) (if inc then \<rho> x + 1 else \<rho> x - 1) \<rho>"
    proof (rule lands_then [OF v'(1) l])
      fix m assume g: "good L 1 \<rho> (v'\<lparr>pc := at L (Suc (p + 3)), ax := \<rho> x, mem := m\<rparr>)"
      have "lands sys L (Suc 0) (v'\<lparr>pc := at L (Suc (p + 3)), ax := \<rho> x, mem := m\<rparr>) (p + 4 + 4) (if inc then \<rho> x + 1 else \<rho> x - 1) \<rho>"
        by (rule lands_binary_imm [OF _ _ c(3)]) (use g in \<open>auto simp: eval_nat_numeral\<close>)
      then show "lands sys L 1 (v'\<lparr>pc := at L (Suc (p + 3)), ax := \<rho> x, mem := m\<rparr>) (p + 8) (if inc then \<rho> x + 1 else \<rho> x - 1) \<rho>" by (simp add: eval_nat_numeral)
    qed
  qed
  then show ?thesis by (simp add: eval_nat_numeral)
qed

lemma lands_neg:
  assumes g: "good L d \<rho> v" "pc v = at L p" and c: "code_in L p [op_word IMM, - 1, op_word PUSH]" "code_in L q [op_word MUL]" and d: "Suc d' \<le> d"
    and inner: "\<And>v'. good L d' \<rho> v' \<Longrightarrow> pc v' = at L (p + 3) \<Longrightarrow> lands sys L d' v' q w \<rho>'"
  shows "lands sys L d v (Suc q) (- w) \<rho>'"
proof (rule lands_then [OF g(1) lands_imm [OF g]])
  show "code_in L p [op_word IMM, - 1]" using c(1) by simp
  fix m assume "good L d \<rho> (v\<lparr>pc := at L (p + 2), ax := - 1, mem := m\<rparr>)"
  then have g': "good L (Suc d') \<rho> (v\<lparr>pc := at L (p + 2), ax := - 1, mem := m\<rparr>)" by (rule good_mono [OF _ d])
  have "lands sys L (Suc d') (v\<lparr>pc := at L (p + 2), ax := - 1, mem := m\<rparr>) (Suc q) (- w) \<rho>'"
  proof (rule lands_binary [OF g' _ _ _ c(2)])
    show "lands sys L d' v' q w \<rho>'" if "good L d' \<rho> v'" "pc v' = at L (Suc (p + 2))" for v'
      using inner [OF that(1)] that(2) by (simp add: eval_nat_numeral)
  qed (use c(1) in simp_all)
  then show "lands sys L d (v\<lparr>pc := at L (p + 2), ax := - 1, mem := m\<rparr>) (Suc q) (- w) \<rho>'" by (rule lands_mono [OF _ d])
qed

lemma neg_shape:
  assumes "\<And>n. e \<noteq> ENum n"
  shows "code_of tb pl p (ENeg e) = [op_word IMM, - 1, op_word PUSH] @ code_of tb pl (p + 3) e @ [op_word MUL]"
    "csize (ENeg e) = csize e + 4" "depth (ENeg e) = Suc (depth e)"
  using assms by (cases e; simp)+

lemma lands_at: "lands sys L d v q w \<rho>' \<Longrightarrow> q = q' \<Longrightarrow> lands sys L d v q' w \<rho>'"
  by simp

lemma Suc_le_good: "Suc d' \<le> d \<Longrightarrow> good L d \<rho> v \<Longrightarrow> good L (Suc d') \<rho> v"
  by (rule good_mono)

lemma code_runs:
  "good L d \<rho> v \<Longrightarrow> pc v = at L p \<Longrightarrow> code_of_in L p e \<Longrightarrow> sem e \<rho> = Some (w, \<rho>') \<Longrightarrow> vars e \<subseteq> lay_vars L \<Longrightarrow>
   depth e \<le> d \<Longrightarrow> alu_ops e \<Longrightarrow> lands sys L d v (p + csize e) w \<rho>'"
proof (induction e arbitrary: d \<rho> v p w \<rho>')
  case (ENum n)
  then show ?case using lands_imm [OF ENum.prems(1,2), of n sys] by simp
next
  case (EVar x)
  then have c: "code_in L p (place_code (lay_place L x))" "code_in L (p + 2) [op_word LI]" by simp_all
  show ?case
  proof (rule lands_then [OF EVar.prems(1) lands_place [OF EVar.prems(1,2) c(1)]])
    fix m assume g: "good L d \<rho> (v\<lparr>pc := at L (p + 2), ax := loc L (bp v) x, mem := m\<rparr>)"
    have "lands sys L d (v\<lparr>pc := at L (p + 2), ax := loc L (bp v) x, mem := m\<rparr>) (Suc (p + 2)) (\<rho> x) \<rho>"
      by (rule lands_li [OF g _ c(2)]) (use EVar.prems(5) in simp_all)
    then show "lands sys L d (v\<lparr>pc := at L (p + 2), ax := loc L (bp v) x, mem := m\<rparr>) (p + csize (EVar x)) w \<rho>'"
      using EVar.prems(4) by (auto simp add: eval_nat_numeral)
  qed
next
  case (ENeg e)
  show ?case
  proof (cases "\<exists>n. e = ENum n")
    case True
    then obtain n where "e = ENum n" by blast
    then show ?thesis using lands_imm [OF ENeg.prems(1,2), of "- n" sys] ENeg.prems by simp
  next
    case False
    then have ne: "\<And>n. e \<noteq> ENum n" by simp
    obtain u where u: "sem e \<rho> = Some (u, \<rho>')" "w = - u" using ENeg.prems(4) by (auto split: Option.bind_splits)
    have c: "code_in L p [op_word IMM, - 1, op_word PUSH]" "code_of_in L (p + 3) e" "code_in L (p + 3 + csize e) [op_word MUL]"
      using ENeg.prems(3) unfolding neg_shape(1) [OF ne] by (simp_all add: eval_nat_numeral)
    have "lands sys L d v (Suc (p + 3 + csize e)) (- u) \<rho>'"
    proof (rule lands_neg [OF ENeg.prems(1,2) c(1,3), of "depth e"])
      show "Suc (depth e) \<le> d" using ENeg.prems(6) neg_shape(3) [OF ne] by simp
      show "lands sys L (depth e) v' (p + 3 + csize e) u \<rho>'" if "good L (depth e) \<rho> v'" "pc v' = at L (p + 3)" for v'
        by (rule ENeg.IH [OF that c(2) u(1)]) (use ENeg.prems in auto)
    qed
    then show ?thesis unfolding neg_shape(2) [OF ne] u(2) by (simp add: ac_simps)
  qed
next
  case (ENot e)
  obtain u where u: "sem e \<rho> = Some (u, \<rho>')" "w = truth (u = 0)" using ENot.prems(4) by (auto split: Option.bind_splits)
  have c: "code_of_in L p e" "code_in L (p + csize e) [op_word PUSH, op_word IMM, 0, op_word EQ]" using ENot.prems(3) by simp_all
  have d: "Suc 0 \<le> d" "depth e \<le> d" using ENot.prems(6) by simp_all
  have l: "lands sys L d v (p + csize e) u \<rho>'" by (rule ENot.IH [OF ENot.prems(1,2) c(1) u(1)]) (use ENot.prems d in auto)
  show ?case
  proof (rule lands_then [OF ENot.prems(1) l])
    fix m assume g: "good L d \<rho>' (v\<lparr>pc := at L (p + csize e), ax := u, mem := m\<rparr>)"
    have "lands sys L (Suc 0) (v\<lparr>pc := at L (p + csize e), ax := u, mem := m\<rparr>) (p + csize e + 4) w \<rho>'"
      by (rule lands_binary_imm [OF Suc_le_good [OF d(1) g] _ c(2)]) (simp_all add: u(2))
    then show "lands sys L d (v\<lparr>pc := at L (p + csize e), ax := u, mem := m\<rparr>) (p + csize (ENot e)) w \<rho>'"
      using lands_mono [OF _ d(1)] by (simp add: add.assoc)
  qed
next
  case (EBitNot e)
  obtain u where u: "sem e \<rho> = Some (u, \<rho>')" "w = NOT u" using EBitNot.prems(4) by (auto split: Option.bind_splits)
  have c: "code_of_in L p e" "code_in L (p + csize e) [op_word PUSH, op_word IMM, - 1, op_word BXOR]" using EBitNot.prems(3) by simp_all
  have d: "Suc 0 \<le> d" "depth e \<le> d" using EBitNot.prems(6) by simp_all
  have l: "lands sys L d v (p + csize e) u \<rho>'" by (rule EBitNot.IH [OF EBitNot.prems(1,2) c(1) u(1)]) (use EBitNot.prems d in auto)
  show ?case
  proof (rule lands_then [OF EBitNot.prems(1) l])
    fix m assume g: "good L d \<rho>' (v\<lparr>pc := at L (p + csize e), ax := u, mem := m\<rparr>)"
    have "lands sys L (Suc 0) (v\<lparr>pc := at L (p + csize e), ax := u, mem := m\<rparr>) (p + csize e + 4) w \<rho>'"
      by (rule lands_binary_imm [OF Suc_le_good [OF d(1) g] _ c(2)]) (simp_all add: u(2))
    then show "lands sys L d (v\<lparr>pc := at L (p + csize e), ax := u, mem := m\<rparr>) (p + csize (EBitNot e)) w \<rho>'"
      using lands_mono [OF _ d(1)] by (simp add: add.assoc)
  qed
next
  case (EPre inc x)
  let ?w = "if inc then \<rho> x + 1 else \<rho> x - 1"
  have e: "\<rho>' = \<rho>(x := ?w) \<and> w = ?w" using EPre.prems(4) unfolding sem.simps Let_def option.inject prod.inject by (elim conjE) (rule conjI; rule sym)
  have "lands sys L 2 v (p + 9) ?w (\<rho>(x := ?w))"
    by (rule lands_pre [OF good_mono [OF EPre.prems(1)] EPre.prems(2,3)]) (use EPre.prems in simp_all)
  then have "lands sys L d v (p + 9) ?w (\<rho>(x := ?w))" by (rule lands_mono) (use EPre.prems(6) in simp)
  then show ?case using e by (simp only: csize.simps)
next
  case (EPost inc x)
  let ?w = "if inc then \<rho> x + 1 else \<rho> x - 1"
  have g2: "good L 2 \<rho> v" and d: "2 \<le> d" using good_mono [OF EPost.prems(1)] EPost.prems(6) by simp_all
  have c: "code_of_in L p (EPre inc x)" "code_in L (p + 9) [op_word PUSH, op_word IMM, 1, op_word (if inc then SUB else ADD)]"
    using EPost.prems(3) by (simp_all add: eval_nat_numeral)
  have "lands sys L 2 v (p + 9) ?w (\<rho>(x := ?w))"
    by (rule lands_pre [OF g2 EPost.prems(2) c(1)]) (use EPost.prems in simp)
  then have "lands sys L 2 v (p + 13) (\<rho> x) (\<rho>(x := ?w))"
  proof (rule lands_then [OF g2])
    fix m assume g: "good L 2 (\<rho>(x := ?w)) (v\<lparr>pc := at L (p + 9), ax := ?w, mem := m\<rparr>)"
    have "lands sys L (Suc 1) (v\<lparr>pc := at L (p + 9), ax := ?w, mem := m\<rparr>) (p + 9 + 4) (\<rho> x) (\<rho>(x := ?w))"
      by (rule lands_binary_imm [OF _ _ c(2)]) (use g in \<open>auto simp: eval_nat_numeral\<close>)
    then show "lands sys L 2 (v\<lparr>pc := at L (p + 9), ax := ?w, mem := m\<rparr>) (p + 13) (\<rho> x) (\<rho>(x := ?w))" by (simp add: eval_nat_numeral)
  qed
  then have "lands sys L d v (p + 13) (\<rho> x) (\<rho>(x := ?w))" by (rule lands_mono [OF _ d])
  moreover have "w = \<rho> x \<and> \<rho>' = \<rho>(x := ?w)" using EPost.prems(4) unfolding sem.simps option.inject prod.inject by (elim conjE) (rule conjI; rule sym)
  ultimately show ?case by (simp only: csize.simps)
next
  case (EBin op a b)
  obtain x \<rho>1 y where s: "sem a \<rho> = Some (x, \<rho>1)" "sem b \<rho>1 = Some (y, \<rho>')" "alu op x y = Some w"
    using EBin.prems(4) by (auto split: Option.bind_splits)
  have c: "code_of_in L p a" "code_in L (p + csize a) [op_word PUSH]" "code_of_in L (Suc (p + csize a)) b"
    "code_in L (Suc (p + csize a) + csize b) [op_word op]" using EBin.prems(3) by simp_all
  have d: "depth a \<le> d" "Suc (depth b) \<le> d" using EBin.prems(6) by simp_all
  have l: "lands sys L d v (p + csize a) x \<rho>1" by (rule EBin.IH(1) [OF EBin.prems(1,2) c(1) s(1)]) (use EBin.prems d in auto)
  show ?case
  proof (rule lands_then [OF EBin.prems(1) l])
    fix m assume g: "good L d \<rho>1 (v\<lparr>pc := at L (p + csize a), ax := x, mem := m\<rparr>)"
    have "lands sys L (Suc (depth b)) (v\<lparr>pc := at L (p + csize a), ax := x, mem := m\<rparr>) (Suc (Suc (p + csize a) + csize b)) w \<rho>'"
    proof (rule lands_binary [OF Suc_le_good [OF d(2) g] _ c(2) _ c(4)])
      show "lands sys L (depth b) v' (Suc (p + csize a) + csize b) y \<rho>'" if "good L (depth b) \<rho>1 v'" "pc v' = at L (Suc (p + csize a))" for v'
        by (rule EBin.IH(2) [OF that c(3) s(2)]) (use EBin.prems in auto)
    qed (use s(3) EBin.prems(7) in simp_all)
    then show "lands sys L d (v\<lparr>pc := at L (p + csize a), ax := x, mem := m\<rparr>) (p + csize (EBin op a b)) w \<rho>'"
      using lands_mono [OF _ d(2)] by (simp add: add.assoc)
  qed
next
  case (EAnd a b)
  obtain x \<rho>1 where s: "sem a \<rho> = Some (x, \<rho>1)" "(if x = 0 then Some (x, \<rho>1) else sem b \<rho>1) = Some (w, \<rho>')"
    using EAnd.prems(4) by (auto split: Option.bind_splits)
  have c: "code_of_in L p a" "code_in L (p + csize a) [op_word JZ, at L (p + csize a + csize b + 2)]" "code_of_in L (p + csize a + 2) b"
    using EAnd.prems(3) by (simp_all add: add.assoc)
  have l: "lands sys L d v (p + csize a) x \<rho>1" by (rule EAnd.IH(1) [OF EAnd.prems(1,2) c(1) s(1)]) (use EAnd.prems in auto)
  show ?case
  proof (rule lands_then [OF EAnd.prems(1) l])
    fix m assume g: "good L d \<rho>1 (v\<lparr>pc := at L (p + csize a), ax := x, mem := m\<rparr>)"
    let ?v = "v\<lparr>pc := at L (p + csize a), ax := x, mem := m\<rparr>"
    have j: "lands sys L d ?v (if x = 0 then p + csize a + csize b + 2 else p + csize a + 2) x \<rho>1"
      using lands_branch [OF g _ c(2)] by simp
    show "lands sys L d ?v (p + csize (EAnd a b)) w \<rho>'"
    proof (cases "x = 0")
      case True
      then show ?thesis using j s(2) by (simp add: add.assoc)
    next
      case False
      show ?thesis
      proof (rule lands_then [OF g j])
        fix m' assume g': "good L d \<rho>1 (?v\<lparr>pc := at L (if x = 0 then p + csize a + csize b + 2 else p + csize a + 2), ax := x, mem := m'\<rparr>)"
        have "lands sys L d (?v\<lparr>pc := at L (p + csize a + 2), ax := x, mem := m'\<rparr>) (p + csize a + 2 + csize b) w \<rho>'"
          by (rule EAnd.IH(2) [OF _ _ c(3)]) (use g' False s(2) EAnd.prems in auto)
        then show "lands sys L d (?v\<lparr>pc := at L (if x = 0 then p + csize a + csize b + 2 else p + csize a + 2), ax := x, mem := m'\<rparr>) (p + csize (EAnd a b)) w \<rho>'"
          using False by (simp add: ac_simps)
      qed
    qed
  qed
next
  case (EOr a b)
  obtain x \<rho>1 where s: "sem a \<rho> = Some (x, \<rho>1)" "(if x \<noteq> 0 then Some (x, \<rho>1) else sem b \<rho>1) = Some (w, \<rho>')"
    using EOr.prems(4) by (auto split: Option.bind_splits)
  have c: "code_of_in L p a" "code_in L (p + csize a) [op_word JNZ, at L (p + csize a + csize b + 2)]" "code_of_in L (p + csize a + 2) b"
    using EOr.prems(3) by (simp_all add: add.assoc)
  have l: "lands sys L d v (p + csize a) x \<rho>1" by (rule EOr.IH(1) [OF EOr.prems(1,2) c(1) s(1)]) (use EOr.prems in auto)
  show ?case
  proof (rule lands_then [OF EOr.prems(1) l])
    fix m assume g: "good L d \<rho>1 (v\<lparr>pc := at L (p + csize a), ax := x, mem := m\<rparr>)"
    let ?v = "v\<lparr>pc := at L (p + csize a), ax := x, mem := m\<rparr>"
    have j: "lands sys L d ?v (if x \<noteq> 0 then p + csize a + csize b + 2 else p + csize a + 2) x \<rho>1"
      using lands_branch [OF g _ c(2), of sys] by (simp split: if_splits)
    show "lands sys L d ?v (p + csize (EOr a b)) w \<rho>'"
    proof (cases "x = 0")
      case False
      then show ?thesis using j s(2) by (simp add: add.assoc)
    next
      case True
      show ?thesis
      proof (rule lands_then [OF g j])
        fix m' assume g': "good L d \<rho>1 (?v\<lparr>pc := at L (if x \<noteq> 0 then p + csize a + csize b + 2 else p + csize a + 2), ax := x, mem := m'\<rparr>)"
        have "lands sys L d (?v\<lparr>pc := at L (p + csize a + 2), ax := x, mem := m'\<rparr>) (p + csize a + 2 + csize b) w \<rho>'"
          by (rule EOr.IH(2) [OF _ _ c(3)]) (use g' True s(2) EOr.prems in auto)
        then show "lands sys L d (?v\<lparr>pc := at L (if x \<noteq> 0 then p + csize a + csize b + 2 else p + csize a + 2), ax := x, mem := m'\<rparr>) (p + csize (EOr a b)) w \<rho>'"
          using True by (simp add: ac_simps)
      qed
    qed
  qed
next
  case (EAssign x e)
  obtain u \<rho>1 where u: "sem e \<rho> = Some (w, \<rho>1)" "\<rho>' = \<rho>1(x := w)" using EAssign.prems(4) by (auto split: Option.bind_splits)
  have c: "code_in L p (place_code (lay_place L x) @ [op_word PUSH])" "code_of_in L (p + 3) e" "code_in L (p + 3 + csize e) [op_word SI]"
    using EAssign.prems(3) by (simp_all add: eval_nat_numeral)
  have d: "Suc (depth e) \<le> d" using EAssign.prems(6) by simp
  have "lands sys L (Suc (depth e)) v (Suc (p + 3 + csize e)) w (\<rho>1(x := w))"
  proof (rule lands_assign [OF Suc_le_good [OF d EAssign.prems(1)] EAssign.prems(2) c(1) _ c(3)])
    show "lands sys L (depth e) v' (p + 3 + csize e) w \<rho>1" if "good L (depth e) \<rho> v'" "pc v' = at L (p + 3)" for v'
      by (rule EAssign.IH [OF that c(2) u(1)]) (use EAssign.prems in auto)
  qed (use EAssign.prems(5) in simp)
  then have "lands sys L d v (Suc (p + 3 + csize e)) w \<rho>'" unfolding u(2) by (rule lands_mono [OF _ d])
  then show ?case by (rule lands_at) simp
next
  case (ECond c' a b)
  let ?q = "p + csize c'" and ?r = "p + csize c' + csize a + 4"
  obtain x \<rho>1 where s: "sem c' \<rho> = Some (x, \<rho>1)" "(if x \<noteq> 0 then sem a \<rho>1 else sem b \<rho>1) = Some (w, \<rho>')"
    using ECond.prems(4) by (auto split: Option.bind_splits)
  have c: "code_of_in L p c'" "code_in L ?q [op_word JZ, at L ?r]" "code_of_in L (?q + 2) a"
    "code_in L (?q + 2 + csize a) [op_word JMP, at L (?r + csize b)]" "code_of_in L ?r b"
    using ECond.prems(3) by (simp_all add: eval_nat_numeral ac_simps)
  have l: "lands sys L d v ?q x \<rho>1" by (rule ECond.IH(1) [OF ECond.prems(1,2) c(1) s(1)]) (use ECond.prems in auto)
  show ?case
  proof (rule lands_then [OF ECond.prems(1) l])
    fix m assume g: "good L d \<rho>1 (v\<lparr>pc := at L ?q, ax := x, mem := m\<rparr>)"
    let ?v = "v\<lparr>pc := at L ?q, ax := x, mem := m\<rparr>"
    have j: "lands sys L d ?v (if x = 0 then ?r else ?q + 2) x \<rho>1"
      using lands_branch [OF g _ c(2), of sys] by (simp split: if_splits)
    show "lands sys L d ?v (p + csize (ECond c' a b)) w \<rho>'"
    proof (rule lands_then [OF g j])
      fix m' assume g': "good L d \<rho>1 (?v\<lparr>pc := at L (if x = 0 then ?r else ?q + 2), ax := x, mem := m'\<rparr>)"
      show "lands sys L d (?v\<lparr>pc := at L (if x = 0 then ?r else ?q + 2), ax := x, mem := m'\<rparr>) (p + csize (ECond c' a b)) w \<rho>'"
      proof (cases "x = 0")
        case True
        have "lands sys L d (?v\<lparr>pc := at L ?r, ax := x, mem := m'\<rparr>) (?r + csize b) w \<rho>'"
          by (rule ECond.IH(3) [OF _ _ c(5)]) (use g' True s(2) ECond.prems in auto)
        then show ?thesis using True by (simp add: ac_simps)
      next
        case False
        let ?u = "?v\<lparr>pc := at L (?q + 2), ax := x, mem := m'\<rparr>"
        have gu: "good L d \<rho>1 ?u" using g' False by simp
        have "lands sys L d ?u (?q + 2 + csize a) w \<rho>'"
          by (rule ECond.IH(2) [OF gu _ c(3)]) (use False s(2) ECond.prems in auto)
        then have "lands sys L d ?u (?r + csize b) w \<rho>'"
        proof (rule lands_then [OF gu])
          fix m2 assume g2: "good L d \<rho>' (?u\<lparr>pc := at L (?q + 2 + csize a), ax := w, mem := m2\<rparr>)"
          show "lands sys L d (?u\<lparr>pc := at L (?q + 2 + csize a), ax := w, mem := m2\<rparr>) (?r + csize b) w \<rho>'"
            using lands_jmp [OF g2 _ c(4)] by simp
        qed
        then show ?thesis using False by (simp add: ac_simps)
      qed
    qed
  qed
qed simp_all

end
