(* ===== verification/Cc_Parse.thy ===== *)
theory Cc_Parse imports Cc Cc_Exec
begin

text \<open>
  What \<open>expression\<close> of developer/lex.c does with the tokens of an expression: it emits the code of
  \<open>Cc_Exec\<close> and stops at the first token that does not belong to it.
\<close>

section \<open>Streams of tokens\<close>

datatype lexeme = Lx int | LNum u32 | LId nat

primrec tok :: "lexeme \<Rightarrow> int" where
  "tok (Lx t) = t" | "tok (LNum v) = T_Num" | "tok (LId i) = T_Id"

text \<open>
  With the symbols \<open>syms\<close> and from the source \<open>s\<close> the next token is \<open>t\<close>, with the source \<open>s'\<close> behind it; the
  lexer then changes nothing else: \<open>token_val\<close> only for a number and \<open>current_id\<close> only for an identifier
  or a keyword.
\<close>

definition ident_tok :: "int \<Rightarrow> bool" where
  "ident_tok k \<longleftrightarrow> T_Id \<le> k \<and> k \<le> T_While"

definition lexes1 :: "symbol list \<Rightarrow> u8 list \<Rightarrow> lexeme \<Rightarrow> u8 list \<Rightarrow> bool" where
  "lexes1 syms s t s' \<longleftrightarrow> (\<forall>st. src st = s \<and> symbols st = syms \<longrightarrow>
     (\<exists>c. lex_next st = Done (st\<lparr>src := s', token := tok t, token_val := (case t of LNum v \<Rightarrow> v | _ \<Rightarrow> token_val st), current_id := c\<rparr>) \<and>
       (\<forall>i. t = LId i \<longrightarrow> c = i) \<and> (\<not> ident_tok (tok t) \<longrightarrow> c = current_id st)))"

primrec lexes :: "symbol list \<Rightarrow> u8 list \<Rightarrow> lexeme list \<Rightarrow> bool" where
  "lexes syms s [] \<longleftrightarrow> s = []"
| "lexes syms s (t # ts) \<longleftrightarrow> (\<exists>s'. lexes1 syms s t s' \<and> lexes syms s' ts)"

definition current :: "lexeme \<Rightarrow> lexer \<Rightarrow> bool" where
  "current t st \<longleftrightarrow> token st = tok t \<and> (\<forall>v. t = LNum v \<longrightarrow> token_val st = v) \<and> (\<forall>i. t = LId i \<longrightarrow> current_id st = i)"

definition reads :: "lexeme list \<Rightarrow> lexer \<Rightarrow> bool" where
  "reads ts st \<longleftrightarrow> (case ts of [] \<Rightarrow> True | t # ts \<Rightarrow> current t st \<and> lexes (symbols st) (src st) ts)"

text \<open>What parsing an expression leaves as it is.\<close>

definition ctx :: "lexer \<Rightarrow> symbol list \<times> nat \<times> int \<times> int \<times> u32 \<times> u8 list \<times> u32" where
  "ctx st = (symbols st, main_id st, basetype st, index_of_bp st, text_base st, data st, data_base st)"

definition parses :: "step \<Rightarrow> lexer \<Rightarrow> lexeme list \<Rightarrow> u32 list \<Rightarrow> int \<Rightarrow> bool" where
  "parses f st ts T ty \<longleftrightarrow> (\<exists>st'. f st = Done st' \<and> reads ts st' \<and> ctx st' = ctx st \<and> ltext st' = T \<and> expr_type st' = ty)"

lemma reads_Cons: "reads (t # ts) st \<longleftrightarrow> current t st \<and> lexes (symbols st) (src st) ts"
  by (simp add: reads_def)

lemma reads_token: "reads (t # ts) st \<Longrightarrow> token st = tok t"
  by (simp add: reads_Cons current_def)

lemma reads_upd [simp]: "reads ts (st\<lparr>ltext := x\<rparr>) = reads ts st" "reads ts (st\<lparr>expr_type := y\<rparr>) = reads ts st"
  by (simp_all add: reads_def current_def split: list.splits)

lemma ctx_upd [simp]: "ctx (st\<lparr>ltext := x\<rparr>) = ctx st" "ctx (st\<lparr>expr_type := y\<rparr>) = ctx st"
  "ctx (st\<lparr>src := s, token := t, token_val := v, current_id := c\<rparr>) = ctx st"
  by (simp_all add: ctx_def)

lemma parses_seq:
  assumes "parses f st ts1 T1 ty1"
    and "\<And>st1. reads ts1 st1 \<Longrightarrow> ctx st1 = ctx st \<Longrightarrow> ltext st1 = T1 \<Longrightarrow> expr_type st1 = ty1 \<Longrightarrow> parses (seq fs) st1 ts T ty"
  shows "parses (seq (f # fs)) st ts T ty"
proof -
  obtain st1 where s: "f st = Done st1" "reads ts1 st1" "ctx st1 = ctx st" "ltext st1 = T1" "expr_type st1 = ty1"
    using assms(1) by (auto simp: parses_def)
  show ?thesis using assms(2) [OF s(2-5)] s(1,3) by (simp add: parses_def)
qed

lemma parses_Nil: "reads ts st \<Longrightarrow> ltext st = T \<Longrightarrow> expr_type st = ty \<Longrightarrow> parses (seq []) st ts T ty"
  by (simp add: parses_def)

lemma parses_Done: "reads ts st \<Longrightarrow> parses Done st ts (ltext st) (expr_type st)"
  by (simp add: parses_def)

text \<open>The token behind the current one becomes the current one.\<close>

lemma lex_next_reads:
  assumes "reads (t # t' # ts) st"
  obtains st' where "lex_next st = Done st'" "reads (t' # ts) st'" "ctx st' = ctx st" "ltext st' = ltext st" "expr_type st' = expr_type st"
    "(\<forall>v. t' \<noteq> LNum v) \<Longrightarrow> token_val st' = token_val st" "\<not> ident_tok (tok t') \<Longrightarrow> current_id st' = current_id st"
proof -
  obtain s' where s: "lexes1 (symbols st) (src st) t' s'" "lexes (symbols st) s' ts" using assms by (auto simp: reads_Cons)
  obtain c where c: "lex_next st = Done (st\<lparr>src := s', token := tok t', token_val := (case t' of LNum v \<Rightarrow> v | _ \<Rightarrow> token_val st), current_id := c\<rparr>)"
    "\<forall>i. t' = LId i \<longrightarrow> c = i" "\<not> ident_tok (tok t') \<longrightarrow> c = current_id st" using s(1) by (auto simp: lexes1_def)
  show thesis
    by (rule that [OF c(1)]) (use s(2) c(2,3) in \<open>auto simp: reads_Cons current_def split: lexeme.splits\<close>)
qed

lemma parses_match: "reads (t # t' # ts) st \<Longrightarrow> tok t = tk \<Longrightarrow> parses (lex_match tk) st (t' # ts) (ltext st) (expr_type st)"
  by (rule lex_next_reads, assumption) (auto simp: parses_def lex_match_def reads_token)

lemma parses_emit:
  "reads ts st \<Longrightarrow> length (ltext st) < TEXT_WORDS \<Longrightarrow> parses (emit f) st ts (ltext st @ [f st]) (expr_type st)"
  by (simp add: parses_def emit_def)

lemma parses_set_type: "reads ts st \<Longrightarrow> parses (set_type f) st ts (ltext st) (f st)"
  by (simp add: parses_def set_type_def)

lemma parses_patch:
  "reads ts st \<Longrightarrow> parses (patch_text i k) st ts ((ltext st)[i := text_ptr st + 4 * of_nat k]) (expr_type st)"
  by (simp add: parses_def patch_text_def)

lemma parses_hole:
  assumes "reads ts0 st" and "length (ltext st) + 1 < TEXT_WORDS"
    and "\<And>st1. reads ts0 st1 \<Longrightarrow> ctx st1 = ctx st \<Longrightarrow> ltext st1 = ltext st @ [op_word op, 0] \<Longrightarrow> expr_type st1 = expr_type st \<Longrightarrow>
      parses (body (length (ltext st) + 1)) st1 ts T ty"
  shows "parses (hole op body) st ts T ty"
proof -
  let ?st = "st\<lparr>ltext := ltext st @ [op_word op, 0]\<rparr>"
  have "seq [emit_op op, emit (\<lambda>_. 0)] st = Done ?st" using assms(2) by (simp add: emit_def)
  then have "hole op body st = body (length (ltext st) + 1) ?st" by (simp add: hole_def)
  moreover have "parses (body (length (ltext st) + 1)) ?st ts T ty" by (rule assms(3)) (use assms(1) in simp_all)
  ultimately show ?thesis by (simp add: parses_def)
qed

section \<open>The grammar\<close>

definition op_token :: "opcode \<Rightarrow> int" where
  "op_token op = 132 + int (number op)"

text \<open>The level of the right operand.\<close>

definition rlevel :: "opcode \<Rightarrow> int" where
  "rlevel op = (case op of BOR \<Rightarrow> T_Xor | BXOR \<Rightarrow> T_And | BAND \<Rightarrow> T_Eq | EQ \<Rightarrow> T_Ne | NE \<Rightarrow> T_Lt
     | LT \<Rightarrow> T_Shl | GT \<Rightarrow> T_Shl | LE \<Rightarrow> T_Shl | GE \<Rightarrow> T_Shl | SHL \<Rightarrow> T_Add | SHR \<Rightarrow> T_Add | ADD \<Rightarrow> T_Mul | SUB \<Rightarrow> T_Mul | _ \<Rightarrow> T_Inc)"

definition inc_token :: "bool \<Rightarrow> int" where
  "inc_token inc = (if inc then T_Inc else T_Dec)"

fun print :: "exp \<Rightarrow> lexeme list" where
  "print (ENum n) = [LNum n]"
| "print (EVar x) = [LId x]"
| "print (EParen e) = Lx 40 # print e @ [Lx 41]"
| "print (ENeg e) = Lx T_Sub # print e"
| "print (EPlus e) = Lx T_Add # print e"
| "print (ENot e) = Lx 33 # print e"
| "print (EBitNot e) = Lx 126 # print e"
| "print (EPre inc x) = [Lx (inc_token inc), LId x]"
| "print (EPost inc x) = [LId x, Lx (inc_token inc)]"
| "print (EBin op a b) = print a @ Lx (op_token op) # print b"
| "print (EAnd a b) = print a @ Lx T_Lan # print b"
| "print (EOr a b) = print a @ Lx T_Lor # print b"
| "print (ECond c a b) = print c @ Lx T_Cond # print a @ Lx 58 # print b"
| "print (EAssign x e) = LId x # Lx T_Assign # print e"

text \<open>An expression followed by the token \<open>tk\<close> ends there: no operand on its right edge goes on with it.\<close>

fun stops :: "exp \<Rightarrow> int \<Rightarrow> bool" where
  "stops (ENum n) tk \<longleftrightarrow> True"
| "stops (EVar x) tk \<longleftrightarrow> tk \<noteq> 40 \<and> \<not> ident_tok tk"
| "stops (EParen e) tk \<longleftrightarrow> True"
| "stops (ENeg e) tk \<longleftrightarrow> tk < T_Inc \<and> stops e tk"
| "stops (EPlus e) tk \<longleftrightarrow> tk < T_Inc \<and> stops e tk"
| "stops (ENot e) tk \<longleftrightarrow> tk < T_Inc \<and> stops e tk"
| "stops (EBitNot e) tk \<longleftrightarrow> tk < T_Inc \<and> stops e tk"
| "stops (EPre inc x) tk \<longleftrightarrow> tk < T_Inc \<and> tk \<noteq> 40 \<and> \<not> ident_tok tk"
| "stops (EPost inc x) tk \<longleftrightarrow> True"
| "stops (EBin op a b) tk \<longleftrightarrow> tk < rlevel op \<and> stops b tk"
| "stops (EAnd a b) tk \<longleftrightarrow> tk < T_Or \<and> stops b tk"
| "stops (EOr a b) tk \<longleftrightarrow> tk < T_Lan \<and> stops b tk"
| "stops (ECond c a b) tk \<longleftrightarrow> tk < T_Cond \<and> stops b tk"
| "stops (EAssign x e) tk \<longleftrightarrow> tk < T_Assign \<and> stops e tk"

text \<open>The tokens of the expression, without parentheses of their own, are read as this expression at level \<open>l\<close>.\<close>

fun fits :: "int \<Rightarrow> exp \<Rightarrow> bool" where
  "fits l (ENum n) \<longleftrightarrow> True"
| "fits l (EVar x) \<longleftrightarrow> True"
| "fits l (EParen e) \<longleftrightarrow> fits T_Assign e \<and> stops e 41"
| "fits l (ENeg e) \<longleftrightarrow> fits T_Inc e"
| "fits l (EPlus e) \<longleftrightarrow> fits T_Inc e"
| "fits l (ENot e) \<longleftrightarrow> fits T_Inc e"
| "fits l (EBitNot e) \<longleftrightarrow> fits T_Inc e"
| "fits l (EPre inc x) \<longleftrightarrow> True"
| "fits l (EPost inc x) \<longleftrightarrow> l \<le> T_Inc"
| "fits l (EBin op a b) \<longleftrightarrow> is_alu op \<and> l \<le> op_token op \<and> fits l a \<and> stops a (op_token op) \<and> fits (rlevel op) b"
| "fits l (EAnd a b) \<longleftrightarrow> l \<le> T_Lan \<and> fits l a \<and> stops a T_Lan \<and> fits T_Or b"
| "fits l (EOr a b) \<longleftrightarrow> l \<le> T_Lor \<and> fits l a \<and> stops a T_Lor \<and> fits T_Lan b"
| "fits l (ECond c a b) \<longleftrightarrow> l \<le> T_Cond \<and> fits l c \<and> stops c T_Cond \<and> fits T_Assign a \<and> stops a 58 \<and> fits T_Cond b"
| "fits l (EAssign x e) \<longleftrightarrow> l \<le> T_Assign \<and> fits T_Assign e"

text \<open>The operators the loop of one call of \<open>expression\<close> handles, and a fuel that is enough.\<close>

fun spine :: "exp \<Rightarrow> nat" where
  "spine (EPost inc x) = 1" | "spine (EBin op a b) = Suc (spine a)" | "spine (EAnd a b) = Suc (spine a)"
| "spine (EOr a b) = Suc (spine a)" | "spine (ECond c a b) = Suc (spine c)" | "spine (EAssign x e) = 1" | "spine _ = 0"

fun need :: "exp \<Rightarrow> nat" where
  "need (ENum n) = 1" | "need (EVar x) = 1" | "need (EParen e) = Suc (need e)" | "need (ENeg e) = Suc (need e)"
| "need (EPlus e) = Suc (need e)" | "need (ENot e) = Suc (need e)" | "need (EBitNot e) = Suc (need e)"
| "need (EPre inc x) = 2" | "need (EPost inc x) = 2" | "need (EBin op a b) = Suc (need a + need b)"
| "need (EAnd a b) = Suc (need a + need b)" | "need (EOr a b) = Suc (need a + need b)"
| "need (ECond c a b) = Suc (need c + need a + need b)" | "need (EAssign x e) = Suc (Suc (need e))"

lemma spine_need: "spine e < need e"
  by (induction e) auto

section \<open>Variables\<close>

text \<open>Where the code finds the variable with symbol \<open>i\<close>; an \<open>int\<close> variable.\<close>

definition place_in :: "symbol list \<Rightarrow> int \<Rightarrow> nat \<Rightarrow> place" where
  "place_in syms ib i = (if id_class (syms ! i) = T_Loc then Local (word_of_int ib - id_value (syms ! i)) else Global (id_value (syms ! i)))"

definition int_var :: "symbol list \<Rightarrow> nat \<Rightarrow> bool" where
  "int_var syms i \<longleftrightarrow> (id_class (syms ! i) = T_Loc \<or> id_class (syms ! i) = T_Glo) \<and> id_type (syms ! i) = TY_INT"

definition ecode :: "lexer \<Rightarrow> exp \<Rightarrow> u32 list" where
  "ecode st e = code_of (text_base st) (place_in (symbols st) (index_of_bp st)) (length (ltext st)) e"

section \<open>Units\<close>

lemma and_then_seq: "seq (f # fs) = (\<lambda>st. and_then (f st) (seq fs))"
  by (rule ext) simp

lemma emit_Done: "length (ltext st) < TEXT_WORDS \<Longrightarrow> emit f st = Done (st\<lparr>ltext := ltext st @ [f st]\<rparr>)"
  by (simp add: emit_def)

lemma num_parses:
  assumes "reads (LNum n # t # ts) st" and "\<forall>v. t \<noteq> LNum v" and "length (ltext st) + 2 \<le> TEXT_WORDS"
  shows "parses unit_num st (t # ts) (ltext st @ [op_word IMM, n]) TY_INT"
proof -
  obtain st1 where s: "lex_next st = Done st1" "reads (t # ts) st1" "ctx st1 = ctx st" "ltext st1 = ltext st" "expr_type st1 = expr_type st"
    "token_val st1 = token_val st" using lex_next_reads [OF assms(1)] assms(2) by metis
  have n: "token_val st = n" "token st = T_Num" using assms(1) by (auto simp: reads_Cons current_def)
  show ?thesis
    unfolding parses_def unit_num_def
    by (rule exI [of _ "st1\<lparr>ltext := ltext st @ [op_word IMM, n], expr_type := TY_INT\<rparr>"])
      (use s n assms(3) in \<open>simp add: lex_match_def emit_Done set_type_def\<close>)
qed

lemma unit_var_parses:
  assumes "reads ts st" and "int_var (symbols st) x" and "length (ltext st) + 3 \<le> TEXT_WORDS"
  shows "parses (unit_var x) st ts (ltext st @ place_code (place_in (symbols st) (index_of_bp st) x) @ [op_word LI]) TY_INT"
  unfolding parses_def
  by (rule exI [of _ "st\<lparr>ltext := ltext st @ place_code (place_in (symbols st) (index_of_bp st) x) @ [op_word LI], expr_type := TY_INT\<rparr>"])
    (use assms in \<open>auto simp: unit_var_def int_var_def place_in_def emit_Done set_type_def\<close>)

lemma var_parses:
  assumes "reads (LId x # t # ts) st" and "int_var (symbols st) x" and "tok t \<noteq> 40" "\<not> ident_tok (tok t)" and "length (ltext st) + 3 \<le> TEXT_WORDS"
  shows "parses (unit_id expr n) st (t # ts) (ltext st @ place_code (place_in (symbols st) (index_of_bp st) x) @ [op_word LI]) TY_INT"
proof -
  obtain st1 where s: "lex_next st = Done st1" "reads (t # ts) st1" "ctx st1 = ctx st" "ltext st1 = ltext st" "expr_type st1 = expr_type st"
    "current_id st1 = current_id st" using lex_next_reads [OF assms(1)] assms(4) by metis
  have i: "current_id st = x" "token st = T_Id" "token st1 = tok t"
    using assms(1) s(2) by (auto simp: reads_Cons current_def)
  have c: "symbols st1 = symbols st" "index_of_bp st1 = index_of_bp st" using s(3) by (simp_all add: ctx_def)
  have "parses (unit_var x) st1 (t # ts) (ltext st @ place_code (place_in (symbols st) (index_of_bp st) x) @ [op_word LI]) TY_INT"
    using unit_var_parses [OF s(2), of x] assms(2,5) c s(4) by simp
  moreover have "unit_id expr n st = unit_var x st1" using s i assms(3) by (simp add: unit_id_def lex_match_def)
  ultimately show ?thesis using s(3) by (simp add: parses_def)
qed

text \<open>\<open>dup_address\<close> behind the code of a variable.\<close>

lemma dup_address_Done:
  assumes "ltext st = T @ [op_word LI]" and "length T + 2 \<le> TEXT_WORDS"
  shows "dup_address e st = Done (st\<lparr>ltext := T @ [op_word PUSH, op_word LI]\<rparr>)"
  using assms by (simp add: dup_address_def unless_exit_def last_is_load_def last_to_push_def emit_Done)

section \<open>Operators\<close>

lemma text_ptr_word: "0 < length (ltext st) \<Longrightarrow> text_ptr st + 4 * of_nat k = word_addr (text_base st) (length (ltext st) - 1 + k)"
  by (simp add: text_ptr_def word_addr_def algebra_simps)

lemma parses_cong: "parses f st ts T ty \<Longrightarrow> T = T' \<Longrightarrow> ty = ty' \<Longrightarrow> parses f st ts T' ty'"
  by simp

lemma op_binary_parses:
  assumes r: "reads (Lx tk # t1 # ts1) st" and room: "length (ltext st) + length cb + 2 \<le> TEXT_WORDS"
    and sub: "\<And>st1. reads (t1 # ts1) st1 \<Longrightarrow> ctx st1 = ctx st \<Longrightarrow> ltext st1 = ltext st @ [op_word PUSH] \<Longrightarrow>
      parses (expr rl) st1 ts (ltext st @ op_word PUSH # cb) TY_INT"
  shows "parses (op_binary expr tk op rl TY_INT) st ts (ltext st @ op_word PUSH # cb @ [op_word op]) TY_INT"
  unfolding op_binary_def
proof (rule parses_seq [OF parses_match [OF r]])
  fix st1 assume s1: "reads (t1 # ts1) st1" "ctx st1 = ctx st" "ltext st1 = ltext st"
  show "parses (seq [emit_op PUSH, expr rl, emit_op op, set_type (\<lambda>_. TY_INT)]) st1 ts (ltext st @ op_word PUSH # cb @ [op_word op]) TY_INT"
  proof (rule parses_seq [OF parses_emit [OF s1(1)]])
    fix st2 assume s2: "reads (t1 # ts1) st2" "ctx st2 = ctx st1" "ltext st2 = ltext st1 @ [op_word PUSH]"
    have "parses (expr rl) st2 ts (ltext st @ op_word PUSH # cb) TY_INT" by (rule sub [OF s2(1)]) (use s1 s2 in simp_all)
    then show "parses (seq [expr rl, emit_op op, set_type (\<lambda>_. TY_INT)]) st2 ts (ltext st @ op_word PUSH # cb @ [op_word op]) TY_INT"
    proof (rule parses_seq)
      fix st3 assume s3: "reads ts st3" "ltext st3 = ltext st @ op_word PUSH # cb"
      show "parses (seq [emit_op op, set_type (\<lambda>_. TY_INT)]) st3 ts (ltext st @ op_word PUSH # cb @ [op_word op]) TY_INT"
        unfolding parses_def
        by (rule exI [of _ "st3\<lparr>ltext := ltext st3 @ [op_word op], expr_type := TY_INT\<rparr>"])
          (use s3 room in \<open>simp add: emit_Done set_type_def\<close>)
    qed
  qed (use s1(3) room in simp)
qed simp

text \<open>At an \<open>int\<close> left operand every operator of the table is compiled the same way.\<close>

lemma and_then_Done [simp]: "and_then r Done = r"
  by (cases r) simp_all

lemma seq_Nil_Done: "seq [] = Done"
  by (rule ext) simp

lemma seq_append: "seq (fs @ gs) st = and_then (seq fs st) (seq gs)"
proof (induction fs arbitrary: st)
  case (Cons f fs)
  then show ?case by (cases "f st") simp_all
qed simp

lemma binary_alu:
  assumes "is_alu op" and "token st = op_token op" and "expr_type st = TY_INT"
  shows "binary expr st = op_binary expr (op_token op) op (rlevel op) TY_INT st"
proof -
  have "seq [set_type (\<lambda>_. TY_INT), Done, emit_op ADD] = seq [emit_op ADD, set_type (\<lambda>_. TY_INT)]"
    by (rule ext) (simp add: emit_def set_type_def)
  then have "seq ([lex_match T_Add, emit_op PUSH, expr T_Mul] @ [set_type (\<lambda>_. TY_INT), Done, emit_op ADD]) st =
      seq ([lex_match T_Add, emit_op PUSH, expr T_Mul] @ [emit_op ADD, set_type (\<lambda>_. TY_INT)]) st" by (simp only: seq_append)
  then have add: "op_add expr TY_INT st = op_binary expr T_Add ADD T_Mul TY_INT st" by (simp add: op_add_def op_binary_def)
  have sub: "op_sub expr TY_INT st = op_binary expr T_Sub SUB T_Mul TY_INT st"
    by (simp add: op_sub_def op_binary_def and_then_seq seq_Nil_Done)
  show ?thesis using assms add sub
    by (cases op) (simp_all add: binary_def is_alu_def op_token_def rlevel_def)
qed

lemma parses_patched:
  assumes "reads ts st" and "ltext st = T @ w # 0 # c" and "i = length T + 1" and "expr_type st = ty"
    and "a = word_addr (text_base st) (length T + length c + 1 + k)"
  shows "parses (patch_text i k) st ts (T @ w # a # c) ty"
  by (rule parses_cong [OF parses_patch [OF assms(1)]])
    (use assms(2-5) in \<open>simp_all add: text_ptr_def word_addr_def list_update_append algebra_simps\<close>)

lemma op_logic_parses:
  assumes r: "reads (Lx tk # t1 # ts1) st" and room: "length (ltext st) + length cb + 2 \<le> TEXT_WORDS"
    and sub: "\<And>st1. reads (t1 # ts1) st1 \<Longrightarrow> ctx st1 = ctx st \<Longrightarrow> ltext st1 = ltext st @ [op_word op, 0] \<Longrightarrow>
      parses (expr rl) st1 ts (ltext st @ op_word op # 0 # cb) TY_INT"
  shows "parses (op_logic expr tk op rl) st ts
    (ltext st @ op_word op # word_addr (text_base st) (length (ltext st) + length cb + 2) # cb) TY_INT"
  unfolding op_logic_def
proof (rule parses_seq [OF parses_match [OF r]])
  let ?T = "ltext st @ op_word op # word_addr (text_base st) (length (ltext st) + length cb + 2) # cb"
  fix st1 assume s1: "reads (t1 # ts1) st1" "ctx st1 = ctx st" "ltext st1 = ltext st" "expr_type st1 = expr_type st"
  have "parses (hole op (\<lambda>addr. seq [expr rl, patch_text addr 1])) st1 ts ?T TY_INT"
  proof (rule parses_hole [OF s1(1)])
    fix st2 assume s2: "reads (t1 # ts1) st2" "ctx st2 = ctx st1" "ltext st2 = ltext st1 @ [op_word op, 0]"
    have "parses (expr rl) st2 ts (ltext st @ op_word op # 0 # cb) TY_INT" by (rule sub [OF s2(1)]) (use s1 s2 in simp_all)
    then show "parses (seq [expr rl, patch_text (length (ltext st1) + 1) 1]) st2 ts ?T TY_INT"
    proof (rule parses_seq)
      fix st3 assume s3: "reads ts st3" "ctx st3 = ctx st2" "ltext st3 = ltext st @ op_word op # 0 # cb" "expr_type st3 = TY_INT"
      have "parses (patch_text (length (ltext st1) + 1) 1) st3 ts ?T TY_INT"
        by (rule parses_patched [OF s3(1,3)]) (use s1 s2 s3 in \<open>simp_all add: ctx_def ac_simps\<close>)
      then show "parses (seq [patch_text (length (ltext st1) + 1) 1]) st3 ts ?T TY_INT"
        by (rule parses_seq) (rule parses_Nil)
    qed
  qed (use s1(3) room in simp)
  then show "parses (seq [hole op (\<lambda>addr. seq [expr rl, patch_text addr 1]), set_type (\<lambda>_. TY_INT)]) st1 ts ?T TY_INT"
  proof (rule parses_seq)
    fix st4 assume "reads ts st4" "ltext st4 = ?T"
    then show "parses (seq [set_type (\<lambda>_. TY_INT)]) st4 ts ?T TY_INT"
      by (simp add: parses_def set_type_def)
  qed
qed simp

lemma op_cond_parses:
  assumes r: "reads (Lx T_Cond # t1 # ts1) st" and room: "length (ltext st) + length ca + length cb + 4 \<le> TEXT_WORDS"
    and suba: "\<And>st1. reads (t1 # ts1) st1 \<Longrightarrow> ctx st1 = ctx st \<Longrightarrow> ltext st1 = ltext st @ [op_word JZ, 0] \<Longrightarrow>
      parses (expr T_Assign) st1 (Lx 58 # t2 # ts2) (ltext st @ op_word JZ # 0 # ca) TY_INT"
    and subb: "\<And>st1 z. reads (t2 # ts2) st1 \<Longrightarrow> ctx st1 = ctx st \<Longrightarrow> ltext st1 = (ltext st @ op_word JZ # z # ca) @ [op_word JMP, 0] \<Longrightarrow>
      parses (expr T_Cond) st1 ts ((ltext st @ op_word JZ # z # ca) @ op_word JMP # 0 # cb) TY_INT"
  shows "parses (op_cond expr) st ts
    (ltext st @ op_word JZ # word_addr (text_base st) (length (ltext st) + length ca + 4) # ca @
     op_word JMP # word_addr (text_base st) (length (ltext st) + length ca + length cb + 4) # cb) TY_INT"
    (is "parses _ _ _ ?T _")
  unfolding op_cond_def
proof (rule parses_seq [OF parses_match [OF r]])
  let ?a = "word_addr (text_base st) (length (ltext st) + length ca + 4)"
  let ?T1 = "ltext st @ op_word JZ # ?a # ca"
  let ?b = "word_addr (text_base st) (length (ltext st) + length ca + length cb + 4)"
  fix st1 assume s1: "reads (t1 # ts1) st1" "ctx st1 = ctx st" "ltext st1 = ltext st" "expr_type st1 = expr_type st"
  have one: "parses (hole JZ (\<lambda>addr. seq [expr T_Assign, on 58 (lex_match 58) (exit_with 10), patch_text addr 3])) st1 (t2 # ts2) ?T1 TY_INT"
  proof (rule parses_hole [OF s1(1)])
    fix st2 assume s2: "reads (t1 # ts1) st2" "ctx st2 = ctx st1" "ltext st2 = ltext st1 @ [op_word JZ, 0]"
    have "parses (expr T_Assign) st2 (Lx 58 # t2 # ts2) (ltext st @ op_word JZ # 0 # ca) TY_INT"
      by (rule suba [OF s2(1)]) (use s1 s2 in simp_all)
    then show "parses (seq [expr T_Assign, on 58 (lex_match 58) (exit_with 10), patch_text (length (ltext st1) + 1) 3]) st2 (t2 # ts2) ?T1 TY_INT"
    proof (rule parses_seq)
      fix st3 assume s3: "reads (Lx 58 # t2 # ts2) st3" "ctx st3 = ctx st2" "ltext st3 = ltext st @ op_word JZ # 0 # ca" "expr_type st3 = TY_INT"
      have "parses (on 58 (lex_match 58) (exit_with 10)) st3 (t2 # ts2) (ltext st3) (expr_type st3)"
        using parses_match [OF s3(1), of 58] reads_token [OF s3(1)] by (simp add: parses_def on_def)
      then show "parses (seq [on 58 (lex_match 58) (exit_with 10), patch_text (length (ltext st1) + 1) 3]) st3 (t2 # ts2) ?T1 TY_INT"
      proof (rule parses_seq)
        fix st4 assume s4: "reads (t2 # ts2) st4" "ctx st4 = ctx st3" "ltext st4 = ltext st3" "expr_type st4 = expr_type st3"
        have "parses (patch_text (length (ltext st1) + 1) 3) st4 (t2 # ts2) ?T1 TY_INT"
          by (rule parses_patched [OF s4(1)]) (use s1 s2 s3 s4 in \<open>simp_all add: ctx_def ac_simps\<close>)
        then show "parses (seq [patch_text (length (ltext st1) + 1) 3]) st4 (t2 # ts2) ?T1 TY_INT"
          by (rule parses_seq) (rule parses_Nil)
      qed
    qed
  qed (use s1(3) room in simp)
  then show "parses (seq [hole JZ (\<lambda>addr. seq [expr T_Assign, on 58 (lex_match 58) (exit_with 10), patch_text addr 3]),
      hole JMP (\<lambda>addr. seq [expr T_Cond, patch_text addr 1])]) st1 ts ?T TY_INT"
  proof (rule parses_seq)
    fix st5 assume s5: "reads (t2 # ts2) st5" "ctx st5 = ctx st1" "ltext st5 = ?T1"
    have "parses (hole JMP (\<lambda>addr. seq [expr T_Cond, patch_text addr 1])) st5 ts ?T TY_INT"
    proof (rule parses_hole [OF s5(1)])
      fix st6 assume s6: "reads (t2 # ts2) st6" "ctx st6 = ctx st5" "ltext st6 = ltext st5 @ [op_word JMP, 0]"
      have "parses (expr T_Cond) st6 ts (?T1 @ op_word JMP # 0 # cb) TY_INT"
        by (rule subb [OF s6(1)]) (use s1 s5 s6 in simp_all)
      then show "parses (seq [expr T_Cond, patch_text (length (ltext st5) + 1) 1]) st6 ts ?T TY_INT"
      proof (rule parses_seq)
        fix st7 assume s7: "reads ts st7" "ctx st7 = ctx st6" "ltext st7 = ?T1 @ op_word JMP # 0 # cb" "expr_type st7 = TY_INT"
        have "parses (patch_text (length (ltext st5) + 1) 1) st7 ts (?T1 @ op_word JMP # ?b # cb) TY_INT"
          by (rule parses_patched [OF s7(1,3)]) (use s1 s5 s6 s7 in \<open>simp_all add: ctx_def eval_nat_numeral ac_simps\<close>)
        then have "parses (patch_text (length (ltext st5) + 1) 1) st7 ts ?T TY_INT" by simp
        then show "parses (seq [patch_text (length (ltext st5) + 1) 1]) st7 ts ?T TY_INT"
          by (rule parses_seq) (rule parses_Nil)
      qed
    qed (use s5(3) room in simp)
    then show "parses (seq [hole JMP (\<lambda>addr. seq [expr T_Cond, patch_text addr 1])]) st5 ts ?T TY_INT"
      by (rule parses_seq) (rule parses_Nil)
  qed
qed simp

text \<open>An assignment behind the code of a variable.\<close>

lemma op_assign_parses:
  assumes r: "reads (Lx T_Assign # t1 # ts1) st" and lt: "ltext st = T @ [op_word LI]" and room: "length T + length c + 2 \<le> TEXT_WORDS"
    and sub: "\<And>st1. reads (t1 # ts1) st1 \<Longrightarrow> ctx st1 = ctx st \<Longrightarrow> ltext st1 = T @ [op_word PUSH] \<Longrightarrow>
      parses (expr T_Assign) st1 ts (T @ op_word PUSH # c) TY_INT"
  shows "parses (op_assign expr TY_INT) st ts (T @ op_word PUSH # c @ [op_word SI]) TY_INT"
  unfolding op_assign_def
proof (rule parses_seq [OF parses_match [OF r]])
  fix st1 assume s1: "reads (t1 # ts1) st1" "ctx st1 = ctx st" "ltext st1 = ltext st"
  have "parses (unless_exit 9 last_is_load last_to_push) st1 (t1 # ts1) (T @ [op_word PUSH]) (expr_type st1)"
    using s1 lt by (simp add: parses_def unless_exit_def last_is_load_def last_to_push_def)
  then show "parses (seq [unless_exit 9 last_is_load last_to_push, expr T_Assign, set_type (\<lambda>_. TY_INT), emit store_op]) st1 ts
      (T @ op_word PUSH # c @ [op_word SI]) TY_INT"
  proof (rule parses_seq)
    fix st2 assume s2: "reads (t1 # ts1) st2" "ctx st2 = ctx st1" "ltext st2 = T @ [op_word PUSH]"
    have "parses (expr T_Assign) st2 ts (T @ op_word PUSH # c) TY_INT" by (rule sub [OF s2(1)]) (use s1 s2 in simp_all)
    then show "parses (seq [expr T_Assign, set_type (\<lambda>_. TY_INT), emit store_op]) st2 ts (T @ op_word PUSH # c @ [op_word SI]) TY_INT"
    proof (rule parses_seq)
      fix st3 assume s3: "reads ts st3" "ltext st3 = T @ op_word PUSH # c"
      show "parses (seq [set_type (\<lambda>_. TY_INT), emit store_op]) st3 ts (T @ op_word PUSH # c @ [op_word SI]) TY_INT"
        unfolding parses_def
        by (rule exI [of _ "st3\<lparr>expr_type := TY_INT, ltext := ltext st3 @ [op_word SI]\<rparr>"])
          (use s3 room in \<open>simp add: emit_Done set_type_def\<close>)
    qed
  qed
qed simp

lemma op_postfix_parses:
  assumes r: "reads (Lx (inc_token inc) # t # ts) st" and lt: "ltext st = T @ [op_word LI]" and ty: "expr_type st = TY_INT"
    and room: "length T + 11 \<le> TEXT_WORDS"
  shows "parses op_postfix st (t # ts) (T @ [op_word PUSH, op_word LI, op_word PUSH, op_word IMM, 1,
     op_word (if inc then ADD else SUB), op_word SI, op_word PUSH, op_word IMM, 1, op_word (if inc then SUB else ADD)]) TY_INT"
    (is "parses _ _ _ ?T _")
proof -
  have tk: "token st = inc_token inc" using reads_token [OF r] by simp
  let ?st = "st\<lparr>ltext := ?T\<rparr>"
  have "op_postfix st = and_then (lex_match (inc_token inc) ?st) (seq [])"
    using lt ty room tk by (simp add: op_postfix_def Let_def dup_address_Done emit_Done inc_token_def)
  moreover have "parses (lex_match (inc_token inc)) ?st (t # ts) ?T TY_INT"
    using parses_match [of "Lx (inc_token inc)" t ts ?st] r ty by simp
  ultimately show ?thesis by (auto simp: parses_def)
qed

lemma incdec_parses:
  assumes r: "reads (Lx (inc_token inc) # t1 # ts1) st" and room: "length (ltext st) + length c + 7 \<le> TEXT_WORDS"
    and sub: "\<And>st1. reads (t1 # ts1) st1 \<Longrightarrow> ctx st1 = ctx st \<Longrightarrow> ltext st1 = ltext st \<Longrightarrow> parses (expr T_Inc) st1 ts (ltext st @ c @ [op_word LI]) TY_INT"
  shows "parses (unit_incdec expr) st ts (ltext st @ c @ [op_word PUSH, op_word LI, op_word PUSH, op_word IMM, 1,
     op_word (if inc then ADD else SUB), op_word SI]) TY_INT"
proof -
  have tk: "token st = inc_token inc" using reads_token [OF r] by simp
  have "parses (seq [lex_match (inc_token inc), expr T_Inc, dup_address 7, emit_op PUSH, emit_op IMM, emit step_size,
      emit_op (if inc then ADD else SUB), emit store_op]) st ts (ltext st @ c @ [op_word PUSH, op_word LI, op_word PUSH, op_word IMM, 1,
      op_word (if inc then ADD else SUB), op_word SI]) TY_INT" (is "parses _ _ _ ?T _")
  proof (rule parses_seq [OF parses_match [OF r]])
    fix st1 assume s1: "reads (t1 # ts1) st1" "ctx st1 = ctx st" "ltext st1 = ltext st"
    have "parses (expr T_Inc) st1 ts (ltext st @ c @ [op_word LI]) TY_INT" by (rule sub [OF s1])
    then show "parses (seq [expr T_Inc, dup_address 7, emit_op PUSH, emit_op IMM, emit step_size, emit_op (if inc then ADD else SUB), emit store_op]) st1 ts ?T TY_INT"
    proof (rule parses_seq)
      fix st2 assume s2: "reads ts st2" "ltext st2 = ltext st @ c @ [op_word LI]" "expr_type st2 = TY_INT"
      have d: "dup_address 7 st2 = Done (st2\<lparr>ltext := (ltext st @ c) @ [op_word PUSH, op_word LI]\<rparr>)"
        by (rule dup_address_Done) (use s2(2) room in simp_all)
      show "parses (seq [dup_address 7, emit_op PUSH, emit_op IMM, emit step_size, emit_op (if inc then ADD else SUB), emit store_op]) st2 ts ?T TY_INT"
        unfolding parses_def
        by (rule exI [of _ "st2\<lparr>ltext := ?T\<rparr>"]) (use s2 room d in \<open>simp add: emit_Done\<close>)
    qed
  qed simp
  then show ?thesis using tk by (cases inc) (simp_all add: parses_def unit_incdec_def inc_token_def)
qed

section \<open>Prefix operators\<close>

lemma emits_parses:
  "reads ts st \<Longrightarrow> length (ltext st) + length ws \<le> TEXT_WORDS \<Longrightarrow>
   parses (seq (map (\<lambda>w. emit (\<lambda>_. w)) ws @ [set_type (\<lambda>_. TY_INT)])) st ts (ltext st @ ws) TY_INT"
proof (induction ws arbitrary: st)
  case Nil
  then show ?case by (simp add: parses_def set_type_def)
next
  case (Cons w ws)
  have "parses (emit (\<lambda>_. w)) st ts (ltext st @ [w]) (expr_type st)" by (rule parses_emit) (use Cons.prems in simp_all)
  then have "parses (seq (emit (\<lambda>_. w) # map (\<lambda>w. emit (\<lambda>_. w)) ws @ [set_type (\<lambda>_. TY_INT)])) st ts (ltext st @ w # ws) TY_INT"
  proof (rule parses_seq)
    fix st1 assume "reads ts st1" "ltext st1 = ltext st @ [w]"
    then show "parses (seq (map (\<lambda>w. emit (\<lambda>_. w)) ws @ [set_type (\<lambda>_. TY_INT)])) st1 ts (ltext st @ w # ws) TY_INT"
      using Cons.IH [of st1] Cons.prems(2) by simp
  qed
  then show ?case by (simp only: list.map append_Cons)
qed

lemma prefix_parses:
  assumes r: "reads (Lx tk # t1 # ts1) st" and room: "length (ltext st) + length c + length ws \<le> TEXT_WORDS"
    and sub: "\<And>st1. reads (t1 # ts1) st1 \<Longrightarrow> ctx st1 = ctx st \<Longrightarrow> ltext st1 = ltext st \<Longrightarrow> parses (expr T_Inc) st1 ts (ltext st @ c) TY_INT"
  shows "parses (seq ([lex_match tk, expr T_Inc] @ map (\<lambda>w. emit (\<lambda>_. w)) ws @ [set_type (\<lambda>_. TY_INT)])) st ts (ltext st @ c @ ws) TY_INT"
proof -
  have "parses (seq (lex_match tk # expr T_Inc # map (\<lambda>w. emit (\<lambda>_. w)) ws @ [set_type (\<lambda>_. TY_INT)])) st ts (ltext st @ c @ ws) TY_INT"
  proof (rule parses_seq [OF parses_match [OF r]])
    fix st1 assume "reads (t1 # ts1) st1" "ctx st1 = ctx st" "ltext st1 = ltext st"
    then show "parses (seq (expr T_Inc # map (\<lambda>w. emit (\<lambda>_. w)) ws @ [set_type (\<lambda>_. TY_INT)])) st1 ts (ltext st @ c @ ws) TY_INT"
    proof (rule parses_seq [OF sub])
      fix st2 assume "reads ts st2" "ltext st2 = ltext st @ c"
      then show "parses (seq (map (\<lambda>w. emit (\<lambda>_. w)) ws @ [set_type (\<lambda>_. TY_INT)])) st2 ts (ltext st @ c @ ws) TY_INT"
        using emits_parses [of ts st2 ws] room by simp
    qed
  qed simp
  then show ?thesis by simp
qed

lemma minus_parses:
  assumes r: "reads (Lx T_Sub # t1 # ts1) st" and nn: "tok t1 \<noteq> T_Num" and room: "length (ltext st) + length c + 4 \<le> TEXT_WORDS"
    and sub: "\<And>st1. reads (t1 # ts1) st1 \<Longrightarrow> ctx st1 = ctx st \<Longrightarrow> ltext st1 = ltext st @ [op_word IMM, - 1, op_word PUSH] \<Longrightarrow>
      parses (expr T_Inc) st1 ts (ltext st @ [op_word IMM, - 1, op_word PUSH] @ c) TY_INT"
  shows "parses (unit_minus expr) st ts (ltext st @ [op_word IMM, - 1, op_word PUSH] @ c @ [op_word MUL]) TY_INT"
  unfolding unit_minus_def
proof (rule parses_seq [OF parses_match [OF r]])
  let ?T = "ltext st @ [op_word IMM, - 1, op_word PUSH] @ c @ [op_word MUL]"
  fix st1 assume s1: "reads (t1 # ts1) st1" "ctx st1 = ctx st" "ltext st1 = ltext st"
  let ?st = "st1\<lparr>ltext := ltext st @ [op_word IMM, - 1, op_word PUSH]\<rparr>"
  have "parses (expr T_Inc) ?st ts (ltext st @ [op_word IMM, - 1, op_word PUSH] @ c) TY_INT"
    by (rule sub) (use s1 in simp_all)
  then obtain st2 where s2: "expr T_Inc ?st = Done st2" "reads ts st2" "ctx st2 = ctx st1" "ltext st2 = ltext st @ [op_word IMM, - 1, op_word PUSH] @ c"
    "expr_type st2 = TY_INT" by (auto simp: parses_def)
  have e: "seq [emit_op IMM, emit (\<lambda>_. - 1), emit_op PUSH, expr T_Inc, emit_op MUL] st1 = Done (st2\<lparr>ltext := ?T\<rparr>)"
    using s1(3) s2(1,4) room by (simp add: emit_Done)
  have "token st1 \<noteq> T_Num" using reads_token [OF s1(1)] nn by simp
  then show "parses (seq [on T_Num (seq [emit_op IMM, emit (\<lambda>st. - token_val st), lex_match T_Num])
      (seq [emit_op IMM, emit (\<lambda>_. - 1), emit_op PUSH, expr T_Inc, emit_op MUL]), set_type (\<lambda>_. TY_INT)]) st1 ts ?T TY_INT"
    unfolding parses_def
    by (intro exI [of _ "st2\<lparr>ltext := ?T, expr_type := TY_INT\<rparr>"])
      (use s2 in \<open>simp add: and_then_seq [of "on T_Num _ _"] on_def e set_type_def del: seq.simps\<close>, simp add: set_type_def)
qed simp

lemma minus_num_parses:
  assumes r: "reads (Lx T_Sub # LNum n # t # ts) st" and room: "length (ltext st) + 2 \<le> TEXT_WORDS"
  shows "parses (unit_minus expr) st (t # ts) (ltext st @ [op_word IMM, - n]) TY_INT"
  unfolding unit_minus_def
proof (rule parses_seq [OF parses_match [OF r]])
  fix st1 assume s1: "reads (LNum n # t # ts) st1" "ctx st1 = ctx st" "ltext st1 = ltext st"
  have n: "token_val st1 = n" "token st1 = T_Num" using s1(1) by (auto simp: reads_Cons current_def)
  let ?st = "st1\<lparr>ltext := ltext st @ [op_word IMM, - n]\<rparr>"
  have "parses (lex_match T_Num) ?st (t # ts) (ltext ?st) (expr_type ?st)" by (rule parses_match [of "LNum n"]) (use s1 in simp_all)
  then obtain st2 where s2: "lex_match T_Num ?st = Done st2" "reads (t # ts) st2" "ctx st2 = ctx st1" "ltext st2 = ltext st @ [op_word IMM, - n]"
    by (auto simp: parses_def)
  show "parses (seq [on T_Num (seq [emit_op IMM, emit (\<lambda>st. - token_val st), lex_match T_Num])
      (seq [emit_op IMM, emit (\<lambda>_. - 1), emit_op PUSH, expr T_Inc, emit_op MUL]), set_type (\<lambda>_. TY_INT)]) st1 (t # ts) (ltext st @ [op_word IMM, - n]) TY_INT"
    unfolding parses_def
    by (rule exI [of _ "st2\<lparr>expr_type := TY_INT\<rparr>"])
      (use n s1(3) s2 room in \<open>simp add: on_def emit_Done set_type_def\<close>)
qed simp

lemma paren_parses:
  assumes r: "reads (Lx 40 # t1 # ts1) st" and nt: "tok t1 \<noteq> T_Char" "tok t1 \<noteq> T_Int"
    and sub: "\<And>st1. reads (t1 # ts1) st1 \<Longrightarrow> ctx st1 = ctx st \<Longrightarrow> ltext st1 = ltext st \<Longrightarrow> parses (expr T_Assign) st1 (Lx 41 # t # ts) T TY_INT"
  shows "parses (unit_paren expr n) st (t # ts) T TY_INT"
  unfolding unit_paren_def
proof (rule parses_seq [OF parses_match [OF r]])
  fix st1 assume s1: "reads (t1 # ts1) st1" "ctx st1 = ctx st" "ltext st1 = ltext st"
  have "parses (seq [expr T_Assign, lex_match 41]) st1 (t # ts) T TY_INT"
  proof (rule parses_seq [OF sub [OF s1]])
    fix st2 assume s2: "reads (Lx 41 # t # ts) st2" "ltext st2 = T" "expr_type st2 = TY_INT"
    show "parses (seq [lex_match 41]) st2 (t # ts) T TY_INT"
      by (rule parses_seq [OF parses_match [OF s2(1)]]) (use s2 in \<open>simp_all add: parses_Nil parses_def\<close>)
  qed
  then show "parses (seq [on T_Char (cast expr n TY_CHAR) (on T_Int (cast expr n TY_INT) (seq [expr T_Assign, lex_match 41]))]) st1 (t # ts) T TY_INT"
    using reads_token [OF s1(1)] nt by (simp add: parses_def on_def seq_Nil_Done)
qed simp

section \<open>expression\<close>

text \<open>
  \<open>expression\<close> at level \<open>l\<close> with fuel \<open>n\<close> reads the tokens of \<open>e\<close> and emits its code; its loop has \<open>spine e\<close> of its
  turns behind it and goes on at the tokens \<open>ts\<close>.
\<close>

definition loop_on :: "nat \<Rightarrow> int \<Rightarrow> nat \<Rightarrow> step" where
  "loop_on n l k = while_step (n - k) (\<lambda>st. token st \<ge> l) (binary (expression n))"

definition expr_reads :: "nat \<Rightarrow> int \<Rightarrow> exp \<Rightarrow> lexer \<Rightarrow> lexeme list \<Rightarrow> bool" where
  "expr_reads n l e st ts \<longleftrightarrow> (\<exists>st'. expression (Suc n) l st = loop_on n l (spine e) st' \<and> reads ts st' \<and> ctx st' = ctx st \<and>
     ltext st' = ltext st @ ecode st e \<and> expr_type st' = TY_INT)"

lemma ctx_D:
  assumes "ctx st' = ctx st"
  shows "symbols st' = symbols st" "index_of_bp st' = index_of_bp st" "text_base st' = text_base st"
  using assms by (simp_all add: ctx_def)

lemma expr_reads_unit:
  assumes "parses (unary (expression n) n) st ts (ltext st @ ecode st e) TY_INT" and "spine e = 0"
  shows "expr_reads n l e st ts"
  using assms by (auto simp: parses_def expr_reads_def loop_on_def seq_Nil_Done)

lemma expr_reads_binary:
  assumes a: "expr_reads n l a st (t # ts1)" and k: "spine e = Suc (spine a)" "spine a < n" and t: "tok t \<ge> l"
    and sub: "\<And>st1. reads (t # ts1) st1 \<Longrightarrow> ctx st1 = ctx st \<Longrightarrow> ltext st1 = ltext st @ ecode st a \<Longrightarrow> expr_type st1 = TY_INT \<Longrightarrow>
      parses (binary (expression n)) st1 ts (ltext st @ ecode st e) TY_INT"
  shows "expr_reads n l e st ts"
proof -
  obtain st1 where s1: "expression (Suc n) l st = loop_on n l (spine a) st1" "reads (t # ts1) st1" "ctx st1 = ctx st"
    "ltext st1 = ltext st @ ecode st a" "expr_type st1 = TY_INT" using a by (auto simp: expr_reads_def)
  obtain st2 where s2: "binary (expression n) st1 = Done st2" "reads ts st2" "ctx st2 = ctx st1"
    "ltext st2 = ltext st @ ecode st e" "expr_type st2 = TY_INT" using sub [OF s1(2-5)] by (auto simp: parses_def)
  have "n - spine a = Suc (n - spine e)" using k by simp
  then have "loop_on n l (spine a) st1 = loop_on n l (spine e) st2"
    using reads_token [OF s1(2)] t s2(1) by (simp add: loop_on_def)
  then show ?thesis using s1(1,3) s2 by (auto simp: expr_reads_def)
qed

lemma expr_reads_done:
  assumes "expr_reads n l e st (t # ts)" and "tok t < l" and "need e \<le> n"
  shows "parses (expression (Suc n) l) st (t # ts) (ltext st @ ecode st e) TY_INT"
proof -
  obtain st1 where s1: "expression (Suc n) l st = loop_on n l (spine e) st1" "reads (t # ts) st1" "ctx st1 = ctx st"
    "ltext st1 = ltext st @ ecode st e" "expr_type st1 = TY_INT" using assms(1) by (auto simp: expr_reads_def)
  obtain k where "n - spine e = Suc k" using spine_need [of e] assms(3) by (metis Suc_diff_Suc order_less_le_trans)
  then have "loop_on n l (spine e) st1 = Done st1" using reads_token [OF s1(2)] assms(2) by (simp add: loop_on_def)
  then show ?thesis using s1 by (auto simp: parses_def)
qed

text \<open>What the proof needs about the first token of an expression.\<close>

lemma print_hd:
  obtains t ts where "print e = t # ts" "tok t \<noteq> T_Char" "tok t \<noteq> T_Int"
    "fits T_Inc e \<Longrightarrow> (\<And>n. e \<noteq> ENum n) \<Longrightarrow> tok t \<noteq> T_Num"
proof -
  have "\<exists>t ts. print e = t # ts \<and> tok t \<noteq> T_Char \<and> tok t \<noteq> T_Int \<and> (fits T_Inc e \<longrightarrow> (\<forall>n. e \<noteq> ENum n) \<longrightarrow> tok t \<noteq> T_Num)"
  proof (induction e)
    case (EBin op a b)
    then show ?case by (cases op) (auto simp: op_token_def is_alu_def)
  qed (auto simp: inc_token_def)
  then show thesis using that by blast
qed

definition starts_expr :: "int \<Rightarrow> bool" where
  "starts_expr k \<longleftrightarrow> k \<noteq> T_If \<and> k \<noteq> T_While \<and> k \<noteq> T_Return \<and> k \<noteq> T_Else \<and> k \<noteq> 123 \<and> k \<noteq> 125 \<and> k \<noteq> 59"

lemma print_starts:
  obtains t ts where "print e = t # ts" "starts_expr (tok t)"
proof -
  have "\<exists>t ts. print e = t # ts \<and> starts_expr (tok t)"
    by (induction e) (auto simp: inc_token_def starts_expr_def)
  then show thesis using that by blast
qed

definition parse_ok :: "exp \<Rightarrow> bool" where
  "parse_ok e \<longleftrightarrow> (\<forall>l n st t ts. fits l e \<longrightarrow> reads (print e @ t # ts) st \<longrightarrow> (\<forall>x \<in> vars e. int_var (symbols st) x) \<longrightarrow>
     length (ltext st) + csize e \<le> TEXT_WORDS \<longrightarrow> stops e (tok t) \<longrightarrow> (\<forall>v. t \<noteq> LNum v) \<longrightarrow> need e \<le> n \<longrightarrow> expr_reads n l e st (t # ts))"

text \<open>An operand: its own call of \<open>expression\<close> returns at the token behind it.\<close>

lemma operand_parses:
  assumes "parse_ok e" and "fits l e" and "reads (print e @ t # ts) st" and "\<forall>x \<in> vars e. int_var (symbols st) x"
    and "length (ltext st) + csize e \<le> TEXT_WORDS" and "stops e (tok t)" and "\<forall>v. t \<noteq> LNum v" and "Suc (need e) \<le> n" and "tok t < l"
  shows "parses (expression n l) st (t # ts) (ltext st @ ecode st e) TY_INT"
proof -
  obtain n' where n: "n = Suc n'" "need e \<le> n'" using assms(8) by (cases n) auto
  have "expr_reads n' l e st (t # ts)" using assms(1-7) n(2) unfolding parse_ok_def by blast
  then show ?thesis unfolding n(1) by (rule expr_reads_done [OF _ assms(9) n(2)])
qed

lemma parse_num: "parse_ok (ENum m)"
  unfolding parse_ok_def
proof (intro allI impI)
  fix l n st t ts assume a: "reads (print (ENum m) @ t # ts) st" "length (ltext st) + csize (ENum m) \<le> TEXT_WORDS" "\<forall>v. t \<noteq> LNum v"
  have "unary expr n st = unit_num st" for expr using reads_token [of "LNum m" "t # ts" st] a(1) by (simp add: unary_def)
  then show "expr_reads n l (ENum m) st (t # ts)"
    using num_parses [of m t ts st] a by (intro expr_reads_unit) (simp_all add: parses_def ecode_def)
qed

lemma parse_var: "parse_ok (EVar x)"
  unfolding parse_ok_def
proof (intro allI impI)
  fix l n st t ts assume a: "reads (print (EVar x) @ t # ts) st" "\<forall>y \<in> vars (EVar x). int_var (symbols st) y"
    "length (ltext st) + csize (EVar x) \<le> TEXT_WORDS" "stops (EVar x) (tok t)"
  have "unary expr n st = unit_id expr n st" for expr using reads_token [of "LId x" "t # ts" st] a(1) by (simp add: unary_def)
  then show "expr_reads n l (EVar x) st (t # ts)"
    using var_parses [of x t ts st "expression n" n] a by (intro expr_reads_unit) (simp_all add: parses_def ecode_def)
qed

lemma parse_paren:
  assumes e: "parse_ok e"
  shows "parse_ok (EParen e)"
  unfolding parse_ok_def
proof (intro allI impI)
  fix l n st t ts assume a: "fits l (EParen e)" "reads (print (EParen e) @ t # ts) st" "\<forall>y \<in> vars (EParen e). int_var (symbols st) y"
    "length (ltext st) + csize (EParen e) \<le> TEXT_WORDS" "need (EParen e) \<le> n"
  obtain t1 ts1 where p: "print e = t1 # ts1" "tok t1 \<noteq> T_Char" "tok t1 \<noteq> T_Int" by (rule print_hd)
  have r: "reads (Lx 40 # t1 # ts1 @ Lx 41 # t # ts) st" using a(2) p(1) by simp
  have "parses (unit_paren (expression n) n) st (t # ts) (ltext st @ ecode st (EParen e)) TY_INT"
  proof (rule paren_parses [OF r p(2,3)])
    fix st1 assume s1: "reads (t1 # ts1 @ Lx 41 # t # ts) st1" "ctx st1 = ctx st" "ltext st1 = ltext st"
    have "parses (expression n T_Assign) st1 (Lx 41 # t # ts) (ltext st1 @ ecode st1 e) TY_INT"
      by (rule operand_parses [OF e]) (use a s1 p(1) ctx_D [OF s1(2)] in auto)
    then show "parses (expression n T_Assign) st1 (Lx 41 # t # ts) (ltext st @ ecode st (EParen e)) TY_INT"
      using s1(3) ctx_D [OF s1(2)] by (simp add: ecode_def)
  qed
  moreover have "unary expr n st = unit_paren expr n st" for expr using reads_token [OF r] by (simp add: unary_def)
  ultimately show "expr_reads n l (EParen e) st (t # ts)" by (intro expr_reads_unit) (simp_all add: parses_def)
qed

text \<open>The prefix operators that compute on their operand.\<close>

lemma parse_prefix:
  assumes e: "parse_ok e" and pr: "print e' = Lx tk # print e" and v: "vars e' = vars e" and f: "\<And>l. fits l e' = fits T_Inc e"
    and s: "\<And>k. stops e' k \<longleftrightarrow> k < T_Inc \<and> stops e k" and nd: "need e' = Suc (need e)" and sp: "spine e' = 0"
    and c: "\<And>tb pl p. code_of tb pl p e' = code_of tb pl p e @ ws" and k: "csize e' = csize e + length ws"
    and u: "\<And>expr n st. token st = tk \<Longrightarrow> unary expr n st = seq ([lex_match tk, expr T_Inc] @ map (\<lambda>w. emit (\<lambda>_. w)) ws @ [set_type (\<lambda>_. TY_INT)]) st"
  shows "parse_ok e'"
  unfolding parse_ok_def
proof (intro allI impI)
  fix l n st t ts assume a: "fits l e'" "reads (print e' @ t # ts) st" "\<forall>y \<in> vars e'. int_var (symbols st) y"
    "length (ltext st) + csize e' \<le> TEXT_WORDS" "stops e' (tok t)" "\<forall>v. t \<noteq> LNum v" "need e' \<le> n"
  obtain t1 ts1 where p: "print e = t1 # ts1" by (rule print_hd)
  have r: "reads (Lx tk # t1 # ts1 @ t # ts) st" using a(2) p pr by simp
  have "parses (seq ([lex_match tk, expression n T_Inc] @ map (\<lambda>w. emit (\<lambda>_. w)) ws @ [set_type (\<lambda>_. TY_INT)])) st (t # ts)
      (ltext st @ ecode st e @ ws) TY_INT"
  proof (rule prefix_parses [OF r])
    fix st1 assume s1: "reads (t1 # ts1 @ t # ts) st1" "ctx st1 = ctx st" "ltext st1 = ltext st"
    have "parses (expression n T_Inc) st1 (t # ts) (ltext st1 @ ecode st1 e) TY_INT"
      by (rule operand_parses [OF e]) (use a s1 p ctx_D [OF s1(2)] f v k s nd in auto)
    then show "parses (expression n T_Inc) st1 (t # ts) (ltext st @ ecode st e) TY_INT"
      using s1(3) ctx_D [OF s1(2)] by (simp add: ecode_def)
  qed (use a(4) k in \<open>simp add: ecode_def\<close>)
  then have "parses (unary (expression n) n) st (t # ts) (ltext st @ ecode st e') TY_INT"
    using u [of st "expression n" n] reads_token [OF r] c by (simp add: parses_def ecode_def)
  then show "expr_reads n l e' st (t # ts)" using sp by (rule expr_reads_unit)
qed

lemma parse_neg:
  assumes e: "parse_ok e"
  shows "parse_ok (ENeg e)"
  unfolding parse_ok_def
proof (intro allI impI)
  fix l n st t ts assume a: "fits l (ENeg e)" "reads (print (ENeg e) @ t # ts) st" "\<forall>y \<in> vars (ENeg e). int_var (symbols st) y"
    "length (ltext st) + csize (ENeg e) \<le> TEXT_WORDS" "stops (ENeg e) (tok t)" "\<forall>v. t \<noteq> LNum v" "need (ENeg e) \<le> n"
  have u: "unary expr n st = unit_minus expr st" for expr using reads_token [of "Lx T_Sub" "print e @ t # ts" st] a(2) by (simp add: unary_def)
  have "parses (unit_minus (expression n)) st (t # ts) (ltext st @ ecode st (ENeg e)) TY_INT"
  proof (cases "\<exists>m. e = ENum m")
    case True
    then show ?thesis using minus_num_parses [of _ t ts st] a by (auto simp: ecode_def)
  next
    case False
    then have ne: "\<And>m. e \<noteq> ENum m" by simp
    obtain t1 ts1 where p: "print e = t1 # ts1" "fits T_Inc e \<Longrightarrow> (\<And>m. e \<noteq> ENum m) \<Longrightarrow> tok t1 \<noteq> T_Num"
      using print_hd [of e] by metis
    have nn: "tok t1 \<noteq> T_Num" by (rule p(2)) (use a(1) ne in auto)
    have r: "reads (Lx T_Sub # t1 # ts1 @ t # ts) st" using a(2) p(1) by simp
    let ?c = "code_of (text_base st) (place_in (symbols st) (index_of_bp st)) (length (ltext st) + 3) e"
    have room: "length (ltext st) + csize e + 4 \<le> TEXT_WORDS" using a(4) unfolding neg_shape(2) [OF ne] by simp
    have "parses (unit_minus (expression n)) st (t # ts) (ltext st @ [op_word IMM, - 1, op_word PUSH] @ ?c @ [op_word MUL]) TY_INT"
    proof (rule minus_parses [OF r nn])
      fix st1 assume s1: "reads (t1 # ts1 @ t # ts) st1" "ctx st1 = ctx st" "ltext st1 = ltext st @ [op_word IMM, - 1, op_word PUSH]"
      have "parses (expression n T_Inc) st1 (t # ts) (ltext st1 @ ecode st1 e) TY_INT"
        by (rule operand_parses [OF e]) (use a s1 p(1) ctx_D [OF s1(2)] room in auto)
      then show "parses (expression n T_Inc) st1 (t # ts) (ltext st @ [op_word IMM, - 1, op_word PUSH] @ ?c) TY_INT"
        using s1(3) ctx_D [OF s1(2)] by (simp add: ecode_def eval_nat_numeral)
    qed (use room in simp)
    then show ?thesis unfolding ecode_def neg_shape(1) [OF ne] by simp
  qed
  then show "expr_reads n l (ENeg e) st (t # ts)" by (intro expr_reads_unit) (simp_all add: parses_def u)
qed

lemma parse_pre: "parse_ok (EPre inc x)"
  unfolding parse_ok_def
proof (intro allI impI)
  fix l n st t ts assume a: "reads (print (EPre inc x) @ t # ts) st" "\<forall>y \<in> vars (EPre inc x). int_var (symbols st) y"
    "length (ltext st) + csize (EPre inc x) \<le> TEXT_WORDS" "stops (EPre inc x) (tok t)" "\<forall>v. t \<noteq> LNum v" "need (EPre inc x) \<le> n"
  have r: "reads (Lx (inc_token inc) # LId x # t # ts) st" using a(1) by simp
  let ?c = "place_code (place_in (symbols st) (index_of_bp st) x)"
  have "parses (unit_incdec (expression n)) st (t # ts) (ltext st @ ?c @ [op_word PUSH, op_word LI, op_word PUSH, op_word IMM, 1,
     op_word (if inc then ADD else SUB), op_word SI]) TY_INT"
  proof (rule incdec_parses [OF r])
    fix st1 assume s1: "reads (LId x # t # ts) st1" "ctx st1 = ctx st" "ltext st1 = ltext st"
    have "parses (expression n T_Inc) st1 (t # ts) (ltext st1 @ ecode st1 (EVar x)) TY_INT"
      by (rule operand_parses [OF parse_var]) (use a s1 ctx_D [OF s1(2)] in auto)
    then show "parses (expression n T_Inc) st1 (t # ts) (ltext st @ ?c @ [op_word LI]) TY_INT"
      using s1(3) ctx_D [OF s1(2)] by (simp add: ecode_def)
  qed (use a(3) in simp)
  moreover have "unary expr n st = unit_incdec expr st" for expr using reads_token [OF r] by (cases inc) (simp_all add: unary_def inc_token_def)
  ultimately show "expr_reads n l (EPre inc x) st (t # ts)" by (intro expr_reads_unit) (simp_all add: parses_def ecode_def)
qed

lemma parse_post: "parse_ok (EPost inc x)"
  unfolding parse_ok_def
proof (intro allI impI)
  fix l n st t ts assume a: "fits l (EPost inc x)" "reads (print (EPost inc x) @ t # ts) st" "\<forall>y \<in> vars (EPost inc x). int_var (symbols st) y"
    "length (ltext st) + csize (EPost inc x) \<le> TEXT_WORDS" "need (EPost inc x) \<le> n"
  have v: "expr_reads n l (EVar x) st (Lx (inc_token inc) # t # ts)"
    using parse_var a unfolding parse_ok_def by (auto simp: inc_token_def ident_tok_def)
  show "expr_reads n l (EPost inc x) st (t # ts)"
  proof (rule expr_reads_binary [OF v])
    fix st1 assume s1: "reads (Lx (inc_token inc) # t # ts) st1" "ctx st1 = ctx st" "ltext st1 = ltext st @ ecode st (EVar x)" "expr_type st1 = TY_INT"
    have "parses op_postfix st1 (t # ts) ((ltext st @ place_code (place_in (symbols st) (index_of_bp st) x)) @
        [op_word PUSH, op_word LI, op_word PUSH, op_word IMM, 1, op_word (if inc then ADD else SUB), op_word SI, op_word PUSH, op_word IMM, 1,
         op_word (if inc then SUB else ADD)]) TY_INT"
      by (rule op_postfix_parses [OF s1(1)]) (use s1 a(4) in \<open>simp_all add: ecode_def\<close>)
    moreover have "binary expr st1 = op_postfix st1" for expr using reads_token [OF s1(1)] by (cases inc) (simp_all add: binary_def inc_token_def)
    ultimately show "parses (binary (expression n)) st1 (t # ts) (ltext st @ ecode st (EPost inc x)) TY_INT"
      by (simp add: parses_def ecode_def)
  qed (use a in \<open>auto simp: inc_token_def\<close>)
qed

lemma op_token_range: "is_alu op \<Longrightarrow> T_Or \<le> op_token op \<and> op_token op \<le> T_Mod"
  by (simp add: is_alu_def op_token_def)

lemma parse_bin:
  assumes ea: "parse_ok a" and eb: "parse_ok b"
  shows "parse_ok (EBin op a b)"
  unfolding parse_ok_def
proof (intro allI impI)
  fix l n st t ts assume p: "fits l (EBin op a b)" "reads (print (EBin op a b) @ t # ts) st" "\<forall>y \<in> vars (EBin op a b). int_var (symbols st) y"
    "length (ltext st) + csize (EBin op a b) \<le> TEXT_WORDS" "stops (EBin op a b) (tok t)" "\<forall>v. t \<noteq> LNum v" "need (EBin op a b) \<le> n"
  have va: "expr_reads n l a st (Lx (op_token op) # print b @ t # ts)"
    using ea p unfolding parse_ok_def by auto
  obtain t1 ts1 where b: "print b = t1 # ts1" by (rule print_hd)
  show "expr_reads n l (EBin op a b) st (t # ts)"
  proof (rule expr_reads_binary [OF va])
    fix st1 assume s1: "reads (Lx (op_token op) # print b @ t # ts) st1" "ctx st1 = ctx st" "ltext st1 = ltext st @ ecode st a" "expr_type st1 = TY_INT"
    let ?cb = "code_of (text_base st) (place_in (symbols st) (index_of_bp st)) (length (ltext st) + csize a + 1) b"
    have "parses (op_binary (expression n) (op_token op) op (rlevel op) TY_INT) st1 (t # ts) (ltext st1 @ op_word PUSH # ?cb @ [op_word op]) TY_INT"
    proof (rule op_binary_parses [of _ t1 "ts1 @ t # ts"])
      fix st2 assume s2: "reads (t1 # ts1 @ t # ts) st2" "ctx st2 = ctx st1" "ltext st2 = ltext st1 @ [op_word PUSH]"
      have c2: "ctx st2 = ctx st" using s1(2) s2(2) by simp
      have "parses (expression n (rlevel op)) st2 (t # ts) (ltext st2 @ ecode st2 b) TY_INT"
        by (rule operand_parses [OF eb]) (use p s1 s2 b ctx_D [OF c2] in \<open>auto simp: ecode_def\<close>)
      then show "parses (expression n (rlevel op)) st2 (t # ts) (ltext st1 @ op_word PUSH # ?cb) TY_INT"
        using s1(3) s2(3) ctx_D [OF c2] by (simp add: ecode_def)
    qed (use s1 b p(4) in \<open>simp_all add: ecode_def\<close>)
    moreover have "binary (expression n) st1 = op_binary (expression n) (op_token op) op (rlevel op) TY_INT st1"
      by (rule binary_alu) (use p(1) s1 reads_token [OF s1(1)] in auto)
    ultimately show "parses (binary (expression n)) st1 (t # ts) (ltext st @ ecode st (EBin op a b)) TY_INT"
      using s1(3) by (simp add: parses_def ecode_def)
  qed (use p spine_need [of a] in auto)
qed

text \<open>\<open>&&\<close> and \<open>||\<close>.\<close>

lemma parse_logic:
  assumes ea: "parse_ok a" and eb: "parse_ok b" and pr: "print e = print a @ Lx tk # print b" and v: "vars e = vars a \<union> vars b"
    and f: "\<And>l. fits l e \<longleftrightarrow> l \<le> tk \<and> fits l a \<and> stops a tk \<and> fits rl b" and s: "\<And>k. stops e k \<longleftrightarrow> k < rl \<and> stops b k"
    and nd: "need e = Suc (need a + need b)" and sp: "spine e = Suc (spine a)"
    and c: "\<And>tb pl p. code_of tb pl p e = code_of tb pl p a @ [op_word op, word_addr tb (p + csize a + csize b + 2)] @ code_of tb pl (p + csize a + 2) b"
    and k: "csize e = csize a + csize b + 2"
    and u: "\<And>expr st. token st = tk \<Longrightarrow> binary expr st = op_logic expr tk op rl st"
  shows "parse_ok e"
  unfolding parse_ok_def
proof (intro allI impI)
  fix l n st t ts assume p: "fits l e" "reads (print e @ t # ts) st" "\<forall>y \<in> vars e. int_var (symbols st) y"
    "length (ltext st) + csize e \<le> TEXT_WORDS" "stops e (tok t)" "\<forall>v. t \<noteq> LNum v" "need e \<le> n"
  have va: "expr_reads n l a st (Lx tk # print b @ t # ts)"
    using ea p unfolding parse_ok_def pr v f k nd by auto
  obtain t1 ts1 where b: "print b = t1 # ts1" by (rule print_hd)
  show "expr_reads n l e st (t # ts)"
  proof (rule expr_reads_binary [OF va sp])
    fix st1 assume s1: "reads (Lx tk # print b @ t # ts) st1" "ctx st1 = ctx st" "ltext st1 = ltext st @ ecode st a" "expr_type st1 = TY_INT"
    let ?cb = "code_of (text_base st) (place_in (symbols st) (index_of_bp st)) (length (ltext st) + csize a + 2) b"
    have "parses (op_logic (expression n) tk op rl) st1 (t # ts)
        (ltext st1 @ op_word op # word_addr (text_base st1) (length (ltext st1) + length ?cb + 2) # ?cb) TY_INT"
    proof (rule op_logic_parses [of _ t1 "ts1 @ t # ts"])
      fix st2 assume s2: "reads (t1 # ts1 @ t # ts) st2" "ctx st2 = ctx st1" "ltext st2 = ltext st1 @ [op_word op, 0]"
      have c2: "ctx st2 = ctx st" using s1(2) s2(2) by simp
      have "parses (expression n rl) st2 (t # ts) (ltext st2 @ ecode st2 b) TY_INT"
        by (rule operand_parses [OF eb]) (use p s1 s2 b ctx_D [OF c2] v f s nd k in \<open>auto simp: ecode_def\<close>)
      then show "parses (expression n rl) st2 (t # ts) (ltext st1 @ op_word op # 0 # ?cb) TY_INT"
        using s1(3) s2(3) ctx_D [OF c2] by (simp add: ecode_def)
    qed (use s1 b p(4) k in \<open>simp_all add: ecode_def\<close>)
    then show "parses (binary (expression n)) st1 (t # ts) (ltext st @ ecode st e) TY_INT"
      using s1(3) u [of st1 "expression n"] reads_token [OF s1(1)] ctx_D [OF s1(2)] by (simp add: parses_def ecode_def c add.assoc)
  qed (use p f nd spine_need [of a] in auto)
qed

lemma parse_cond:
  assumes ec: "parse_ok c" and ea: "parse_ok a" and eb: "parse_ok b"
  shows "parse_ok (ECond c a b)"
  unfolding parse_ok_def
proof (intro allI impI)
  fix l n st t ts assume p: "fits l (ECond c a b)" "reads (print (ECond c a b) @ t # ts) st" "\<forall>y \<in> vars (ECond c a b). int_var (symbols st) y"
    "length (ltext st) + csize (ECond c a b) \<le> TEXT_WORDS" "stops (ECond c a b) (tok t)" "\<forall>v. t \<noteq> LNum v" "need (ECond c a b) \<le> n"
  have vc: "expr_reads n l c st (Lx T_Cond # print a @ Lx 58 # print b @ t # ts)"
    using ec p unfolding parse_ok_def by auto
  obtain t1 ts1 where a: "print a = t1 # ts1" by (rule print_hd)
  obtain t2 ts2 where b: "print b = t2 # ts2" by (rule print_hd)
  let ?co = "code_of (text_base st) (place_in (symbols st) (index_of_bp st))"
  show "expr_reads n l (ECond c a b) st (t # ts)"
  proof (rule expr_reads_binary [OF vc])
    fix st1 assume s1: "reads (Lx T_Cond # print a @ Lx 58 # print b @ t # ts) st1" "ctx st1 = ctx st" "ltext st1 = ltext st @ ecode st c" "expr_type st1 = TY_INT"
    let ?p = "length (ltext st1)"
    let ?ca = "?co (?p + 2) a" and ?cb = "?co (?p + csize a + 4) b"
    have lp: "?p = length (ltext st) + csize c" using s1(3) by (simp add: ecode_def)
    have "parses (op_cond (expression n)) st1 (t # ts)
      (ltext st1 @ op_word JZ # word_addr (text_base st1) (?p + length ?ca + 4) # ?ca @
       op_word JMP # word_addr (text_base st1) (?p + length ?ca + length ?cb + 4) # ?cb) TY_INT"
    proof (rule op_cond_parses [of t1 "ts1 @ Lx 58 # t2 # ts2 @ t # ts" st1 ?ca ?cb "expression n" t2 "ts2 @ t # ts"])
      show "reads (Lx T_Cond # t1 # ts1 @ Lx 58 # t2 # ts2 @ t # ts) st1" using s1(1) a b by simp
      fix st2 assume s2: "reads (t1 # ts1 @ Lx 58 # t2 # ts2 @ t # ts) st2" "ctx st2 = ctx st1" "ltext st2 = ltext st1 @ [op_word JZ, 0]"
      have c2: "ctx st2 = ctx st" using s1(2) s2(2) by simp
      have "parses (expression n T_Assign) st2 (Lx 58 # t2 # ts2 @ t # ts) (ltext st2 @ ecode st2 a) TY_INT"
        by (rule operand_parses [OF ea]) (use p s1 s2 a lp ctx_D [OF c2] in auto)
      then show "parses (expression n T_Assign) st2 (Lx 58 # t2 # ts2 @ t # ts) (ltext st1 @ op_word JZ # 0 # ?ca) TY_INT"
        using s1(3) s2(3) ctx_D [OF c2] by (simp add: ecode_def)
    next
      fix st2 z assume s2: "reads (t2 # ts2 @ t # ts) st2" "ctx st2 = ctx st1"
        "ltext st2 = (ltext st1 @ op_word JZ # z # ?ca) @ [op_word JMP, 0]"
      have c2: "ctx st2 = ctx st" using s1(2) s2(2) by simp
      have l2: "length (ltext st2) = ?p + csize a + 4" using s2(3) by simp
      have "parses (expression n T_Cond) st2 (t # ts) (ltext st2 @ ecode st2 b) TY_INT"
        by (rule operand_parses [OF eb]) (use p s1 s2(1) b l2 lp ctx_D [OF c2] in auto)
      moreover have "ecode st2 b = ?cb" unfolding ecode_def l2 ctx_D [OF c2] ..
      ultimately show "parses (expression n T_Cond) st2 (t # ts) ((ltext st1 @ op_word JZ # z # ?ca) @ op_word JMP # 0 # ?cb) TY_INT"
        unfolding s2(3) by simp
    qed (use lp p(4) in simp)
    moreover have "binary (expression n) st1 = op_cond (expression n) st1" using reads_token [OF s1(1)] by (simp add: binary_def)
    moreover have "ltext st1 @ op_word JZ # word_addr (text_base st1) (?p + length ?ca + 4) # ?ca @
       op_word JMP # word_addr (text_base st1) (?p + length ?ca + length ?cb + 4) # ?cb = ltext st @ ecode st (ECond c a b)"
      unfolding lp ctx_D [OF s1(2)] s1(3) by (simp add: ecode_def ac_simps)
    ultimately show "parses (binary (expression n)) st1 (t # ts) (ltext st @ ecode st (ECond c a b)) TY_INT"
      by (simp add: parses_def)
  qed (use p spine_need [of c] in auto)
qed

lemma parse_assign:
  assumes e: "parse_ok e"
  shows "parse_ok (EAssign x e)"
  unfolding parse_ok_def
proof (intro allI impI)
  fix l n st t ts assume p: "fits l (EAssign x e)" "reads (print (EAssign x e) @ t # ts) st" "\<forall>y \<in> vars (EAssign x e). int_var (symbols st) y"
    "length (ltext st) + csize (EAssign x e) \<le> TEXT_WORDS" "stops (EAssign x e) (tok t)" "\<forall>v. t \<noteq> LNum v" "need (EAssign x e) \<le> n"
  have v: "expr_reads n l (EVar x) st (Lx T_Assign # print e @ t # ts)"
    using parse_var p unfolding parse_ok_def by (auto simp: ident_tok_def)
  obtain t1 ts1 where b: "print e = t1 # ts1" by (rule print_hd)
  show "expr_reads n l (EAssign x e) st (t # ts)"
  proof (rule expr_reads_binary [OF v])
    fix st1 assume s1: "reads (Lx T_Assign # print e @ t # ts) st1" "ctx st1 = ctx st" "ltext st1 = ltext st @ ecode st (EVar x)" "expr_type st1 = TY_INT"
    let ?T = "ltext st @ place_code (place_in (symbols st) (index_of_bp st) x)"
    let ?c = "code_of (text_base st) (place_in (symbols st) (index_of_bp st)) (length (ltext st) + 3) e"
    have "parses (op_assign (expression n) TY_INT) st1 (t # ts) (?T @ op_word PUSH # ?c @ [op_word SI]) TY_INT"
    proof (rule op_assign_parses [of t1 "ts1 @ t # ts"])
      show "ltext st1 = ?T @ [op_word LI]" using s1(3) by (simp add: ecode_def)
      fix st2 assume s2: "reads (t1 # ts1 @ t # ts) st2" "ctx st2 = ctx st1" "ltext st2 = ?T @ [op_word PUSH]"
      have c2: "ctx st2 = ctx st" using s1(2) s2(2) by simp
      have l2: "length (ltext st2) = length (ltext st) + 3" using s2(3) by simp
      have "parses (expression n T_Assign) st2 (t # ts) (ltext st2 @ ecode st2 e) TY_INT"
        by (rule operand_parses [OF e]) (use p s1 s2(1) b l2 ctx_D [OF c2] in auto)
      moreover have "ecode st2 e = ?c" unfolding ecode_def l2 ctx_D [OF c2] ..
      ultimately show "parses (expression n T_Assign) st2 (t # ts) (?T @ op_word PUSH # ?c) TY_INT"
        unfolding s2(3) by simp
    qed (use s1 b p(4) in simp_all)
    moreover have "binary (expression n) st1 = op_assign (expression n) TY_INT st1"
      using reads_token [OF s1(1)] s1(4) by (simp add: binary_def)
    ultimately show "parses (binary (expression n)) st1 (t # ts) (ltext st @ ecode st (EAssign x e)) TY_INT"
      using s1(3) by (simp add: parses_def ecode_def)
  qed (use p in auto)
qed

lemma parse_all: "parse_ok e"
proof (induction e)
  case (EPlus e)
  then show ?case by (rule parse_prefix [of e _ T_Add "[]"]) (simp_all add: unary_def unit_plus_def)
next
  case (ENot e)
  then show ?case by (rule parse_prefix [of e _ 33 "[op_word PUSH, op_word IMM, 0, op_word EQ]"]) (simp_all add: unary_def unit_not_def)
next
  case (EBitNot e)
  then show ?case by (rule parse_prefix [of e _ 126 "[op_word PUSH, op_word IMM, - 1, op_word BXOR]"]) (simp_all add: unary_def unit_bitnot_def)
next
  case (EAnd a b)
  then show ?case by (rule parse_logic [of a b _ T_Lan T_Or JZ]) (simp_all add: binary_def)
next
  case (EOr a b)
  then show ?case by (rule parse_logic [of a b _ T_Lor T_Lan JNZ]) (simp_all add: binary_def)
qed (auto intro: parse_num parse_var parse_paren parse_neg parse_pre parse_post parse_bin parse_cond parse_assign)

text \<open>
  What \<open>expression(level)\<close> does with the tokens of an expression followed by a token below the level.
\<close>

lemma expression_parses:
  assumes "fits l e" and "reads (print e @ t # ts) st" and "\<forall>x \<in> vars e. int_var (symbols st) x"
    and "length (ltext st) + csize e \<le> TEXT_WORDS" and "stops e (tok t)" and "\<forall>v. t \<noteq> LNum v" and "Suc (need e) \<le> n" and "tok t < l"
  shows "parses (expression n l) st (t # ts) (ltext st @ ecode st e) TY_INT"
  by (rule operand_parses [OF parse_all assms])

end
