(* ===== verification/Cc_Stmt.thy ===== *)
theory Cc_Stmt imports Cc_Parse
begin

text \<open>
  Statements of the C interpreter: \<open>if\<close>, \<open>while\<close>, blocks and \<open>return\<close>, their big-step meaning, the code that
  \<open>statement\<close> of developer/lex.c emits for them, and the proof that the machine follows the meaning.
\<close>

datatype stmt = SExpr exp | SEmpty | SIf exp stmt | SIfElse exp stmt stmt | SWhile exp stmt | SBlock "stmt list" | SReturn exp

section \<open>Meaning\<close>

text \<open>A statement ends normally or with the value of a \<open>return\<close>.\<close>

type_synonym result = "u32 option \<times> env"

inductive exec :: "stmt \<Rightarrow> env \<Rightarrow> result \<Rightarrow> bool" and execs :: "stmt list \<Rightarrow> env \<Rightarrow> result \<Rightarrow> bool" where
  Expr: "sem e \<rho> = Some (w, \<rho>') \<Longrightarrow> exec (SExpr e) \<rho> (None, \<rho>')"
| Empty: "exec SEmpty \<rho> (None, \<rho>)"
| IfTrue: "sem e \<rho> = Some (w, \<rho>1) \<Longrightarrow> w \<noteq> 0 \<Longrightarrow> exec s \<rho>1 r \<Longrightarrow> exec (SIf e s) \<rho> r"
| IfFalse: "sem e \<rho> = Some (0, \<rho>1) \<Longrightarrow> exec (SIf e s) \<rho> (None, \<rho>1)"
| IfElseTrue: "sem e \<rho> = Some (w, \<rho>1) \<Longrightarrow> w \<noteq> 0 \<Longrightarrow> exec s \<rho>1 r \<Longrightarrow> exec (SIfElse e s t) \<rho> r"
| IfElseFalse: "sem e \<rho> = Some (0, \<rho>1) \<Longrightarrow> exec t \<rho>1 r \<Longrightarrow> exec (SIfElse e s t) \<rho> r"
| WhileFalse: "sem e \<rho> = Some (0, \<rho>1) \<Longrightarrow> exec (SWhile e s) \<rho> (None, \<rho>1)"
| WhileTrue: "sem e \<rho> = Some (w, \<rho>1) \<Longrightarrow> w \<noteq> 0 \<Longrightarrow> exec s \<rho>1 (None, \<rho>2) \<Longrightarrow> exec (SWhile e s) \<rho>2 r \<Longrightarrow> exec (SWhile e s) \<rho> r"
| WhileReturn: "sem e \<rho> = Some (w, \<rho>1) \<Longrightarrow> w \<noteq> 0 \<Longrightarrow> exec s \<rho>1 (Some u, \<rho>2) \<Longrightarrow> exec (SWhile e s) \<rho> (Some u, \<rho>2)"
| Block: "execs ss \<rho> r \<Longrightarrow> exec (SBlock ss) \<rho> r"
| Return: "sem e \<rho> = Some (w, \<rho>') \<Longrightarrow> exec (SReturn e) \<rho> (Some w, \<rho>')"
| Nil: "execs [] \<rho> (None, \<rho>)"
| Next: "exec s \<rho> (None, \<rho>1) \<Longrightarrow> execs ss \<rho>1 r \<Longrightarrow> execs (s # ss) \<rho> r"
| Stop: "exec s \<rho> (Some w, \<rho>1) \<Longrightarrow> execs (s # ss) \<rho> (Some w, \<rho>1)"

section \<open>The code\<close>

fun ssize :: "stmt \<Rightarrow> nat" and ssizes :: "stmt list \<Rightarrow> nat" where
  "ssize (SExpr e) = csize e" | "ssize SEmpty = 0" | "ssize (SIf e s) = csize e + ssize s + 2"
| "ssize (SIfElse e s t) = csize e + ssize s + ssize t + 4" | "ssize (SWhile e s) = csize e + ssize s + 4"
| "ssize (SBlock ss) = ssizes ss" | "ssize (SReturn e) = csize e + 1"
| "ssizes [] = 0" | "ssizes (s # ss) = ssize s + ssizes ss"

fun scode :: "u32 \<Rightarrow> (nat \<Rightarrow> place) \<Rightarrow> nat \<Rightarrow> stmt \<Rightarrow> u32 list" and scodes :: "u32 \<Rightarrow> (nat \<Rightarrow> place) \<Rightarrow> nat \<Rightarrow> stmt list \<Rightarrow> u32 list" where
  "scode tb pl p (SExpr e) = code_of tb pl p e"
| "scode tb pl p SEmpty = []"
| "scode tb pl p (SIf e s) = code_of tb pl p e @ op_word JZ # word_addr tb (p + csize e + ssize s + 2) # scode tb pl (p + csize e + 2) s"
| "scode tb pl p (SIfElse e s t) = code_of tb pl p e @ op_word JZ # word_addr tb (p + csize e + ssize s + 4) # scode tb pl (p + csize e + 2) s @
     op_word JMP # word_addr tb (p + csize e + ssize s + ssize t + 4) # scode tb pl (p + csize e + ssize s + 4) t"
| "scode tb pl p (SWhile e s) = code_of tb pl p e @ op_word JZ # word_addr tb (p + csize e + ssize s + 4) # scode tb pl (p + csize e + 2) s @
     [op_word JMP, word_addr tb p]"
| "scode tb pl p (SBlock ss) = scodes tb pl p ss"
| "scode tb pl p (SReturn e) = code_of tb pl p e @ [op_word LEV]"
| "scodes tb pl p [] = []"
| "scodes tb pl p (s # ss) = scode tb pl p s @ scodes tb pl (p + ssize s) ss"

lemma length_scode [simp]: "length (scode tb pl p s) = ssize s" "length (scodes tb pl p ss) = ssizes ss"
  by (induction tb pl p s and tb pl p ss rule: scode_scodes.induct) simp_all

fun svars :: "stmt \<Rightarrow> nat set" and svarss :: "stmt list \<Rightarrow> nat set" where
  "svars (SExpr e) = vars e" | "svars SEmpty = {}" | "svars (SIf e s) = vars e \<union> svars s"
| "svars (SIfElse e s t) = vars e \<union> svars s \<union> svars t" | "svars (SWhile e s) = vars e \<union> svars s"
| "svars (SBlock ss) = svarss ss" | "svars (SReturn e) = vars e"
| "svarss [] = {}" | "svarss (s # ss) = svars s \<union> svarss ss"

fun sdepth :: "stmt \<Rightarrow> nat" and sdepths :: "stmt list \<Rightarrow> nat" where
  "sdepth (SExpr e) = depth e" | "sdepth SEmpty = 0" | "sdepth (SIf e s) = max (depth e) (sdepth s)"
| "sdepth (SIfElse e s t) = max (depth e) (max (sdepth s) (sdepth t))" | "sdepth (SWhile e s) = max (depth e) (sdepth s)"
| "sdepth (SBlock ss) = sdepths ss" | "sdepth (SReturn e) = depth e"
| "sdepths [] = 0" | "sdepths (s # ss) = max (sdepth s) (sdepths ss)"

fun salu :: "stmt \<Rightarrow> bool" and salus :: "stmt list \<Rightarrow> bool" where
  "salu (SExpr e) = alu_ops e" | "salu SEmpty = True" | "salu (SIf e s) = (alu_ops e \<and> salu s)"
| "salu (SIfElse e s t) = (alu_ops e \<and> salu s \<and> salu t)" | "salu (SWhile e s) = (alu_ops e \<and> salu s)"
| "salu (SBlock ss) = salus ss" | "salu (SReturn e) = alu_ops e"
| "salus [] = True" | "salus (s # ss) = (salu s \<and> salus ss)"

section \<open>Running the code\<close>

text \<open>At the end of the code, or at a \<open>LEV\<close> with the value returned in \<open>ax\<close>.\<close>

definition ends :: "(opcode \<Rightarrow> vm \<Rightarrow> vm option) \<Rightarrow> layout \<Rightarrow> nat \<Rightarrow> vm \<Rightarrow> nat \<Rightarrow> result \<Rightarrow> bool" where
  "ends sys L d v q r \<longleftrightarrow> (case fst r of None \<Rightarrow> \<exists>w. lands sys L d v q w (snd r)
     | Some w \<Rightarrow> \<exists>q. code_in L q [op_word LEV] \<and> lands sys L d v q w (snd r))"

lemma ends_then:
  assumes "good L d \<rho> v" and "lands sys L d v q w \<rho>1"
    and "\<And>m. good L d \<rho>1 (v\<lparr>pc := at L q, ax := w, mem := m\<rparr>) \<Longrightarrow> ends sys L d (v\<lparr>pc := at L q, ax := w, mem := m\<rparr>) q' r"
  shows "ends sys L d v q' r"
proof -
  obtain m where m: "reaches sys v (v\<lparr>pc := at L q, ax := w, mem := m\<rparr>)" "framed L d (bp v) (sp v) (mem v) m" "env_in L (bp v) \<rho>1 m"
    using assms(2) by (auto simp: lands_def)
  have g: "good L d \<rho>1 (v\<lparr>pc := at L q, ax := w, mem := m\<rparr>)" by (rule good_framed [OF assms(1) m(2,3)])
  have l: "lands sys L d (v\<lparr>pc := at L q, ax := w, mem := m\<rparr>) q2 w2 \<rho>2 \<Longrightarrow> lands sys L d v q2 w2 \<rho>2" for q2 w2 \<rho>2
    unfolding lands_def using reaches_trans [OF m(1)] framed_trans [OF m(2)] by (simp, blast)
  show ?thesis using assms(3) [OF g] l unfolding ends_def by (auto split: option.splits)
qed

lemma ends_normal: "lands sys L d v q w \<rho>' \<Longrightarrow> ends sys L d v q (None, \<rho>')"
  by (auto simp: ends_def)

abbreviation scode_in :: "layout \<Rightarrow> nat \<Rightarrow> stmt \<Rightarrow> bool" where
  "scode_in L p s \<equiv> code_in L p (scode (lay_base L) (lay_place L) p s)"

abbreviation scodes_in :: "layout \<Rightarrow> nat \<Rightarrow> stmt list \<Rightarrow> bool" where
  "scodes_in L p s \<equiv> code_in L p (scodes (lay_base L) (lay_place L) p s)"

text \<open>A condition and the branch behind it.\<close>

lemma ends_branch:
  assumes g: "good L d \<rho> v" "pc v = at L p" and c: "code_of_in L p e" "code_in L (p + csize e) [op_word JZ, at L q]"
    and e: "sem e \<rho> = Some (w, \<rho>1)" "vars e \<subseteq> lay_vars L" "depth e \<le> d" "alu_ops e"
    and rest: "\<And>v'. good L d \<rho>1 v' \<Longrightarrow> pc v' = at L (if w = 0 then q else p + csize e + 2) \<Longrightarrow> ends sys L d v' q' r"
  shows "ends sys L d v q' r"
proof (rule ends_then [OF g(1) code_runs [OF g c(1) e]])
  let ?v = "\<lambda>m. v\<lparr>pc := at L (p + csize e), ax := w, mem := m\<rparr>"
  fix m assume gm: "good L d \<rho>1 (?v m)"
  have "lands sys L d (?v m) (if w = 0 then q else p + csize e + 2) w \<rho>1"
    using lands_branch [OF gm _ c(2), of sys] by (simp split: if_splits)
  then show "ends sys L d (?v m) q' r" by (rule ends_then [OF gm]) (rule rest, simp_all)
qed

lemma ends_jmp:
  assumes "good L d \<rho> v" "pc v = at L p" "code_in L p [op_word JMP, at L q]"
    and "\<And>v'. good L d \<rho> v' \<Longrightarrow> pc v' = at L q \<Longrightarrow> ends sys L d v' q' r"
  shows "ends sys L d v q' r"
  by (rule ends_then [OF assms(1) lands_jmp [OF assms(1-3)]]) (rule assms(4), simp_all)

text \<open>From a normal end of a statement on.\<close>

lemma ends_seq:
  assumes "good L d \<rho> v" and "ends sys L d v q (None, \<rho>1)"
    and "\<And>v'. good L d \<rho>1 v' \<Longrightarrow> pc v' = at L q \<Longrightarrow> ends sys L d v' q' r"
  shows "ends sys L d v q' r"
proof -
  obtain w where "lands sys L d v q w \<rho>1" using assms(2) by (auto simp: ends_def)
  then show ?thesis by (rule ends_then [OF assms(1)]) (rule assms(3), simp_all)
qed

lemma ends_return: "ends sys L d v q (Some w, \<rho>') \<Longrightarrow> ends sys L d v q' (Some w, \<rho>')"
  by (simp add: ends_def)

lemma stay: "good L d \<rho> v \<Longrightarrow> pc v = at L p \<Longrightarrow> ends sys L d v p (None, \<rho>)"
  by (rule ends_normal [of _ _ _ _ _ "ax v"], rule lands_regs, assumption)
    (metis reaches_refl vm.surjective vm.update_convs(4) vm.update_convs(7))

lemma stmt_runs:
  "exec s \<rho> r \<Longrightarrow> good L d \<rho> v \<Longrightarrow> pc v = at L p \<Longrightarrow> scode_in L p s \<Longrightarrow> svars s \<subseteq> lay_vars L \<Longrightarrow> sdepth s \<le> d \<Longrightarrow> salu s \<Longrightarrow>
     ends sys L d v (p + ssize s) r"
  "execs ss \<rho> r \<Longrightarrow> good L d \<rho> v \<Longrightarrow> pc v = at L p \<Longrightarrow> scodes_in L p ss \<Longrightarrow> svarss ss \<subseteq> lay_vars L \<Longrightarrow> sdepths ss \<le> d \<Longrightarrow> salus ss \<Longrightarrow>
     ends sys L d v (p + ssizes ss) r"
proof (induction arbitrary: v p and v p rule: exec_execs.inducts)
  case (Expr e \<rho> w \<rho>')
  then show ?case by (auto intro!: ends_normal code_runs)
next
  case (Empty \<rho>)
  then show ?case by (auto intro: stay)
next
  case (IfTrue e \<rho> w \<rho>1 s r)
  have c: "code_of_in L p e" "code_in L (p + csize e) [op_word JZ, at L (p + csize e + ssize s + 2)]" "scode_in L (p + csize e + 2) s"
    using IfTrue.prems(3) by simp_all
  show ?case
  proof (rule ends_branch [OF IfTrue.prems(1,2) c(1,2) IfTrue.hyps(1)])
    fix v' assume "good L d \<rho>1 v'" "pc v' = at L (if w = 0 then p + csize e + ssize s + 2 else p + csize e + 2)"
    then have "ends sys L d v' (p + csize e + 2 + ssize s) r" using IfTrue.hyps(2) c(3) IfTrue.prems(4-6) by (intro IfTrue.IH) auto
    then show "ends sys L d v' (p + ssize (SIf e s)) r" by (simp add: ac_simps)
  qed (use IfTrue.prems in auto)
next
  case (IfFalse e \<rho> \<rho>1 s)
  have c: "code_of_in L p e" "code_in L (p + csize e) [op_word JZ, at L (p + csize e + ssize s + 2)]"
    using IfFalse.prems(3) by simp_all
  show ?case
    by (rule ends_branch [OF IfFalse.prems(1,2) c IfFalse.hyps])
      (use IfFalse.prems in \<open>auto intro!: stay simp: ac_simps\<close>)
next
  case (IfElseTrue e \<rho> w \<rho>1 s r t)
  have c: "code_of_in L p e" "code_in L (p + csize e) [op_word JZ, at L (p + csize e + ssize s + 4)]" "scode_in L (p + csize e + 2) s"
    "code_in L (p + csize e + 2 + ssize s) [op_word JMP, at L (p + csize e + ssize s + ssize t + 4)]"
    using IfElseTrue.prems(3) by (simp_all add: eval_nat_numeral)
  show ?case
  proof (rule ends_branch [OF IfElseTrue.prems(1,2) c(1,2) IfElseTrue.hyps(1)])
    fix v' assume v': "good L d \<rho>1 v'" "pc v' = at L (if w = 0 then p + csize e + ssize s + 4 else p + csize e + 2)"
    then have e: "ends sys L d v' (p + csize e + 2 + ssize s) r" using IfElseTrue.hyps(2) c(3) IfElseTrue.prems(4-6) by (intro IfElseTrue.IH) auto
    show "ends sys L d v' (p + ssize (SIfElse e s t)) r"
    proof (cases r)
      case (Pair x \<rho>2)
      show ?thesis
      proof (cases x)
        case None
        then have "ends sys L d v' (p + csize e + 2 + ssize s) (None, \<rho>2)" using e Pair by simp
        then show ?thesis
        proof (rule ends_seq [OF v'(1)])
          fix u assume "good L d \<rho>2 u" "pc u = at L (p + csize e + 2 + ssize s)"
          from ends_jmp [OF this c(4)] show "ends sys L d u (p + ssize (SIfElse e s t)) r"
            using Pair None stay [of L d \<rho>2 _ "p + csize e + ssize s + ssize t + 4"] by (simp add: ac_simps)
        qed
      next
        case (Some w)
        then show ?thesis using e ends_return Pair by blast
      qed
    qed
  qed (use IfElseTrue.prems in auto)
next
  case (IfElseFalse e \<rho> \<rho>1 t r s)
  have c: "code_of_in L p e" "code_in L (p + csize e) [op_word JZ, at L (p + csize e + ssize s + 4)]" "scode_in L (p + csize e + ssize s + 4) t"
    using IfElseFalse.prems(3) by (simp_all add: eval_nat_numeral ac_simps)
  show ?case
  proof (rule ends_branch [OF IfElseFalse.prems(1,2) c(1,2) IfElseFalse.hyps(1)])
    fix v' assume "good L d \<rho>1 v'" "pc v' = at L (if 0 = (0 :: u32) then p + csize e + ssize s + 4 else p + csize e + 2)"
    then have "ends sys L d v' (p + csize e + ssize s + 4 + ssize t) r" using c(3) IfElseFalse.prems(4-6) by (intro IfElseFalse.IH) auto
    then show "ends sys L d v' (p + ssize (SIfElse e s t)) r" by (simp add: ac_simps)
  qed (use IfElseFalse.prems in auto)
next
  case (WhileFalse e \<rho> \<rho>1 s)
  have c: "code_of_in L p e" "code_in L (p + csize e) [op_word JZ, at L (p + csize e + ssize s + 4)]"
    using WhileFalse.prems(3) by simp_all
  show ?case
    by (rule ends_branch [OF WhileFalse.prems(1,2) c WhileFalse.hyps])
      (use WhileFalse.prems in \<open>auto intro!: stay simp: ac_simps\<close>)
next
  case (WhileTrue e \<rho> w \<rho>1 s \<rho>2 r)
  have c: "code_of_in L p e" "code_in L (p + csize e) [op_word JZ, at L (p + csize e + ssize s + 4)]" "scode_in L (p + csize e + 2) s"
    "code_in L (p + csize e + 2 + ssize s) [op_word JMP, at L p]"
    using WhileTrue.prems(3) by (simp_all add: eval_nat_numeral)
  show ?case
  proof (rule ends_branch [OF WhileTrue.prems(1,2) c(1,2) WhileTrue.hyps(1)])
    fix v' assume v': "good L d \<rho>1 v'" "pc v' = at L (if w = 0 then p + csize e + ssize s + 4 else p + csize e + 2)"
    then have "ends sys L d v' (p + csize e + 2 + ssize s) (None, \<rho>2)" using WhileTrue.hyps(2) c(3) WhileTrue.prems(4-6) by (intro WhileTrue.IH(1)) auto
    then show "ends sys L d v' (p + ssize (SWhile e s)) r"
    proof (rule ends_seq [OF v'(1)])
      fix u assume "good L d \<rho>2 u" "pc u = at L (p + csize e + 2 + ssize s)"
      from ends_jmp [OF this c(4)] show "ends sys L d u (p + ssize (SWhile e s)) r"
        using WhileTrue.IH(2) WhileTrue.prems(3-6) by blast
    qed
  qed (use WhileTrue.prems in auto)
next
  case (WhileReturn e \<rho> w \<rho>1 s u \<rho>2)
  have c: "code_of_in L p e" "code_in L (p + csize e) [op_word JZ, at L (p + csize e + ssize s + 4)]" "scode_in L (p + csize e + 2) s"
    using WhileReturn.prems(3) by simp_all
  show ?case
  proof (rule ends_branch [OF WhileReturn.prems(1,2) c(1,2) WhileReturn.hyps(1)])
    fix v' assume "good L d \<rho>1 v'" "pc v' = at L (if w = 0 then p + csize e + ssize s + 4 else p + csize e + 2)"
    then have "ends sys L d v' (p + csize e + 2 + ssize s) (Some u, \<rho>2)" using WhileReturn.hyps(2) c(3) WhileReturn.prems(4-6) by (intro WhileReturn.IH) auto
    then show "ends sys L d v' (p + ssize (SWhile e s)) (Some u, \<rho>2)" by (rule ends_return)
  qed (use WhileReturn.prems in auto)
next
  case (Return e \<rho> w \<rho>')
  then have "lands sys L d v (p + csize e) w \<rho>'" "code_in L (p + csize e) [op_word LEV]" by (auto intro: code_runs)
  then show ?case by (auto simp: ends_def)
next
  case (Next s \<rho> \<rho>1 ss r)
  have "ends sys L d v (p + ssize s) (None, \<rho>1)" using Next.prems by (intro Next.IH(1)) auto
  then show ?case
  proof (rule ends_seq [OF Next.prems(1)])
    fix u assume "good L d \<rho>1 u" "pc u = at L (p + ssize s)"
    then have "ends sys L d u (p + ssize s + ssizes ss) r" using Next.prems(3-6) by (intro Next.IH(2)) auto
    then show "ends sys L d u (p + ssizes (s # ss)) r" by (simp add: ac_simps)
  qed
next
  case (Stop s \<rho> w \<rho>1 ss)
  have "ends sys L d v (p + ssize s) (Some w, \<rho>1)" using Stop.prems by (intro Stop.IH) auto
  then show ?case by (rule ends_return)
qed (auto intro: stay)

section \<open>Parsing\<close>

fun sprint :: "stmt \<Rightarrow> lexeme list" and sprints :: "stmt list \<Rightarrow> lexeme list" where
  "sprint (SExpr e) = print e @ [Lx 59]"
| "sprint SEmpty = [Lx 59]"
| "sprint (SIf e s) = Lx T_If # Lx 40 # print e @ Lx 41 # sprint s"
| "sprint (SIfElse e s t) = Lx T_If # Lx 40 # print e @ Lx 41 # sprint s @ Lx T_Else # sprint t"
| "sprint (SWhile e s) = Lx T_While # Lx 40 # print e @ Lx 41 # sprint s"
| "sprint (SBlock ss) = Lx 123 # sprints ss @ [Lx 125]"
| "sprint (SReturn e) = Lx T_Return # print e @ [Lx 59]"
| "sprints [] = []"
| "sprints (s # ss) = sprint s @ sprints ss"

text \<open>A statement that an \<open>else\<close> behind it would continue.\<close>

fun open_if :: "stmt \<Rightarrow> bool" where
  "open_if (SIf e s) \<longleftrightarrow> True" | "open_if (SIfElse e s t) \<longleftrightarrow> open_if t" | "open_if (SWhile e s) \<longleftrightarrow> open_if s" | "open_if _ \<longleftrightarrow> False"

fun sfits :: "stmt \<Rightarrow> bool" and sfitss :: "stmt list \<Rightarrow> bool" where
  "sfits (SExpr e) \<longleftrightarrow> fits T_Assign e \<and> stops e 59"
| "sfits SEmpty \<longleftrightarrow> True"
| "sfits (SIf e s) \<longleftrightarrow> fits T_Assign e \<and> stops e 41 \<and> sfits s"
| "sfits (SIfElse e s t) \<longleftrightarrow> fits T_Assign e \<and> stops e 41 \<and> sfits s \<and> \<not> open_if s \<and> sfits t"
| "sfits (SWhile e s) \<longleftrightarrow> fits T_Assign e \<and> stops e 41 \<and> sfits s"
| "sfits (SBlock ss) \<longleftrightarrow> sfitss ss"
| "sfits (SReturn e) \<longleftrightarrow> fits T_Assign e \<and> stops e 59"
| "sfitss [] \<longleftrightarrow> True"
| "sfitss (s # ss) \<longleftrightarrow> sfits s \<and> sfitss ss"

fun sneed :: "stmt \<Rightarrow> nat" and sneeds :: "stmt list \<Rightarrow> nat" where
  "sneed (SExpr e) = need e + 2" | "sneed SEmpty = 1" | "sneed (SIf e s) = need e + sneed s + 2"
| "sneed (SIfElse e s t) = need e + sneed s + sneed t + 2" | "sneed (SWhile e s) = need e + sneed s + 2"
| "sneed (SBlock ss) = Suc (sneeds ss)" | "sneed (SReturn e) = need e + 2"
| "sneeds [] = 1" | "sneeds (s # ss) = Suc (sneed s + sneeds ss)"

definition scode_at :: "lexer \<Rightarrow> stmt \<Rightarrow> u32 list" where
  "scode_at st s = scode (text_base st) (place_in (symbols st) (index_of_bp st)) (length (ltext st)) s"

definition sparses :: "step \<Rightarrow> lexer \<Rightarrow> lexeme list \<Rightarrow> u32 list \<Rightarrow> bool" where
  "sparses f st ts T \<longleftrightarrow> (\<exists>st'. f st = Done st' \<and> reads ts st' \<and> ctx st' = ctx st \<and> ltext st' = T)"

lemma sparses_parses: "parses f st ts T ty \<Longrightarrow> sparses f st ts T"
  by (auto simp: parses_def sparses_def)

lemma sparses_seq:
  assumes "sparses f st ts1 T1"
    and "\<And>st1. reads ts1 st1 \<Longrightarrow> ctx st1 = ctx st \<Longrightarrow> ltext st1 = T1 \<Longrightarrow> sparses (seq fs) st1 ts T"
  shows "sparses (seq (f # fs)) st ts T"
proof -
  obtain st1 where s: "f st = Done st1" "reads ts1 st1" "ctx st1 = ctx st" "ltext st1 = T1"
    using assms(1) by (auto simp: sparses_def)
  show ?thesis using assms(2) [OF s(2-4)] s(1,3) by (simp add: sparses_def)
qed

lemma sparses_last: "sparses f st ts T \<Longrightarrow> sparses (seq [f]) st ts T"
  by (simp add: sparses_def seq_Nil_Done)

lemma sparses_match: "reads (t # t' # ts) st \<Longrightarrow> tok t = tk \<Longrightarrow> sparses (lex_match tk) st (t' # ts) (ltext st)"
  by (rule sparses_parses, rule parses_match)

lemma sparses_hole:
  assumes "reads ts0 st" and "length (ltext st) + 1 < TEXT_WORDS"
    and "\<And>st1. reads ts0 st1 \<Longrightarrow> ctx st1 = ctx st \<Longrightarrow> ltext st1 = ltext st @ [op_word op, 0] \<Longrightarrow>
      sparses (body (length (ltext st) + 1)) st1 ts T"
  shows "sparses (hole op body) st ts T"
proof -
  let ?st = "st\<lparr>ltext := ltext st @ [op_word op, 0]\<rparr>"
  have "seq [emit_op op, emit (\<lambda>_. 0)] st = Done ?st" using assms(2) by (simp add: emit_def)
  then have "hole op body st = body (length (ltext st) + 1) ?st" by (simp add: hole_def)
  moreover have "sparses (body (length (ltext st) + 1)) ?st ts T" by (rule assms(3)) (use assms(1) in simp_all)
  ultimately show ?thesis by (simp add: sparses_def)
qed

lemma sparses_patched:
  "reads ts st \<Longrightarrow> ltext st = T @ w # 0 # c \<Longrightarrow> i = length T + 1 \<Longrightarrow> a = word_addr (text_base st) (length T + length c + 1 + k) \<Longrightarrow>
   sparses (patch_text i k) st ts (T @ w # a # c)"
  by (rule sparses_parses, rule parses_patched) auto

text \<open>\<open>(e)\<close> behind a keyword.\<close>

lemma condition_parses:
  assumes r: "reads (Lx tk # Lx 40 # print e @ Lx 41 # t # ts) st" and f: "fits T_Assign e" "stops e 41" and v: "\<forall>x \<in> vars e. int_var (symbols st) x"
    and room: "length (ltext st) + csize e \<le> TEXT_WORDS" and n: "Suc (need e) \<le> n"
    and rest: "\<And>st1. reads (t # ts) st1 \<Longrightarrow> ctx st1 = ctx st \<Longrightarrow> ltext st1 = ltext st @ ecode st e \<Longrightarrow> sparses (seq fs) st1 ts' T"
  shows "sparses (seq (lex_match tk # lex_match 40 # expression n T_Assign # lex_match 41 # fs)) st ts' T"
proof (rule sparses_seq [OF sparses_match [OF r]])
  fix st1 assume s1: "reads (Lx 40 # print e @ Lx 41 # t # ts) st1" "ctx st1 = ctx st" "ltext st1 = ltext st"
  obtain t1 ts1 where p: "print e = t1 # ts1" by (rule print_hd)
  show "sparses (seq (lex_match 40 # expression n T_Assign # lex_match 41 # fs)) st1 ts' T"
  proof (rule sparses_seq [OF sparses_match [of "Lx 40" t1 "ts1 @ Lx 41 # t # ts"]])
    fix st2 assume s2: "reads (t1 # ts1 @ Lx 41 # t # ts) st2" "ctx st2 = ctx st1" "ltext st2 = ltext st1"
    have c2: "ctx st2 = ctx st" using s1(2) s2(2) by simp
    have "parses (expression n T_Assign) st2 (Lx 41 # t # ts) (ltext st2 @ ecode st2 e) TY_INT"
      by (rule expression_parses) (use f v room n p s1 s2 ctx_D [OF c2] in auto)
    moreover have "ltext st2 @ ecode st2 e = ltext st @ ecode st e" using s1(3) s2(3) ctx_D [OF c2] by (simp add: ecode_def)
    ultimately have "sparses (expression n T_Assign) st2 (Lx 41 # t # ts) (ltext st @ ecode st e)" by (simp add: sparses_parses)
    then show "sparses (seq (expression n T_Assign # lex_match 41 # fs)) st2 ts' T"
    proof (rule sparses_seq)
      fix st3 assume s3: "reads (Lx 41 # t # ts) st3" "ctx st3 = ctx st2" "ltext st3 = ltext st @ ecode st e"
      show "sparses (seq (lex_match 41 # fs)) st3 ts' T"
      proof (rule sparses_seq [OF sparses_match [OF s3(1)]])
        fix st4 assume s4: "reads (t # ts) st4" "ctx st4 = ctx st3" "ltext st4 = ltext st3"
        show "sparses (seq fs) st4 ts' T" by (rule rest [OF s4(1)]) (use s4 s3 c2 in simp_all)
      qed simp
    qed
  qed (use s1(1) p in simp_all)
qed simp

text \<open>An expression up to a semicolon.\<close>

lemma expr_semicolon:
  assumes r: "reads (print e @ Lx 59 # t # ts) st" and f: "fits T_Assign e" "stops e 59" and v: "\<forall>x \<in> vars e. int_var (symbols st) x"
    and room: "length (ltext st) + csize e \<le> TEXT_WORDS" and n: "Suc (need e) \<le> n"
    and rest: "\<And>st1. reads (t # ts) st1 \<Longrightarrow> ctx st1 = ctx st \<Longrightarrow> ltext st1 = ltext st @ ecode st e \<Longrightarrow> sparses (seq fs) st1 ts' T"
  shows "sparses (seq (expression n T_Assign # lex_match 59 # fs)) st ts' T"
proof -
  have "parses (expression n T_Assign) st (Lx 59 # t # ts) (ltext st @ ecode st e) TY_INT"
    by (rule expression_parses) (use r f v room n in auto)
  then have "sparses (expression n T_Assign) st (Lx 59 # t # ts) (ltext st @ ecode st e)" by (rule sparses_parses)
  then show ?thesis
  proof (rule sparses_seq)
    fix st1 assume s1: "reads (Lx 59 # t # ts) st1" "ctx st1 = ctx st" "ltext st1 = ltext st @ ecode st e"
    show "sparses (seq (lex_match 59 # fs)) st1 ts' T"
      by (rule sparses_seq [OF sparses_match [OF s1(1)]]) (use s1 in \<open>auto intro: rest\<close>)
  qed
qed

lemma sprint_hd:
  obtains t ts where "sprint s = t # ts" "tok t \<noteq> T_Else" "tok t \<noteq> 125"
proof -
  have "\<exists>t ts. sprint s = t # ts \<and> tok t \<noteq> T_Else \<and> tok t \<noteq> 125"
  proof (cases s)
    case (SExpr e)
    obtain t ts where "print e = t # ts" "starts_expr (tok t)" by (rule print_starts)
    then show ?thesis using SExpr by (auto simp: starts_expr_def)
  qed auto
  then show thesis using that by blast
qed

lemma sprints_hd: "\<exists>t' ts'. sprints ss @ Lx 125 # ts = t' # ts' \<and> tok t' \<noteq> T_Else"
proof (cases ss)
  case (Cons s ss')
  obtain t ts where "sprint s = t # ts" "tok t \<noteq> T_Else" by (rule sprint_hd)
  then show ?thesis using Cons by auto
qed simp

definition stmt_ok :: "stmt \<Rightarrow> bool" where
  "stmt_ok s \<longleftrightarrow> (\<forall>n st t ts. ltext st \<noteq> [] \<longrightarrow> sfits s \<longrightarrow> reads (sprint s @ t # ts) st \<longrightarrow> (\<forall>x \<in> svars s. int_var (symbols st) x) \<longrightarrow>
     length (ltext st) + ssize s \<le> TEXT_WORDS \<longrightarrow> (open_if s \<longrightarrow> tok t \<noteq> T_Else) \<longrightarrow> sneed s \<le> n \<longrightarrow>
     sparses (statement n) st (t # ts) (ltext st @ scode_at st s))"

definition stmts_ok :: "stmt list \<Rightarrow> bool" where
  "stmts_ok ss \<longleftrightarrow> (\<forall>k n st ts. ltext st \<noteq> [] \<longrightarrow> sfitss ss \<longrightarrow> reads (sprints ss @ Lx 125 # ts) st \<longrightarrow> (\<forall>x \<in> svarss ss. int_var (symbols st) x) \<longrightarrow>
     length (ltext st) + ssizes ss \<le> TEXT_WORDS \<longrightarrow> sneeds ss \<le> k \<longrightarrow> sneeds ss \<le> n \<longrightarrow>
     sparses (while_step k (\<lambda>st. token st \<noteq> 125) (statement n)) st (Lx 125 # ts)
       (ltext st @ scodes (text_base st) (place_in (symbols st) (index_of_bp st)) (length (ltext st)) ss))"

lemma substatement:
  assumes "stmt_ok s" and "sfits s" and "reads (sprint s @ t # ts) st" and "\<forall>x \<in> svars s. int_var (symbols st) x"
    and "length (ltext st) + ssize s \<le> TEXT_WORDS" and "open_if s \<longrightarrow> tok t \<noteq> T_Else" and "sneed s \<le> n"
    and "ltext st \<noteq> []"
  shows "sparses (statement n) st (t # ts) (ltext st @ scode_at st s)"
  using assms unfolding stmt_ok_def by blast

lemma substatements:
  assumes "stmts_ok ss" and "reads ts0 st" and "ts0 = sprints ss @ Lx 125 # ts" and "sfitss ss" and "\<forall>x \<in> svarss ss. int_var (symbols st) x"
    and "length (ltext st) + ssizes ss \<le> TEXT_WORDS" and "sneeds ss \<le> k" and "sneeds ss \<le> n" and "ltext st \<noteq> []"
  shows "sparses (while_step k (\<lambda>st. token st \<noteq> 125) (statement n)) st (Lx 125 # ts)
    (ltext st @ scodes (text_base st) (place_in (symbols st) (index_of_bp st)) (length (ltext st)) ss)"
  using assms(1,2,4-) unfolding stmts_ok_def assms(3) by blast

lemma ok_expr: "stmt_ok (SExpr e)"
  unfolding stmt_ok_def
proof (intro allI impI)
  fix n st t ts assume a: "sfits (SExpr e)" "reads (sprint (SExpr e) @ t # ts) st" "\<forall>x \<in> svars (SExpr e). int_var (symbols st) x"
    "length (ltext st) + ssize (SExpr e) \<le> TEXT_WORDS" "sneed (SExpr e) \<le> n"
  obtain n' where n: "n = Suc n'" "Suc (need e) \<le> n'" using a(5) by (cases n) auto
  obtain t1 ts1 where p: "print e = t1 # ts1" "starts_expr (tok t1)" by (rule print_starts)
  have "token st = tok t1" using reads_token [of t1 "ts1 @ Lx 59 # t # ts" st] a(2) p(1) by simp
  then have s: "statement n st = seq [expression n' T_Assign, lex_match 59] st"
    using p(2) unfolding n(1) by (simp add: starts_expr_def Let_def)
  have "sparses (seq [expression n' T_Assign, lex_match 59]) st (t # ts) (ltext st @ scode_at st (SExpr e))"
    by (rule expr_semicolon) (use a n in \<open>auto simp: sparses_def scode_at_def ecode_def\<close>)
  then show "sparses (statement n) st (t # ts) (ltext st @ scode_at st (SExpr e))" using s by (simp add: sparses_def)
qed

lemma ok_empty: "stmt_ok SEmpty"
  unfolding stmt_ok_def
proof (intro allI impI)
  fix n st t ts assume a: "reads (sprint SEmpty @ t # ts) st" "sneed SEmpty \<le> n"
  then have r: "reads (Lx 59 # t # ts) st" by simp
  obtain n' where "n = Suc n'" using a(2) by (cases n) auto
  then have "statement n st = lex_match 59 st" using reads_token [OF r] by (simp add: Let_def)
  then show "sparses (statement n) st (t # ts) (ltext st @ scode_at st SEmpty)"
    using sparses_match [OF r, of 59] by (simp add: sparses_def scode_at_def)
qed

lemma ok_return: "stmt_ok (SReturn e)"
  unfolding stmt_ok_def
proof (intro allI impI)
  fix n st t ts assume a: "sfits (SReturn e)" "reads (sprint (SReturn e) @ t # ts) st" "\<forall>x \<in> svars (SReturn e). int_var (symbols st) x"
    "length (ltext st) + ssize (SReturn e) \<le> TEXT_WORDS" "sneed (SReturn e) \<le> n"
  obtain n' where n: "n = Suc n'" "Suc (need e) \<le> n'" using a(5) by (cases n) auto
  obtain t1 ts1 where p: "print e = t1 # ts1" "starts_expr (tok t1)" by (rule print_starts)
  have r: "reads (Lx T_Return # t1 # ts1 @ Lx 59 # t # ts) st" using a(2) p(1) by simp
  let ?T = "ltext st @ scode_at st (SReturn e)"
  have "sparses (stmt_return (expression n')) st (t # ts) ?T"
    unfolding stmt_return_def
  proof (rule sparses_seq [OF sparses_match [OF r]])
    fix st1 assume s1: "reads (t1 # ts1 @ Lx 59 # t # ts) st1" "ctx st1 = ctx st" "ltext st1 = ltext st"
    have tk: "token st1 \<noteq> 59" using reads_token [OF s1(1)] p(2) by (simp add: starts_expr_def)
    have "sparses (seq [expression n' T_Assign, lex_match 59, emit_op LEV]) st1 (t # ts) ?T"
    proof (rule expr_semicolon)
      fix st2 assume s2: "reads (t # ts) st2" "ctx st2 = ctx st1" "ltext st2 = ltext st1 @ ecode st1 e"
      have "sparses (emit_op LEV) st2 (t # ts) (ltext st2 @ [op_word LEV])"
        by (rule sparses_parses, rule parses_emit [OF s2(1)]) (use s1 s2(3) a(4) in \<open>simp add: ecode_def\<close>)
      then show "sparses (seq [emit_op LEV]) st2 (t # ts) ?T"
        using s1 s2(3) ctx_D [OF s1(2)] by (intro sparses_last) (simp add: scode_at_def ecode_def)
    qed (use a n s1 p ctx_D [OF s1(2)] in auto)
    then show "sparses (seq [\<lambda>st. if token st \<noteq> 59 then expression n' T_Assign st else Done st, lex_match 59, emit_op LEV]) st1 (t # ts) ?T"
      using tk by (simp add: sparses_def)
  qed simp
  moreover have "statement n st = stmt_return (expression n') st" using reads_token [OF r] unfolding n(1) by (simp add: Let_def)
  ultimately show "sparses (statement n) st (t # ts) ?T" by (simp add: sparses_def)
qed

lemma ok_if:
  assumes s: "stmt_ok s"
  shows "stmt_ok (SIf e s)"
  unfolding stmt_ok_def
proof (intro allI impI)
  fix n st t ts assume a: "sfits (SIf e s)" "reads (sprint (SIf e s) @ t # ts) st" "\<forall>x \<in> svars (SIf e s). int_var (symbols st) x"
    "length (ltext st) + ssize (SIf e s) \<le> TEXT_WORDS" "open_if (SIf e s) \<longrightarrow> tok t \<noteq> T_Else" "sneed (SIf e s) \<le> n"
  obtain n' where n: "n = Suc n'" "Suc (need e) \<le> n'" "sneed s \<le> n'" using a(6) by (cases n) auto
  obtain t1 ts1 where p: "sprint s = t1 # ts1" by (rule sprint_hd)
  have r: "reads (Lx T_If # Lx 40 # print e @ Lx 41 # t1 # ts1 @ t # ts) st" using a(2) p by simp
  let ?T = "ltext st @ scode_at st (SIf e s)" and ?e = "ltext st @ ecode st e"
  let ?c = "scode (text_base st) (place_in (symbols st) (index_of_bp st)) (length ?e + 2) s"
  have T: "?T = ?e @ op_word JZ # word_addr (text_base st) (length ?e + ssize s + 2) # ?c"
    by (simp add: scode_at_def ecode_def ac_simps)
  have "sparses (stmt_if (expression n') (statement n')) st (t # ts) ?T"
    unfolding stmt_if_def
  proof (rule condition_parses [OF r])
    fix st1 assume s1: "reads (t1 # ts1 @ t # ts) st1" "ctx st1 = ctx st" "ltext st1 = ?e"
    let ?body = "\<lambda>b. seq [statement n', on T_Else (seq [lex_match T_Else, patch_text b 3, hole JMP (\<lambda>b. seq [statement n', patch_text b 1])]) (patch_text b 1)]"
    have "sparses (hole JZ ?body) st1 (t # ts) ?T"
    proof (rule sparses_hole [OF s1(1)])
      fix st2 assume s2: "reads (t1 # ts1 @ t # ts) st2" "ctx st2 = ctx st1" "ltext st2 = ltext st1 @ [op_word JZ, 0]"
      have c2: "ctx st2 = ctx st" using s1(2) s2(2) by simp
      have "sparses (statement n') st2 (t # ts) (ltext st2 @ scode_at st2 s)"
        by (rule substatement [OF s]) (use a n p s1 s2 ctx_D [OF c2] in \<open>auto simp: ecode_def\<close>)
      moreover have "ltext st2 @ scode_at st2 s = ?e @ op_word JZ # 0 # ?c"
        using s1(3) s2(3) ctx_D [OF c2] by (simp add: scode_at_def)
      ultimately have "sparses (statement n') st2 (t # ts) (?e @ op_word JZ # 0 # ?c)" by simp
      then show "sparses (?body (length (ltext st1) + 1)) st2 (t # ts) ?T"
      proof (rule sparses_seq)
        fix st3 assume s3: "reads (t # ts) st3" "ctx st3 = ctx st2" "ltext st3 = ?e @ op_word JZ # 0 # ?c"
        have "sparses (patch_text (length (ltext st1) + 1) 1) st3 (t # ts) (?e @ op_word JZ # word_addr (text_base st) (length ?e + ssize s + 2) # ?c)"
          by (rule sparses_patched [OF s3(1,3)]) (use s1(3) s3(2) ctx_D [of st3 st] c2 in simp_all)
        then have "sparses (on T_Else (seq [lex_match T_Else, patch_text (length (ltext st1) + 1) 3, hole JMP (\<lambda>b. seq [statement n', patch_text b 1])])
            (patch_text (length (ltext st1) + 1) 1)) st3 (t # ts) ?T"
          unfolding T using a(5) reads_token [OF s3(1)] by (simp add: sparses_def on_def)
        then show "sparses (seq [on T_Else (seq [lex_match T_Else, patch_text (length (ltext st1) + 1) 3, hole JMP (\<lambda>b. seq [statement n', patch_text b 1])])
            (patch_text (length (ltext st1) + 1) 1)]) st3 (t # ts) ?T" by (rule sparses_last)
      qed
    qed (use s1(3) a(4) in \<open>simp add: ecode_def\<close>)
    then show "sparses (seq [hole JZ ?body]) st1 (t # ts) ?T" by (rule sparses_last)
  qed (use a n in auto)
  moreover have "statement n st = stmt_if (expression n') (statement n') st" using reads_token [OF r] unfolding n(1) by (simp add: Let_def)
  ultimately show "sparses (statement n) st (t # ts) ?T" by (simp add: sparses_def)
qed

lemma ok_if_else:
  assumes s: "stmt_ok s" and u: "stmt_ok u"
  shows "stmt_ok (SIfElse e s u)"
  unfolding stmt_ok_def
proof (intro allI impI)
  let ?S = "SIfElse e s u"
  fix n st t ts assume a: "sfits ?S" "reads (sprint ?S @ t # ts) st" "\<forall>x \<in> svars ?S. int_var (symbols st) x"
    "length (ltext st) + ssize ?S \<le> TEXT_WORDS" "open_if ?S \<longrightarrow> tok t \<noteq> T_Else" "sneed ?S \<le> n"
  obtain n' where n: "n = Suc n'" "Suc (need e) \<le> n'" "sneed s \<le> n'" "sneed u \<le> n'" using a(6) by (cases n) auto
  obtain t1 ts1 where p: "sprint s = t1 # ts1" by (rule sprint_hd)
  obtain t2 ts2 where q: "sprint u = t2 # ts2" by (rule sprint_hd)
  let ?r = "Lx T_Else # t2 # ts2 @ t # ts"
  have r: "reads (Lx T_If # Lx 40 # print e @ Lx 41 # t1 # ts1 @ ?r) st" using a(2) p q by simp
  let ?T = "ltext st @ scode_at st ?S" and ?e = "ltext st @ ecode st e"
  let ?co = "scode (text_base st) (place_in (symbols st) (index_of_bp st))"
  let ?c = "?co (length ?e + 2) s" and ?d = "?co (length ?e + ssize s + 4) u"
  let ?a = "word_addr (text_base st) (length ?e + ssize s + 4)" and ?b = "word_addr (text_base st) (length ?e + ssize s + ssize u + 4)"
  let ?T1 = "?e @ op_word JZ # ?a # ?c"
  have T: "?T = ?T1 @ op_word JMP # ?b # ?d" by (simp add: scode_at_def ecode_def ac_simps)
  have "sparses (stmt_if (expression n') (statement n')) st (t # ts) ?T"
    unfolding stmt_if_def
  proof (rule condition_parses [OF r])
    fix st1 assume s1: "reads (t1 # ts1 @ ?r) st1" "ctx st1 = ctx st" "ltext st1 = ?e"
    let ?i = "length (ltext st1) + 1" and ?body2 = "\<lambda>b. seq [statement n', patch_text b 1]"
    let ?else = "\<lambda>b. seq [lex_match T_Else, patch_text b 3, hole JMP ?body2]"
    let ?body = "\<lambda>b. seq [statement n', on T_Else (?else b) (patch_text b 1)]"
    have "sparses (hole JZ ?body) st1 (t # ts) ?T"
    proof (rule sparses_hole [OF s1(1)])
      fix st2 assume s2: "reads (t1 # ts1 @ ?r) st2" "ctx st2 = ctx st1" "ltext st2 = ltext st1 @ [op_word JZ, 0]"
      have c2: "ctx st2 = ctx st" using s1(2) s2(2) by simp
      have "sparses (statement n') st2 ?r (ltext st2 @ scode_at st2 s)"
        by (rule substatement [OF s]) (use a n p s1 s2 ctx_D [OF c2] in \<open>auto simp: ecode_def\<close>)
      moreover have "ltext st2 @ scode_at st2 s = ?e @ op_word JZ # 0 # ?c"
        using s1(3) s2(3) ctx_D [OF c2] by (simp add: scode_at_def)
      ultimately have "sparses (statement n') st2 ?r (?e @ op_word JZ # 0 # ?c)" by simp
      then show "sparses (?body ?i) st2 (t # ts) ?T"
      proof (rule sparses_seq)
        fix st3 assume s3: "reads ?r st3" "ctx st3 = ctx st2" "ltext st3 = ?e @ op_word JZ # 0 # ?c"
        have "sparses (?else ?i) st3 (t # ts) ?T"
        proof (rule sparses_seq [OF sparses_match [OF s3(1)]])
          fix st4 assume s4: "reads (t2 # ts2 @ t # ts) st4" "ctx st4 = ctx st3" "ltext st4 = ltext st3"
          have c4: "ctx st4 = ctx st" using c2 s3(2) s4(2) by simp
          have "sparses (patch_text ?i 3) st4 (t2 # ts2 @ t # ts) ?T1"
            by (rule sparses_patched [OF s4(1)]) (use s1(3) s3(3) s4(3) ctx_D [OF c4] in \<open>simp_all add: ac_simps\<close>)
          then show "sparses (seq [patch_text ?i 3, hole JMP ?body2]) st4 (t # ts) ?T"
          proof (rule sparses_seq)
            fix st5 assume s5: "reads (t2 # ts2 @ t # ts) st5" "ctx st5 = ctx st4" "ltext st5 = ?T1"
            have "sparses (hole JMP ?body2) st5 (t # ts) ?T"
            proof (rule sparses_hole [OF s5(1)])
              fix st6 assume s6: "reads (t2 # ts2 @ t # ts) st6" "ctx st6 = ctx st5" "ltext st6 = ltext st5 @ [op_word JMP, 0]"
              have c6: "ctx st6 = ctx st" using c4 s5(2) s6(2) by simp
              have l6: "length (ltext st6) = length ?e + ssize s + 4" using s5(3) s6(3) by simp
              have "sparses (statement n') st6 (t # ts) (ltext st6 @ scode_at st6 u)"
                by (rule substatement [OF u]) (use a n q s6(1) l6 ctx_D [OF c6] in \<open>auto simp: ecode_def\<close>)
              moreover have "scode_at st6 u = ?d" unfolding scode_at_def l6 ctx_D [OF c6] ..
              ultimately have "sparses (statement n') st6 (t # ts) (?T1 @ op_word JMP # 0 # ?d)"
                unfolding s6(3) s5(3) by simp
              then show "sparses (?body2 (length (ltext st5) + 1)) st6 (t # ts) ?T"
              proof (rule sparses_seq)
                fix st7 assume s7: "reads (t # ts) st7" "ctx st7 = ctx st6" "ltext st7 = ?T1 @ op_word JMP # 0 # ?d"
                have "sparses (patch_text (length (ltext st5) + 1) 1) st7 (t # ts) (?T1 @ op_word JMP # ?b # ?d)"
                  by (rule sparses_patched [OF s7(1,3)]) (use s5(3) s7(2) ctx_D [of st7 st] c6 in \<open>simp_all add: eval_nat_numeral ac_simps\<close>)
                then show "sparses (seq [patch_text (length (ltext st5) + 1) 1]) st7 (t # ts) ?T" unfolding T by (rule sparses_last)
              qed
            qed (use s5(3) a(4) in \<open>simp add: ecode_def\<close>)
            then show "sparses (seq [hole JMP ?body2]) st5 (t # ts) ?T" by (rule sparses_last)
          qed
        qed simp
        then have "sparses (on T_Else (?else ?i) (patch_text ?i 1)) st3 (t # ts) ?T"
          using reads_token [OF s3(1)] by (simp add: sparses_def on_def)
        then show "sparses (seq [on T_Else (?else ?i) (patch_text ?i 1)]) st3 (t # ts) ?T" by (rule sparses_last)
      qed
    qed (use s1(3) a(4) in \<open>simp add: ecode_def\<close>)
    then show "sparses (seq [hole JZ ?body]) st1 (t # ts) ?T" by (rule sparses_last)
  qed (use a n in auto)
  moreover have "statement n st = stmt_if (expression n') (statement n') st" using reads_token [OF r] unfolding n(1) by (simp add: Let_def)
  ultimately show "sparses (statement n) st (t # ts) ?T" by (simp add: sparses_def)
qed

lemma ok_while:
  assumes s: "stmt_ok s"
  shows "stmt_ok (SWhile e s)"
  unfolding stmt_ok_def
proof (intro allI impI)
  fix n st t ts assume ne: "ltext st \<noteq> []" and a: "sfits (SWhile e s)" "reads (sprint (SWhile e s) @ t # ts) st" "\<forall>x \<in> svars (SWhile e s). int_var (symbols st) x"
    "length (ltext st) + ssize (SWhile e s) \<le> TEXT_WORDS" "open_if (SWhile e s) \<longrightarrow> tok t \<noteq> T_Else" "sneed (SWhile e s) \<le> n"
  obtain n' where n: "n = Suc n'" "Suc (need e) \<le> n'" "sneed s \<le> n'" using a(6) by (cases n) auto
  obtain t1 ts1 where p: "sprint s = t1 # ts1" by (rule sprint_hd)
  have r: "reads (Lx T_While # Lx 40 # print e @ Lx 41 # t1 # ts1 @ t # ts) st" using a(2) p by simp
  let ?T = "ltext st @ scode_at st (SWhile e s)" and ?e = "ltext st @ ecode st e"
  let ?c = "scode (text_base st) (place_in (symbols st) (index_of_bp st)) (length ?e + 2) s"
  let ?a = "word_addr (text_base st) (length ?e + ssize s + 4)" and ?w = "word_addr (text_base st) (length (ltext st))"
  have T: "?T = ?e @ op_word JZ # ?a # ?c @ [op_word JMP, ?w]" by (simp add: scode_at_def ecode_def ac_simps)
  let ?loop = "\<lambda>b. seq [statement n', emit_op JMP, emit (\<lambda>_. ?w), patch_text b 1]"
  have "sparses (seq [lex_match T_While, lex_match 40, expression n' T_Assign, lex_match 41, hole JZ ?loop]) st (t # ts) ?T"
  proof (rule condition_parses [OF r])
    fix st1 assume s1: "reads (t1 # ts1 @ t # ts) st1" "ctx st1 = ctx st" "ltext st1 = ?e"
    have "sparses (hole JZ ?loop) st1 (t # ts) ?T"
    proof (rule sparses_hole [OF s1(1)])
      fix st2 assume s2: "reads (t1 # ts1 @ t # ts) st2" "ctx st2 = ctx st1" "ltext st2 = ltext st1 @ [op_word JZ, 0]"
      have c2: "ctx st2 = ctx st" using s1(2) s2(2) by simp
      have "sparses (statement n') st2 (t # ts) (ltext st2 @ scode_at st2 s)"
        by (rule substatement [OF s]) (use a n p s1 s2 ctx_D [OF c2] in \<open>auto simp: ecode_def\<close>)
      moreover have "ltext st2 @ scode_at st2 s = ?e @ op_word JZ # 0 # ?c"
        using s1(3) s2(3) ctx_D [OF c2] by (simp add: scode_at_def)
      ultimately have "sparses (statement n') st2 (t # ts) (?e @ op_word JZ # 0 # ?c)" by simp
      then show "sparses (?loop (length (ltext st1) + 1)) st2 (t # ts) ?T"
      proof (rule sparses_seq)
        fix st3 assume s3: "reads (t # ts) st3" "ctx st3 = ctx st2" "ltext st3 = ?e @ op_word JZ # 0 # ?c"
        let ?st = "st3\<lparr>ltext := ?e @ op_word JZ # 0 # ?c @ [op_word JMP, ?w]\<rparr>"
        have c3: "ctx ?st = ctx st" using c2 s3(2) by simp
        have "sparses (patch_text (length (ltext st1) + 1) 1) ?st (t # ts) (?e @ op_word JZ # ?a # ?c @ [op_word JMP, ?w])"
          by (rule sparses_patched) (use s3 s1(3) ctx_D [OF c3] in \<open>simp_all add: eval_nat_numeral ac_simps\<close>)
        then have "sparses (patch_text (length (ltext st1) + 1) 1) ?st (t # ts) ?T" unfolding T .
        moreover have "seq [emit_op JMP, emit (\<lambda>_. ?w), patch_text (length (ltext st1) + 1) 1] st3 = patch_text (length (ltext st1) + 1) 1 ?st"
          using s3(3) a(4) by (simp add: emit_Done ecode_def seq_Nil_Done)
        ultimately show "sparses (seq [emit_op JMP, emit (\<lambda>_. ?w), patch_text (length (ltext st1) + 1) 1]) st3 (t # ts) ?T"
          by (simp add: sparses_def)
      qed
    qed (use s1(3) a(4) in \<open>simp add: ecode_def\<close>)
    then show "sparses (seq [hole JZ ?loop]) st1 (t # ts) ?T" by (rule sparses_last)
  qed (use a n in auto)
  moreover have "stmt_while (expression n') (statement n') st = seq [lex_match T_While, lex_match 40, expression n' T_Assign, lex_match 41, hole JZ ?loop] st"
  proof -
    obtain st0 where s0: "lex_match T_While st = Done st0" "ctx st0 = ctx st" "ltext st0 = ltext st"
      using sparses_match [OF r, of T_While] by (auto simp: sparses_def)
    have "text_ptr st0 + 4 = ?w"
      using ne s0(3) ctx_D [OF s0(2)] by (cases "ltext st") (simp_all add: text_ptr_def word_addr_def algebra_simps)
    then show ?thesis using s0(1) by (simp add: stmt_while_def seq_Nil_Done)
  qed
  moreover have "statement n st = stmt_while (expression n') (statement n') st" using reads_token [OF r] unfolding n(1) by (simp add: Let_def)
  ultimately show "sparses (statement n) st (t # ts) ?T" by (simp add: sparses_def)
qed

lemma ok_block:
  assumes ss: "stmts_ok ss"
  shows "stmt_ok (SBlock ss)"
  unfolding stmt_ok_def
proof (intro allI impI)
  fix n st t ts assume a: "ltext st \<noteq> []" "sfits (SBlock ss)" "reads (sprint (SBlock ss) @ t # ts) st" "\<forall>x \<in> svars (SBlock ss). int_var (symbols st) x"
    "length (ltext st) + ssize (SBlock ss) \<le> TEXT_WORDS" "sneed (SBlock ss) \<le> n"
  obtain n' where n: "n = Suc n'" "sneeds ss \<le> n'" using a(6) by (cases n) auto
  obtain t1 ts1 where p: "sprints ss @ Lx 125 # t # ts = t1 # ts1" using sprints_hd by blast
  have r: "reads (Lx 123 # t1 # ts1) st" using a(3) p by simp
  let ?T = "ltext st @ scode_at st (SBlock ss)"
  have "sparses (seq [lex_match 123, while_step n' (\<lambda>st. token st \<noteq> 125) (statement n'), lex_match 125]) st (t # ts) ?T"
  proof (rule sparses_seq [OF sparses_match [OF r]])
    fix st1 assume s1: "reads (t1 # ts1) st1" "ctx st1 = ctx st" "ltext st1 = ltext st"
    have "sparses (while_step n' (\<lambda>st. token st \<noteq> 125) (statement n')) st1 (Lx 125 # t # ts)
        (ltext st1 @ scodes (text_base st1) (place_in (symbols st1) (index_of_bp st1)) (length (ltext st1)) ss)"
      by (rule substatements [OF ss s1(1)]) (use a n p s1(3) ctx_D [OF s1(2)] in auto)
    then have "sparses (while_step n' (\<lambda>st. token st \<noteq> 125) (statement n')) st1 (Lx 125 # t # ts) ?T"
      using s1(3) ctx_D [OF s1(2)] by (simp add: scode_at_def)
    then show "sparses (seq [while_step n' (\<lambda>st. token st \<noteq> 125) (statement n'), lex_match 125]) st1 (t # ts) ?T"
    proof (rule sparses_seq)
      fix st2 assume s2: "reads (Lx 125 # t # ts) st2" "ltext st2 = ?T"
      show "sparses (seq [lex_match 125]) st2 (t # ts) ?T"
        by (rule sparses_last) (use sparses_match [OF s2(1), of 125] s2(2) in simp)
    qed
  qed simp
  moreover have "statement n st = seq [lex_match 123, while_step n' (\<lambda>st. token st \<noteq> 125) (statement n'), lex_match 125] st"
    using reads_token [OF r] unfolding n(1) by (simp add: Let_def)
  ultimately show "sparses (statement n) st (t # ts) ?T" by (simp add: sparses_def)
qed

lemma ok_Nil: "stmts_ok []"
  unfolding stmts_ok_def
proof (intro allI impI)
  fix k n st ts assume "reads (sprints [] @ Lx 125 # ts) st" "sneeds [] \<le> k"
  moreover from this obtain j where "k = Suc j" by (cases k) auto
  ultimately show "sparses (while_step k (\<lambda>st. token st \<noteq> 125) (statement n)) st (Lx 125 # ts)
      (ltext st @ scodes (text_base st) (place_in (symbols st) (index_of_bp st)) (length (ltext st)) [])"
    using reads_token [of "Lx 125" ts st] by (simp add: sparses_def)
qed

lemma ok_Cons:
  assumes s: "stmt_ok s" and ss: "stmts_ok ss"
  shows "stmts_ok (s # ss)"
  unfolding stmts_ok_def
proof (intro allI impI)
  fix k n st ts assume a: "ltext st \<noteq> []" "sfitss (s # ss)" "reads (sprints (s # ss) @ Lx 125 # ts) st" "\<forall>x \<in> svarss (s # ss). int_var (symbols st) x"
    "length (ltext st) + ssizes (s # ss) \<le> TEXT_WORDS" "sneeds (s # ss) \<le> k" "sneeds (s # ss) \<le> n"
  obtain j where k: "k = Suc j" "sneeds ss \<le> j" using a(6) by (cases k) auto
  obtain t' ts' where p: "sprints ss @ Lx 125 # ts = t' # ts'" "tok t' \<noteq> T_Else" using sprints_hd by blast
  obtain t1 ts1 where q: "sprint s = t1 # ts1" "tok t1 \<noteq> 125" by (rule sprint_hd)
  let ?co = "scode (text_base st) (place_in (symbols st) (index_of_bp st))"
  let ?cs = "scodes (text_base st) (place_in (symbols st) (index_of_bp st))"
  have r: "reads (sprint s @ t' # ts') st" using a(3) p(1) by simp
  have "sparses (statement n) st (t' # ts') (ltext st @ scode_at st s)"
    by (rule substatement [OF s _ r]) (use a p in auto)
  then obtain st1 where s1: "statement n st = Done st1" "reads (t' # ts') st1" "ctx st1 = ctx st" "ltext st1 = ltext st @ scode_at st s"
    by (auto simp: sparses_def)
  have l1: "length (ltext st1) = length (ltext st) + ssize s" using s1(4) by (simp add: scode_at_def)
  have "sparses (while_step j (\<lambda>st. token st \<noteq> 125) (statement n)) st1 (Lx 125 # ts)
      (ltext st1 @ scodes (text_base st1) (place_in (symbols st1) (index_of_bp st1)) (length (ltext st1)) ss)"
    by (rule substatements [OF ss s1(2)]) (use a k p l1 s1(4) ctx_D [OF s1(3)] in auto)
  moreover have "ltext st1 @ scodes (text_base st1) (place_in (symbols st1) (index_of_bp st1)) (length (ltext st1)) ss =
      ltext st @ ?cs (length (ltext st)) (s # ss)"
    unfolding l1 s1(4) ctx_D [OF s1(3)] by (simp add: scode_at_def)
  moreover have "token st \<noteq> 125" using reads_token [of t1 "ts1 @ t' # ts'" st] r q by simp
  ultimately show "sparses (while_step k (\<lambda>st. token st \<noteq> 125) (statement n)) st (Lx 125 # ts) (ltext st @ ?cs (length (ltext st)) (s # ss))"
    using s1(1,3) k(1) by (simp add: sparses_def)
qed

lemma stmt_parse: "stmt_ok s" "stmts_ok ss"
proof (induction s and ss rule: sprint_sprints.induct)
  case (3 e s)
  then show ?case by (rule ok_if)
next
  case (4 e s t)
  then show ?case by (rule ok_if_else)
next
  case (5 e s)
  then show ?case by (rule ok_while)
next
  case (6 ss)
  then show ?case by (rule ok_block)
next
  case (9 s ss)
  then show ?case by (rule ok_Cons)
qed (auto intro: ok_expr ok_empty ok_return ok_Nil)

end
