(* ===== verification/Lex_Print.thy ===== *)
theory Lex_Print imports Cc_Stmt
begin

text \<open>
  The lexer reads back what is written: the source text of a sequence of tokens, each behind a space, is
  read as these tokens. With it the results on token streams become results on source text.
\<close>

section \<open>Writing tokens\<close>

function decimal :: "nat \<Rightarrow> u8 list" where
  "decimal n = (if n < 10 then [of_nat (48 + n)] else decimal (n div 10) @ [of_nat (48 + n mod 10)])"
  by pat_completeness auto
termination by (relation "measure id") simp_all

declare decimal.simps [simp del]

text \<open>The characters of the operators and keywords; the empty text for what is not written this way.\<close>

definition token_chars :: "(int \<times> string) list" where
  "token_chars = [(40, ''(''), (41, '')''), (44, '',''), (58, '':''), (59, '';''), (123, ''{''), (125, ''}''), (33, ''!''), (126, ''~''),
     (T_Assign, ''=''), (T_Cond, ''?''), (T_Lor, ''||''), (T_Lan, ''&&''), (T_Or, ''|''), (T_Xor, ''^''), (T_And, ''&''),
     (T_Eq, ''==''), (T_Ne, ''!=''), (T_Lt, ''<''), (T_Gt, ''>''), (T_Le, ''<=''), (T_Ge, ''>=''), (T_Shl, ''<<''), (T_Shr, ''>>''),
     (T_Add, ''+''), (T_Sub, ''-''), (T_Mul, ''*''), (T_Div, ''/''), (T_Mod, ''%''), (T_Inc, ''++''), (T_Dec, ''--''),
     (T_Int, ''int''), (T_If, ''if''), (T_Else, ''else''), (T_While, ''while''), (T_Return, ''return'')]"

definition token_text :: "int \<Rightarrow> u8 list" where
  "token_text tk = (case map_of token_chars tk of Some s \<Rightarrow> chars s | None \<Rightarrow> [])"

primrec lexeme_text :: "(nat \<Rightarrow> u8 list) \<Rightarrow> lexeme \<Rightarrow> u8 list" where
  "lexeme_text nm (Lx tk) = token_text tk"
| "lexeme_text nm (LNum v) = decimal (unat v)"
| "lexeme_text nm (LId i) = nm i"

definition source_of :: "(nat \<Rightarrow> u8 list) \<Rightarrow> lexeme list \<Rightarrow> u8 list" where
  "source_of nm ts = concat (map (\<lambda>t. 32 # lexeme_text nm t) ts)"

text \<open>What the symbol table must hold: the names of the identifiers, and the keywords.\<close>

definition lookup :: "symbol list \<Rightarrow> u8 list \<Rightarrow> nat option" where
  "lookup syms cs = first_index (\<lambda>i. id_token (syms ! i) = 0 \<or> same_ident cs (syms ! i)) LEX_MAX_SYMBOLS"

definition is_ident :: "u8 list \<Rightarrow> bool" where
  "is_ident cs \<longleftrightarrow> cs \<noteq> [] \<and> ident_start (hd cs) \<and> list_all ident_char (tl cs)"

definition known :: "symbol list \<Rightarrow> (nat \<Rightarrow> u8 list) \<Rightarrow> lexeme \<Rightarrow> bool" where
  "known syms nm t \<longleftrightarrow> (case t of
     LNum v \<Rightarrow> True
   | LId i \<Rightarrow> is_ident (nm i) \<and> lookup syms (nm i) = Some i \<and> id_token (syms ! i) = T_Id
   | Lx tk \<Rightarrow> tk \<in> fst ` set token_chars \<and> (ident_tok tk \<longrightarrow> (case lookup syms (token_text tk) of Some i \<Rightarrow> id_token (syms ! i) = tk | None \<Rightarrow> False)))"

section \<open>Numbers\<close>

lemma digit_of: "d < 10 \<Longrightarrow> digit (of_nat (48 + d)) \<and> dec_value (of_nat (48 + d)) = of_nat d"
proof -
  assume "d < 10"
  then have "d = 0 \<or> d = 1 \<or> d = 2 \<or> d = 3 \<or> d = 4 \<or> d = 5 \<or> d = 6 \<or> d = 7 \<or> d = 8 \<or> d = 9" by arith
  then show ?thesis by (elim disjE) (simp_all add: digit_def)
qed

lemma decimal_digits: "list_all digit (decimal n)"
proof (induction n rule: decimal.induct)
  case (1 n)
  then show ?case using digit_of [of n] digit_of [of "n mod 10"] by (cases "n < 10"; subst decimal.simps) simp_all
qed

lemma decimal_not_Nil: "decimal n \<noteq> []"
  by (subst decimal.simps) simp

lemma decimal_value: "number_value 10 dec_value 0 (decimal n) = of_nat n"
proof (induction n rule: decimal.induct)
  case (1 n)
  show ?case
  proof (cases "n < 10")
    case True
    then show ?thesis using digit_of [of n] by (subst decimal.simps) (simp add: number_value_def)
  next
    case False
    have "number_value 10 dec_value 0 (decimal n) = number_value 10 dec_value 0 (decimal (n div 10)) * 10 + of_nat (n mod 10)"
      using False digit_of [of "n mod 10"] by (subst decimal.simps) (simp add: number_value_def)
    also have "\<dots> = of_nat (n div 10 * 10 + n mod 10)" unfolding 1 [OF False] by (simp only: of_nat_add of_nat_mult of_nat_numeral)
    also have "n div 10 * 10 + n mod 10 = n" by simp
    finally show ?thesis .
  qed
qed

lemma decimal_hd: "0 < n \<Longrightarrow> hd (decimal n) \<noteq> 48"
proof (induction n rule: decimal.induct)
  case (1 n)
  show ?case
  proof (cases "n < 10")
    case True
    then have "n = 1 \<or> n = 2 \<or> n = 3 \<or> n = 4 \<or> n = 5 \<or> n = 6 \<or> n = 7 \<or> n = 8 \<or> n = 9" using 1(2) by arith
    then show ?thesis by (elim disjE) (simp_all add: decimal.simps)
  next
    case False
    then show ?thesis using 1(1) decimal_not_Nil [of "n div 10"] by (subst decimal.simps) simp
  qed
qed

definition token_end :: "u8 list \<Rightarrow> bool" where
  "token_end s \<longleftrightarrow> s = [] \<or> hd s = 32"

lemma while_end:
  assumes "list_all p cs" and "token_end s" and "\<not> p 32"
  shows "takeWhile p (cs @ s) = cs" "dropWhile p (cs @ s) = s"
  using assms by (cases s; auto simp: token_end_def list_all_iff takeWhile_append2 dropWhile_append2; fail)+

lemma next_number_decimal:
  assumes "decimal (unat v) = c # cs" and "token_end s"
  shows "next_number c (cs @ s) = (v, s)"
proof (cases "v = 0")
  case True
  then have "c = 48" "cs = []" using assms(1) by (simp_all add: decimal.simps)
  then show ?thesis using True assms(2) by (cases s) (simp_all add: next_number_def token_end_def number_value_def)
next
  case False
  then have h: "c \<noteq> 48" using decimal_hd [of "unat v"] assms(1) by (simp add: unat_gt_0)
  have d: "list_all digit cs" using decimal_digits [of "unat v"] assms(1) by simp
  have "number_value 10 dec_value (dec_value c) cs = v"
    using decimal_value [of "unat v"] assms(1) by (simp add: number_value_def)
  then show ?thesis using h while_end [OF d assms(2)] by (simp add: next_number_def digit_def)
qed

section \<open>One token\<close>

lemma next_tok_regs: "next_tok s (st\<lparr>src := x, token := k\<rparr>) = next_tok s st" "next_tok s (st\<lparr>token := k, src := x\<rparr>) = next_tok s st"
  by (cases s; simp)+

lemma next_tok_space: "next_tok (32 # s) st = next_tok s st"
  by (simp add: next_char_def ident_start_def digit_def self_token_def skip_char_def Let_def next_tok_regs)

lemma lexes1_I:
  assumes "\<And>st. symbols st = syms \<Longrightarrow> next_tok s st =
      Done (st\<lparr>src := s', token := tok t, token_val := (case t of LNum v \<Rightarrow> v | _ \<Rightarrow> token_val st), current_id := c st\<rparr>)"
    and "\<And>i st. t = LId i \<Longrightarrow> c st = i" and "\<And>st. \<not> ident_tok (tok t) \<Longrightarrow> c st = current_id st"
  shows "lexes1 syms (32 # s) t s'"
  unfolding lexes1_def lex_next_def using assms by (auto simp: next_tok_space simp del: next_tok.simps)

lemma lexes1_num:
  assumes "token_end s"
  shows "lexes1 syms (32 # decimal (unat v) @ s) (LNum v) s"
proof -
  obtain c cs where d: "decimal (unat v) = c # cs" using decimal_not_Nil by (cases "decimal (unat v)") auto
  have "digit c" using decimal_digits [of "unat v"] d by simp
  then have i: "\<not> ident_start c" "digit c" by (auto simp: ident_start_def digit_def word_le_nat_alt)
  show ?thesis
    by (rule lexes1_I [where c = current_id]) (use i next_number_decimal [OF d assms] d in \<open>simp_all add: next_char_def\<close>)
qed

lemma is_ident_start: "is_ident cs \<Longrightarrow> \<exists>c cs'. cs = c # cs' \<and> ident_start c \<and> list_all ident_char cs'"
  by (cases cs) (simp_all add: is_ident_def)

lemma lexes1_ident:
  assumes "is_ident cs" and "lookup syms cs = Some i" and "id_token (syms ! i) = tok t" and "ident_tok (tok t)" and "\<forall>j. t = LId j \<longrightarrow> j = i"
    and "\<forall>v. t \<noteq> LNum v" and "token_end s"
  shows "lexes1 syms (32 # cs @ s) t s"
proof -
  obtain c cs' where c: "cs = c # cs'" "ident_start c" "list_all ident_char cs'" using is_ident_start [OF assms(1)] by blast
  have w: "takeWhile ident_char (cs' @ s) = cs'" "dropWhile ident_char (cs' @ s) = s"
    using while_end [OF c(3) assms(7)] by (simp_all add: ident_char_def)
  have z: "id_token (syms ! i) \<noteq> 0" using assms(3,4) by (auto simp: ident_tok_def)
  show ?thesis
    by (rule lexes1_I [where c = "\<lambda>_. i"])
      (use c w z assms in \<open>simp_all add: next_char_def next_ident_def lookup_def split: lexeme.split\<close>)
qed

lemma peek_Cons [simp]: "peek (c # cs) = c"
  by (simp add: peek_def)

lemma peek_end: "token_end s \<Longrightarrow> c \<notin> {0, 32} \<Longrightarrow> peek s = c \<longleftrightarrow> False"
  by (cases s) (auto simp: peek_def token_end_def)

lemma next_tok_op:
  assumes "tk \<in> fst ` set token_chars" and "\<not> ident_tok tk" and "token_end s"
  shows "next_tok (token_text tk @ s) st = Done (st\<lparr>src := s, token := tk\<rparr>)"
proof -
  have "tk \<in> {40, 41, 44, 58, 59, 123, 125, 33, 126, T_Assign, T_Cond, T_Lor, T_Lan, T_Or, T_Xor, T_And, T_Eq, T_Ne, T_Lt, T_Gt, T_Le, T_Ge,
      T_Shl, T_Shr, T_Add, T_Sub, T_Mul, T_Div, T_Mod, T_Inc, T_Dec}"
    using assms(1,2) by (auto simp: token_chars_def ident_tok_def)
  then show ?thesis
    by (elim insertE emptyE; simp add: token_text_def token_chars_def chars_def next_char_def ident_start_def digit_def one_or_two_def self_token_def
        peek_end [OF assms(3)])
qed

lemma lexes1_op:
  assumes "tk \<in> fst ` set token_chars" and "\<not> ident_tok tk" and "token_end s"
  shows "lexes1 syms (32 # token_text tk @ s) (Lx tk) s"
  by (rule lexes1_I [where c = current_id]) (use next_tok_op [OF assms] in simp_all)

lemma keyword_idents:
  assumes "tk \<in> fst ` set token_chars" and "ident_tok tk"
  shows "is_ident (token_text tk)"
  using assms unfolding token_chars_def
  by (auto simp: ident_tok_def token_text_def token_chars_def chars_def is_ident_def ident_start_def ident_char_def)

lemma lexes1_known:
  assumes "known syms nm t" and "token_end s"
  shows "lexes1 syms (32 # lexeme_text nm t @ s) t s"
proof (cases t)
  case (Lx tk)
  show ?thesis
  proof (cases "ident_tok tk")
    case True
    then obtain i where "lookup syms (token_text tk) = Some i" "id_token (syms ! i) = tk"
      using assms(1) Lx by (auto simp: known_def split: option.splits)
    then have "lexes1 syms (32 # token_text tk @ s) t s"
      by (intro lexes1_ident) (use assms Lx True keyword_idents [of tk] in \<open>auto simp: known_def\<close>)
    then show ?thesis using Lx by simp
  next
    case False
    then show ?thesis using lexes1_op [OF _ False assms(2)] assms(1) Lx by (simp add: known_def)
  qed
next
  case (LNum v)
  then show ?thesis using lexes1_num [OF assms(2)] by simp
next
  case (LId i)
  then show ?thesis using assms by (auto intro!: lexes1_ident simp: known_def ident_tok_def)
qed

lemma token_end_source [simp]: "token_end (source_of nm ts)"
  by (cases ts) (simp_all add: source_of_def token_end_def)

lemma source_of_Cons [simp]: "source_of nm (t # ts) = 32 # lexeme_text nm t @ source_of nm ts"
  by (simp add: source_of_def)

lemma source_of_Nil [simp]: "source_of nm [] = []"
  by (simp add: source_of_def)

lemma lexes_source: "\<forall>t \<in> set ts. known syms nm t \<Longrightarrow> lexes syms (source_of nm ts) ts"
proof (induction ts)
  case (Cons t ts)
  have "lexes1 syms (32 # lexeme_text nm t @ source_of nm ts) t (source_of nm ts)"
    using Cons.prems by (intro lexes1_known) simp_all
  then show ?case using Cons by auto
qed simp

end
