(* ===== verification/Cc_Main.thy ===== *)
theory Cc_Main imports Lex_Print
begin

text \<open>
  A whole function of the C interpreter: the code of its body with its frame, what a call of it does on the
  machine, and \<open>main\<close> as \<open>vm_setup_stack\<close> calls it, which returns the value of the program to \<open>eval\<close>.
\<close>

section \<open>The code of a function\<close>

definition fcode :: "u32 \<Rightarrow> (nat \<Rightarrow> place) \<Rightarrow> nat \<Rightarrow> u32 \<Rightarrow> stmt list \<Rightarrow> u32 list" where
  "fcode tb pl p k ss = op_word ENT # k # scodes tb pl (p + 2) ss @ [op_word LEV]"

lemma function_code_parses:
  assumes "sfitss ss" and "reads (sprints ss @ Lx 125 # ts) st" and "\<forall>x \<in> svarss ss. int_var (symbols st) x"
    and "length (ltext st) + ssizes ss + 3 \<le> TEXT_WORDS" and "sneeds ss \<le> n"
  shows "sparses (function_code n pos) st (Lx 125 # ts)
    (ltext st @ fcode (text_base st) (place_in (symbols st) (index_of_bp st)) (length (ltext st)) (word_of_int (pos - index_of_bp st)) ss)"
proof -
  let ?k = "word_of_int (pos - index_of_bp st) :: u32"
  let ?st = "st\<lparr>ltext := ltext st @ [op_word ENT, ?k]\<rparr>"
  let ?T = "ltext st @ fcode (text_base st) (place_in (symbols st) (index_of_bp st)) (length (ltext st)) ?k ss"
  let ?loop = "while_step n (\<lambda>st. token st \<noteq> 125) (statement n)"
  have "sparses ?loop ?st (Lx 125 # ts)
      (ltext ?st @ scodes (text_base ?st) (place_in (symbols ?st) (index_of_bp ?st)) (length (ltext ?st)) ss)"
    by (rule substatements [OF stmt_parse(2), where ?ts0.0 = "sprints ss @ Lx 125 # ts"]) (use assms in simp_all)
  then obtain st1 where s1: "?loop ?st = Done st1" "reads (Lx 125 # ts) st1" "ctx st1 = ctx ?st"
    "ltext st1 = ltext st @ op_word ENT # ?k # scodes (text_base st) (place_in (symbols st) (index_of_bp st)) (length (ltext st) + 2) ss"
    by (auto simp: sparses_def)
  have "seq [emit_op LEV] = emit_op LEV" by (rule ext) (simp add: seq_Nil_Done)
  then have "function_code n pos st = and_then (?loop ?st) (emit_op LEV)"
    using assms(4) by (simp add: function_code_def emit_Done seq_Nil_Done)
  then show ?thesis
    unfolding sparses_def using s1 assms(4) by (intro exI [of _ "st1\<lparr>ltext := ltext st1 @ [op_word LEV]\<rparr>"]) (simp add: emit_Done fcode_def)
qed

section \<open>A call\<close>

text \<open>
  What a call with the return address at \<open>s\<close> needs: the word for the saved \<open>bp\<close> below it, and the frame
  of \<open>k\<close> locals with \<open>d\<close> words of stack below that.
\<close>

definition callable :: "layout \<Rightarrow> nat \<Rightarrow> u32 \<Rightarrow> u32 \<Rightarrow> memory \<Rightarrow> bool" where
  "callable L d k s m \<longleftrightarrow> sane L d (s - 4) (s - 4 - 4 * k) m \<and> load32 m (s - 4) \<noteq> None \<and>
     (\<forall>a \<in> text_words L. apart a (s - 4)) \<and> apart s (s - 4) \<and>
     (\<forall>a \<in> {s, s - 4}. (\<forall>t \<in> scratch d (s - 4 - 4 * k). apart a t) \<and> (\<forall>x \<in> lay_vars L. apart a (loc L (s - 4) x)))"

lemma run_ent:
  assumes c: "code_at (mem v) (lay_base L) 0 (lay_text L)" "code_in L p [op_word ENT, k]" and p: "pc v = at L p"
    and f: "callable L d k (sp v) (mem v)" and e: "env_in L (sp v - 4) \<rho> (mem v)"
  obtains m where "reaches sys v (v\<lparr>pc := at L (p + 2), bp := sp v - 4, sp := sp v - 4 - 4 * k, mem := m\<rparr>)"
    "good L d \<rho> (v\<lparr>pc := at L (p + 2), bp := sp v - 4, sp := sp v - 4 - 4 * k, mem := m\<rparr>)"
    "load32 m (sp v - 4) = Some (bp v)" "same_map (mem v) m" "\<And>a. apart a (sp v - 4) \<Longrightarrow> load32 m a = load32 (mem v) a"
proof -
  have w: "load32 (mem v) (sp v - 4) \<noteq> None" using f by (simp add: callable_def)
  obtain m where m: "\<And>q. push (bp v) (v\<lparr>pc := q\<rparr>) = Some (v\<lparr>pc := q, sp := sp v - 4, mem := m\<rparr>)" "load32 m (sp v - 4) = Some (bp v)"
    "same_map (mem v) m" "\<And>b. apart b (sp v - 4) \<Longrightarrow> load32 m b = load32 (mem v) b"
    by (rule push_at [OF w, of "bp v"]) (rule that; assumption)
  have t: "load32 (mem v) (word_addr (lay_base L) (0 + i)) = Some (lay_text L ! i)" "load32 m (word_addr (lay_base L) (0 + i)) = Some (lay_text L ! i)"
    if "i < length (lay_text L)" for i
  proof -
    show a: "load32 (mem v) (word_addr (lay_base L) (0 + i)) = Some (lay_text L ! i)" using c(1) that by (simp add: code_at_def)
    have "word_addr (lay_base L) (0 + i) \<in> text_words L" using that by (simp add: text_words_def)
    then show "load32 m (word_addr (lay_base L) (0 + i)) = Some (lay_text L ! i)" using f m(4) a by (simp add: callable_def)
  qed
  let ?v = "v\<lparr>pc := at L (p + 2), bp := sp v - 4, sp := sp v - 4 - 4 * k, mem := m\<rparr>"
  have "vm_step sys v = Some (Running ?v)"
    using t(1) [of p] t(2) [of "Suc p"] c(2) m(1) p
    by (simp add: vm_step_def operand_def word_addr_Suc)
  then have r: "reaches sys v ?v" by (rule reaches_step)
  have "sane L d (sp v - 4) (sp v - 4 - 4 * k) m"
    using f same_map_load [OF m(3)] unfolding callable_def sane_def by blast
  moreover have "code_at m (lay_base L) 0 (lay_text L)" using t(2) by (simp add: code_at_def)
  moreover have "env_in L (sp v - 4) \<rho> m" using e f m(4) apart_sym by (auto simp: env_in_def callable_def)
  ultimately have g: "good L d \<rho> ?v" by (simp add: good_def)
  show thesis by (rule that [OF r g m(2-4)])
qed

lemma run_lev:
  assumes "good L d \<rho> v" and "pc v = at L p" and "code_in L p [op_word LEV]"
    and "load32 (mem v) (bp v) = Some b" and "load32 (mem v) (bp v + 4) = Some r"
  shows "reaches sys v (v\<lparr>pc := r, bp := b, sp := bp v + 8\<rparr>)"
  by (rule reaches_step)
    (use good_code [OF assms(1,3)] assms(2,4,5) in \<open>simp add: vm_step_def operand_def pop_def word_addr_Suc\<close>)

text \<open>
  The whole call: from the entry of a function with \<open>r\<close> on the stack the machine comes back to \<open>r\<close> with
  the value of the body in \<open>ax\<close>, \<open>bp\<close> as it was and the return address popped, and outside the frame and the
  variables the memory is as before.
\<close>

definition outside :: "layout \<Rightarrow> nat \<Rightarrow> u32 \<Rightarrow> u32 \<Rightarrow> u32 \<Rightarrow> bool" where
  "outside L d k s a \<longleftrightarrow> apart a (s - 4) \<and> (\<forall>t \<in> scratch d (s - 4 - 4 * k). apart a t) \<and> (\<forall>x \<in> lay_vars L. apart a (loc L (s - 4) x))"

lemma call_runs:
  assumes c: "code_at (mem v) (lay_base L) 0 (lay_text L)" "code_in L p (fcode (lay_base L) (lay_place L) p k ss)" and p: "pc v = at L p"
    and f: "callable L d k (sp v) (mem v)" and e: "env_in L (sp v - 4) \<rho> (mem v)" and r: "load32 (mem v) (sp v) = Some r"
    and x: "execs ss \<rho> (Some w, \<rho>')" "svarss ss \<subseteq> lay_vars L" "sdepths ss \<le> d" "salus ss"
  obtains m where "reaches sys v (v\<lparr>pc := r, sp := sp v + 4, ax := w, mem := m\<rparr>)" "env_in L (sp v - 4) \<rho>' m" "same_map (mem v) m"
    "\<And>a. outside L d k (sp v) a \<Longrightarrow> load32 m a = load32 (mem v) a"
proof -
  have c1: "code_in L p [op_word ENT, k]" "scodes_in L (p + 2) ss" using c(2) by (simp_all add: fcode_def)
  let ?s = "sp v - 4" and ?t = "sp v - 4 - 4 * k"
  obtain m where m: "reaches sys v (v\<lparr>pc := at L (p + 2), bp := ?s, sp := ?t, mem := m\<rparr>)"
    "good L d \<rho> (v\<lparr>pc := at L (p + 2), bp := ?s, sp := ?t, mem := m\<rparr>)"
    "load32 m ?s = Some (bp v)" "same_map (mem v) m" "\<And>a. apart a ?s \<Longrightarrow> load32 m a = load32 (mem v) a"
    by (rule run_ent [OF c(1) c1(1) p f e]) (rule that; assumption)
  let ?v = "v\<lparr>pc := at L (p + 2), bp := ?s, sp := ?t, mem := m\<rparr>"
  have "ends sys L d ?v (p + 2 + ssizes ss) (Some w, \<rho>')"
    by (rule stmt_runs(2) [OF x(1) m(2) _ c1(2) x(2-4)]) simp
  then obtain q m' where q: "code_in L q [op_word LEV]" "reaches sys ?v (?v\<lparr>pc := at L q, ax := w, mem := m'\<rparr>)"
    "framed L d ?s ?t m m'" "env_in L ?s \<rho>' m'" by (auto simp: ends_def lands_def)
  let ?u = "?v\<lparr>pc := at L q, ax := w, mem := m'\<rparr>"
  have kept: "load32 m' a = load32 m a" if "(\<forall>t \<in> scratch d ?t. apart a t) \<and> (\<forall>x \<in> lay_vars L. apart a (loc L ?s x))" for a
    using q(3) that by (simp add: framed_def)
  have b: "load32 m' ?s = Some (bp v)" using kept [of ?s] f m(3) by (simp add: callable_def)
  have a: "load32 m' (sp v) = Some r" using kept [of "sp v"] f r m(5) by (simp add: callable_def)
  have g: "good L d \<rho>' ?u" using good_framed [OF m(2), of m' \<rho>' w "at L q"] q(3,4) by simp
  have "reaches sys ?u (?u\<lparr>pc := r, bp := bp v, sp := bp ?u + 8\<rparr>)"
    by (rule run_lev [OF g _ q(1)]) (use a b in simp_all)
  also have "?u\<lparr>pc := r, bp := bp v, sp := bp ?u + 8\<rparr> = v\<lparr>pc := r, sp := sp v + 4, ax := w, mem := m'\<rparr>"
    by (rule vm.equality) simp_all
  finally have "reaches sys v (v\<lparr>pc := r, sp := sp v + 4, ax := w, mem := m'\<rparr>)"
    using reaches_trans [OF m(1) q(2)] reaches_trans by blast
  moreover have "same_map (mem v) m'" using same_map_trans [OF m(4)] q(3) by (simp add: framed_def)
  moreover have "load32 m' a = load32 (mem v) a" if "outside L d k (sp v) a" for a
    using kept [of a] m(5) [of a] that by (simp add: outside_def)
  ultimately show thesis using that q(4) by blast
qed

section \<open>The stack of main\<close>

lemma apart_unat:
  assumes "unat a + 4 \<le> unat b" and "unat b + 4 \<le> unat a + 2 ^ 32"
  shows "apart a b" "apart b a"
proof -
  have u: "unat (b - a) = unat b - unat a" "unat (a - b) = unat a + 2 ^ 32 - unat b"
    using assms(1) by (simp_all add: unat_sub_if_size word_size)
  have "(4 :: u32) \<le> b - a" "4 \<le> a - b" using u assms by (simp_all add: word_le_nat_alt)
  then show "apart a b" "apart b a" by (simp_all add: apart_def)
qed

text \<open>The word number \<open>j\<close> of the stack at \<open>S\<close>, counted down from the end.\<close>

definition slot :: "u32 \<Rightarrow> nat \<Rightarrow> u32" where
  "slot S j = S + (1022 - 4 * of_nat j)"

lemma unat_slot: "unat S + 1024 \<le> 2 ^ 32 \<Longrightarrow> j \<le> 255 \<Longrightarrow> unat (slot S j) = unat S + (1022 - 4 * j)"
proof -
  assume S: "unat S + 1024 \<le> 2 ^ 32" and j: "j \<le> 255"
  have "slot S j = S + of_nat (1022 - 4 * j)" using j by (simp add: slot_def of_nat_diff)
  moreover have "unat (of_nat (1022 - 4 * j) :: u32) = 1022 - 4 * j" by (simp add: unat_of_nat take_bit_nat_eq_self)
  ultimately show ?thesis using S by (simp add: unat_word_ariths)
qed

lemma slots_apart: "unat S + 1024 \<le> 2 ^ 32 \<Longrightarrow> i \<le> 255 \<Longrightarrow> j \<le> 255 \<Longrightarrow> i \<noteq> j \<Longrightarrow> apart (slot S i) (slot S j)"
proof (induction i j rule: linorder_wlog)
  case (le a b)
  then have "unat (slot S b) + 4 \<le> unat (slot S a)" "unat (slot S a) + 4 \<le> unat (slot S b) + 2 ^ 32"
    using unat_slot [of S a] unat_slot [of S b] by simp_all
  then show ?case by (rule apart_unat(2))
next
  case (sym a b)
  then show ?case using apart_sym by blast
qed

definition clear_of :: "u32 \<Rightarrow> u32 \<Rightarrow> bool" where
  "clear_of S a \<longleftrightarrow> unat a + 4 \<le> unat S \<or> unat S + 1024 \<le> unat a \<and> unat a + 4 \<le> 2 ^ 32"

lemma clear_slot: "clear_of S a \<Longrightarrow> unat S + 1024 \<le> 2 ^ 32 \<Longrightarrow> 1 \<le> j \<Longrightarrow> j \<le> 255 \<Longrightarrow> apart a (slot S j)"
  unfolding clear_of_def
proof (elim disjE)
  assume a: "unat a + 4 \<le> unat S" "unat S + 1024 \<le> 2 ^ 32" "1 \<le> j" "j \<le> 255"
  show ?thesis by (rule apart_unat(1)) (use a unat_slot [OF a(2,4)] in simp_all)
next
  assume a: "unat S + 1024 \<le> unat a \<and> unat a + 4 \<le> 2 ^ 32" "unat S + 1024 \<le> 2 ^ 32" "1 \<le> j" "j \<le> 255"
  have "4 * j \<le> 1020" "4 \<le> 4 * j" using a by simp_all
  then show ?thesis by (intro apart_unat(2)) (use a(1,2) unat_slot [OF a(2,4)] in arith)+
qed

lemma slot_shift: "slot S i - 4 * of_nat j = slot S (i + j)" "slot S (Suc i) + 4 = slot S i" "slot S i - 4 = slot S (Suc i)"
  by (simp_all add: slot_def algebra_simps)

text \<open>
  The memory \<open>m\<close> as \<open>main\<close> finds it: the stack is mapped, holds the six words of the set-up, \<open>k\<close> locals and
  \<open>d\<close> words of scratch space, and lies apart from the text and the global variables.
\<close>

definition main_room :: "layout \<Rightarrow> nat \<Rightarrow> nat \<Rightarrow> u32 \<Rightarrow> memory \<Rightarrow> bool" where
  "main_room L d k S m \<longleftrightarrow> unat S + 1024 \<le> 2 ^ 32 \<and> (\<forall>i < 1024. m (S + of_nat i) \<noteq> None) \<and> 6 + k + d \<le> 255 \<and>
     (\<forall>a \<in> text_words L. clear_of S a) \<and>
     (\<forall>x \<in> lay_vars L. case lay_place L x of
        Local e \<Rightarrow> \<exists>i. 1 \<le> i \<and> i \<le> k \<and> e = - of_nat i
      | Global a \<Rightarrow> clear_of S a \<and> load32 m a \<noteq> None \<and> (\<forall>t \<in> text_words L. apart t a)) \<and>
     (\<forall>x \<in> lay_vars L. \<forall>y \<in> lay_vars L. y \<noteq> x \<longrightarrow> lay_place L y \<noteq> lay_place L x \<and>
        (\<forall>a b. lay_place L x = Global a \<and> lay_place L y = Global b \<longrightarrow> apart b a))"

lemma slot_mapped:
  assumes "main_room L d k S m" and "1 \<le> j" and "j \<le> 255"
  shows "load32 m (slot S j) \<noteq> None"
proof -
  have m: "m (S + of_nat i) \<noteq> None" if "i < 1024" for i using assms(1) that by (simp add: main_room_def)
  have "slot S j = S + of_nat (1022 - 4 * j)" using assms(3) by (simp add: slot_def of_nat_diff)
  then have e: "slot S j + of_nat l = S + of_nat (1022 - 4 * j + l)" for l by (simp add: ac_simps)
  have "m (slot S j + of_nat l) \<noteq> None" if "l \<le> 3" for l
  proof -
    have "1022 - 4 * j + l < 1024" using that assms(2) by simp
    from m [OF this] show ?thesis unfolding e .
  qed
  from this [of 0] this [of 1] this [of 2] this [of 3] show ?thesis unfolding load_mapped by simp
qed

lemma loc_slot:
  assumes "main_room L d k S m" and "x \<in> lay_vars L"
  obtains (local) i where "lay_place L x = Local (- of_nat i)" "1 \<le> i" "i \<le> k" "loc L (slot S 6) x = slot S (6 + i)"
  | (global) a where "lay_place L x = Global a" "loc L (slot S 6) x = a" "clear_of S a" "load32 m a \<noteq> None" "\<forall>t \<in> text_words L. apart t a"
proof (cases "lay_place L x")
  case (Local e)
  then obtain i where "1 \<le> i" "i \<le> k" "e = - of_nat i" using assms by (fastforce simp: main_room_def)
  then show thesis using local [of i] Local slot_shift(1) [of S 6 i] by (simp add: loc_def)
next
  case (Global a)
  then have "clear_of S a \<and> load32 m a \<noteq> None \<and> (\<forall>t \<in> text_words L. apart t a)" using assms by (fastforce simp: main_room_def)
  then show thesis using global [of a] Global by (simp add: loc_def)
qed

lemma scratch_slots: "scratch d (slot S j) = slot S ` {j + 1..j + d}"
proof -
  have "{j + 1..j + d} = (+) j ` {1..d}" by simp
  then show ?thesis by (simp only: scratch_def slot_shift(1) image_image)
qed

lemma var_slot_apart:
  assumes "main_room L d k S m" and "x \<in> lay_vars L" and j: "1 \<le> j" "j \<le> 255" "j \<le> 6 \<or> 6 + k < j"
  shows "apart (loc L (slot S 6) x) (slot S j)" "apart (slot S j) (loc L (slot S 6) x)"
proof -
  have S: "unat S + 1024 \<le> 2 ^ 32" and n: "6 + k + d \<le> 255" using assms(1) by (simp_all add: main_room_def)
  show "apart (loc L (slot S 6) x) (slot S j)"
  proof (rule loc_slot [OF assms(1,2)])
    fix i assume "1 \<le> i" "i \<le> k" "loc L (slot S 6) x = slot S (6 + i)"
    then show ?thesis using slots_apart [OF S, of "6 + i" j] j n by auto
  qed (use clear_slot [OF _ S j(1,2)] in simp)
  then show "apart (slot S j) (loc L (slot S 6) x)" by (rule apart_sym)
qed

lemma vars_apart:
  assumes room: "main_room L d k S m" and x: "x \<in> lay_vars L" and y: "y \<in> lay_vars L" and ne: "y \<noteq> x"
  shows "apart (loc L (slot S 6) y) (loc L (slot S 6) x)"
proof -
  have S: "unat S + 1024 \<le> 2 ^ 32" and n: "6 + k + d \<le> 255" using room by (simp_all add: main_room_def)
  have pl: "lay_place L y \<noteq> lay_place L x" "\<And>a b. lay_place L x = Global a \<Longrightarrow> lay_place L y = Global b \<Longrightarrow> apart b a"
    using assms by (simp_all add: main_room_def)
  show ?thesis
  proof (rule loc_slot [OF room x])
    fix i assume i: "lay_place L x = Local (- of_nat i)" "1 \<le> i" "i \<le> k" "loc L (slot S 6) x = slot S (6 + i)"
    show ?thesis
    proof (rule loc_slot [OF room y])
      fix j assume j: "lay_place L y = Local (- of_nat j)" "1 \<le> j" "j \<le> k" "loc L (slot S 6) y = slot S (6 + j)"
      then have "i \<noteq> j" using pl(1) i(1) by auto
      then show ?thesis using slots_apart [OF S, of "6 + j" "6 + i"] i j n by simp
    qed (use clear_slot [OF _ S, of _ "6 + i"] i n in simp)
  next
    fix a assume a: "lay_place L x = Global a" "loc L (slot S 6) x = a" "clear_of S a"
    show ?thesis
    proof (rule loc_slot [OF room y])
      fix j assume "1 \<le> j" "j \<le> k" "loc L (slot S 6) y = slot S (6 + j)"
      then show ?thesis using clear_slot [OF a(3) S, of "6 + j"] a(2) n apart_sym by simp
    qed (use pl(2) a(1,2) in simp)
  qed
qed

text \<open>With such a memory \<open>main\<close> can be called from word 5.\<close>

lemma main_callable:
  assumes "main_room L d k S m"
  shows "callable L d (of_nat k) (slot S 5) m"
proof -
  have S: "unat S + 1024 \<le> 2 ^ 32" and n: "6 + k + d \<le> 255" and tx: "\<forall>a \<in> text_words L. clear_of S a" using assms by (simp_all add: main_room_def)
  have s6: "slot S 5 - 4 = slot S 6" and s7: "slot S 6 - 4 * of_nat k = slot S (6 + k)" by (simp_all add: slot_def algebra_simps)
  have sl: "\<forall>a \<in> text_words L. apart a (slot S j)" if "1 \<le> j" "j \<le> 255" for j using clear_slot [OF _ S that] tx by blast
  note other = var_slot_apart [OF assms]
  have vx: "load32 m (loc L (slot S 6) x) \<noteq> None \<and> (\<forall>a \<in> text_words L. apart a (loc L (slot S 6) x))" if x: "x \<in> lay_vars L" for x
  proof (rule loc_slot [OF assms x])
    fix i assume "1 \<le> i" "i \<le> k" "loc L (slot S 6) x = slot S (6 + i)"
    then show ?thesis using slot_mapped [OF assms, of "6 + i"] sl [of "6 + i"] n by simp
  qed simp
  have scr: "scratch d (slot S (6 + k)) = slot S ` {6 + k + 1..6 + k + d}" by (rule scratch_slots)
  have sn: "sane L d (slot S 6) (slot S (6 + k)) m"
    unfolding sane_def scr using n slot_mapped [OF assms] sl other vx vars_apart [OF assms] by auto
  show ?thesis
    unfolding callable_def s6 s7 scr
    using sn slot_mapped [OF assms, of 6] sl [of 6] slots_apart [OF S, of 5 6] slots_apart [OF S] other n by auto
qed

section \<open>Calling main\<close>

lemma push_word:
  assumes "load32 (mem v) (sp v - 4) \<noteq> None"
  obtains m where "push w v = Some (v\<lparr>sp := sp v - 4, mem := m\<rparr>)" "load32 m (sp v - 4) = Some w" "same_map (mem v) m"
    "\<And>b. apart b (sp v - 4) \<Longrightarrow> load32 m b = load32 (mem v) b"
proof -
  obtain m where m: "store32 (sp v - 4) w (mem v) = Some m" "load32 m (sp v - 4) = Some w" "same_map (mem v) m"
    "\<And>b. apart b (sp v - 4) \<Longrightarrow> load32 m b = load32 (mem v) b" by (rule store32_mapped [OF assms]) (rule that; assumption)
  then show thesis using that by (simp add: push_def)
qed

text \<open>\<open>vm_setup_stack\<close> writes the words 1 to 5.\<close>

primrec pushes :: "u32 list \<Rightarrow> vm \<Rightarrow> vm option" where
  "pushes [] v = Some v"
| "pushes (w # ws) v = do { v \<leftarrow> push w v; pushes ws v }"

lemma pushes_slots:
  assumes S: "unat S + 1024 \<le> 2 ^ 32" and "sp v = slot S i" and "i + length ws \<le> 255"
    and "\<forall>j. 1 \<le> j \<and> j \<le> 255 \<longrightarrow> load32 (mem v) (slot S j) \<noteq> None"
  shows "\<exists>m. pushes ws v = Some (v\<lparr>sp := slot S (i + length ws), mem := m\<rparr>) \<and> same_map (mem v) m \<and>
    (\<forall>j < length ws. load32 m (slot S (Suc i + j)) = Some (ws ! j)) \<and>
    (\<forall>a. (\<forall>j. i < j \<and> j \<le> i + length ws \<longrightarrow> apart a (slot S j)) \<longrightarrow> load32 m a = load32 (mem v) a)"
  using assms(2-)
proof (induction ws arbitrary: v i)
  case Nil
  then show ?case by (intro exI [of _ "mem v"]) simp
next
  case (Cons w ws)
  have n: "sp v - 4 = slot S (Suc i)" using Cons.prems(1) by (simp add: slot_shift(3))
  have "load32 (mem v) (sp v - 4) \<noteq> None" using Cons.prems(2,3) n by simp
  then obtain m where m: "push w v = Some (v\<lparr>sp := slot S (Suc i), mem := m\<rparr>)" "load32 m (slot S (Suc i)) = Some w" "same_map (mem v) m"
    "\<And>b. apart b (slot S (Suc i)) \<Longrightarrow> load32 m b = load32 (mem v) b" using push_word [of v w] n by metis
  let ?v = "v\<lparr>sp := slot S (Suc i), mem := m\<rparr>"
  have "\<forall>j. 1 \<le> j \<and> j \<le> 255 \<longrightarrow> load32 (mem ?v) (slot S j) \<noteq> None"
    using Cons.prems(3) same_map_load [OF m(3)] by simp
  then obtain m' where m': "pushes ws ?v = Some (?v\<lparr>sp := slot S (Suc i + length ws), mem := m'\<rparr>)" "same_map m m'"
    "\<forall>j < length ws. load32 m' (slot S (Suc (Suc i) + j)) = Some (ws ! j)"
    "\<And>a. \<forall>j. Suc i < j \<and> j \<le> Suc i + length ws \<longrightarrow> apart a (slot S j) \<Longrightarrow> load32 m' a = load32 m a"
    using Cons.IH [of ?v "Suc i"] Cons.prems(2) by auto
  have "load32 m' (slot S (Suc i)) = load32 m (slot S (Suc i))"
    by (rule m'(4)) (use slots_apart [OF S, of "Suc i"] Cons.prems(2) in auto)
  then have w: "\<forall>j < length (w # ws). load32 m' (slot S (Suc i + j)) = Some ((w # ws) ! j)"
    using m(2) m'(3) by (simp add: All_less_Suc2)
  have o: "load32 m' a = load32 (mem v) a" if "\<forall>j. i < j \<and> j \<le> i + length (w # ws) \<longrightarrow> apart a (slot S j)" for a
    using m'(4) [of a] m(4) [of a] that by simp
  show ?case
    by (rule exI [of _ m'])
      (use m(1) m'(1) same_map_trans [OF m(3) m'(2)] w o in \<open>simp\<close>)
qed

lemma setup_pushes:
  assumes "vm_stack v = S"
  shows "vm_setup_stack argc argv v = pushes [op_word EXIT, op_word PUSH, argc, argv, slot S 2] (v\<lparr>sp := slot S 0\<rparr>)"
proof -
  let ?v = "v\<lparr>sp := slot S 0\<rparr>"
  have s: "v\<lparr>sp := vm_stack v + (VM_STACK_SIZE - 2)\<rparr> = ?v" using assms by (simp add: slot_def)
  have p: "sp u' = sp u - 4" if "push w u = Some u'" for w and u u' :: vm using that by (auto simp: push_def split: Option.bind_splits)
  show ?thesis
  proof (cases "push (op_word EXIT) ?v")
    case None
    then show ?thesis unfolding vm_setup_stack_def s by simp
  next
    case v1: (Some v1)
    show ?thesis
    proof (cases "push (op_word PUSH) v1")
      case None
      then show ?thesis unfolding vm_setup_stack_def s by (simp add: v1)
    next
      case (Some v2)
      have "sp v2 = slot S 2" using p [OF Some] p [OF v1] by (simp add: slot_def algebra_simps)
      then show ?thesis unfolding vm_setup_stack_def s by (simp add: v1 Some Let_def)
    qed
  qed
qed

lemma setup_slots:
  assumes S: "unat S + 1024 \<le> 2 ^ 32" and "vm_stack v = S" and "\<forall>j. 1 \<le> j \<and> j \<le> 255 \<longrightarrow> load32 (mem v) (slot S j) \<noteq> None"
  obtains m where "vm_setup_stack argc argv v = Some (v\<lparr>sp := slot S 5, mem := m\<rparr>)" "same_map (mem v) m"
    "load32 m (slot S 1) = Some (op_word EXIT)" "load32 m (slot S 2) = Some (op_word PUSH)" "load32 m (slot S 5) = Some (slot S 2)"
    "\<And>a. \<forall>j. 0 < j \<and> j \<le> 5 \<longrightarrow> apart a (slot S j) \<Longrightarrow> load32 m a = load32 (mem v) a"
proof -
  let ?ws = "[op_word EXIT, op_word PUSH, argc, argv, slot S 2]" and ?v = "v\<lparr>sp := slot S 0\<rparr>"
  have l: "length ?ws = 5" by simp
  have "sp ?v = slot S 0" "0 + length ?ws \<le> 255" "\<forall>j. 1 \<le> j \<and> j \<le> 255 \<longrightarrow> load32 (mem ?v) (slot S j) \<noteq> None" using assms(3) by simp_all
  from pushes_slots [OF S this] obtain m where m: "pushes ?ws ?v = Some (?v\<lparr>sp := slot S (0 + 5), mem := m\<rparr>)" "same_map (mem ?v) m"
    "\<forall>j < 5. load32 m (slot S (Suc 0 + j)) = Some (?ws ! j)"
    "\<forall>a. (\<forall>j. 0 < j \<and> j \<le> 0 + 5 \<longrightarrow> apart a (slot S j)) \<longrightarrow> load32 m a = load32 (mem ?v) a"
    unfolding l by blast
  show thesis
  proof (rule that)
    show "vm_setup_stack argc argv v = Some (v\<lparr>sp := slot S 5, mem := m\<rparr>)" using setup_pushes [OF assms(2)] m(1) by simp
  qed (use m(2-4) m(3) [rule_format, of 0] m(3) [rule_format, of 1] m(3) [rule_format, of 4] in \<open>simp_all add: eval_nat_numeral\<close>)
qed

text \<open>What main returns to: \<open>PUSH\<close> and \<open>EXIT\<close> on the stack.\<close>

lemma run_exit:
  assumes S: "unat S + 1024 \<le> 2 ^ 32" and "pc v = slot S 2" and "sp v = slot S 4"
    and "load32 (mem v) (slot S 1) = Some (op_word EXIT)" "load32 (mem v) (slot S 2) = Some (op_word PUSH)" "load32 (mem v) (slot S 5) \<noteq> None"
  shows "\<exists>v1 v2. vm_step sys v = Some (Running v1) \<and> vm_step sys v1 = Some (Returned (ax v) v2)"
proof -
  have n: "sp v - 4 = slot S 5" "pc v + 4 = slot S 1" using assms(2,3) by (simp_all add: slot_def algebra_simps)
  let ?v = "v\<lparr>pc := slot S 1\<rparr>"
  obtain m where m: "push (ax ?v) ?v = Some (?v\<lparr>sp := slot S 5, mem := m\<rparr>)" "load32 m (slot S 5) = Some (ax v)"
    "\<And>b. apart b (slot S 5) \<Longrightarrow> load32 m b = load32 (mem v) b"
  proof (rule push_word [of ?v "ax ?v"])
    fix m assume "push (ax ?v) ?v = Some (?v\<lparr>sp := sp ?v - 4, mem := m\<rparr>)" "load32 m (sp ?v - 4) = Some (ax ?v)"
      "\<And>b. apart b (sp ?v - 4) \<Longrightarrow> load32 m b = load32 (mem ?v) b"
    then show thesis using n(1) by (intro that [of m]) simp_all
  qed (use assms(6) n(1) in simp)
  have "vm_step sys v = Some (Running (?v\<lparr>sp := slot S 5, mem := m\<rparr>))"
    using assms(2,5) n(2) m(1) by (simp add: vm_step_def operand_def)
  moreover have "load32 m (slot S 1) = Some (op_word EXIT)" using m(3) [of "slot S 1"] slots_apart [OF S, of 1 5] assms(4) by simp
  then have "vm_step sys (?v\<lparr>sp := slot S 5, mem := m\<rparr>) = Some (Returned (ax v) (?v\<lparr>sp := slot S 5, mem := m, pc := slot S 1 + 4\<rparr>))"
    using m(2) by (simp add: vm_step_def operand_def)
  ultimately show ?thesis by blast
qed

lemma main_returns:
  assumes room: "main_room L d k S (mem v)" and c: "code_at (mem v) (lay_base L) 0 (lay_text L)"
    and f: "code_in L p (fcode (lay_base L) (lay_place L) p (of_nat k) ss)" "pc v = at L p" and e: "env_in L (slot S 6) \<rho> (mem v)"
    and x: "execs ss \<rho> (Some w, \<rho>')" "svarss ss \<subseteq> lay_vars L" "sdepths ss \<le> d" "salus ss"
  shows "\<exists>v1 v2 n. vm_setup_stack argc argv (vm_setup tx dt S v) = Some v1 \<and> (\<forall>j \<ge> n. eval sys j v1 = Some (Returned w v2))"
proof -
  have S: "unat S + 1024 \<le> 2 ^ 32" and n: "6 + k + d \<le> 255" and tx: "\<forall>a \<in> text_words L. clear_of S a" using room by (simp_all add: main_room_def)
  let ?u = "vm_setup tx dt S v"
  have u: "vm_stack ?u = S" "mem ?u = mem v" "pc ?u = pc v" by (simp_all add: vm_setup_def)
  obtain m where m: "vm_setup_stack argc argv ?u = Some (?u\<lparr>sp := slot S 5, mem := m\<rparr>)" "same_map (mem v) m"
    "load32 m (slot S 1) = Some (op_word EXIT)" "load32 m (slot S 2) = Some (op_word PUSH)" "load32 m (slot S 5) = Some (slot S 2)"
    "\<And>a. \<forall>j. 0 < j \<and> j \<le> 5 \<longrightarrow> apart a (slot S j) \<Longrightarrow> load32 m a = load32 (mem v) a"
    by (rule setup_slots [OF S u(1), of argc argv]) (use slot_mapped [OF room] u(2) that in simp_all)
  let ?v1 = "?u\<lparr>sp := slot S 5, mem := m\<rparr>"
  have room': "main_room L d k S m"
    using room m(2) same_map_load [OF m(2)] unfolding main_room_def same_map_def by (auto split: place.splits) blast+
  have keep: "load32 m a = load32 (mem v) a" if "clear_of S a" for a using m(6) clear_slot [OF that S] by simp
  have code: "code_at (mem ?v1) (lay_base L) 0 (lay_text L)"
    using c keep tx by (auto simp: code_at_def text_words_def)
  have keep': "load32 m (loc L (slot S 6) y) = load32 (mem v) (loc L (slot S 6) y)" if y: "y \<in> lay_vars L" for y
  proof (rule loc_slot [OF room y])
    fix i assume i: "i \<le> k" "loc L (slot S 6) y = slot S (6 + i)"
    then show ?thesis using m(6) slots_apart [OF S, of "6 + i"] n by simp
  qed (use keep in simp)
  have s6: "sp ?v1 - 4 = slot S 6" by (simp add: slot_def)
  have env: "env_in L (sp ?v1 - 4) \<rho> (mem ?v1)" using e keep' unfolding s6 by (simp add: env_in_def)
  have call: "callable L d (of_nat k) (sp ?v1) (mem ?v1)" using main_callable [OF room'] by simp
  have pcu: "pc ?v1 = at L p" using f(2) u(3) by simp
  have ret: "load32 (mem ?v1) (sp ?v1) = Some (slot S 2)" using m(5) by simp
  obtain m' where m': "reaches sys ?v1 (?v1\<lparr>pc := slot S 2, sp := sp ?v1 + 4, ax := w, mem := m'\<rparr>)" "same_map (mem ?v1) m'"
    "\<And>a. outside L d (of_nat k) (sp ?v1) a \<Longrightarrow> load32 m' a = load32 (mem ?v1) a"
    by (rule call_runs [OF code f(1) pcu call env ret x]) (rule that; assumption)
  have s7: "slot S 6 - 4 * of_nat k = slot S (6 + k)" by (simp add: slot_shift)
  have out: "outside L d (of_nat k) (sp ?v1) (slot S j)" if j: "1 \<le> j" "j \<le> 2" for j
    unfolding outside_def s6 s7 scratch_slots
    using slots_apart [OF S, of j] var_slot_apart(2) [OF room, of _ j] j n by auto
  let ?v2 = "?v1\<lparr>pc := slot S 2, sp := sp ?v1 + 4, ax := w, mem := m'\<rparr>"
  obtain v3 v4 where v: "vm_step sys ?v2 = Some (Running v3)" "vm_step sys v3 = Some (Returned (ax ?v2) v4)"
    using run_exit [OF S, of ?v2 sys] m'(3) [OF out, of 1] m'(3) [OF out, of 2] m(3-5) same_map_load [OF m'(2), of "slot S 5"]
    by (auto simp: slot_shift(2) [of S 4, simplified])
  show ?thesis using m(1) reaches_returns [OF reaches_trans [OF m'(1) reaches_step [OF v(1)]] v(2)] by auto
qed

end
