(* ===== verification/Cc_Program.thy ===== *)
theory Cc_Program imports Cc_Main
begin

text \<open>
  From the source text to the result: the symbol table that \<open>lex_init\<close> builds, the declarations of \<open>main\<close>
  and its \<open>int\<close> locals, and the correctness of the compiler and the machine for such programs.
\<close>

section \<open>The symbol table\<close>

definition table :: "symbol list \<Rightarrow> symbol list" where
  "table es = es @ replicate (LEX_MAX_SYMBOLS - length es) no_symbol"

definition named :: "symbol \<Rightarrow> u8 list \<Rightarrow> bool" where
  "named e cs \<longleftrightarrow> id_token e \<noteq> 0 \<and> id_hash e = hash_ident cs \<and> take (length cs) (id_name e) = cs"

definition entry_of :: "u8 list \<Rightarrow> u8 list \<Rightarrow> symbol" where
  "entry_of cs s = no_symbol\<lparr>id_name := cs @ s, id_hash := hash_ident cs, id_token := T_Id\<rparr>"

lemma named_entry [simp]: "named (entry_of cs s) cs"
  by (simp add: named_def entry_of_def)

lemma length_table: "length es \<le> LEX_MAX_SYMBOLS \<Longrightarrow> length (table es) = LEX_MAX_SYMBOLS"
  by (simp add: table_def)

lemma table_nth [simp]: "i < length es \<Longrightarrow> table es ! i = es ! i"
  by (simp add: table_def nth_append)

lemma table_free [simp]: "length es < LEX_MAX_SYMBOLS \<Longrightarrow> table es ! length es = no_symbol"
  by (simp add: table_def nth_append)

lemma table_add: "length es < LEX_MAX_SYMBOLS \<Longrightarrow> (table es)[length es := e] = table (es @ [e])"
proof -
  assume l: "length es < LEX_MAX_SYMBOLS"
  then have e: "LEX_MAX_SYMBOLS - length es = Suc (LEX_MAX_SYMBOLS - Suc (length es))" by simp
  have "(es @ no_symbol # xs)[length es := e] = (es @ [e]) @ xs" for xs by simp
  then show ?thesis unfolding table_def length_append e replicate_Suc by simp
qed

lemma table_upd: "i < length es \<Longrightarrow> (table es)[i := e] = table (es[i := e])"
  by (simp add: table_def list_update_append)

lemma lookup_known:
  assumes "list_all2 named es cs" and "distinct (map hash_ident cs)" and "i < length cs" and "length es \<le> LEX_MAX_SYMBOLS"
  shows "lookup (table es) (cs ! i) = Some i"
proof -
  have n: "named (es ! j) (cs ! j)" "length es = length cs" if "j < length cs" for j
    using assms(1) that by (auto simp: list_all2_conv_all_nth)
  have l: "length es = length cs" using assms(1) by (rule list_all2_lengthD)
  have "same_ident (cs ! i) (es ! i)" using n [OF assms(3)] by (simp add: same_ident_def named_def)
  moreover have "id_token (es ! j) \<noteq> 0 \<and> \<not> same_ident (cs ! i) (es ! j)" if "j < i" for j
  proof -
    have "hash_ident (cs ! j) \<noteq> hash_ident (cs ! i)"
      using assms(2,3) that by (simp add: distinct_conv_nth)
    then show ?thesis using n [of j] that assms(3) by (simp add: same_ident_def named_def)
  qed
  ultimately show ?thesis
    unfolding lookup_def find_from_Some_iff using assms(3,4) l by auto
qed

lemma lookup_new:
  assumes "list_all2 named es cs" and "hash_ident c \<notin> set (map hash_ident cs)" and "length es < LEX_MAX_SYMBOLS"
  shows "lookup (table es) c = Some (length es)"
proof -
  have l: "length es = length cs" using assms(1) by (rule list_all2_lengthD)
  have "id_token (es ! j) \<noteq> 0 \<and> \<not> same_ident c (es ! j)" if "j < length es" for j
  proof -
    have "named (es ! j) (cs ! j)" using assms(1) that by (simp add: list_all2_conv_all_nth)
    moreover have "hash_ident c \<noteq> hash_ident (cs ! j)" using assms(2) that l by auto
    ultimately show ?thesis by (simp add: same_ident_def named_def)
  qed
  then show ?thesis
    unfolding lookup_def find_from_Some_iff using assms(3) by (auto simp: no_symbol_def)
qed

text \<open>A name that is not in the table yet is entered there.\<close>

lemma lex_new:
  assumes "symbols st = table es" and "list_all2 named es cs" and "hash_ident c \<notin> set (map hash_ident cs)" and "length es < LEX_MAX_SYMBOLS"
    and "is_ident c" and "token_end s" and "src st = c @ s \<or> src st = 32 # c @ s"
  shows "lex_next st = Done (st\<lparr>src := s, token := T_Id, current_id := length es, symbols := table (es @ [entry_of c s])\<rparr>)"
proof -
  obtain x xs where c: "c = x # xs" "ident_start x" "list_all ident_char xs" using is_ident_start [OF assms(5)] by blast
  have w: "takeWhile ident_char (xs @ s) = xs" "dropWhile ident_char (xs @ s) = s"
    using while_end [OF c(3) assms(6)] by (simp_all add: ident_char_def)
  have i: "lookup (symbols st) c = Some (length es)" using lookup_new [OF assms(2-4)] assms(1) by simp
  have "lex_next st = next_tok (c @ s) st" using assms(7) by (auto simp: lex_next_def next_tok_space simp del: next_tok.simps)
  also have "\<dots> = next_ident (c @ s) c (st\<lparr>token := sint x, src := s\<rparr>)"
    using c(1,2) w by (simp add: next_char_def)
  also have "\<dots> = Done (st\<lparr>src := s, token := T_Id, current_id := length es, symbols := table (es @ [entry_of c s])\<rparr>)"
    using i assms(1,4) by (simp add: next_ident_def lookup_def table_add entry_of_def no_symbol_def)
  finally show ?thesis .
qed

section \<open>lex_init\<close>

definition keyword :: "int \<Rightarrow> symbol \<Rightarrow> symbol" where
  "keyword tk e = e\<lparr>id_token := tk\<rparr>"

definition call_of :: "opcode \<Rightarrow> symbol \<Rightarrow> symbol" where
  "call_of op e = e\<lparr>id_class := T_Sys, id_type := TY_INT, id_value := op_word op\<rparr>"

definition library :: "(string \<times> (symbol \<Rightarrow> symbol)) list" where
  "library = [(''char'', keyword T_Char), (''else'', keyword T_Else), (''enum'', keyword T_Enum), (''if'', keyword T_If), (''int'', keyword T_Int),
     (''return'', keyword T_Return), (''sizeof'', keyword T_Sizeof), (''while'', keyword T_While),
     (''open'', call_of OPEN), (''read'', call_of READ), (''close'', call_of CLOS), (''printf'', call_of PRTF), (''malloc'', call_of MALC),
     (''memset'', call_of MSET), (''memcmp'', call_of MCMP), (''exit'', call_of EXIT), (''free'', call_of FREE), (''void'', keyword T_Char)]"

lemma and_then_assoc: "and_then (and_then r f) g = and_then r (\<lambda>x. and_then (f x) g)"
  by (cases r) simp_all

definition enter :: "(string \<times> (symbol \<Rightarrow> symbol)) \<Rightarrow> step" where
  "enter p = seq [lex_next, set_sym (snd p)]"

lemma seq_group: "seq (f # g # fs) = seq (seq [f, g] # fs)"
  by (simp add: and_then_seq and_then_assoc seq_Nil_Done)

lemma seq_tail: "seq xs = seq ys \<Longrightarrow> seq (zs @ xs) st = seq (zs @ ys) st"
  by (simp add: seq_append)

lemma lex_init_library:
  "lex_init st = seq (map enter library @ [lex_next, \<lambda>st. Done (st\<lparr>main_id := current_id st\<rparr>)])
     (st\<lparr>symbols := table [], src := library_names\<rparr>)"
proof -
  have k: "keyword tk = (\<lambda>s. s\<lparr>id_token := tk\<rparr>)" "call_of op = (\<lambda>s. s\<lparr>id_class := T_Sys, id_type := TY_INT, id_value := op_word op\<rparr>)" for tk op
    by (rule ext, simp add: keyword_def call_of_def)+
  have u: "[T_Char .. T_While] = [T_Char, T_Else, T_Enum, T_If, T_Int, T_Return, T_Sizeof, T_While]" by (simp add: upto.simps)
  let ?kw = "map (\<lambda>tk. seq [lex_next, set_sym (\<lambda>s. s\<lparr>id_token := tk\<rparr>)]) [T_Char .. T_While]"
  let ?ops = "[OPEN, READ, CLOS, PRTF, MALC, MSET, MCMP, EXIT, FREE]"
  let ?lib = "map (\<lambda>op. seq [lex_next, set_sym (\<lambda>s. s\<lparr>id_class := T_Sys, id_type := TY_INT, id_value := op_word op\<rparr>)]) ?ops"
  let ?main = "[lex_next, \<lambda>st. Done (st\<lparr>main_id := current_id st\<rparr>)]"
  let ?void = "set_sym (\<lambda>s. s\<lparr>id_token := T_Char\<rparr>)"
  have "map enter library = ?kw @ ?lib @ [seq [lex_next, ?void]]"
    by (simp only: u list.map library_def enter_def k snd_conv append.simps)
  moreover have "seq (lex_next # ?void # ?main) = seq (seq [lex_next, ?void] # ?main)" by (rule seq_group)
  ultimately show ?thesis
    using seq_tail [of "lex_next # ?void # ?main" "seq [lex_next, ?void] # ?main" "?kw @ ?lib"]
    by (simp only: lex_init_def table_def append.simps append_assoc list.size diff_zero)
qed

definition spaced :: "u8 list list \<Rightarrow> u8 list" where
  "spaced ws = concat (map (\<lambda>w. 32 # w) ws)"

lemma spaced_simps [simp]: "spaced [] = []" "spaced (w # ws) = 32 # w @ spaced ws"
  by (simp_all add: spaced_def)

lemma token_end_spaced [simp]: "token_end s \<Longrightarrow> token_end (spaced ws @ s)"
  by (cases ws) (simp_all add: token_end_def)

definition lib_words :: "(string \<times> (symbol \<Rightarrow> symbol)) list \<Rightarrow> u8 list list" where
  "lib_words ws = map (\<lambda>p. chars (fst p)) ws"

lemma lib_words_simps [simp]: "lib_words [] = []" "lib_words (p # ws) = chars (fst p) # lib_words ws"
  by (simp_all add: lib_words_def)

primrec entries :: "(string \<times> (symbol \<Rightarrow> symbol)) list \<Rightarrow> u8 list \<Rightarrow> symbol list" where
  "entries [] s = []"
| "entries (p # ws) s = snd p (entry_of (chars (fst p)) (spaced (lib_words ws) @ s)) # entries ws s"

lemma length_entries [simp]: "length (entries ws s) = length ws"
  by (induction ws) simp_all

lemma enter_all:
  assumes "symbols st = table es" and "list_all2 named es cs" and "distinct (map hash_ident (cs @ lib_words ws))" and "length es + length ws < LEX_MAX_SYMBOLS"
    and "src st = spaced (lib_words ws) @ s \<or> 32 # src st = spaced (lib_words ws) @ s \<and> ws \<noteq> []" and "token_end s" and "\<forall>w \<in> set (lib_words ws). is_ident w"
    and "\<forall>p \<in> set ws. \<forall>e c. named e c \<longrightarrow> named (snd p e) c"
  shows "\<exists>t c. seq (map enter ws) st = Done (st\<lparr>src := s, token := t, current_id := c, symbols := table (es @ entries ws s)\<rparr>) \<and>
    list_all2 named (es @ entries ws s) (cs @ lib_words ws)"
  using assms
proof (induction ws arbitrary: st es cs)
  case Nil
  then show ?case by (intro exI [of _ "token st"] exI [of _ "current_id st"]) simp
next
  case (Cons p ws)
  let ?c = "chars (fst p)" and ?r = "spaced (lib_words ws) @ s"
  let ?e = "entry_of ?c ?r"
  have n: "lex_next st = Done (st\<lparr>src := ?r, token := T_Id, current_id := length es, symbols := table (es @ [?e])\<rparr>)"
    by (rule lex_new [OF Cons.prems(1,2)]) (use Cons.prems in auto)
  let ?st = "st\<lparr>src := ?r, token := T_Id, current_id := length es, symbols := table (es @ [snd p ?e])\<rparr>"
  have e: "enter p st = Done ?st" using n by (simp add: enter_def set_sym_def table_upd)
  have "\<exists>t c. seq (map enter ws) ?st = Done (?st\<lparr>src := s, token := t, current_id := c, symbols := table ((es @ [snd p ?e]) @ entries ws s)\<rparr>) \<and>
      list_all2 named ((es @ [snd p ?e]) @ entries ws s) ((cs @ [?c]) @ lib_words ws)"
    by (rule Cons.IH) (use Cons.prems in \<open>auto intro!: list_all2_appendI\<close>)
  then show ?case using e by simp
qed

definition builtin :: "u8 list list" where
  "builtin = lib_words library @ [chars ''main'']"

lemma builtin_words:
  "builtin = map chars [''char'', ''else'', ''enum'', ''if'', ''int'', ''return'', ''sizeof'', ''while'',
     ''open'', ''read'', ''close'', ''printf'', ''malloc'', ''memset'', ''memcmp'', ''exit'', ''free'', ''void'', ''main'']"
  by (simp add: builtin_def library_def lib_words_def)

lemma builtin_hashes: "distinct (map hash_ident builtin)"
  unfolding builtin_words by (simp add: chars_def hash_ident_def)

lemma builtin_idents: "\<forall>w \<in> set builtin. is_ident w"
  unfolding builtin_words by (simp add: chars_def is_ident_def ident_start_def ident_char_def)

lemma library_source: "32 # library_names = spaced builtin"
  unfolding builtin_words by (simp add: library_names_def chars_def)

lemma library_named: "\<forall>p \<in> set library. \<forall>e c. named e c \<longrightarrow> named (snd p e) c"
  by (simp add: library_def named_def keyword_def call_of_def)

definition init_entries :: "symbol list" where
  "init_entries = entries library (32 # chars ''main'') @ [entry_of (chars ''main'') []]"

lemma lex_init_table:
  "\<exists>t. lex_init st = Done (st\<lparr>src := [], token := t, current_id := 18, main_id := 18, symbols := table init_entries\<rparr>)"
  "list_all2 named init_entries builtin"
proof -
  let ?st = "st\<lparr>symbols := table [], src := library_names\<rparr>" and ?s = "32 # chars ''main''"
  let ?es = "entries library ?s"
  have l: "length library = 18" by (simp add: library_def)
  have "spaced (lib_words library) @ ?s = spaced builtin" by (simp add: builtin_def spaced_def)
  then have src: "32 # src ?st = spaced (lib_words library) @ ?s" using library_source by simp
  have "\<exists>t c. seq (map enter library) ?st = Done (?st\<lparr>src := ?s, token := t, current_id := c, symbols := table ([] @ ?es)\<rparr>) \<and>
      list_all2 named ([] @ ?es) ([] @ lib_words library)"
    by (rule enter_all)
      (use src l builtin_hashes builtin_idents library_named in \<open>auto simp: builtin_def token_end_def library_def\<close>)
  then obtain t c where s: "seq (map enter library) ?st = Done (?st\<lparr>src := ?s, token := t, current_id := c, symbols := table ?es\<rparr>)"
    and n: "list_all2 named ?es (lib_words library)" by auto
  let ?st1 = "?st\<lparr>src := ?s, token := t, current_id := c, symbols := table ?es\<rparr>"
  have "lex_next ?st1 = Done (?st1\<lparr>src := [], token := T_Id, current_id := length ?es, symbols := table (?es @ [entry_of (chars ''main'') []])\<rparr>)"
    by (rule lex_new [OF _ n]) (use l builtin_hashes builtin_idents in \<open>simp_all add: builtin_def token_end_def\<close>)
  then have "lex_init st = Done (st\<lparr>src := [], token := T_Id, current_id := 18, main_id := 18, symbols := table init_entries\<rparr>)"
    using s l unfolding lex_init_library seq_append by (simp add: init_entries_def)
  then show "\<exists>t. lex_init st = Done (st\<lparr>src := [], token := t, current_id := 18, main_id := 18, symbols := table init_entries\<rparr>)" by blast
  show "list_all2 named init_entries builtin"
    using n unfolding init_entries_def builtin_def by (intro list_all2_appendI) simp_all
qed

section \<open>The tokens of a program with main\<close>

text \<open>
  The names: the built-in ones, the last of which is \<open>main\<close>, and the locals. A table of the first \<open>n\<close> of them.
\<close>

definition tbl :: "u8 list list \<Rightarrow> symbol list \<Rightarrow> bool" where
  "tbl names es \<longleftrightarrow> 19 \<le> length es \<and> length es \<le> length (builtin @ names) \<and> list_all2 named es (take (length es) (builtin @ names)) \<and>
     (\<forall>i < 8. id_token (es ! i) = T_Char + int i) \<and> (\<forall>i. 18 \<le> i \<and> i < length es \<longrightarrow> id_token (es ! i) = T_Id)"

definition good_names :: "u8 list list \<Rightarrow> bool" where
  "good_names names \<longleftrightarrow> list_all is_ident names \<and> distinct (map hash_ident (builtin @ names)) \<and> length (builtin @ names) < LEX_MAX_SYMBOLS"

abbreviation name_of :: "u8 list list \<Rightarrow> nat \<Rightarrow> u8 list" where
  "name_of names i \<equiv> (builtin @ names) ! i"

definition vocab :: "nat \<Rightarrow> lexeme \<Rightarrow> bool" where
  "vocab n t \<longleftrightarrow> (case t of LNum v \<Rightarrow> True | LId i \<Rightarrow> 18 \<le> i \<and> i < n | Lx tk \<Rightarrow> tk \<in> fst ` set token_chars)"

lemma tbl_init: "tbl names init_entries"
proof -
  have "length init_entries = 19" by (simp add: init_entries_def library_def)
  moreover have "length builtin = 19" by (simp add: builtin_words)
  moreover have "id_token (init_entries ! i) = T_Char + int i" if "i < 8" for i
  proof -
    have "i = 0 \<or> i = 1 \<or> i = 2 \<or> i = 3 \<or> i = 4 \<or> i = 5 \<or> i = 6 \<or> i = 7" using that by arith
    then show ?thesis by (elim disjE) (simp_all add: init_entries_def library_def keyword_def)
  qed
  moreover have "id_token (init_entries ! i) = T_Id" if "18 \<le> i" "i < 19" for i
  proof -
    have "i = 18" using that by simp
    then show ?thesis by (simp add: init_entries_def library_def entry_of_def)
  qed
  ultimately show ?thesis using lex_init_table(2) unfolding tbl_def by simp
qed

lemma builtin_length [simp]: "length builtin = 19"
  by (simp add: builtin_words)

lemma name_kw: "token_text T_If = name_of names 3" "token_text T_Int = name_of names 4" "token_text T_Else = name_of names 1"
  "token_text T_While = name_of names 7" "token_text T_Return = name_of names 5"
  by (simp_all add: builtin_words token_text_def token_chars_def nth_append)

lemma tbl_lookup:
  assumes "good_names names" and "tbl names es" and "i < length es"
  shows "lookup (table es) (name_of names i) = Some i"
proof -
  let ?cs = "take (length es) (builtin @ names)"
  have "distinct (map hash_ident ?cs)" using assms(1) unfolding good_names_def by (simp only: take_map [symmetric] distinct_take)
  moreover have "list_all2 named es ?cs" "length es \<le> length (builtin @ names)" using assms(2) unfolding tbl_def by blast+
  ultimately have "lookup (table es) (?cs ! i) = Some i" using assms(1,3) by (intro lookup_known) (auto simp: good_names_def)
  then show ?thesis using assms(3) by (simp only: nth_take)
qed

lemma name_ident: "good_names names \<Longrightarrow> i < length (builtin @ names) \<Longrightarrow> is_ident (name_of names i)"
  using builtin_idents by (auto simp: good_names_def nth_append list_all_length)

lemma known_vocab:
  assumes g: "good_names names" and t: "tbl names es" and v: "vocab (length es) t"
  shows "known (table es) (name_of names) t"
proof (cases t)
  case (Lx tk)
  have l: "19 \<le> length es" and kw: "\<forall>i < 8. id_token (es ! i) = T_Char + int i" using t by (simp_all add: tbl_def)
  have "case lookup (table es) (token_text tk) of Some i \<Rightarrow> id_token (table es ! i) = tk | None \<Rightarrow> False" if "ident_tok tk"
  proof -
    have "tk = T_If \<or> tk = T_Int \<or> tk = T_Else \<or> tk = T_While \<or> tk = T_Return"
      using v that unfolding Lx vocab_def token_chars_def ident_tok_def by auto
    then show ?thesis
      using tbl_lookup [OF g t] l kw by (elim disjE) (simp_all add: name_kw [of names])
  qed
  then show ?thesis using v Lx by (simp add: known_def vocab_def)
next
  case (LId i)
  have i: "18 \<le> i" "i < length es" using v LId by (simp_all add: vocab_def)
  then have "i < length (builtin @ names)" "id_token (es ! i) = T_Id" using t by (auto simp: tbl_def)
  then show ?thesis using LId i tbl_lookup [OF g t i(2)] name_ident [OF g] by (simp add: known_def)
qed (simp add: known_def)

text \<open>
  The lexer is at the first of the tokens, the others are its source, and the table is \<open>es\<close>. What the
  declarations leave as it is.
\<close>

definition at_tokens :: "u8 list list \<Rightarrow> symbol list \<Rightarrow> lexeme list \<Rightarrow> lexer \<Rightarrow> bool" where
  "at_tokens names es ts st \<longleftrightarrow> symbols st = table es \<and> tbl names es \<and> current (hd ts) st \<and> src st = source_of (name_of names) (tl ts)"

definition outer :: "lexer \<Rightarrow> nat \<times> u32 list \<times> u32 \<times> u8 list \<times> u32" where
  "outer st = (main_id st, ltext st, text_base st, data st, data_base st)"

definition okr :: "'a outcome \<Rightarrow> ('a \<Rightarrow> bool) \<Rightarrow> bool" where
  "okr r P \<longleftrightarrow> (\<exists>x. r = Done x \<and> P x)"

lemma okr_Done [simp]: "okr (Done x) P \<longleftrightarrow> P x"
  by (simp add: okr_def)

lemma okr_and_then: "okr r P \<Longrightarrow> (\<And>x. P x \<Longrightarrow> okr (f x) Q) \<Longrightarrow> okr (and_then r f) Q"
  by (auto simp: okr_def)

lemma okr_seq: "okr (f st) P \<Longrightarrow> (\<And>x. P x \<Longrightarrow> okr (seq fs x) Q) \<Longrightarrow> okr (seq (f # fs) st) Q"
  by (auto simp: okr_def)

lemma at_token: "at_tokens names es (t # ts) st \<Longrightarrow> token st = tok t"
  by (simp add: at_tokens_def current_def)

lemma at_next:
  assumes "good_names names" and "at_tokens names es (t # t' # ts) st" and "vocab (length es) t'"
  shows "okr (lex_next st) (\<lambda>st'. at_tokens names es (t' # ts) st' \<and> outer st' = outer st \<and> basetype st' = basetype st \<and>
    index_of_bp st' = index_of_bp st \<and> (\<not> ident_tok (tok t') \<longrightarrow> current_id st' = current_id st))"
proof -
  have a: "symbols st = table es" "tbl names es" "src st = 32 # lexeme_text (name_of names) t' @ source_of (name_of names) ts"
    using assms(2) by (simp_all add: at_tokens_def)
  have "lexes1 (table es) (src st) t' (source_of (name_of names) ts)"
    unfolding a(3) by (rule lexes1_known [OF known_vocab [OF assms(1) a(2) assms(3)]]) simp
  then obtain c where "lex_next st = Done (st\<lparr>src := source_of (name_of names) ts, token := tok t',
      token_val := (case t' of LNum v \<Rightarrow> v | _ \<Rightarrow> token_val st), current_id := c\<rparr>)"
    "\<forall>i. t' = LId i \<longrightarrow> c = i" "\<not> ident_tok (tok t') \<longrightarrow> c = current_id st" using a(1) unfolding lexes1_def by blast
  then show ?thesis using a by (simp add: at_tokens_def current_def outer_def)
qed

lemma at_match:
  assumes "good_names names" and "at_tokens names es (t # t' # ts) st" and "vocab (length es) t'" and "tok t = tk"
  shows "okr (lex_match tk st) (\<lambda>st'. at_tokens names es (t' # ts) st' \<and> outer st' = outer st \<and> basetype st' = basetype st \<and>
    index_of_bp st' = index_of_bp st \<and> (\<not> ident_tok (tok t') \<longrightarrow> current_id st' = current_id st))"
  using at_next [OF assms(1-3)] at_token [OF assms(2)] assms(4) by (simp add: lex_match_def)

text \<open>The first occurrence of a name.\<close>

lemma at_match_new:
  assumes g: "good_names names" and a: "at_tokens names es (t # LId (length es) # ts) st" and n: "length es < length (builtin @ names)" and "tok t = tk"
  shows "okr (lex_match tk st) (\<lambda>st'. at_tokens names (es @ [entry_of (name_of names (length es)) (source_of (name_of names) ts)]) (LId (length es) # ts) st' \<and>
    outer st' = outer st \<and> basetype st' = basetype st \<and> index_of_bp st' = index_of_bp st)"
proof -
  let ?c = "name_of names (length es)" and ?s = "source_of (name_of names) ts"
  have t: "tbl names es" "symbols st = table es" "src st = 32 # ?c @ ?s" using a by (simp_all add: at_tokens_def)
  have l: "list_all2 named es (take (length es) (builtin @ names))" using t(1) unfolding tbl_def by blast
  have "distinct (map hash_ident (take (Suc (length es)) (builtin @ names)))"
    using g unfolding good_names_def by (simp only: take_map [symmetric] distinct_take)
  moreover have tk: "take (Suc (length es)) (builtin @ names) = take (length es) (builtin @ names) @ [?c]"
    using n by (rule take_Suc_conv_app_nth)
  ultimately have h: "hash_ident ?c \<notin> set (map hash_ident (take (length es) (builtin @ names)))"
    by (simp only: tk map_append distinct_append list.map) auto
  have nx: "lex_next st = Done (st\<lparr>src := ?s, token := T_Id, current_id := length es, symbols := table (es @ [entry_of ?c ?s])\<rparr>)"
    by (rule lex_new [OF t(2) l h]) (use g n t(3) name_ident [OF g n] in \<open>simp_all add: good_names_def\<close>)
  have ln: "list_all2 named (es @ [entry_of ?c ?s]) (take (Suc (length es)) (builtin @ names))"
    unfolding tk using l by (rule list_all2_appendI) simp
  have "id_token ((es @ [entry_of ?c ?s]) ! i) = (if i < length es then id_token (es ! i) else T_Id)" if "i \<le> length es" for i
    using that by (cases "i = length es") (simp_all add: nth_append entry_of_def)
  then have "tbl names (es @ [entry_of ?c ?s])"
    using t(1) n ln unfolding tbl_def by (simp del: take_append)
  then show ?thesis using at_token [OF a] assms(4) nx by (simp add: lex_match_def at_tokens_def current_def outer_def)
qed

text \<open>A change of a symbol that keeps its name and token.\<close>

definition keeps :: "(symbol \<Rightarrow> symbol) \<Rightarrow> bool" where
  "keeps f \<longleftrightarrow> (\<forall>e. id_token (f e) = id_token e \<and> id_hash (f e) = id_hash e \<and> id_name (f e) = id_name e)"

lemma tbl_upd: "tbl names es \<Longrightarrow> keeps f \<Longrightarrow> i < length es \<Longrightarrow> tbl names (es[i := f (es ! i)])"
  unfolding tbl_def keeps_def by (auto simp: nth_list_update list_all2_conv_all_nth named_def)

lemma at_set_sym:
  "at_tokens names es ts st \<Longrightarrow> keeps f \<Longrightarrow> current_id st = i \<Longrightarrow> i < length es \<Longrightarrow>
   okr (set_sym f st) (\<lambda>st'. at_tokens names (es[i := f (es ! i)]) ts st' \<and> outer st' = outer st \<and> basetype st' = basetype st \<and>
     index_of_bp st' = index_of_bp st \<and> current_id st' = i)"
  by (simp add: set_sym_def at_tokens_def table_upd tbl_upd outer_def current_def)

section \<open>The locals\<close>

fun local_toks :: "nat \<Rightarrow> nat \<Rightarrow> lexeme list" where
  "local_toks n 0 = []"
| "local_toks n (Suc 0) = [LId n]"
| "local_toks n (Suc (Suc k)) = LId n # Lx 44 # local_toks (Suc n) (Suc k)"

definition decl_toks :: "nat \<Rightarrow> nat \<Rightarrow> lexeme list" where
  "decl_toks n k = (if k = 0 then [] else Lx T_Int # local_toks n k @ [Lx 59])"

definition local_int :: "symbol \<Rightarrow> int \<Rightarrow> bool" where
  "local_int e v \<longleftrightarrow> id_class e = T_Loc \<and> id_type e = TY_INT \<and> id_value e = word_of_int v"

lemma keeps_hide: "keeps (hide ty v)"
  by (simp add: keeps_def hide_def)

lemma vocab_Lx: "tk \<in> fst ` set token_chars \<Longrightarrow> vocab n (Lx tk)"
  by (simp add: vocab_def)

lemma local_hd: "\<exists>r. local_toks n (Suc k) = LId n # r"
  by (cases k) simp_all

definition decl_ok :: "lexer \<Rightarrow> lexer \<Rightarrow> bool" where
  "decl_ok st st' \<longleftrightarrow> outer st' = outer st \<and> basetype st' = basetype st \<and> index_of_bp st' = index_of_bp st"

lemma local_step:
  assumes "good_names names" and "at_tokens names es (LId i # t # ts) st" and "i < length es" and "current_id st = i"
    and "vocab (length es) t" and "\<not> ident_tok (tok t)"
  shows "okr (seq [lex_match T_Id, set_sym (hide TY_INT v)] st) (\<lambda>st'. at_tokens names (es[i := hide TY_INT v (es ! i)]) (t # ts) st' \<and>
    decl_ok st st' \<and> current_id st' = i)"
proof (rule okr_seq, rule at_match [OF assms(1,2,5)])
  fix st1 assume s: "at_tokens names es (t # ts) st1 \<and> outer st1 = outer st \<and> basetype st1 = basetype st \<and> index_of_bp st1 = index_of_bp st \<and>
    (\<not> ident_tok (tok t) \<longrightarrow> current_id st1 = current_id st)"
  then have c: "current_id st1 = i" using assms(4,6) by simp
  show "okr (seq [set_sym (hide TY_INT v)] st1) (\<lambda>st'. at_tokens names (es[i := hide TY_INT v (es ! i)]) (t # ts) st' \<and> decl_ok st st' \<and> current_id st' = i)"
    by (rule okr_seq, rule at_set_sym [OF _ keeps_hide c assms(3)]) (use s in \<open>auto simp: decl_ok_def\<close>)
qed simp

lemma locals_of_Id:
  "token st = T_Id \<Longrightarrow> id_class (symbols st ! current_id st) = 0 \<Longrightarrow> basetype st = TY_INT \<Longrightarrow>
   locals_of (Suc (Suc n)) pos st =
     and_then (and_then (seq [lex_match T_Id, set_sym (hide TY_INT (word_of_int (pos + 1)))] st) (optional 44)) (locals_of (Suc n) (pos + 1))"
  by (simp add: and_then_assoc seq_Nil_Done and_then_seq)

lemma locals_parse:
  assumes "good_names names" and "at_tokens names es (local_toks (length es - 1) (Suc k) @ Lx 59 # ts) st" and "20 \<le> length es" and "current_id st = length es - 1"
    and "length es + k \<le> length (builtin @ names)" and "id_class (last es) = 0" and "basetype st = TY_INT" and "k + 2 \<le> n"
  shows "okr (locals_of n pos st) (\<lambda>(pos', st'). pos' = pos + 1 + int k \<and> decl_ok st st' \<and> (\<exists>es'. at_tokens names es' (Lx 59 # ts) st' \<and> length es' = length es + k \<and>
    take (length es - 1) es' = take (length es - 1) es \<and> (\<forall>j \<le> k. local_int (es' ! (length es - 1 + j)) (pos + 1 + int j))))"
  using assms(2-)
proof (induction k arbitrary: es st pos n)
  case 0
  let ?i = "length es - 1" and ?v = "word_of_int (pos + 1) :: u32"
  let ?es = "es[?i := hide TY_INT ?v (es ! ?i)]"
  obtain n' where n: "n = Suc (Suc n')" using 0(7) by (cases n; cases "n - 1") auto
  have c: "id_class (symbols st ! current_id st) = 0" using 0(1-3,5) by (cases "es = []") (simp_all add: at_tokens_def last_conv_nth)
  have t: "at_tokens names es (LId ?i # Lx 59 # ts) st" using 0(1) by simp
  have "okr (and_then (seq [lex_match T_Id, set_sym (hide TY_INT ?v)] st) (optional 44)) (\<lambda>st'. at_tokens names ?es (Lx 59 # ts) st' \<and> decl_ok st st')"
    by (rule okr_and_then [OF local_step [OF assms(1) t _ 0(3)]])
      (use 0(2) in \<open>auto simp: vocab_def token_chars_def ident_tok_def optional_def on_def at_token\<close>)
  then have "okr (locals_of n pos st) (\<lambda>(pos', st'). pos' = pos + 1 \<and> at_tokens names ?es (Lx 59 # ts) st' \<and> decl_ok st st')"
    unfolding n locals_of_Id [OF at_token [OF t, simplified] c 0(6)] by (rule okr_and_then) (auto simp: at_token)
  moreover have "take ?i ?es = take ?i es" "local_int (?es ! ?i) (pos + 1)" using 0(2) by (simp_all add: local_int_def hide_def)
  ultimately show ?case unfolding okr_def by (auto intro!: exI [of _ ?es])
next
  case (Suc k)
  let ?i = "length es - 1" and ?v = "word_of_int (pos + 1) :: u32"
  let ?es = "es[?i := hide TY_INT ?v (es ! ?i)]"
  obtain n' where n: "n = Suc (Suc n')" "k + 2 \<le> Suc n'" using Suc.prems(7) by (cases n; cases "n - 1") auto
  have i: "Suc ?i = length es" using Suc.prems(2) by simp
  obtain r where r: "local_toks (length es) (Suc k) = LId (length es) # r" using local_hd by blast
  have c: "id_class (symbols st ! current_id st) = 0" using Suc.prems(1-3,5) by (cases "es = []") (simp_all add: at_tokens_def last_conv_nth)
  have t: "at_tokens names es (LId ?i # Lx 44 # LId (length es) # r @ Lx 59 # ts) st" using Suc.prems(1) r unfolding local_toks.simps i by simp
  let ?e = "entry_of (name_of names (length es)) (source_of (name_of names) (r @ Lx 59 # ts))"
  let ?es2 = "?es @ [?e]"
  have "okr (and_then (seq [lex_match T_Id, set_sym (hide TY_INT ?v)] st) (optional 44))
      (\<lambda>st'. at_tokens names ?es2 (LId (length es) # r @ Lx 59 # ts) st' \<and> decl_ok st st')"
  proof (rule okr_and_then [OF local_step [OF assms(1) t _ Suc.prems(3)]])
    fix st1 assume s: "at_tokens names ?es (Lx 44 # LId (length es) # r @ Lx 59 # ts) st1 \<and> decl_ok st st1 \<and> current_id st1 = ?i"
    then have "at_tokens names ?es (Lx 44 # LId (length ?es) # r @ Lx 59 # ts) st1" by simp
    from at_match_new [OF assms(1) this, of 44] s show "okr (optional 44 st1) (\<lambda>st'. at_tokens names ?es2 (LId (length es) # r @ Lx 59 # ts) st' \<and> decl_ok st st')"
      using Suc.prems(4) by (auto simp: optional_def on_def at_token okr_def decl_ok_def)
  qed (use Suc.prems(2) in \<open>auto simp: vocab_def token_chars_def ident_tok_def\<close>)
  then have "okr (locals_of n pos st) (\<lambda>(pos', st'). pos' = pos + 1 + 1 + int k \<and> decl_ok st st' \<and> (\<exists>es'. at_tokens names es' (Lx 59 # ts) st' \<and> length es' = length ?es2 + k \<and>
    take (length ?es2 - 1) es' = take (length ?es2 - 1) ?es2 \<and> (\<forall>j \<le> k. local_int (es' ! (length ?es2 - 1 + j)) (pos + 1 + 1 + int j))))"
    unfolding n(1) locals_of_Id [OF at_token [OF t, simplified] c Suc.prems(6)]
  proof (rule okr_and_then)
    fix st2 assume s: "at_tokens names ?es2 (LId (length es) # r @ Lx 59 # ts) st2 \<and> decl_ok st st2"
    have "okr (locals_of (Suc n') (pos + 1) st2) (\<lambda>(pos', st'). pos' = pos + 1 + 1 + int k \<and> decl_ok st2 st' \<and> (\<exists>es'. at_tokens names es' (Lx 59 # ts) st' \<and>
        length es' = length ?es2 + k \<and> take (length ?es2 - 1) es' = take (length ?es2 - 1) ?es2 \<and> (\<forall>j \<le> k. local_int (es' ! (length ?es2 - 1 + j)) (pos + 1 + 1 + int j))))"
      by (rule Suc.IH) (use s Suc.prems r n in \<open>auto simp: at_tokens_def current_def entry_of_def no_symbol_def decl_ok_def\<close>)
    then show "okr (locals_of (Suc n') (pos + 1) st2) (\<lambda>(pos', st'). pos' = pos + 1 + 1 + int k \<and> decl_ok st st' \<and> (\<exists>es'. at_tokens names es' (Lx 59 # ts) st' \<and>
        length es' = length ?es2 + k \<and> take (length ?es2 - 1) es' = take (length ?es2 - 1) ?es2 \<and> (\<forall>j \<le> k. local_int (es' ! (length ?es2 - 1 + j)) (pos + 1 + 1 + int j))))"
      using s unfolding okr_def by (auto simp: decl_ok_def)
  qed
  then obtain st' es' where o: "locals_of n pos st = Done (pos + 1 + int (Suc k), st')" "decl_ok st st'" "at_tokens names es' (Lx 59 # ts) st'"
    and l: "length es' = length es + Suc k" and tk: "take (length es) es' = ?es"
    and lc: "\<forall>j \<le> k. local_int (es' ! (length es + j)) (pos + 1 + 1 + int j)"
    by (auto simp: okr_def)
  have "es' ! ?i = ?es ! ?i" using tk Suc.prems(2) by (metis diff_less less_numeral_extra(1) less_le_trans nth_take zero_less_numeral)
  then have z: "local_int (es' ! ?i) (pos + 1)" using Suc.prems(2) by (simp add: local_int_def hide_def)
  have "local_int (es' ! (?i + j)) (pos + 1 + int j)" if "j \<le> Suc k" for j
  proof (cases j)
    case (Suc j')
    then have e: "?i + j = length es + j'" "pos + 1 + int j = pos + 1 + 1 + int j'" using i by simp_all
    show ?thesis unfolding e using lc Suc that by simp
  qed (use z in simp)
  moreover have "take ?i es' = take ?i es"
  proof -
    have "take ?i es' = take ?i (take (length es) es')" by simp
    then show ?thesis unfolding tk by simp
  qed
  ultimately show ?case unfolding okr_def using o l by auto
qed

lemma decl_parse:
  assumes "good_names names" and "at_tokens names es (decl_toks (length es) k @ t # ts) st" and "19 \<le> length es"
    and "length es + k \<le> length (builtin @ names)" and "vocab (length es + k) t" and "tok t \<noteq> T_Int" and "k + 3 \<le> n"
  shows "okr (local_decls n pos st) (\<lambda>(pos', st'). pos' = pos + int k \<and> outer st' = outer st \<and> index_of_bp st' = index_of_bp st \<and>
    (\<exists>es'. at_tokens names es' (t # ts) st' \<and> length es' = length es + k \<and>
      take (length es) es' = es \<and> (\<forall>j < k. local_int (es' ! (length es + j)) (pos + 1 + int j))))"
proof (cases k)
  case 0
  obtain n' where "n = Suc n'" using assms(7) by (cases n) auto
  moreover have "at_tokens names es (t # ts) st" "token st = tok t" using assms(2) 0 by (simp_all add: decl_toks_def at_token)
  moreover have "tok t \<noteq> T_Char" using assms(5) by (auto simp: vocab_def token_chars_def split: lexeme.splits)
  ultimately show ?thesis using 0 assms(6) by (auto simp: okr_def)
next
  case (Suc k')
  obtain n' where n: "n = Suc n'" "k' + 3 \<le> n'" using assms(7) Suc by (cases n) auto
  obtain r where r: "local_toks (length es) k = LId (length es) # r" using local_hd Suc by blast
  let ?st = "st\<lparr>basetype := TY_INT\<rparr>" and ?e = "entry_of (name_of names (length es)) (source_of (name_of names) (r @ Lx 59 # t # ts))"
  let ?es = "es @ [?e]"
  have a: "at_tokens names es (Lx T_Int # LId (length es) # r @ Lx 59 # t # ts) st" using assms(2) r Suc by (simp add: decl_toks_def)
  then have a': "at_tokens names es (Lx T_Int # LId (length es) # r @ Lx 59 # t # ts) ?st" by (simp add: at_tokens_def current_def)
  have tk: "token st = T_Int" using at_token [OF a] by simp
  obtain st1 where s1: "lex_match T_Int ?st = Done st1" "at_tokens names ?es (LId (length es) # r @ Lx 59 # t # ts) st1" "outer st1 = outer st"
    "basetype st1 = TY_INT" "index_of_bp st1 = index_of_bp st"
    using at_match_new [OF assms(1) a', of T_Int] assms(4) Suc by (auto simp: okr_def outer_def)
  have c1: "current_id st1 = length es" using s1(2) by (simp add: at_tokens_def current_def)
  have "okr (locals_of n' pos st1) (\<lambda>(pos', st'). pos' = pos + 1 + int k' \<and> decl_ok st1 st' \<and> (\<exists>es'. at_tokens names es' (Lx 59 # t # ts) st' \<and> length es' = length ?es + k' \<and>
      take (length ?es - 1) es' = take (length ?es - 1) ?es \<and> (\<forall>j \<le> k'. local_int (es' ! (length ?es - 1 + j)) (pos + 1 + int j))))"
    by (rule locals_parse [OF assms(1)]) (use s1 c1 r Suc n assms(3,4) in \<open>simp_all add: entry_of_def no_symbol_def\<close>)
  then obtain st2 es' where s2: "locals_of n' pos st1 = Done (pos + int k, st2)" "decl_ok st1 st2" "at_tokens names es' (Lx 59 # t # ts) st2"
    "length es' = length es + k" "take (length es) es' = es" "\<forall>j < k. local_int (es' ! (length es + j)) (pos + 1 + int j)"
    using Suc by (auto simp: okr_def less_Suc_eq_le)
  obtain st3 where s3: "lex_match 59 st2 = Done st3" "at_tokens names es' (t # ts) st3" "outer st3 = outer st2" "index_of_bp st3 = index_of_bp st2"
    using at_match [OF assms(1) s2(3), of 59] assms(5) s2(4) by (auto simp: okr_def)
  obtain n'' where n'': "n' = Suc n''" using n(2) by (cases n') auto
  have "tok t \<noteq> T_Char" using assms(5) by (auto simp: vocab_def token_chars_def split: lexeme.splits)
  then have "local_decls n' (pos + int k) st3 = Done (pos + int k, st3)" using at_token [OF s3(2)] assms(6) unfolding n'' by simp
  then have "local_decls n pos st = Done (pos + int k, st3)" unfolding n(1) using tk s1(1) s2(1) s3(1) by simp
  then show ?thesis using s1 s2 s3 by (auto simp: okr_def decl_ok_def)
qed

section \<open>main\<close>

lemma vocab_simps [simp]: "vocab n (LNum v)" "vocab n (LId i) \<longleftrightarrow> 18 \<le> i \<and> i < n"
  by (simp_all add: vocab_def)

lemma vocab_tokens [simp]:
  "vocab n (Lx 40)" "vocab n (Lx 41)" "vocab n (Lx 44)" "vocab n (Lx 58)" "vocab n (Lx 59)" "vocab n (Lx 123)" "vocab n (Lx 125)" "vocab n (Lx 33)" "vocab n (Lx 126)"
  "vocab n (Lx T_Assign)" "vocab n (Lx T_Cond)" "vocab n (Lx T_Lor)" "vocab n (Lx T_Lan)" "vocab n (Lx T_Add)" "vocab n (Lx T_Sub)"
  "vocab n (Lx (inc_token inc))" "vocab n (Lx T_If)" "vocab n (Lx T_Else)" "vocab n (Lx T_While)" "vocab n (Lx T_Return)" "vocab n (Lx T_Int)"
  by (simp_all add: vocab_def token_chars_def inc_token_def)

lemma vocab_op: "is_alu op \<Longrightarrow> vocab n (Lx (op_token op))"
  by (cases op) (simp_all add: is_alu_def op_token_def token_chars_def vocab_def)

lemma print_vocab: "fits l e \<Longrightarrow> vars e \<subseteq> {18..<n} \<Longrightarrow> t \<in> set (print e) \<Longrightarrow> vocab n t"
  by (induction e arbitrary: l) (auto simp: vocab_op)

lemma sprint_vocab: "sfits s \<Longrightarrow> svars s \<subseteq> {18..<n} \<Longrightarrow> t \<in> set (sprint s) \<Longrightarrow> vocab n t"
  "sfitss ss \<Longrightarrow> svarss ss \<subseteq> {18..<n} \<Longrightarrow> t \<in> set (sprints ss) \<Longrightarrow> vocab n t"
  by (induction s and ss rule: sprint_sprints.induct) (auto dest: print_vocab)

lemma code_of_cong: "\<forall>x \<in> vars e. pl x = pl' x \<Longrightarrow> code_of tb pl p e = code_of tb pl' p e"
proof (induction e arbitrary: p)
  case (ENeg e)
  then have "code_of tb pl (p + 3) e = code_of tb pl' (p + 3) e" by simp
  then show ?case by (cases e) simp_all
qed auto

lemma scode_cong: "\<forall>x \<in> svars s. pl x = pl' x \<Longrightarrow> scode tb pl p s = scode tb pl' p s"
  "\<forall>x \<in> svarss ss. pl x = pl' x \<Longrightarrow> scodes tb pl p ss = scodes tb pl' p ss"
  by (induction tb pl p s and tb pl p ss rule: scode_scodes.induct) (simp_all add: code_of_cong)

lemma print_first: "\<exists>t ts. print e = t # ts \<and> tok t \<noteq> T_Int"
  by (induction e) (auto simp: inc_token_def)

lemma sprints_first: "\<exists>t ts. sprints ss @ [Lx 125] = t # ts \<and> tok t \<noteq> T_Int"
proof (cases ss)
  case (Cons s ss')
  obtain t ts where "sprint s = t # ts" "tok t \<noteq> T_Int"
  proof (cases s)
    case (SExpr e)
    then show ?thesis using print_first [of e] that by auto
  qed (use that in auto)
  then show ?thesis using Cons by simp
qed simp

lemma reads_at:
  "good_names names \<Longrightarrow> at_tokens names es (t # ts) st \<Longrightarrow> \<forall>t \<in> set ts. vocab (length es) t \<Longrightarrow> reads (t # ts) st"
  unfolding at_tokens_def reads_Cons by (auto intro!: lexes_source known_vocab)

text \<open>A program with one function, \<open>main\<close>, and its \<open>int\<close> locals.\<close>

definition main_tokens :: "nat \<Rightarrow> stmt list \<Rightarrow> lexeme list" where
  "main_tokens k ss = [Lx T_Int, LId 18, Lx 40, Lx 41, Lx 123] @ decl_toks 19 k @ sprints ss @ [Lx 125]"

definition main_source :: "u8 list list \<Rightarrow> stmt list \<Rightarrow> u8 list" where
  "main_source names ss = source_of (name_of names) (main_tokens (length names) ss)"

definition local_place :: "nat \<Rightarrow> place" where
  "local_place i = Local (- of_nat (i - 18))"

lemma body_parses:
  assumes g: "good_names names" and f: "sfitss ss" "svarss ss \<subseteq> {19..<19 + k}" and k: "19 + k \<le> length (builtin @ names)"
    and a: "at_tokens names es (decl_toks 19 k @ sprints ss @ [Lx 125]) st" "length es = 19" "index_of_bp st = 1"
    and room: "length (ltext st) + ssizes ss + 3 \<le> TEXT_WORDS" and n: "sneeds ss \<le> n" "k + 3 \<le> n"
  shows "okr (function_body n st) (\<lambda>st'. \<exists>es'. symbols st' = table es' \<and> length es' = 19 + k \<and> tbl names es' \<and> take 19 es' = es \<and> token st' = 125 \<and> src st' = [] \<and>
    ltext st' = ltext st @ fcode (text_base st) local_place (length (ltext st)) (of_nat k) ss \<and>
    main_id st' = main_id st \<and> text_base st' = text_base st \<and> data st' = data st \<and> data_base st' = data_base st)"
proof -
  have v: "\<forall>t \<in> set (sprints ss @ [Lx 125]). vocab (19 + k) t"
    using sprint_vocab(2) [OF f(1), of "19 + k"] f(2) by fastforce
  obtain t ts where t: "sprints ss @ [Lx 125] = t # ts" "tok t \<noteq> T_Int" using sprints_first by blast
  have "okr (local_decls n 1 st) (\<lambda>(pos', st'). pos' = 1 + int k \<and> outer st' = outer st \<and> index_of_bp st' = index_of_bp st \<and>
      (\<exists>es'. at_tokens names es' (t # ts) st' \<and> length es' = length es + k \<and> take (length es) es' = es \<and>
        (\<forall>j < k. local_int (es' ! (length es + j)) (1 + 1 + int j))))"
    by (rule decl_parse [OF g]) (use a k n t v in auto)
  then obtain st1 es' where s1: "local_decls n 1 st = Done (1 + int k, st1)" "outer st1 = outer st" "index_of_bp st1 = 1"
    "at_tokens names es' (t # ts) st1" "length es' = 19 + k" "take 19 es' = es" "\<forall>j < k. local_int (es' ! (19 + j)) (2 + int j)"
    using a by (auto simp: okr_def)
  have sy: "symbols st1 = table es'" and tb': "tbl names es'" using s1(4) by (simp_all add: at_tokens_def)
  have r: "reads (sprints ss @ Lx 125 # []) st1" using reads_at [OF g s1(4)] v t(1) s1(5) by simp
  have loc: "local_int (es' ! x) (int x - 17)" if "x \<in> svarss ss" for x
  proof -
    have "19 \<le> x \<and> x < 19 + k" using f(2) that by (auto dest: subsetD)
    then have "x = 19 + (x - 19)" "x - 19 < k" "int x - 17 = 2 + int (x - 19)" by auto
    then show ?thesis using s1(7) by metis
  qed
  have pl: "place_in (symbols st1) 1 x = local_place x \<and> int_var (symbols st1) x" if x: "x \<in> svarss ss" for x
  proof -
    have "x < length es'" using f(2) x s1(5) by auto
    moreover have "(1 :: u32) - word_of_int (int x - 17) = - of_nat (x - 18)"
      using f(2) x by (auto simp: of_nat_diff algebra_simps)
    ultimately show ?thesis using loc [OF x] sy by (simp add: place_in_def int_var_def local_int_def local_place_def)
  qed
  have c1: "outer st1 = outer st" "ltext st1 = ltext st" "text_base st1 = text_base st" using s1(2) by (simp_all add: outer_def)
  have "sparses (function_code n (1 + int k)) st1 [Lx 125]
      (ltext st1 @ fcode (text_base st1) (place_in (symbols st1) (index_of_bp st1)) (length (ltext st1)) (word_of_int (1 + int k - index_of_bp st1)) ss)"
    by (rule function_code_parses [OF f(1) r]) (use pl room n c1 in simp_all)
  moreover have "fcode (text_base st1) (place_in (symbols st1) (index_of_bp st1)) (length (ltext st1)) (word_of_int (1 + int k - index_of_bp st1)) ss =
      fcode (text_base st) local_place (length (ltext st)) (of_nat k) ss"
    unfolding fcode_def c1 s1(3) using pl scode_cong(2) [of ss "place_in (symbols st1) 1" local_place] by simp
  ultimately obtain st2 where s2: "function_code n (1 + int k) st1 = Done st2" "reads [Lx 125] st2" "ctx st2 = ctx st1"
    "ltext st2 = ltext st @ fcode (text_base st) local_place (length (ltext st)) (of_nat k) ss"
    using c1 by (auto simp: sparses_def)
  have "function_body n st = Done st2" using s1(1) s2(1) a(3) by (simp add: function_body_def)
  moreover have "token st2 = 125" "src st2 = []" using s2(2) by (simp_all add: reads_Cons current_def)
  ultimately show ?thesis using s2(3,4) s1(5,6) sy tb' c1(1) by (auto simp: okr_def ctx_def outer_def)
qed

lemma unhide_keeps: "id_token (unhide e) = id_token e"
  by (simp add: unhide_def)

lemma unwind_Done:
  assumes "symbols st = table es" and "\<forall>e \<in> set es. id_token e \<noteq> 0" and "length es < LEX_MAX_SYMBOLS"
  shows "unwind_locals st = Done (st\<lparr>symbols := table (map unhide es), current_id := length es\<rparr>)"
proof -
  have "first_index (\<lambda>i. id_token (symbols st ! i) = 0) LEX_MAX_SYMBOLS = Some (length es)"
    unfolding find_from_Some_iff using assms by (auto simp: no_symbol_def)
  moreover have "take (length es) (table es) = es" "drop (length es) (table es) = replicate (LEX_MAX_SYMBOLS - length es) no_symbol"
    by (simp_all add: table_def)
  ultimately show ?thesis using assms(1) by (simp add: unwind_locals_def table_def)
qed

lemma tbl_tokens: "tbl names es \<Longrightarrow> \<forall>e \<in> set es. id_token e \<noteq> 0"
  unfolding tbl_def by (auto simp: list_all2_conv_all_nth in_set_conv_nth named_def)

lemma unwound:
  assumes "tbl names es" and "length es < LEX_MAX_SYMBOLS" and "symbols st = table es"
  shows "\<exists>es'. unwind_locals st = Done (st\<lparr>symbols := table es', current_id := length es\<rparr>) \<and> es' = map unhide es"
  using unwind_Done [OF assms(3) tbl_tokens [OF assms(1)] assms(2)] by blast

text \<open>The text of such a program is compiled to the code of its one function.\<close>

definition main_text :: "u32 \<Rightarrow> nat \<Rightarrow> stmt list \<Rightarrow> u32 list" where
  "main_text tb k ss = 0 # fcode tb local_place 1 (of_nat k) ss"

lemma function_compiled:
  assumes g: "good_names names" and f: "sfitss ss" "svarss ss \<subseteq> {19..<19 + length names}"
    and a: "at_tokens names es (tl (tl (main_tokens (length names) ss))) st" "length es = 19" "ltext st = [0]" "main_id st = 18" "current_id st = 18"
    and room: "ssizes ss + 4 \<le> TEXT_WORDS" and n: "sneeds ss \<le> n" "length names + 3 \<le> n"
  shows "okr (global_function n st) (\<lambda>st'. id_value (symbols st' ! 18) = text_base st + 4 \<and> token st' = 125 \<and> src st' = [] \<and>
    ltext st' = main_text (text_base st) (length names) ss \<and> main_id st' = 18 \<and> text_base st' = text_base st \<and> data st' = data st \<and> data_base st' = data_base st)"
proof -
  let ?k = "length names" and ?set = "\<lambda>s. s\<lparr>id_class := T_Fun, id_value := text_base st + 4\<rparr>"
  let ?es = "es[18 := ?set (es ! 18)]" and ?r = "decl_toks 19 ?k @ sprints ss @ [Lx 125]"
  let ?fs = "[function_parameter n, lex_match 41, lex_match 123, function_body n, unwind_locals]"
  have a1: "at_tokens names es (Lx 40 # Lx 41 # Lx 123 # ?r) st" using a(1) by (simp add: main_tokens_def)
  have k: "keeps ?set" by (simp add: keeps_def)
  obtain st1 where s1: "set_sym ?set st = Done st1" "at_tokens names ?es (Lx 40 # Lx 41 # Lx 123 # ?r) st1" "outer st1 = outer st"
    using at_set_sym [OF a1 k a(5)] a(2) by (auto simp: okr_def)
  obtain st2 where s2: "lex_match 40 st1 = Done st2" "at_tokens names ?es (Lx 41 # Lx 123 # ?r) st2" "outer st2 = outer st"
    using at_match [OF g s1(2), of 40] s1(3) by (auto simp: okr_def)
  let ?st2 = "st2\<lparr>index_of_bp := 1\<rparr>"
  have p: "function_parameter n st2 = Done ?st2" using at_token [OF s2(2)] n(2) by (cases n) (simp_all add: function_parameter_def)
  have s2': "at_tokens names ?es (Lx 41 # Lx 123 # ?r) ?st2" "outer ?st2 = outer st" using s2(2,3) by (simp_all add: at_tokens_def current_def outer_def)
  obtain st3 where s3: "lex_match 41 ?st2 = Done st3" "at_tokens names ?es (Lx 123 # ?r) st3" "outer st3 = outer st" "index_of_bp st3 = 1"
    using at_match [OF g s2'(1), of 41] s2'(2) by (auto simp: okr_def)
  obtain t ts where t: "?r = t # ts" "vocab (length ?es) t"
  proof (cases "?k = 0")
    case True
    obtain t ts where "sprints ss @ [Lx 125] = t # ts" using sprints_first by blast
    moreover have "\<forall>t \<in> set (sprints ss @ [Lx 125]). vocab 19 t" using sprint_vocab(2) [OF f(1), of 19] f(2) True by fastforce
    ultimately show ?thesis using that True a(2) by (simp add: decl_toks_def)
  qed (use that in \<open>simp add: decl_toks_def\<close>)
  obtain st4 where s4: "lex_match 123 st3 = Done st4" "at_tokens names ?es ?r st4" "outer st4 = outer st" "index_of_bp st4 = 1"
    using at_match [OF g s3(2) [unfolded t(1)] t(2), of 123] s3(3,4) unfolding t(1) by (auto simp: okr_def)
  have o4: "ltext st4 = [0]" "text_base st4 = text_base st" "main_id st4 = 18" "data st4 = data st" "data_base st4 = data_base st"
    using s4(3) a(3,4) by (simp_all add: outer_def)
  have l: "length ?es = 19" using a(2) by simp
  have "okr (function_body n st4) (\<lambda>st'. \<exists>es'. symbols st' = table es' \<and> length es' = 19 + ?k \<and> tbl names es' \<and> take 19 es' = ?es \<and> token st' = 125 \<and> src st' = [] \<and>
    ltext st' = ltext st4 @ fcode (text_base st4) local_place (length (ltext st4)) (of_nat ?k) ss \<and>
    main_id st' = main_id st4 \<and> text_base st' = text_base st4 \<and> data st' = data st4 \<and> data_base st' = data_base st4)"
    by (rule body_parses [OF g f _ s4(2) l s4(4)]) (use room n o4(1) in simp_all)
  then obtain st5 es' where s5: "function_body n st4 = Done st5" "symbols st5 = table es'" "length es' = 19 + ?k" "tbl names es'" "take 19 es' = ?es"
    "token st5 = 125" "src st5 = []" "ltext st5 = main_text (text_base st) ?k ss" "main_id st5 = 18" "text_base st5 = text_base st" "data st5 = data st" "data_base st5 = data_base st"
    using o4 by (auto simp: okr_def main_text_def)
  have u: "unwind_locals st5 = Done (st5\<lparr>symbols := table (map unhide es'), current_id := length es'\<rparr>)"
    by (rule unwind_Done [OF s5(2) tbl_tokens [OF s5(4)]]) (use g s5(3) in \<open>simp add: good_names_def\<close>)
  have "es' ! 18 = ?es ! 18" unfolding s5(5) [symmetric] by simp
  then have v: "id_value (table (map unhide es') ! 18) = text_base st + 4" using a(2) s5(3) by (simp add: unhide_def)
  have "text_ptr st + 4 = text_base st + 4" using a(3) by (simp add: text_ptr_def)
  then have "global_function n st = seq (lex_match 40 # ?fs) st1" using s1(1) by (simp add: global_function_def function_declaration_def seq_Nil_Done)
  also have "\<dots> = Done (st5\<lparr>symbols := table (map unhide es'), current_id := length es'\<rparr>)"
    using s2(1) p s3(1) s4(1) s5(1) u by simp
  finally show ?thesis using s5 v by simp
qed

lemma length_main_text [simp]: "length (main_text tb k ss) = ssizes ss + 4"
  by (simp add: main_text_def fcode_def)

lemma globals_main:
  assumes g: "good_names names" and f: "sfitss ss" "svarss ss \<subseteq> {19..<19 + length names}"
    and a: "at_tokens names es (LId 18 # tl (tl (main_tokens (length names) ss))) st" "length es = 19" "ltext st = [0]" "main_id st = 18"
    and c: "id_class (es ! 18) = 0" "basetype st = TY_INT"
    and room: "ssizes ss + 4 \<le> TEXT_WORDS" and n: "sneeds ss \<le> n" "length names + 3 \<le> n"
  shows "okr (globals_of (Suc n) st) (\<lambda>st'. id_value (symbols st' ! 18) = text_base st + 4 \<and> token st' = 0 \<and>
    ltext st' = main_text (text_base st) (length names) ss \<and> main_id st' = 18 \<and> text_base st' = text_base st \<and> data st' = data st \<and> data_base st' = data_base st)"
proof -
  let ?ts = "tl (tl (main_tokens (length names) ss))" and ?set = "\<lambda>s. s\<lparr>id_type := TY_INT\<rparr>"
  let ?es = "es[18 := ?set (es ! 18)]"
  obtain r where r: "?ts = Lx 40 # r" by (simp add: main_tokens_def)
  have c18: "current_id st = 18" "token st = T_Id" "symbols st = table es" using a(1) by (simp_all add: at_tokens_def current_def)
  obtain st1 where s1: "lex_match T_Id st = Done st1" "at_tokens names es ?ts st1" "outer st1 = outer st" "current_id st1 = 18"
    using at_match [OF g a(1) [unfolded r], of T_Id] c18 unfolding r by (auto simp: okr_def ident_tok_def)
  have k: "keeps ?set" by (simp add: keeps_def)
  obtain st2 where s2: "set_sym ?set st1 = Done st2" "at_tokens names ?es ?ts st2" "outer st2 = outer st" "current_id st2 = 18"
    using at_set_sym [OF s1(2) k s1(4)] a(2) s1(3) by (auto simp: okr_def)
  have o2: "ltext st2 = [0]" "main_id st2 = 18" "text_base st2 = text_base st" "data st2 = data st" "data_base st2 = data_base st"
    using s2(3) a(3,4) by (simp_all add: outer_def)
  obtain st3 where s3: "global_function n st2 = Done st3" "id_value (symbols st3 ! 18) = text_base st + 4" "token st3 = 125" "src st3 = []"
    "ltext st3 = main_text (text_base st) (length names) ss" "main_id st3 = 18" "text_base st3 = text_base st" "data st3 = data st" "data_base st3 = data_base st"
    using function_compiled [OF g f s2(2) _ o2(1,2) s2(4) room n] a(2) o2 by (auto simp: okr_def)
  have "token st2 = 40" using s2(2) unfolding r by (simp add: at_token)
  obtain n' where n': "n = Suc n'" using n(2) by (cases n) auto
  have "globals_of n st3 = Done (st3\<lparr>token := 0, src := []\<rparr>)" using s3(3,4) unfolding n' by (simp add: lex_next_def)
  moreover have "pointer_type n TY_INT st = Done (TY_INT, st)" using c18(2) unfolding n' by simp
  moreover have "id_class (symbols st ! current_id st) = 0" using c18 c(1) a(2) by simp
  ultimately have "globals_of (Suc n) st = Done (st3\<lparr>token := 0, src := []\<rparr>)"
    using c18(2) c(2) s1(1) s2(1) s3(1,3) \<open>token st2 = 40\<close> by (simp add: on_def optional_def)
  then show ?thesis using s3 by simp
qed

lemma program_main:
  assumes g: "good_names names" and f: "sfitss ss" "svarss ss \<subseteq> {19..<19 + length names}"
    and room: "ssizes ss + 4 \<le> TEXT_WORDS" and n: "sneeds ss + length names + 5 \<le> n"
  shows "\<exists>st. program n tb db (main_source names ss) = Done (\<lparr>textsize = 4 * of_nat (ssizes ss + 3), datasize = 0, entry = 4\<rparr>, st) \<and>
    ltext st = main_text tb (length names) ss"
proof -
  let ?k = "length names" and ?src = "main_source names ss"
  define ts where "ts = tl (tl (main_tokens (length names) ss))"
  obtain m where m: "n = Suc (Suc m)" "sneeds ss \<le> Suc m" "?k + 3 \<le> Suc m" using n by (cases n; cases "n - 1") auto
  let ?i = "initial tb db ?src"
  obtain t where i: "lex_init ?i = Done (?i\<lparr>src := [], token := t, current_id := 18, main_id := 18, symbols := table init_entries\<rparr>)"
    using lex_init_table(1) by blast
  let ?st = "?i\<lparr>token := t, current_id := 18, main_id := 18, symbols := table init_entries, src := ?src\<rparr>"
  have l: "length init_entries = 19" and c0: "id_class (init_entries ! 18) = 0"
    by (simp_all add: init_entries_def library_def entry_of_def no_symbol_def)
  have ts: "main_tokens ?k ss = Lx T_Int # LId 18 # ts" by (simp add: ts_def main_tokens_def)
  have "at_tokens names init_entries (Lx t # main_tokens ?k ss) ?st" by (simp add: at_tokens_def tbl_init current_def main_source_def)
  then have a: "at_tokens names init_entries (Lx t # Lx T_Int # LId 18 # ts) ?st" unfolding ts by simp
  obtain st1 where s1: "lex_next ?st = Done st1" "at_tokens names init_entries (Lx T_Int # LId 18 # ts) st1" "outer st1 = outer ?st"
    using at_next [OF g a] by (auto simp: okr_def)
  let ?st1 = "st1\<lparr>basetype := TY_INT\<rparr>"
  have s1': "at_tokens names init_entries (Lx T_Int # LId 18 # ts) ?st1" using s1(2) by (simp add: at_tokens_def current_def)
  obtain st2 where s2: "lex_match T_Int ?st1 = Done st2" "at_tokens names init_entries (LId 18 # ts) st2" "outer st2 = outer ?st" "basetype st2 = TY_INT"
    using at_match [OF g s1', of T_Int] l s1(3) by (auto simp: okr_def outer_def)
  have o2: "ltext st2 = [0]" "main_id st2 = 18" "text_base st2 = tb" "data st2 = []" "data_base st2 = db" using s2(3) by (simp_all add: outer_def initial_def)
  obtain st3 where s3: "globals_of n st2 = Done st3" "id_value (symbols st3 ! 18) = tb + 4" "token st3 = 0" "ltext st3 = main_text tb ?k ss"
    "main_id st3 = 18" "text_base st3 = tb" "data st3 = []" "data_base st3 = db"
    using globals_main [OF g f s2(2) [unfolded ts_def] l o2(1,2) c0 s2(4) room m(2,3)] o2 unfolding m(1) by (auto simp: okr_def)
  have "global_declaration n st1 = Done st3" using at_token [OF s1(2)] s2(1) s3(1) by (simp add: global_declaration_def on_def seq_Nil_Done)
  then have "while_step n (\<lambda>st. token st > 0) (global_declaration n) st1 = Done st3" using at_token [OF s1(2)] s3(3) unfolding m(1) by simp
  then have "program n tb db ?src = Done (\<lparr>textsize = text_ptr st3 - tb, datasize = data_ptr st3 - db, entry = id_value (symbols st3 ! main_id st3) - tb\<rparr>, st3)"
    using i s1(1) by (simp add: program_def)
  then show ?thesis using s3 by (simp add: text_ptr_def data_ptr_def)
qed

section \<open>The program runs\<close>

lemma fits_alu: "fits l e \<Longrightarrow> alu_ops e"
  by (induction e arbitrary: l) auto

lemma sfits_salu: "sfits s \<Longrightarrow> salu s" "sfitss ss \<Longrightarrow> salus ss"
  by (induction s and ss rule: sprint_sprints.induct) (auto dest: fits_alu)

text \<open>The text is loaded at \<open>tb\<close>, the stack at \<open>S\<close> is mapped, and the two do not overlap.\<close>

definition loaded :: "u32 \<Rightarrow> u32 list \<Rightarrow> u32 \<Rightarrow> memory \<Rightarrow> bool" where
  "loaded tb T S m \<longleftrightarrow> code_at m tb 0 T \<and> unat S + 1024 \<le> 2 ^ 32 \<and> (\<forall>i < 1024. m (S + of_nat i) \<noteq> None) \<and>
     (unat tb + 4 * length T \<le> unat S \<or> unat S + 1024 \<le> unat tb \<and> unat tb + 4 * length T \<le> 2 ^ 32)"

lemma loaded_clear:
  assumes "loaded tb T S m" and "i < length T"
  shows "clear_of S (word_addr tb i)"
proof -
  have b: "unat tb + 4 * length T \<le> 2 ^ 32" using assms(1) unsigned_less [of S] by (auto simp: loaded_def)
  then have "4 * i < 2 ^ 32" "unat tb + 4 * i < 2 ^ 32" using assms(2) by auto
  then have "unat (word_addr tb i) = unat tb + 4 * i" by (simp add: word_addr_def unat_word_ariths unat_of_nat take_bit_nat_eq_self)
  then show ?thesis using assms unfolding clear_of_def loaded_def by auto
qed

definition main_layout :: "u32 \<Rightarrow> nat \<Rightarrow> stmt list \<Rightarrow> layout" where
  "main_layout tb k ss = \<lparr>lay_base = tb, lay_text = main_text tb k ss, lay_vars = {19..<19 + k}, lay_place = local_place\<rparr>"

lemma main_layout_room:
  assumes "loaded tb (main_text tb k ss) S m" and "6 + k + d \<le> 255"
  shows "main_room (main_layout tb k ss) d k S m"
proof -
  have "\<exists>i. 1 \<le> i \<and> i \<le> k \<and> - of_nat (x - 18) = (- of_nat i :: u32)" if "19 \<le> x" "x < 19 + k" for x
    using that by (intro exI [of _ "x - 18"]) auto
  moreover have "local_place y \<noteq> local_place x" if "19 \<le> x" "x < 19 + k" "19 \<le> y" "y < 19 + k" "y \<noteq> x" for x y
  proof -
    have "x - 18 < 2 ^ 32" "y - 18 < 2 ^ 32" "x - 18 \<noteq> y - 18" using that assms(2) by auto
    then have "(of_nat (x - 18) :: u32) \<noteq> of_nat (y - 18)" by (simp add: word_of_nat_eq_iff take_bit_nat_eq_self)
    then show ?thesis by (simp add: local_place_def)
  qed
  ultimately show ?thesis
    using assms loaded_clear [OF assms(1)] unfolding main_room_def main_layout_def
    by (auto simp: loaded_def text_words_def local_place_def)
qed

lemma main_runs:
  assumes ld: "loaded tb (main_text tb k ss) S (mem v)" and p: "pc v = tb + 4" and dk: "6 + k + sdepths ss \<le> 255"
    and f: "sfitss ss" "svarss ss \<subseteq> {19..<19 + k}"
    and e: "\<forall>i < k. load32 (mem v) (slot S (7 + i)) = Some (\<rho> (19 + i))" and x: "execs ss \<rho> (Some w, \<rho>')"
  shows "\<exists>v1 v2 n. vm_setup_stack argc argv (vm_setup tx dt S v) = Some v1 \<and> (\<forall>j \<ge> n. eval sys j v1 = Some (Returned w v2))"
proof (rule main_returns [OF main_layout_room [OF ld dk], where p = 1])
  let ?L = "main_layout tb k ss"
  show "code_at (mem v) (lay_base ?L) 0 (lay_text ?L)" using ld by (simp add: loaded_def main_layout_def)
  show "code_in ?L 1 (fcode (lay_base ?L) (lay_place ?L) 1 (of_nat k) ss)" by (simp add: main_layout_def main_text_def code_in_def)
  show "pc v = at ?L 1" using p by (simp add: main_layout_def word_addr_def)
  have "loc ?L (slot S 6) x = slot S (7 + (x - 19)) \<and> x = 19 + (x - 19) \<and> x - 19 < k" if "19 \<le> x" "x < 19 + k" for x
    using that by (auto simp: loc_def main_layout_def local_place_def slot_def of_nat_diff algebra_simps)
  then have "load32 (mem v) (loc ?L (slot S 6) x) = Some (\<rho> x)" if "19 \<le> x" "x < 19 + k" for x using e that by metis
  then show "env_in ?L (slot S 6) \<rho> (mem v)" by (simp add: env_in_def main_layout_def)
  show "svarss ss \<subseteq> lay_vars ?L" using f(2) by (simp add: main_layout_def)
qed (use x sfits_salu(2) [OF f(1)] in simp_all)

section \<open>Properties\<close>

text \<open>
  C5. A C program from its text to its result. Take the text of a program with the one function \<open>main\<close>,
  its \<open>int\<close> locals and statements in the form the parser reads (\<open>sfitss\<close>), with names whose hashes
  differ from each other and from the built-in ones, code that fits the text and a stack that fits 1024
  bytes. \<open>program\<close> compiles it. Loaded at \<open>tb\<close>, with a mapped stack at \<open>S\<close> that does not overlap it and
  \<open>pc\<close> at the entry, the text does what the statements mean: whenever they return \<open>w\<close> from the values
  that the words of the locals hold, the machine set up by \<open>vm_setup\<close> and \<open>vm_setup_stack\<close> stops, after
  some number of instructions and for every larger bound, with the result \<open>w\<close>.
\<close>

theorem cc_main_correct:
  assumes "good_names names" and "sfitss ss" and "svarss ss \<subseteq> {19..<19 + length names}"
    and "ssizes ss + 4 \<le> TEXT_WORDS" and "sneeds ss + length names + 5 \<le> n" and "6 + length names + sdepths ss \<le> 255"
  shows "\<exists>f st. program n tb db (main_source names ss) = Done (f, st) \<and>
    (\<forall>v S \<rho> \<rho>' w. loaded tb (ltext st) S (mem v) \<and> pc v = tb + entry f \<and> (\<forall>i < length names. load32 (mem v) (slot S (7 + i)) = Some (\<rho> (19 + i))) \<and>
       execs ss \<rho> (Some w, \<rho>') \<longrightarrow>
       (\<exists>v1 v2 j. vm_setup_stack argc argv (vm_setup tb db S v) = Some v1 \<and> (\<forall>i \<ge> j. eval sys i v1 = Some (Returned w v2))))"
proof -
  obtain st where st: "program n tb db (main_source names ss) = Done (\<lparr>textsize = 4 * of_nat (ssizes ss + 3), datasize = 0, entry = 4\<rparr>, st)"
    "ltext st = main_text tb (length names) ss" using program_main [OF assms(1-5)] by blast
  have "\<exists>v1 v2 j. vm_setup_stack argc argv (vm_setup tb db S v) = Some v1 \<and> (\<forall>i \<ge> j. eval sys i v1 = Some (Returned w v2))"
    if "loaded tb (ltext st) S (mem v)" "pc v = tb + 4" "\<forall>i < length names. load32 (mem v) (slot S (7 + i)) = Some (\<rho> (19 + i))"
      "execs ss \<rho> (Some w, \<rho>')" for v S \<rho> \<rho>' w
    by (rule main_runs [OF that(1) [unfolded st(2)] that(2) assms(6,2,3) that(3,4)])
  then show ?thesis using st(1) by (intro exI conjI) auto
qed

text \<open>A memory with a text and zeros everywhere else.\<close>

definition image :: "u32 \<Rightarrow> u32 list \<Rightarrow> memory" where
  "image tb T a = (let d = unat (a - tb) in if d < 4 * length T then Some (ucast (drop_bit (8 * (d mod 4)) (T ! (d div 4)))) else Some 0)"

lemma image_code:
  assumes "4 * length T \<le> 2 ^ 32"
  shows "code_at (image tb T) tb 0 T"
  unfolding code_at_def
proof (intro allI impI)
  fix i assume i: "i < length T"
  have u: "unat (4 * of_nat i + of_nat j :: u32) = 4 * i + j" if "j < 4" for j
  proof -
    have "4 * i + j < 2 ^ 32" using i that assms by linarith
    then have "unat (of_nat (4 * i + j) :: u32) = 4 * i + j" by (intro of_nat_inverse [OF refl]) simp
    then show ?thesis by (simp only: of_nat_add of_nat_mult of_nat_numeral)
  qed
  have "image tb T (word_addr tb i + of_nat j) = Some (ucast (drop_bit (8 * j) (T ! i)))" if j: "j < 4" for j
  proof -
    have "word_addr tb i + of_nat j - tb = 4 * of_nat i + of_nat j" by (simp add: word_addr_def)
    then have e: "unat (word_addr tb i + of_nat j - tb) = 4 * i + j" using u [OF j] by (simp only:)
    have "4 * i + j < 4 * length T" "(4 * i + j) mod 4 = j" "(4 * i + j) div 4 = i" using i j by auto
    then show ?thesis unfolding image_def e Let_def by simp
  qed
  from this [of 0] this [of 1] this [of 2] this [of 3]
  show "load32 (image tb T) (word_addr tb (0 + i)) = Some (T ! i)" by (simp add: load32_def le32_le32_bytes)
qed

text \<open>\<open>int main ( ) { int i , s ; i = 3 ; s = 0 ; while ( i ) { s = s + i ; i -- ; } return s ; }\<close>\<close>

definition sum_names :: "u8 list list" where
  "sum_names = [chars ''i'', chars ''s'']"

definition sum_body :: "stmt list" where
  "sum_body = [SExpr (EAssign 19 (ENum 3)), SExpr (EAssign 20 (ENum 0)),
     SWhile (EVar 19) (SBlock [SExpr (EAssign 20 (EBin ADD (EVar 20) (EVar 19))), SExpr (EPost False 19)]), SReturn (EVar 20)]"

lemma sum_tokens:
  "main_tokens 2 sum_body = [Lx T_Int, LId 18, Lx 40, Lx 41, Lx 123, Lx T_Int, LId 19, Lx 44, LId 20, Lx 59,
     LId 19, Lx T_Assign, LNum 3, Lx 59, LId 20, Lx T_Assign, LNum 0, Lx 59, Lx T_While, Lx 40, LId 19, Lx 41, Lx 123,
     LId 20, Lx T_Assign, LId 20, Lx T_Add, LId 19, Lx 59, LId 19, Lx T_Dec, Lx 59, Lx 125, Lx T_Return, LId 20, Lx 59, Lx 125]"
  by (simp add: main_tokens_def decl_toks_def sum_body_def op_token_def inc_token_def numeral_2_eq_2)

lemma sum_name: "name_of sum_names 18 = chars ''main''" "name_of sum_names 19 = chars ''i''" "name_of sum_names 20 = chars ''s''"
  by (simp_all add: builtin_words sum_names_def nth_append)

lemma sum_source:
  "main_source sum_names sum_body = chars '' int main ( ) { int i , s ; i = 3 ; s = 0 ; while ( i ) { s = s + i ; i -- ; } return s ; }''"
proof -
  have "length sum_names = 2" by (simp add: sum_names_def)
  then show ?thesis
    by (simp add: main_source_def sum_tokens sum_name token_text_def token_chars_def decimal.simps) (simp add: chars_def)
qed

lemma sum_good: "good_names sum_names"
  unfolding good_names_def sum_names_def builtin_words
  by (simp add: chars_def hash_ident_def is_ident_def ident_start_def ident_char_def)

lemma sum_execs: "\<exists>\<rho>. execs sum_body (\<lambda>_. 0) (Some 6, \<rho>)"
proof -
  let ?b = "SBlock [SExpr (EAssign 20 (EBin ADD (EVar 20) (EVar 19))), SExpr (EPost False 19)]"
  have body: "exec ?b \<rho> (None, \<rho>(20 := \<rho> 20 + \<rho> 19, 19 := \<rho> 19 - 1))" for \<rho>
    by (rule Block, rule Next, rule Expr, simp add: alu_def, rule Next, rule Expr, simp, rule exec_execs.Nil)
  have turn: "exec (SWhile (EVar 19) ?b) \<rho> r" if "\<rho> 19 \<noteq> 0" "exec (SWhile (EVar 19) ?b) (\<rho>(20 := \<rho> 20 + \<rho> 19, 19 := \<rho> 19 - 1)) r" for \<rho> r
    by (rule WhileTrue [OF _ that(1) body that(2)]) simp
  have stop: "exec (SWhile (EVar 19) ?b) \<rho> (None, \<rho>)" if "\<rho> 19 = 0" for \<rho>
    by (rule WhileFalse) (simp add: that)
  have loop: "exec (SWhile (EVar 19) ?b) \<rho> (None, \<rho>(20 := 6, 19 := 0))" if "\<rho> 19 = 3" "\<rho> 20 = 0" for \<rho>
    by (rule turn, simp add: that, rule turn, simp add: that, rule turn, simp add: that)
      (rule back_subst [of "\<lambda>x. exec (SWhile (EVar 19) ?b) x (None, \<rho>(20 := 6, 19 := 0))", OF stop]; simp add: that fun_eq_iff)
  have "execs sum_body (\<lambda>_. 0) (Some 6, (\<lambda>_. 0)(19 := 3, 20 := 0, 20 := 6, 19 := 0))"
    unfolding sum_body_def
    by (rule Next, rule Expr, simp, rule Next, rule Expr, simp, rule Next, rule loop, simp, simp, rule Stop, rule Return) simp
  then show ?thesis by blast
qed

theorem cc_main_correct_witness:
  "\<exists>f st. program 60 0x1000 0x8000 (chars '' int main ( ) { int i , s ; i = 3 ; s = 0 ; while ( i ) { s = s + i ; i -- ; } return s ; }'') = Done (f, st) \<and>
     (\<exists>v v1 v2 j. loaded 0x1000 (ltext st) 0x100000 (mem v) \<and> pc v = 0x1000 + entry f \<and>
        vm_setup_stack 1 0 (vm_setup 0x1000 0x8000 0x100000 v) = Some v1 \<and> (\<forall>i \<ge> j. eval (\<lambda>op v. None) i v1 = Some (Returned 6 v2)))"
proof -
  have l: "length sum_names = 2" by (simp add: sum_names_def)
  have b: "sfitss sum_body" "svarss sum_body \<subseteq> {19..<19 + length sum_names}" "ssizes sum_body + 4 \<le> TEXT_WORDS" "sneeds sum_body + length sum_names + 5 \<le> 60"
    "6 + length sum_names + sdepths sum_body \<le> 255"
    by (simp_all add: sum_body_def l op_token_def rlevel_def is_alu_def ident_tok_def)
  let ?T = "main_text 0x1000 2 sum_body"
  obtain f st where p: "program 60 0x1000 0x8000 (main_source sum_names sum_body) = Done (f, st)"
    and run: "\<And>v S \<rho> \<rho>' w. loaded 0x1000 (ltext st) S (mem v) \<and> pc v = 0x1000 + entry f \<and>
      (\<forall>i < length sum_names. load32 (mem v) (slot S (7 + i)) = Some (\<rho> (19 + i))) \<and> execs sum_body \<rho> (Some w, \<rho>') \<Longrightarrow>
      \<exists>v1 v2 j. vm_setup_stack 1 0 (vm_setup 0x1000 0x8000 S v) = Some v1 \<and> (\<forall>i \<ge> j. eval (\<lambda>op v. None) i v1 = Some (Returned w v2))"
    using cc_main_correct [OF sum_good b, of "0x1000" "0x8000" 1 0 "\<lambda>op v. None"] by blast
  have t: "ltext st = ?T" using p program_main [OF sum_good b(1-4), of "0x1000" "0x8000"] l by auto
  let ?v = "\<lparr>vm_text = 0, vm_stack = 0, vm_data = 0, pc = 0x1000 + entry f, bp = 0, sp = 0, ax = 0, mem = image 0x1000 ?T\<rparr>"
  have n: "length ?T = 52" by (simp add: sum_body_def)
  have ld: "loaded 0x1000 (ltext st) 0x100000 (mem ?v)"
    unfolding t loaded_def using image_code [of ?T "0x1000"] n by (auto simp: image_def Let_def)
  have "image 0x1000 ?T a = Some 0" if "0x2000 \<le> a" for a
  proof -
    have "0x1000 \<le> a" "0x2000 \<le> unat a" using that by (simp_all add: word_le_nat_alt)
    then have "unat (a - 0x1000) \<ge> 208" by (simp add: unat_sub)
    then show ?thesis using n by (simp add: image_def Let_def)
  qed
  then have "\<forall>i < length sum_names. load32 (mem ?v) (slot 0x100000 (7 + i)) = Some 0"
    unfolding l by (simp add: less_2_cases_iff slot_def load32_def le32_def)
  then have "\<exists>v1 v2 j. vm_setup_stack 1 0 (vm_setup 0x1000 0x8000 0x100000 ?v) = Some v1 \<and> (\<forall>i \<ge> j. eval (\<lambda>op v. None) i v1 = Some (Returned 6 v2))"
    using run [where v = ?v and S = "0x100000" and \<rho> = "\<lambda>_. 0" and w = 6] ld sum_execs by auto
  then obtain v1 v2 j where r: "vm_setup_stack 1 0 (vm_setup 0x1000 0x8000 0x100000 ?v) = Some v1" "\<forall>i \<ge> j. eval (\<lambda>op v. None) i v1 = Some (Returned 6 v2)" by blast
  have "pc ?v = 0x1000 + entry f" by simp
  then show ?thesis using p ld r unfolding sum_source by blast
qed

end
