(* ===== verification/Cc_Correct.thy ===== *)
theory Cc_Correct imports Cc_Program
begin

text \<open>
  What holds of the parts of the C interpreter on their own: the lexer on written tokens, an
  expression over locals and globals from its source text to its value, and the test for an lvalue.
\<close>

section \<open>From the text of an expression to its value\<close>

lemma stops_semicolon: "fits l e \<Longrightarrow> stops e 59"
proof (induction e arbitrary: l)
  case (EBin op a b)
  then have "59 < rlevel op" by (cases op) (simp_all add: rlevel_def)
  then show ?case using EBin.IH(2) [of "rlevel op"] EBin.prems by simp
qed (auto simp: ident_tok_def)

lemma reads_source:
  assumes "src st = source_of nm ts" and "\<forall>t \<in> set ts. known (symbols st) nm t" and "ts \<noteq> []"
  obtains st' where "lex_next st = Done st'" "reads ts st'" "ctx st' = ctx st" "ltext st' = ltext st" "expr_type st' = expr_type st"
proof -
  have "lexes (symbols st) (src st) ts" using lexes_source [OF assms(2)] assms(1) by simp
  moreover have "current (Lx (token st)) st" by (simp add: current_def)
  ultimately have "reads (Lx (token st) # hd ts # tl ts) st" using assms(3) by (simp add: reads_Cons)
  then obtain st' where "lex_next st = Done st'" "reads (hd ts # tl ts) st'" "ctx st' = ctx st" "ltext st' = ltext st" "expr_type st' = expr_type st"
    by (rule lex_next_reads) (rule that; assumption)
  then show thesis using that assms(3) by simp
qed

lemma known_op: "tk \<in> fst ` set token_chars \<Longrightarrow> \<not> ident_tok tk \<Longrightarrow> known syms nm (Lx tk)"
  by (simp add: known_def)

lemma expression_runs:
  assumes f: "fits T_Assign e" and k: "\<forall>t \<in> set (print e). known (symbols st) nm t" and x: "\<forall>x \<in> vars e. int_var (symbols st) x"
    and s: "src st = source_of nm (print e @ [Lx 59])" and room: "length (ltext st) + csize e \<le> TEXT_WORDS" and n: "Suc (need e) \<le> n"
  obtains st' where "and_then (lex_next st) (expression n T_Assign) = Done st'" "token st' = 59" "expr_type st' = TY_INT"
    "ltext st' = ltext st @ ecode st e" "ctx st' = ctx st"
    "\<And>sys L d \<rho> \<rho>' v w. lay_base L = text_base st \<Longrightarrow> lay_text L = ltext st' \<Longrightarrow> lay_place L = place_in (symbols st) (index_of_bp st) \<Longrightarrow>
       vars e \<subseteq> lay_vars L \<Longrightarrow> depth e \<le> d \<Longrightarrow> good L d \<rho> v \<Longrightarrow> pc v = at L (length (ltext st)) \<Longrightarrow> sem e \<rho> = Some (w, \<rho>') \<Longrightarrow>
       lands sys L d v (length (ltext st')) w \<rho>'"
proof -
  have "known (symbols st) nm (Lx 59)" by (simp add: known_def ident_tok_def token_chars_def)
  then have k': "\<forall>t \<in> set (print e @ [Lx 59]). known (symbols st) nm t" using k by simp
  obtain st0 where s0: "lex_next st = Done st0" "reads (print e @ [Lx 59]) st0" "ctx st0 = ctx st" "ltext st0 = ltext st"
    by (rule reads_source [OF s k']) simp_all
  have "parses (expression n T_Assign) st0 [Lx 59] (ltext st0 @ ecode st0 e) TY_INT"
    by (rule expression_parses [OF f s0(2)]) (use x room n s0(4) ctx_D [OF s0(3)] stops_semicolon [OF f] in simp_all)
  then obtain st' where s': "expression n T_Assign st0 = Done st'" "reads [Lx 59] st'" "ctx st' = ctx st0"
    "ltext st' = ltext st0 @ ecode st0 e" "expr_type st' = TY_INT" by (auto simp: parses_def)
  have t: "ltext st' = ltext st @ ecode st e" using s'(4) s0(4) ctx_D [OF s0(3)] by (simp add: ecode_def)
  show thesis
  proof (rule that)
    fix sys L d \<rho> \<rho>' v w
    assume a: "lay_base L = text_base st" "lay_text L = ltext st'" "lay_place L = place_in (symbols st) (index_of_bp st)"
      "vars e \<subseteq> lay_vars L" "depth e \<le> d" "good L d \<rho> v" "pc v = at L (length (ltext st))" "sem e \<rho> = Some (w, \<rho>')"
    have "code_of_in L (length (ltext st)) e" using t a(1-3) by (simp add: ecode_def code_in_def nth_append)
    then have "lands sys L d v (length (ltext st) + csize e) w \<rho>'"
      by (rule code_runs [OF a(6,7) _ a(8,4,5) fits_alu [OF f]])
    then show "lands sys L d v (length (ltext st')) w \<rho>'" unfolding t by (simp add: ecode_def)
  qed (use s0(1,3) s' t reads_token [OF s'(2)] in simp_all)
qed

section \<open>The test for an lvalue\<close>

text \<open>\<open>v = w ;\<close> with a number on the left: the word before \<open>=\<close> is the number itself.\<close>

lemma assign_to_number:
  assumes "reads [LNum v, Lx T_Assign, LNum w, Lx 59] st" and "length (ltext st) + 5 \<le> TEXT_WORDS" and "3 \<le> n"
  shows "if v = op_word LI \<or> v = op_word LC
    then parses (expression n T_Assign) st [Lx 59] (ltext st @ [op_word IMM, op_word PUSH, op_word IMM, w, op_word SI]) TY_INT
    else expression n T_Assign st = Exit 9"
proof -
  have m: "n = Suc (Suc (Suc (n - 3)))" using assms(3) by simp
  define m where "m = n - 3"
  note m = m [folded m_def]
  let ?e = "expression (Suc (Suc m))"
  obtain st1 where s1: "lex_next st = Done st1" "reads [Lx T_Assign, LNum w, Lx 59] st1" "ctx st1 = ctx st" "ltext st1 = ltext st" "token_val st1 = v"
    by (rule lex_next_reads [OF assms(1)]) (use assms(1) that in \<open>auto simp: reads_Cons current_def\<close>)
  let ?st1 = "st1\<lparr>ltext := ltext st @ [op_word IMM, v], expr_type := TY_INT\<rparr>"
  have u: "unary ?e (Suc (Suc m)) st = Done ?st1"
    using reads_token [OF assms(1)] s1 assms(2) by (simp add: unary_def unit_num_def lex_match_def emit_def set_type_def)
  have r1: "reads [Lx T_Assign, LNum w, Lx 59] ?st1" using s1(2) by simp
  obtain st2 where s2: "lex_next ?st1 = Done st2" "reads [LNum w, Lx 59] st2" "ctx st2 = ctx ?st1" "ltext st2 = ltext ?st1" "expr_type st2 = TY_INT"
    by (rule lex_next_reads [OF r1]) (use that in auto)
  have tk: "token ?st1 = T_Assign" using reads_token [OF r1] by simp
  have b: "binary ?e ?st1 = seq [unless_exit 9 last_is_load last_to_push, ?e T_Assign, set_type (\<lambda>_. TY_INT), emit store_op] st2"
    using tk s2(1) by (simp add: binary_def op_assign_def lex_match_def)
  have last: "last_is_load st2 \<longleftrightarrow> v = op_word LI \<or> v = op_word LC" using s2(4) by (auto simp: last_is_load_def)
  show ?thesis
  proof (cases "last_is_load st2")
    case False
    then have "binary ?e ?st1 = Exit 9" unfolding b by (simp add: unless_exit_def)
    then show ?thesis using u tk last False unfolding m by simp
  next
    case True
    let ?st2 = "st2\<lparr>ltext := ltext st @ [op_word IMM, op_word PUSH]\<rparr>"
    have p: "unless_exit 9 last_is_load last_to_push st2 = Done ?st2"
      using True s2(4) by (simp add: unless_exit_def last_to_push_def butlast_append)
    have r2: "reads (print (ENum w) @ [Lx 59]) ?st2" using s2(2) by simp
    have "parses (?e T_Assign) ?st2 [Lx 59] (ltext ?st2 @ ecode ?st2 (ENum w)) TY_INT"
      by (rule expression_parses [OF _ r2]) (use assms(2) in simp_all)
    then obtain st3 where s3: "?e T_Assign ?st2 = Done st3" "reads [Lx 59] st3" "ctx st3 = ctx ?st2"
      "ltext st3 = ltext st @ [op_word IMM, op_word PUSH, op_word IMM, w]" "expr_type st3 = TY_INT"
      by (auto simp: parses_def ecode_def)
    let ?st4 = "st3\<lparr>ltext := ltext st @ [op_word IMM, op_word PUSH, op_word IMM, w, op_word SI]\<rparr>"
    have "binary ?e ?st1 = Done ?st4"
      unfolding b using p s3(1,4,5) assms(2) by (simp add: set_type_def emit_def)
    moreover have "token st3 = 59" using reads_token [OF s3(2)] by simp
    ultimately have "expression n T_Assign st = Done ?st4" using u tk unfolding m by (simp add: seq_Nil_Done)
    then show ?thesis using True last s3 s2(3) s1(3) by (simp add: parses_def)
  qed
qed

section \<open>Properties\<close>

text \<open>
  C25. The lexer reads what was written. When the symbol table holds the names and the keywords, the
  text of a sequence of tokens (numbers in decimal, names, operators and keywords, each behind a space) is
  read by \<open>next\<close> as exactly these tokens, with the values of the numbers and the symbols of the
  names, and then as the end of the source.
\<close>

theorem cc_lexer_roundtrip:
  assumes "\<forall>t \<in> set ts. known (symbols st) nm t" and "src st = source_of nm ts"
  shows "lexes (symbols st) (src st) ts"
  using lexes_source [OF assms(1)] assms(2) by simp

text \<open>
  C18. An expression from its text to its value. From the text of an \<open>int\<close> expression over \<open>int\<close>
  locals and globals, written as the grammar of \<open>expression\<close> reads it and followed by a semicolon,
  \<open>expression(Assign)\<close> appends code to the text, stops at the semicolon, leaves the type \<open>INT\<close> and
  changes no symbol, no data and no frame. Wherever that text is loaded, apart from the variables and from
  the stack the expression needs, the machine runs from the first word of the code to the first word behind
  it with the value of the expression in \<open>ax\<close>, the variables changed as the expression says, \<open>bp\<close>
  and \<open>sp\<close> as they were and the rest of the memory unchanged.
\<close>

theorem cc_expression_correct:
  assumes "fits T_Assign e" and "\<forall>t \<in> set (print e). known (symbols st) nm t" and "\<forall>x \<in> vars e. int_var (symbols st) x"
    and "src st = source_of nm (print e @ [Lx 59])" and "length (ltext st) + csize e \<le> TEXT_WORDS" and "Suc (need e) \<le> n"
  shows "\<exists>st'. and_then (lex_next st) (expression n T_Assign) = Done st' \<and> token st' = 59 \<and> expr_type st' = TY_INT \<and> ctx st' = ctx st \<and>
    length (ltext st') = length (ltext st) + csize e \<and> take (length (ltext st)) (ltext st') = ltext st \<and>
    (\<forall>L d \<rho> \<rho>' v w. lay_base L = text_base st \<and> lay_text L = ltext st' \<and> lay_place L = place_in (symbols st) (index_of_bp st) \<and>
       vars e \<subseteq> lay_vars L \<and> depth e \<le> d \<and> good L d \<rho> v \<and> pc v = word_addr (text_base st) (length (ltext st)) \<and> sem e \<rho> = Some (w, \<rho>') \<longrightarrow>
       (\<exists>m. reaches sys v (v\<lparr>pc := word_addr (text_base st) (length (ltext st')), ax := w, mem := m\<rparr>) \<and>
          framed L d (bp v) (sp v) (mem v) m \<and> env_in L (bp v) \<rho>' m))"
proof -
  obtain st' where s: "and_then (lex_next st) (expression n T_Assign) = Done st'" "token st' = 59" "expr_type st' = TY_INT"
    "ltext st' = ltext st @ ecode st e" "ctx st' = ctx st"
    and run: "\<And>L d \<rho> \<rho>' v w. lay_base L = text_base st \<Longrightarrow> lay_text L = ltext st' \<Longrightarrow> lay_place L = place_in (symbols st) (index_of_bp st) \<Longrightarrow>
       vars e \<subseteq> lay_vars L \<Longrightarrow> depth e \<le> d \<Longrightarrow> good L d \<rho> v \<Longrightarrow> pc v = at L (length (ltext st)) \<Longrightarrow> sem e \<rho> = Some (w, \<rho>') \<Longrightarrow>
       lands sys L d v (length (ltext st')) w \<rho>'"
    by (rule expression_runs [OF assms]) (rule that; assumption)
  have "\<exists>m. reaches sys v (v\<lparr>pc := word_addr (text_base st) (length (ltext st')), ax := w, mem := m\<rparr>) \<and>
      framed L d (bp v) (sp v) (mem v) m \<and> env_in L (bp v) \<rho>' m"
    if "lay_base L = text_base st \<and> lay_text L = ltext st' \<and> lay_place L = place_in (symbols st) (index_of_bp st) \<and>
       vars e \<subseteq> lay_vars L \<and> depth e \<le> d \<and> good L d \<rho> v \<and> pc v = word_addr (text_base st) (length (ltext st)) \<and> sem e \<rho> = Some (w, \<rho>')"
    for L d \<rho> \<rho>' v w
    using run [of L d \<rho> v w \<rho>'] that by (simp add: lands_def)
  moreover have "length (ltext st') = length (ltext st) + csize e" "take (length (ltext st)) (ltext st') = ltext st"
    by (simp_all add: s(4) ecode_def)
  ultimately show ?thesis using s(1-3,5) by blast
qed

text \<open>
  An assignment to a number is refused with the error \<open>bad lvalue in assignment\<close>, except for the
  numbers 9 and 10: they are the codes of \<open>LI\<close> and \<open>LC\<close>, for which the test looks in the last word of
  the text, so that \<open>9 = w\<close> is compiled to a store through a number that was never loaded.
\<close>

theorem cc_number_as_lvalue:
  assumes "reads [LNum v, Lx T_Assign, LNum w, Lx 59] st" and "length (ltext st) + 5 \<le> TEXT_WORDS" and "3 \<le> n"
  shows "if v = 9 \<or> v = 10
    then \<exists>st'. expression n T_Assign st = Done st' \<and> ltext st' = ltext st @ [op_word IMM, op_word PUSH, op_word IMM, w, op_word SI]
    else expression n T_Assign st = Exit 9"
  using assign_to_number [OF assms] by (auto simp: op_word_def parses_def)

section \<open>Witnesses\<close>

definition demo_symbols :: "symbol list" where
  "demo_symbols = table
     [no_symbol\<lparr>id_token := T_Id, id_hash := hash_ident (chars ''x''), id_name := chars ''x'', id_class := T_Loc, id_type := TY_INT, id_value := 2\<rparr>,
      no_symbol\<lparr>id_token := T_Id, id_hash := hash_ident (chars ''g''), id_name := chars ''g'', id_class := T_Glo, id_type := TY_INT, id_value := 0x9000\<rparr>]"

definition demo_names :: "nat \<Rightarrow> u8 list" where
  "demo_names i = (if i = 0 then chars ''x'' else chars ''g'')"

text \<open>\<open>x = g + 5\<close>\<close>

definition demo_exp :: exp where
  "demo_exp = EAssign 0 (EBin ADD (EVar 1) (ENum 5))"

definition demo_lexer :: lexer where
  "demo_lexer = (initial 0x1000 0x9000 (chars '' x = g + 5 ;''))\<lparr>symbols := demo_symbols, index_of_bp := 1\<rparr>"

lemma demo_known: "\<forall>t \<in> set (print demo_exp @ [Lx 59]). known (symbols demo_lexer) demo_names t"
proof -
  have n: "is_ident (chars ''x'')" "is_ident (chars ''g'')" by (simp_all add: chars_def is_ident_def ident_start_def)
  have h: "hash_ident (chars ''x'') \<noteq> hash_ident (chars ''g'')" by (simp add: chars_def hash_ident_def)
  have "lookup demo_symbols (chars ''x'') = Some 0" "lookup demo_symbols (chars ''g'') = Some 1"
    using h by (auto simp: lookup_def demo_symbols_def table_def find_from_Some_iff same_ident_def less_Suc_eq)
  moreover have "id_token (demo_symbols ! 0) = T_Id" "id_token (demo_symbols ! 1) = T_Id" by (simp_all add: demo_symbols_def table_def)
  ultimately show ?thesis
    using n by (simp add: demo_exp_def demo_lexer_def known_def demo_names_def token_chars_def op_token_def ident_tok_def)
qed

lemma demo_source: "src demo_lexer = source_of demo_names (print demo_exp @ [Lx 59])"
  by (simp add: demo_lexer_def initial_def demo_exp_def demo_names_def token_text_def token_chars_def op_token_def decimal.simps) (simp add: chars_def)

theorem cc_lexer_roundtrip_witness:
  "\<exists>s1 s2. lexes1 demo_symbols (chars '' x = g + 5 ;'') (LId 0) s1 \<and> lexes1 demo_symbols s1 (Lx T_Assign) s2"
  using cc_lexer_roundtrip [OF demo_known demo_source]
  by (auto simp: demo_lexer_def initial_def demo_exp_def)

text \<open>The code of \<open>x = g + 5\<close> is loaded at \<open>0x1000\<close>; \<open>x\<close> lies at \<open>0x100000 - 4\<close>, \<open>g\<close> at \<open>0x9000\<close>.\<close>

definition demo_layout :: "u32 list \<Rightarrow> layout" where
  "demo_layout T = \<lparr>lay_base = 0x1000, lay_text = T, lay_vars = {0, 1}, lay_place = place_in demo_symbols 1\<rparr>"

definition demo_vm :: "u32 list \<Rightarrow> vm" where
  "demo_vm T = \<lparr>vm_text = 0, vm_stack = 0, vm_data = 0, pc = 0x1004, bp = 0x100000, sp = 0xFF000, ax = 0, mem = image 0x1000 T\<rparr>"

lemma demo_sel [simp]:
  "lay_base (demo_layout T) = 0x1000" "lay_text (demo_layout T) = T" "lay_vars (demo_layout T) = {0, 1}"
  "lay_place (demo_layout T) = place_in demo_symbols 1" "pc (demo_vm T) = 0x1004" "bp (demo_vm T) = 0x100000" "sp (demo_vm T) = 0xFF000"
  "mem (demo_vm T) = image 0x1000 T"
  by (simp_all add: demo_layout_def demo_vm_def)

lemma demo_loc: "loc (demo_layout T) b 0 = b - 4" "loc (demo_layout T) b 1 = 0x9000" "loc (demo_layout T) b (Suc 0) = 0x9000"
  by (simp_all add: loc_def demo_layout_def place_in_def demo_symbols_def table_def)

lemma image_zero:
  assumes "length T = 12" and "0x2000 \<le> unat a" and "unat a < 2 ^ 31"
  shows "load32 (image 0x1000 T) a = Some 0"
proof -
  have "image 0x1000 T (a + of_nat i) = Some 0" if "i < 4" for i
  proof -
    have "unat (a + of_nat i) = unat a + i" using assms(3) that by (simp add: unat_word_ariths unat_of_nat)
    then have "0x1000 \<le> a + of_nat i" "unat (a + of_nat i) \<ge> 0x2000" using assms(2) by (simp_all add: word_le_nat_alt)
    then have "unat (a + of_nat i - 0x1000) \<ge> 48" by (simp add: unat_sub)
    then show ?thesis using assms(1) by (simp add: image_def Let_def)
  qed
  from this [of 0] this [of 1] this [of 2] this [of 3] show ?thesis by (simp add: load32_def le32_def)
qed

lemma demo_good:
  assumes T: "length T = 12"
  shows "good (demo_layout T) 2 (\<lambda>_. 0) (demo_vm T)"
proof -
  have far: "apart a b \<and> apart b a" if "unat a < 0x2000 \<and> 0x2000 \<le> unat b \<and> unat b < 2 ^ 31 \<and> unat a mod 4 = 0" for a b :: u32
  proof -
    have "unat a + 4 \<le> unat b" using that by presburger
    then show ?thesis using apart_unat [of a b] that by simp
  qed
  have t: "unat a < 0x2000 \<and> unat a mod 4 = 0" if a: "a \<in> text_words (demo_layout T)" for a
  proof -
    obtain i where i: "i < 12" "a = word_addr 0x1000 i" using a T by (auto simp: text_words_def demo_layout_def)
    have "unat (word_addr 0x1000 i) = 0x1000 + 4 * i" using i(1) by (simp add: word_addr_def unat_word_ariths unat_of_nat)
    then show ?thesis using i by simp
  qed
  have sc: "scratch 2 0xFF000 = {0xFEFFC, 0xFEFF8 :: u32}"
  proof -
    have "{1..2} = {1, 2 :: nat}" by auto
    then show ?thesis by (simp add: scratch_def)
  qed
  have z: "load32 (image 0x1000 T) 0x9000 = Some 0" "load32 (image 0x1000 T) 0xFFFFC = Some 0"
    "load32 (image 0x1000 T) 0xFEFFC = Some 0" "load32 (image 0x1000 T) 0xFEFF8 = Some 0"
    by (rule image_zero [OF T]; simp)+
  have d: "apart (0x9000 :: u32) 0xFEFFC" "apart (0x9000 :: u32) 0xFEFF8" "apart (0xFFFFC :: u32) 0xFEFFC" "apart (0xFFFFC :: u32) 0xFEFF8"
    "apart (0x9000 :: u32) 0xFFFFC" "apart (0xFFFFC :: u32) 0x9000"
    by (simp_all add: apart_def)
  have "sane (demo_layout T) 2 0x100000 0xFF000 (image 0x1000 T)"
    using t far z d unfolding sane_def sc by (simp add: demo_loc)
  moreover have "code_at (image 0x1000 T) 0x1000 0 T" by (rule image_code) (simp add: T)
  ultimately show ?thesis using z by (simp add: good_def env_in_def demo_loc)
qed

theorem cc_expression_correct_witness:
  "\<exists>st' m. and_then (lex_next demo_lexer) (expression 9 T_Assign) = Done st' \<and>
     reaches (\<lambda>op v. None) (demo_vm (ltext st')) (demo_vm (ltext st')\<lparr>pc := 0x1030, ax := 5, mem := m\<rparr>) \<and> load32 m 0xFFFFC = Some 5"
proof -
  have k: "\<forall>t \<in> set (print demo_exp). known (symbols demo_lexer) demo_names t" using demo_known by simp
  have e: "csize demo_exp = 11" "need demo_exp \<le> 8" "depth demo_exp \<le> 2" "vars demo_exp = {0, 1}" "fits T_Assign demo_exp"
    "sem demo_exp (\<lambda>_. 0) = Some (5, (\<lambda>_. 0)(0 := 5))"
    by (auto simp: demo_exp_def op_token_def rlevel_def alu_def is_alu_def ident_tok_def)
  have x: "\<forall>x \<in> vars demo_exp. int_var (symbols demo_lexer) x"
    by (simp add: e(4) demo_lexer_def demo_symbols_def table_def int_var_def)
  have l: "ltext demo_lexer = [0]" "text_base demo_lexer = 0x1000" "symbols demo_lexer = demo_symbols" "index_of_bp demo_lexer = 1"
    by (simp_all add: demo_lexer_def initial_def)
  obtain st' where s: "and_then (lex_next demo_lexer) (expression 9 T_Assign) = Done st'" "length (ltext st') = 12"
    and run: "\<forall>L d \<rho> \<rho>' v w. lay_base L = 0x1000 \<and> lay_text L = ltext st' \<and> lay_place L = place_in demo_symbols 1 \<and>
       vars demo_exp \<subseteq> lay_vars L \<and> depth demo_exp \<le> d \<and> good L d \<rho> v \<and> pc v = word_addr 0x1000 1 \<and> sem demo_exp \<rho> = Some (w, \<rho>') \<longrightarrow>
       (\<exists>m. reaches (\<lambda>op v. None) v (v\<lparr>pc := word_addr 0x1000 12, ax := w, mem := m\<rparr>) \<and> framed L d (bp v) (sp v) (mem v) m \<and> env_in L (bp v) \<rho>' m)"
    using cc_expression_correct [OF e(5) k x demo_source, of 9 "\<lambda>op v. None"] e(1,2) l by auto
  obtain m where m: "reaches (\<lambda>op v. None) (demo_vm (ltext st')) (demo_vm (ltext st')\<lparr>pc := word_addr 0x1000 12, ax := 5, mem := m\<rparr>)"
    "env_in (demo_layout (ltext st')) 0x100000 ((\<lambda>_. 0)(0 := 5)) m"
    using run [rule_format, of "demo_layout (ltext st')" 2 "\<lambda>_. 0" "demo_vm (ltext st')" 5 "(\<lambda>_. 0)(0 := 5)"] demo_good [OF s(2)] e
    by (auto simp: word_addr_def)
  have "load32 m (loc (demo_layout (ltext st')) 0x100000 0) = Some 5" using m(2) by (simp add: env_in_def)
  then have "load32 m 0xFFFFC = Some 5" by (simp add: demo_loc)
  moreover have "word_addr 0x1000 12 = 0x1030" by (simp add: word_addr_def)
  ultimately show ?thesis using s(1) m(1) by auto
qed

theorem cc_number_as_lvalue_witness:
  "\<exists>st. (\<exists>st'. expression 3 T_Assign st = Done st') \<and> src st = chars '' = 5 ;'' \<and> token st = T_Num \<and> token_val st = 9"
proof -
  let ?st = "demo_lexer\<lparr>src := source_of demo_names [Lx T_Assign, LNum 5, Lx 59], token := T_Num, token_val := 9\<rparr>"
  have "\<forall>t \<in> set [Lx T_Assign, LNum 5, Lx 59]. known (symbols ?st) demo_names t"
    by (simp add: known_def token_chars_def ident_tok_def)
  from lexes_source [OF this] have "lexes (symbols ?st) (src ?st) [Lx T_Assign, LNum 5, Lx 59]"
    by (simp del: source_of_Cons lexes.simps)
  then have r: "reads [LNum 9, Lx T_Assign, LNum 5, Lx 59] ?st" by (simp add: reads_Cons current_def)
  have "\<exists>st'. expression 3 T_Assign ?st = Done st'"
    using cc_number_as_lvalue [OF r, of 3] by (auto simp: demo_lexer_def initial_def)
  moreover have "src ?st = chars '' = 5 ;''" by (simp add: token_text_def token_chars_def decimal.simps) (simp add: chars_def)
  ultimately show ?thesis by (intro exI [of _ ?st]) simp
qed

end
