(* ===== verification/Spec2Isabelle.thy ===== *)
theory Spec2Isabelle imports Kmem Ipc Mutex Vmem Libc_Args Tcp_Session Udp Fat16_Mount Cc_Correct
begin

text \<open>
  A verification development for RetrOS-32, a hobby operating system for the i386 written in C.

  The parts of the system modelled here, bottom up, with the theory that models each:
  \<^item> memory: \<open>Bitmap\<close> (lib/bitmap.c), \<open>Libc_Mem\<close> (memcpy, memset, memmove, memcmp of lib/libc.c),
    \<open>Kmem\<close> (kernel/kmem.c, kernel/memory.c: the kernel heap of 256-byte blocks, the arena, the memory
    map), \<open>Vmem\<close> (kernel/vmem.c: pages, page tables, regions and the heap of a process);
  \<^item> processes: \<open>Pcb_Queue\<close> (kernel/pcb_queue.c), \<open>Work\<close> (kernel/work.c), \<open>Scheduler\<close>
    (kernel/scheduler.c), \<open>Mutex\<close> (kernel/sync.c);
  \<^item> communication: \<open>Rbuffer\<close> (kernel/rbuffer.c), \<open>Ipc\<close> (kernel/ipc.c);
  \<^item> strings: \<open>Libc_Str\<close> and \<open>Libc_Args\<close> (lib/libc.c);
  \<^item> network: \<open>Net_Utils\<close> (net/utils.c), \<open>Skb\<close> (net/skb.c), \<open>Net_Link\<close> (net/arp.c, net/ethernet.c,
    net/routing.c, the interfaces of kernel/kthreads/networking.c), \<open>Net_Ip\<close> (net/ipv4.c, net/icmp.c),
    \<open>Socket\<close> (net/socket.c), \<open>Tcp\<close> (net/tcp.c: the state machine and the retry queue),
    \<open>Tcp_Session\<close> (the passive open and in-order delivery over it), \<open>Udp\<close> (net/udp.c);
  \<^item> file system: \<open>Bytes\<close> (packed little-endian fields), \<open>Disk\<close> (kernel/diskdev.c), \<open>Fat16\<close> (fs/fat16.c:
    the table; fs/fat16_read.c, fs/fat16_write.c), \<open>Fat16_Write\<close> (what a write does to the files),
    \<open>Fat16_Dir\<close> (fs/fat16.c: directories, paths, creation), \<open>Fat16_Mount\<close> (loading and formatting).

  \<open>Prelude\<close>, \<open>Slots\<close> and \<open>Fifo\<close> hold what the components share: machine types, error codes, bounded
  loops and arrays, and the locales \<open>slots\<close> (fixed tables that hand out and take back indices) and
  \<open>fifo\<close> (queues), which every table and queue of the kernel interprets on its own operations.
\<close>

end
